(* ===== verification/Prelude.thy ===== *)
theory Prelude
  imports Main "HOL-Library.Word" "HOL-Library.AList" "HOL-Library.List_Lexorder"
    "HOL-Library.Char_ord" "HOL-Library.Product_Lexorder" "HOL-Library.Multiset"
begin

text \<open>
  What every component shares: byte and word types, big-endian integers
  (\<^verbatim>\<open>encoding/binary\<close>), the parts of Go's \<^verbatim>\<open>strings\<close> and \<^verbatim>\<open>strconv\<close> packages the sources
  call, time values, and folds with early exit.  A Go \<^verbatim>\<open>string\<close> is a byte sequence, so
  it is a \<open>char list\<close> here and lengths count bytes; a \<^verbatim>\<open>[]byte\<close> is a list of 8-bit words.

  A Go map is an association list without duplicate keys: \<open>map_of\<close> reads it,
  \<open>AList.update\<close> and \<open>AList.delete\<close> write it, \<open>length\<close> is \<^verbatim>\<open>len\<close>, and its order
  stands for the iteration order, which Go leaves open.
\<close>

unbundle bit_operations_syntax

named_theorems go_eval \<open>definitions to unfold when the model is run on a concrete input\<close>

type_synonym byte = "8 word"
type_synonym bytes = "byte list"
type_synonym u16 = "16 word"
type_synonym u32 = "32 word"
type_synonym u64 = "64 word"
type_synonym ('k, 'v) gomap = "('k \<times> 'v) list"

section \<open>Definitions\<close>

subsection \<open>Big-endian integers\<close>

text \<open>\<open>be_nat\<close> reads a byte slice as a big-endian number, \<open>nat_be n\<close> writes one into
  \<open>n\<close> bytes, dropping what does not fit.\<close>

definition be_nat :: "bytes \<Rightarrow> nat" where
  "be_nat bs = foldl (\<lambda>acc b. acc * 256 + unat b) 0 bs"

primrec nat_be :: "nat \<Rightarrow> nat \<Rightarrow> bytes" where
  "nat_be 0 v = []"
| "nat_be (Suc n) v = nat_be n (v div 256) @ [of_nat (v mod 256)]"

text \<open>The accessors of \<^verbatim>\<open>binary.BigEndian\<close> the sources use.\<close>

definition get_u16 :: "bytes \<Rightarrow> u16" where "get_u16 bs = of_nat (be_nat (take 2 bs))"
definition get_u32 :: "bytes \<Rightarrow> u32" where "get_u32 bs = of_nat (be_nat (take 4 bs))"
definition put_u16 :: "u16 \<Rightarrow> bytes" where "put_u16 w = nat_be 2 (unat w)"
definition put_u32 :: "u32 \<Rightarrow> bytes" where "put_u32 w = nat_be 4 (unat w)"
definition put_u64 :: "u64 \<Rightarrow> bytes" where "put_u64 w = nat_be 8 (unat w)"

text \<open>A sub-slice \<^verbatim>\<open>b[i:j]\<close>.\<close>

definition slice :: "nat \<Rightarrow> nat \<Rightarrow> 'a list \<Rightarrow> 'a list" where
  "slice i j xs = take (j - i) (drop i xs)"

text \<open>\<^verbatim>\<open>copy(dst[i:], src)\<close> on a buffer long enough for \<^verbatim>\<open>src\<close>.\<close>

definition write_at :: "nat \<Rightarrow> 'a list \<Rightarrow> 'a list \<Rightarrow> 'a list" where
  "write_at i src dst = take i dst @ src @ drop (i + length src) dst"

subsection \<open>Go strings\<close>

definition has_prefix :: "string \<Rightarrow> string \<Rightarrow> bool" where
  "has_prefix p s \<longleftrightarrow> take (length p) s = p"

definition has_suffix :: "string \<Rightarrow> string \<Rightarrow> bool" where
  "has_suffix p s \<longleftrightarrow> length p \<le> length s \<and> drop (length s - length p) s = p"

definition contains_char :: "char \<Rightarrow> string \<Rightarrow> bool" where
  "contains_char c s \<longleftrightarrow> c \<in> set s"

text \<open>\<^verbatim>\<open>strings.LastIndexByte\<close>: the position of the last \<open>c\<close>, \<open>None\<close> for \<open>-1\<close>.\<close>

fun last_index_byte :: "char \<Rightarrow> string \<Rightarrow> nat option" where
  "last_index_byte c [] = None"
| "last_index_byte c (x # xs) =
     (case last_index_byte c xs of
        Some i \<Rightarrow> Some (Suc i)
      | None \<Rightarrow> if x = c then Some 0 else None)"

text \<open>\<^verbatim>\<open>strings.Cut\<close> at a one-byte separator.\<close>

fun cut_char :: "char \<Rightarrow> string \<Rightarrow> string \<times> string \<times> bool" where
  "cut_char c [] = ([], [], False)"
| "cut_char c (x # xs) =
     (if x = c then ([], xs, True)
      else (case cut_char c xs of (a, b, ok) \<Rightarrow> (x # a, b, ok)))"

text \<open>\<^verbatim>\<open>strings.Split\<close> at a one-byte separator.\<close>

fun split_char :: "char \<Rightarrow> string \<Rightarrow> string list" where
  "split_char c [] = [[]]"
| "split_char c (x # xs) =
     (if x = c then [] # split_char c xs
      else (case split_char c xs of
              [] \<Rightarrow> [[x]]
            | y # ys \<Rightarrow> (x # y) # ys))"

text \<open>\<^verbatim>\<open>strings.Join\<close>.\<close>

fun join_with :: "string \<Rightarrow> string list \<Rightarrow> string" where
  "join_with sep [] = []"
| "join_with sep [x] = x"
| "join_with sep (x # y # ys) = x @ sep @ join_with sep (y # ys)"

text \<open>
  \<^verbatim>\<open>unicode.IsSpace\<close> on UTF-8: the length in bytes of the white-space rune a string starts
  with, 0 if it starts with none.  A lead byte is always a rune boundary, so scanning for
  the encoded white-space runes finds exactly those \<^verbatim>\<open>range\<close> would.
\<close>

definition space_len :: "string \<Rightarrow> nat" where
  "space_len s = (case map (of_char :: char \<Rightarrow> nat) (take 3 s) of
      [] \<Rightarrow> 0
    | x # r \<Rightarrow>
        if x \<in> {9, 10, 11, 12, 13, 32} then 1
        else (case r of
            [] \<Rightarrow> 0
          | y # r' \<Rightarrow>
              if x = 0xC2 \<and> (y = 0x85 \<or> y = 0xA0) then 2
              else (case r' of
                  [] \<Rightarrow> 0
                | z # _ \<Rightarrow>
                    if x = 0xE1 \<and> y = 0x9A \<and> z = 0x80
                     \<or> x = 0xE2 \<and> y = 0x80 \<and> (0x80 \<le> z \<and> z \<le> 0x8A \<or> z = 0xA8 \<or> z = 0xA9 \<or> z = 0xAF)
                     \<or> x = 0xE2 \<and> y = 0x81 \<and> z = 0x9F
                     \<or> x = 0xE3 \<and> y = 0x80 \<and> z = 0x80
                    then 3 else 0)))"

text \<open>\<^verbatim>\<open>strings.Fields\<close>: \<open>cur\<close> is the field being read, reversed.\<close>

function go_fields_from :: "string \<Rightarrow> string \<Rightarrow> string list" where
  "go_fields_from cur [] = (if cur = [] then [] else [rev cur])"
| "go_fields_from cur (x # xs) =
     (let n = space_len (x # xs) in
      if n = 0 then go_fields_from (x # cur) xs
      else (if cur = [] then [] else [rev cur]) @ go_fields_from [] (drop (n - 1) xs))"
  by pat_completeness auto
termination
  by (relation "measure (\<lambda>(cur, s). length s)") auto

definition go_fields :: "string \<Rightarrow> string list" where
  "go_fields s = go_fields_from [] s"

text \<open>\<^verbatim>\<open>strings.TrimSpace\<close>.\<close>

function trim_left :: "string \<Rightarrow> string" where
  "trim_left s = (if space_len s = 0 \<or> s = [] then s else trim_left (drop (space_len s) s))"
  by pat_completeness auto
termination
  by (relation "measure length") auto

definition trailing_space_len :: "string \<Rightarrow> nat" where
  "trailing_space_len s =
     (case find (\<lambda>n. n \<le> length s \<and> space_len (drop (length s - n) s) = n) [1, 2, 3] of
        Some n \<Rightarrow> n | None \<Rightarrow> 0)"

function trim_right :: "string \<Rightarrow> string" where
  "trim_right s = (if trailing_space_len s = 0 \<or> s = [] then s
                   else trim_right (take (length s - trailing_space_len s) s))"
  by pat_completeness auto
termination
  by (relation "measure length") auto

definition trim_space :: "string \<Rightarrow> string" where
  "trim_space s = trim_right (trim_left s)"

subsection \<open>Go number parsing\<close>

definition is_digit :: "char \<Rightarrow> bool" where
  "is_digit c \<longleftrightarrow> 48 \<le> (of_char c :: nat) \<and> (of_char c :: nat) \<le> 57"

definition digit_val :: "char \<Rightarrow> nat" where
  "digit_val c = of_char c - 48"

definition dec_val :: "string \<Rightarrow> nat" where
  "dec_val s = foldl (\<lambda>acc c. acc * 10 + digit_val c) 0 s"

text \<open>\<^verbatim>\<open>strconv.ParseUint(s, 10, 16)\<close>; both error kinds are \<open>None\<close>.\<close>

definition parse_uint16 :: "string \<Rightarrow> u16 option" where
  "parse_uint16 s =
     (if s = [] \<or> \<not> list_all is_digit s then None
      else if dec_val s \<le> 65535 then Some (of_nat (dec_val s)) else None)"

text \<open>\<^verbatim>\<open>strconv.Atoi\<close> on a 64-bit platform.\<close>

definition atoi :: "string \<Rightarrow> int option" where
  "atoi s =
     (let (neg, body) = (case s of
             [] \<Rightarrow> (False, [])
           | c # r \<Rightarrow> if c = CHR ''-'' then (True, r) else if c = CHR ''+'' then (False, r) else (False, s))
      in if body = [] \<or> \<not> list_all is_digit body then None
         else let v = int (dec_val body) in
              if neg then (if v \<le> 2 ^ 63 then Some (- v) else None)
              else (if v < 2 ^ 63 then Some v else None))"

subsection \<open>Time\<close>

text \<open>
  A \<^verbatim>\<open>time.Time\<close> is its instant in nanoseconds since the Unix epoch, a \<^verbatim>\<open>time.Duration\<close> a
  signed 64-bit nanosecond count.  \<^verbatim>\<open>t.Sub(u)\<close> saturates at the ends of that range.
\<close>

type_synonym time = int
type_synonym duration = int

definition zero_time :: time where
  "zero_time = - 62135596800 * 1000000000"

definition time_sub :: "time \<Rightarrow> time \<Rightarrow> duration" where
  "time_sub t u = max (- (2 ^ 63)) (min (2 ^ 63 - 1) (t - u))"

abbreviation millisecond :: duration where "millisecond \<equiv> 1000000"
abbreviation second :: duration where "second \<equiv> 1000000000"
abbreviation minute :: duration where "minute \<equiv> 60 * second"
abbreviation hour :: duration where "hour \<equiv> 60 * minute"

section \<open>Lemmas\<close>

subsection \<open>Big-endian round trips\<close>

lemma unat_eq_iff [simp]: "unat x = unat y \<longleftrightarrow> x = y"
  by (metis unsigned_word_eqI)

lemma unat_bound: "unat (w :: 'a::len word) < 2 ^ LENGTH('a)"
  by (rule unsigned_less)

lemma be_nat_Nil [simp]: "be_nat [] = 0"
  by (simp add: be_nat_def)

lemma be_nat_snoc [simp]: "be_nat (bs @ [b]) = be_nat bs * 256 + unat b"
  by (simp add: be_nat_def)

lemma be_nat_Cons: "be_nat (b # bs) = unat b * 256 ^ length bs + be_nat bs"
proof (induction bs rule: rev_induct)
  case Nil
  then show ?case by (simp add: be_nat_def)
next
  case (snoc x xs)
  have "be_nat (b # xs @ [x]) = be_nat ((b # xs) @ [x])" by simp
  also have "\<dots> = be_nat (b # xs) * 256 + unat x" by (rule be_nat_snoc)
  finally show ?case by (simp add: snoc algebra_simps)
qed

lemma length_nat_be [simp]: "length (nat_be n v) = n"
  by (induction n arbitrary: v) auto

lemma be_nat_less: "be_nat bs < 256 ^ length bs"
proof (induction bs rule: rev_induct)
  case Nil
  then show ?case by simp
next
  case (snoc x xs)
  have "unat x < 256" using unat_bound [of x] by simp
  with snoc show ?case by simp
qed

lemma unat_of_nat_byte [simp]: "unat (of_nat (v mod 256) :: byte) = v mod 256"
  by (simp add: unat_of_nat)

lemma be_nat_nat_be: "be_nat (nat_be n v) = v mod 256 ^ n"
proof (induction n arbitrary: v)
  case 0
  then show ?case by simp
next
  case (Suc n)
  have "v mod (256 * 256 ^ n) = 256 * (v div 256 mod 256 ^ n) + v mod 256"
    by (rule mod_mult2_eq)
  with Suc show ?case by simp
qed

lemma nat_be_be_nat: "nat_be (length bs) (be_nat bs) = bs"
proof (induction bs rule: rev_induct)
  case Nil
  then show ?case by simp
next
  case (snoc x xs)
  have x: "unat x < 256" using unat_bound [of x] by simp
  then have "(be_nat xs * 256 + unat x) div 256 = be_nat xs" by simp
  moreover have "of_nat ((be_nat xs * 256 + unat x) mod 256) = x" using x by simp
  ultimately show ?case by (simp add: snoc)
qed

lemma be_nat_bit:
  "k < 8 * length bs \<Longrightarrow> bit (be_nat bs) k \<longleftrightarrow> bit (bs ! (length bs - 1 - k div 8)) (k mod 8)"
proof (induction bs arbitrary: k rule: rev_induct)
  case Nil
  then show ?case by simp
next
  case (snoc x xs)
  have x: "unat x < 2 ^ 8" using unat_bound [of x] by simp
  have eq: "be_nat xs * 256 + unat x = push_bit 8 (be_nat xs) + unat x"
    by (simp add: push_bit_eq_mult)
  show ?case
  proof (cases "k < 8")
    case True
    have "bit (be_nat (xs @ [x])) k \<longleftrightarrow> bit (take_bit 8 (be_nat xs * 256 + unat x)) k"
      using True by (simp add: bit_take_bit_iff)
    also have "take_bit 8 (be_nat xs * 256 + unat x) = unat x"
      using x by (simp add: take_bit_eq_mod)
    finally show ?thesis using True by (simp add: nth_append bit_unsigned_iff)
  next
    case False
    then obtain j where j: "k = j + 8" by (metis add.commute le_Suc_ex not_less)
    then have k: "k - 8 < 8 * length xs" "(k - 8) div 8 = k div 8 - 1" "(k - 8) mod 8 = k mod 8"
      and l: "length xs - 1 - (k div 8 - 1) = length xs - k div 8" "length xs - k div 8 < length xs"
      using snoc.prems by auto
    have "bit (be_nat (xs @ [x])) k \<longleftrightarrow> bit (drop_bit 8 (be_nat xs * 256 + unat x)) (k - 8)"
      using False by (simp add: bit_drop_bit_eq)
    also have "drop_bit 8 (be_nat xs * 256 + unat x) = be_nat xs"
      using x by (simp add: drop_bit_eq_div)
    finally show ?thesis
      using snoc.IH [OF k(1)] k l by (simp add: nth_append)
  qed
qed

lemma get_put_u16 [simp]: "get_u16 (put_u16 w @ bs) = w"
proof -
  have "unat w < 256 ^ 2" using unat_bound [of w] by simp
  then show ?thesis by (simp add: get_u16_def put_u16_def be_nat_nat_be)
qed

lemma get_put_u32 [simp]: "get_u32 (put_u32 w @ bs) = w"
proof -
  have "unat w < 256 ^ 4" using unat_bound [of w] by simp
  then show ?thesis by (simp add: get_u32_def put_u32_def be_nat_nat_be)
qed

lemma get_put_u16' [simp]: "get_u16 (put_u16 w) = w"
  using get_put_u16 [of w "[]"] by simp

lemma get_put_u32' [simp]: "get_u32 (put_u32 w) = w"
  using get_put_u32 [of w "[]"] by simp

lemma length_put [simp]:
  "length (put_u16 w) = 2" "length (put_u32 v) = 4" "length (put_u64 u) = 8"
  by (simp_all add: put_u16_def put_u32_def put_u64_def)

subsection \<open>Slices\<close>

lemma length_slice [simp]: "j \<le> length xs \<Longrightarrow> length (slice i j xs) = j - i"
  by (auto simp: slice_def)

lemma slice_append_left: "j \<le> length xs \<Longrightarrow> slice i j (xs @ ys) = slice i j xs"
  by (auto simp: slice_def)

lemma slice_append_right:
  "length xs \<le> i \<Longrightarrow> slice i j (xs @ ys) = slice (i - length xs) (j - length xs) ys"
  by (auto simp: slice_def)

lemma slice_append_drop: "i \<le> j \<Longrightarrow> slice i j xs @ drop j xs = drop i xs"
  by (metis append_take_drop_id drop_drop le_add_diff_inverse2 slice_def)

lemma slice_full: "slice 0 (length xs) xs = xs"
  by (simp add: slice_def)

subsection \<open>Strings\<close>

lemma has_prefix_append [simp]: "has_prefix p (p @ s)"
  by (simp add: has_prefix_def)

lemma has_prefixD: "has_prefix p s \<Longrightarrow> s = p @ drop (length p) s"
  by (metis has_prefix_def append_take_drop_id)

lemma last_index_byte_None: "last_index_byte c s = None \<longleftrightarrow> c \<notin> set s"
  by (induction s) (auto split: option.splits)

lemma last_index_byte_mem: "last_index_byte c s = Some i \<Longrightarrow> c \<in> set s"
  using last_index_byte_None [of c s] by (cases "c \<in> set s") auto

lemma last_index_byte_Some:
  "last_index_byte c s = Some i \<longleftrightarrow> i < length s \<and> s ! i = c \<and> c \<notin> set (drop (Suc i) s)"
proof (induction s arbitrary: i)
  case Nil
  then show ?case by simp
next
  case (Cons x xs)
  show ?case
  proof (cases i)
    case 0
    then show ?thesis
      by (cases "last_index_byte c xs")
        (auto dest: last_index_byte_mem, simp_all add: last_index_byte_None)
  next
    case (Suc k)
    then show ?thesis
      using Cons [of k] by (auto split: option.splits simp: last_index_byte_None in_set_conv_nth)
  qed
qed

lemma last_index_byte_append:
  "c \<notin> set p \<Longrightarrow> last_index_byte c (s @ c # p) = Some (length s)"
  by (auto simp: last_index_byte_Some)

lemma cut_char_append: "c \<notin> set a \<Longrightarrow> cut_char c (a @ c # b) = (a, b, True)"
  by (induction a) auto

lemma cut_char_none: "c \<notin> set a \<Longrightarrow> cut_char c a = (a, [], False)"
  by (induction a) auto

lemma split_char_nonempty [simp]: "split_char c s \<noteq> []"
  by (cases s) (auto split: list.splits)

lemma time_sub_le_iff: "\<bar>d\<bar> < 2 ^ 63 - 1 \<Longrightarrow> time_sub t u \<le> d \<longleftrightarrow> t - u \<le> d"
  by (auto simp: time_sub_def)

lemma time_sub_self [simp]: "time_sub t t = 0"
  by (simp add: time_sub_def)

subsection \<open>Enumerated lists\<close>

lemma snd_set_enumerate: "snd ` set (enumerate n xs) = set xs"
  by (metis map_snd_enumerate set_map)

lemma ex_enumerate: "(\<exists>ix \<in> set (enumerate n xs). P (snd ix)) \<longleftrightarrow> (\<exists>x \<in> set xs. P x)"
  using snd_set_enumerate [of n xs] by (metis (no_types, lifting) image_iff)

subsection \<open>Running the model\<close>

lemma nat_be_numeral [go_eval]:
  "nat_be (numeral n) v = nat_be (pred_numeral n) (v div 256) @ [of_nat (v mod 256)]"
  by (subst numeral_eq_Suc) (rule nat_be.simps(2))

lemmas [go_eval] = is_digit_def digit_val_def dec_val_def parse_uint16_def atoi_def be_nat_def
  get_u16_def get_u32_def put_u16_def put_u32_def has_prefix_def has_suffix_def contains_char_def
  Let_def

end
