(* ===== verification/Bitset.thy ===== *)
theory Bitset
  imports Prelude
begin

text \<open>
  The \<^verbatim>\<open>bitset\<close> of \<^verbatim>\<open>internal/policy/compile.go\<close>, a set of node indexes in 64-bit words, and the
  interface the policy compiler relies on, the locale \<open>node_set\<close>: sets of indexes below a
  capacity, enumerated in ascending order.  The interpretation \<open>bits\<close> discharges the
  interface for the words.
\<close>

section \<open>Definitions\<close>

type_synonym bitset = "u64 list"

definition new_bitset :: "nat \<Rightarrow> bitset" where
  "new_bitset n = replicate ((n + 63) div 64) 0"

definition bs_set :: "bitset \<Rightarrow> nat \<Rightarrow> bitset" where
  "bs_set b i = b[i div 64 := b ! (i div 64) OR push_bit (i mod 64) 1]"

definition bs_has :: "bitset \<Rightarrow> nat \<Rightarrow> bool" where
  "bs_has b i \<longleftrightarrow> b ! (i div 64) AND push_bit (i mod 64) 1 \<noteq> 0"

definition bs_empty :: "bitset \<Rightarrow> bool" where
  "bs_empty b \<longleftrightarrow> list_all (\<lambda>w. w = 0) b"

text \<open>\<^verbatim>\<open>b.or(o)\<close> for bitsets of one length, as the compiler makes them.\<close>

definition bs_or :: "bitset \<Rightarrow> bitset \<Rightarrow> bitset" where
  "bs_or b c = map2 (OR) b c"

text \<open>\<^verbatim>\<open>bits.TrailingZeros64\<close>.\<close>

definition trailing_zeros64 :: "u64 \<Rightarrow> nat" where
  "trailing_zeros64 w = (case find (bit w) [0..<64] of Some t \<Rightarrow> t | None \<Rightarrow> 64)"

text \<open>\<^verbatim>\<open>each\<close> calls its argument on these indexes, in this order: the inner loop takes the lowest
  set bit of a word and clears it.\<close>

lemma clear_lowest_less: "(w :: u64) \<noteq> 0 \<Longrightarrow> unat (w AND (w - 1)) < unat w"
proof -
  assume w: "w \<noteq> 0"
  have "unat (w AND (w - 1)) \<le> unat (w - 1)"
    by (rule word_and_le1 [THEN word_le_nat_alt [THEN iffD1]])
  then show ?thesis using measure_unat [OF w] by simp
qed

function word_each :: "u64 \<Rightarrow> nat list" where
  "word_each w = (if w = 0 then [] else trailing_zeros64 w # word_each (w AND (w - 1)))"
  by pat_completeness auto
termination
  by (relation "measure unat") (auto simp: clear_lowest_less)

declare word_each.simps [simp del]

definition bs_each :: "bitset \<Rightarrow> nat list" where
  "bs_each b = concat (map (\<lambda>(k, w). map (\<lambda>t. k * 64 + t) (word_each w)) (enumerate 0 b))"

definition bs_inv :: "nat \<Rightarrow> bitset \<Rightarrow> bool" where
  "bs_inv n b \<longleftrightarrow> length b = (n + 63) div 64 \<and> (\<forall>i. n \<le> i \<longrightarrow> i < 64 * length b \<longrightarrow> \<not> bs_has b i)"

section \<open>The interface\<close>

locale node_set =
  fixes mk :: "nat \<Rightarrow> 's" and ins :: "'s \<Rightarrow> nat \<Rightarrow> 's" and has :: "'s \<Rightarrow> nat \<Rightarrow> bool"
    and is_empty :: "'s \<Rightarrow> bool" and join :: "'s \<Rightarrow> 's \<Rightarrow> 's" and elems :: "'s \<Rightarrow> nat list"
    and inv :: "nat \<Rightarrow> 's \<Rightarrow> bool"
  assumes inv_mk: "inv n (mk n)" and has_mk: "i < n \<Longrightarrow> \<not> has (mk n) i"
    and inv_ins: "inv n s \<Longrightarrow> i < n \<Longrightarrow> inv n (ins s i)"
    and has_ins: "inv n s \<Longrightarrow> i < n \<Longrightarrow> j < n \<Longrightarrow> has (ins s i) j \<longleftrightarrow> j = i \<or> has s j"
    and is_empty: "inv n s \<Longrightarrow> is_empty s \<longleftrightarrow> (\<forall>i < n. \<not> has s i)"
    and inv_join: "inv n s \<Longrightarrow> inv n t \<Longrightarrow> inv n (join s t)"
    and has_join: "inv n s \<Longrightarrow> inv n t \<Longrightarrow> i < n \<Longrightarrow> has (join s t) i \<longleftrightarrow> has s i \<or> has t i"
    and elems: "inv n s \<Longrightarrow> elems s = filter (has s) [0..<n]"
begin

lemma fold_ins:
  "inv n s \<Longrightarrow> \<forall>i \<in> set xs. i < n \<Longrightarrow> inv n (foldl ins s xs) \<and>
     (\<forall>j < n. has (foldl ins s xs) j \<longleftrightarrow> j \<in> set xs \<or> has s j)"
  by (induction xs arbitrary: s) (auto simp: inv_ins has_ins)

lemmas inv_fold_ins = fold_ins [THEN conjunct1]

lemma has_fold_ins:
  "inv n s \<Longrightarrow> \<forall>i \<in> set xs. i < n \<Longrightarrow> j < n \<Longrightarrow> has (foldl ins s xs) j \<longleftrightarrow> j \<in> set xs \<or> has s j"
  using fold_ins by blast

lemma set_elems: "inv n s \<Longrightarrow> set (elems s) = {i. i < n \<and> has s i}"
  by (auto simp: elems)

lemma elems_fold_ins:
  "\<forall>i \<in> set xs. i < n \<Longrightarrow> elems (foldl ins (mk n) xs) = filter (\<lambda>i. i \<in> set xs) [0..<n]"
  using elems [OF inv_fold_ins [OF inv_mk]] has_fold_ins [OF inv_mk] has_mk
  by (auto intro!: filter_cong)

end

section \<open>The words implement it\<close>

lemma and_single_bit: "(x::u64) AND push_bit k 1 \<noteq> 0 \<longleftrightarrow> bit x k" if "k < 64"
proof -
  have "bit (x AND push_bit k 1) n \<longleftrightarrow> n = k \<and> bit x k" for n
    using that by (auto simp: bit_and_iff push_bit_of_1 bit_exp_iff)
  then show ?thesis by (metis bit_0_eq bot_fun_def bit_eq_iff bot_bool_def)
qed

lemma bs_has_bit: "bs_has b i \<longleftrightarrow> bit (b ! (i div 64)) (i mod 64)"
  unfolding bs_has_def by (rule and_single_bit) simp

lemma clear_lowest_nat:
  fixes m :: nat
  assumes "bit m t" "\<And>k. k < t \<Longrightarrow> \<not> bit m k"
  shows "n \<le> t \<Longrightarrow> \<not> (bit m n \<and> bit (m - 1) n)" "t < n \<Longrightarrow> bit (m - 1) n \<longleftrightarrow> bit m n"
proof -
  have "take_bit t m = 0" by (rule bit_eqI) (use assms(2) in \<open>auto simp: bit_take_bit_iff\<close>)
  then have "m = 2 ^ t * (m div 2 ^ t)" by (simp add: take_bit_eq_mod dvd_eq_mod_eq_0)
  moreover have "odd (m div 2 ^ t)" using assms(1) by (simp add: bit_iff_odd)
  ultimately obtain v where m: "m = 2 ^ t * (2 * v + 1)" by (metis oddE)
  have m1: "m - 1 = (2 ^ t - 1) + 2 ^ t * (2 * v)"
    unfolding m by (simp add: algebra_simps)
  have "(m - 1) div 2 ^ t = 2 * v" unfolding m1 by (subst div_mult_self2) auto
  then have t0: "\<not> bit (m - 1) t" and d: "(m - 1) div 2 ^ Suc t = v"
    by (simp add: bit_iff_odd, simp add: div_mult2_eq mult.commute [of 2])
  show "n \<le> t \<Longrightarrow> \<not> (bit m n \<and> bit (m - 1) n)" using t0 assms(2) by (cases "n = t") auto
  have "m div 2 ^ Suc t = v" unfolding m by (simp add: div_mult2_eq mult.commute [of 2])
  then show "t < n \<Longrightarrow> bit (m - 1) n \<longleftrightarrow> bit m n"
    using d by (metis Suc_leI bit_drop_bit_eq comp_apply drop_bit_eq_div le_add_diff_inverse)
qed
lemma clear_lowest_bit:
  fixes w :: u64
  assumes "bit w t" "\<And>k. k < t \<Longrightarrow> \<not> bit w k"
  shows "bit (w AND (w - 1)) n \<longleftrightarrow> bit w n \<and> n \<noteq> t"
proof -
  have "w \<noteq> 0" using assms(1) by auto
  then have "1 \<le> unat w" by (simp add: Suc_le_eq unat_gt_0)
  then have m1: "unat (w - 1) = unat w - 1" by (simp add: unat_sub_if')
  have b: "bit (unat x) k \<longleftrightarrow> bit x k" for x :: u64 and k
    by (auto simp: bit_unsigned_iff dest: bit_imp_le_length)
  note c = clear_lowest_nat [of "unat w" t n, unfolded b, OF assms, folded m1, unfolded b]
  show ?thesis using c assms by (cases "t < n") (auto simp: bit_and_iff not_less)
qed

lemma word_each_eq: "word_each w = filter (bit w) [0..<64]"
proof (induction w rule: word_each.induct)
  case (1 w)
  show ?case
  proof (cases "w = 0")
    case False
    then obtain k where "bit w k" by (auto simp: bit_eq_iff)
    then have "k < 64" using bit_imp_le_length [of w k] by simp
    with \<open>bit w k\<close> have "find (bit w) [0..<64] \<noteq> None" by (auto simp: find_None_iff)
    then obtain t where t: "find (bit w) [0..<64] = Some t" by auto
    then have b: "t < 64" "bit w t" "\<And>k. k < t \<Longrightarrow> \<not> bit w k" by (auto simp: find_Some_iff)
    have split: "[0..<64] = [0..<t] @ t # [Suc t..<64]"
      using b(1) upt_add_eq_append [of 0 t "64 - t"] upt_conv_Cons [of t 64] by simp
    have "filter (bit w) [0..<64] = t # filter (bit (w AND (w - 1))) [0..<64]"
      unfolding split using b by (auto simp: clear_lowest_bit filter_empty_conv intro!: filter_cong)
    then show ?thesis using 1 False t by (simp add: word_each.simps [of w] trailing_zeros64_def)
  qed (simp add: word_each.simps)
qed

lemma enumerate_filter:
  "concat (map (\<lambda>(k, w). map (\<lambda>t. k * 64 + t) (filter (bit w) [0..<64])) (enumerate m b)) =
     filter (\<lambda>i. bit (b ! (i div 64 - m)) (i mod 64)) [m * 64..<(m + length b) * 64]"
  for b :: bitset
proof (induction b arbitrary: m)
  case (Cons w b)
  have split: "[m * 64..<(m + length (w # b)) * 64] =
      map (\<lambda>t. m * 64 + t) [0..<64] @ [Suc m * 64..<(Suc m + length b) * 64]"
    using upt_add_eq_append [of "m * 64" "Suc m * 64" "length b * 64"] map_add_upt [of "m * 64" 64]
    by (simp add: algebra_simps)
  have rest: "filter (\<lambda>i. bit (b ! (i div 64 - Suc m)) (i mod 64)) [Suc m * 64..<(Suc m + length b) * 64] =
      filter (\<lambda>i. bit ((w # b) ! (i div 64 - m)) (i mod 64)) [Suc m * 64..<(Suc m + length b) * 64]"
  proof (rule filter_cong [OF refl])
    fix i assume "i \<in> set [Suc m * 64..<(Suc m + length b) * 64]"
    then have "Suc m \<le> i div 64" by (simp add: less_eq_div_iff_mult_less_eq)
    then have "i div 64 - m = Suc (i div 64 - Suc m)" by simp
    then show "bit (b ! (i div 64 - Suc m)) (i mod 64) = bit ((w # b) ! (i div 64 - m)) (i mod 64)" by simp
  qed
  have "map (\<lambda>t. m * 64 + t) (filter (bit w) [0..<64]) =
      filter (\<lambda>i. bit ((w # b) ! (i div 64 - m)) (i mod 64)) (map (\<lambda>t. m * 64 + t) [0..<64])"
    by (auto simp: filter_map o_def intro!: arg_cong [where f = "map _"] filter_cong)
  then show ?case unfolding split using Cons [of "Suc m"] rest by (simp only: enumerate_simps list.map prod.case concat.simps filter_append)
qed simp

lemma bs_each_eq:
  assumes "bs_inv n b"
  shows "bs_each b = filter (bs_has b) [0..<n]"
proof -
  have l: "length b = (n + 63) div 64" and z: "\<And>i. n \<le> i \<Longrightarrow> i < 64 * length b \<Longrightarrow> \<not> bs_has b i"
    using assms by (auto simp: bs_inv_def)
  have n: "n \<le> 64 * length b" unfolding l by presburger
  have "bs_each b = filter (bs_has b) [0..<64 * length b]"
    using enumerate_filter [of 0 b] by (simp add: bs_each_def word_each_eq bs_has_bit [abs_def] mult.commute)
  also have "[0..<64 * length b] = [0..<n] @ [n..<64 * length b]"
    using n by (metis le_add_diff_inverse upt_add_eq_append zero_le)
  finally show ?thesis using z by (auto simp: filter_empty_conv)
qed

lemma bs_has_bs_set:
  assumes "i div 64 < length b"
  shows "bs_has (bs_set b i) j \<longleftrightarrow> j = i \<or> bs_has b j"
proof (cases "j div 64 = i div 64")
  case True
  have "j = i \<longleftrightarrow> j mod 64 = i mod 64" using True by (metis div_mult_mod_eq)
  then show ?thesis
    using assms True by (auto simp: bs_has_bit bs_set_def bit_or_iff push_bit_of_1 bit_exp_iff)
qed (auto simp: bs_has_bit bs_set_def)

lemma index_word: "i < n \<Longrightarrow> i div 64 < (n + 63) div (64::nat)"
  by (simp add: div_less_iff_less_mult)

interpretation bits: node_set new_bitset bs_set bs_has bs_empty bs_or bs_each bs_inv
proof
  fix n i j and s t :: bitset
  show "i < n \<Longrightarrow> \<not> bs_has (new_bitset n) i"
    by (simp add: bs_has_bit new_bitset_def index_word)
  show "bs_inv n (new_bitset n)"
    by (auto simp: bs_inv_def bs_has_bit new_bitset_def div_less_iff_less_mult mult.commute)
  show "bs_inv n s \<Longrightarrow> i < n \<Longrightarrow> bs_inv n (bs_set s i)"
    by (auto simp: bs_inv_def bs_has_bs_set index_word) (auto simp: bs_set_def)
  show "bs_inv n s \<Longrightarrow> i < n \<Longrightarrow> j < n \<Longrightarrow> bs_has (bs_set s i) j \<longleftrightarrow> j = i \<or> bs_has s j"
    by (simp add: bs_has_bs_set bs_inv_def index_word)
  show "bs_inv n s \<Longrightarrow> bs_each s = filter (bs_has s) [0..<n]"
    by (rule bs_each_eq)
  show "bs_inv n s \<Longrightarrow> bs_inv n t \<Longrightarrow> bs_inv n (bs_or s t)"
    by (auto simp: bs_inv_def bs_has_bit bs_or_def bit_or_iff div_less_iff_less_mult mult.commute)
  show "bs_inv n s \<Longrightarrow> bs_inv n t \<Longrightarrow> i < n \<Longrightarrow> bs_has (bs_or s t) i \<longleftrightarrow> bs_has s i \<or> bs_has t i"
    by (simp add: bs_inv_def bs_has_bit bs_or_def bit_or_iff index_word)
  show "bs_empty s \<longleftrightarrow> (\<forall>i < n. \<not> bs_has s i)" if inv: "bs_inv n s"
  proof -
    have "bs_empty s \<longleftrightarrow> (\<forall>i < 64 * length s. \<not> bs_has s i)"
    proof
      assume "bs_empty s"
      then have "\<forall>k < length s. s ! k = 0" by (auto simp: bs_empty_def list_all_length)
      then show "\<forall>i < 64 * length s. \<not> bs_has s i"
        by (auto simp: bs_has_bit div_less_iff_less_mult mult.commute)
    next
      assume a: "\<forall>i < 64 * length s. \<not> bs_has s i"
      have "s ! k = 0" if k: "k < length s" for k
      proof (rule bit_eqI)
        fix b assume "possible_bit TYPE(64 word) b"
        then have "b < 64" by simp
        then show "bit (s ! k) b \<longleftrightarrow> bit (0 :: u64) b"
          using a [rule_format, of "64 * k + b"] k by (simp add: bs_has_bit)
      qed
      then show "bs_empty s" by (auto simp: bs_empty_def list_all_length)
    qed
    moreover have "n \<le> 64 * length s" using inv by (auto simp: bs_inv_def)
    ultimately show ?thesis using inv by (auto simp: bs_inv_def) (meson not_le)
  qed
qed

end
