(* ===== verification/Netip.thy ===== *)
theory Netip
  imports Prelude
begin

text \<open>
  Go's standard package \<^verbatim>\<open>net/netip\<close>, as far as the sources use it: addresses with their
  order, \<^verbatim>\<open>AddrPort\<close>, prefixes with \<^verbatim>\<open>Contains\<close>, \<^verbatim>\<open>Masked\<close> and \<^verbatim>\<open>Overlaps\<close>, and the textual
  parsers \<^verbatim>\<open>ParseAddr\<close> and \<^verbatim>\<open>ParsePrefix\<close>.  The lemmas give each operation its numeric
  meaning: a prefix of length \<open>n\<close> in a family of \<open>W\<close> bits is the block of addresses that
  agree on \<open>value div 2 ^ (W - n)\<close>.
\<close>

section \<open>Addresses\<close>

text \<open>\<open>ZeroAddr\<close> is the zero \<^verbatim>\<open>netip.Addr\<close>; an IPv6 address carries its zone, empty for
  none.  An IPv4-mapped IPv6 address is an IPv6 address until \<^verbatim>\<open>Unmap\<close>.\<close>

datatype addr = ZeroAddr | IPv4 u32 | IPv6 "128 word" string

type_synonym addr_port = "addr \<times> u16"

fun bit_len :: "addr \<Rightarrow> nat" where
  "bit_len ZeroAddr = 0"
| "bit_len (IPv4 _) = 32"
| "bit_len (IPv6 _ _) = 128"

fun addr_val :: "addr \<Rightarrow> nat" where
  "addr_val ZeroAddr = 0"
| "addr_val (IPv4 x) = unat x"
| "addr_val (IPv6 x _) = unat x"

fun addr_zone :: "addr \<Rightarrow> string" where
  "addr_zone (IPv6 _ z) = z"
| "addr_zone _ = []"

definition is4 :: "addr \<Rightarrow> bool" where "is4 a \<longleftrightarrow> bit_len a = 32"
definition is6 :: "addr \<Rightarrow> bool" where "is6 a \<longleftrightarrow> bit_len a = 128"
definition addr_valid :: "addr \<Rightarrow> bool" where "addr_valid a \<longleftrightarrow> a \<noteq> ZeroAddr"

fun without_zone :: "addr \<Rightarrow> addr" where
  "without_zone (IPv6 x _) = IPv6 x []"
| "without_zone a = a"

text \<open>\<^verbatim>\<open>Addr.Compare\<close> compares the family's bit length, then the bits, then the zone.\<close>

definition addr_key :: "addr \<Rightarrow> nat \<times> nat \<times> string" where
  "addr_key a = (bit_len a, addr_val a, addr_zone a)"

instantiation addr :: linorder
begin

definition less_eq_addr :: "addr \<Rightarrow> addr \<Rightarrow> bool" where
  "less_eq_addr a b \<longleftrightarrow> addr_key a \<le> addr_key b"

definition less_addr :: "addr \<Rightarrow> addr \<Rightarrow> bool" where
  "less_addr a b \<longleftrightarrow> addr_key a < addr_key b"

instance
proof
  fix a b c :: addr
  have inj: "addr_key a = addr_key b \<Longrightarrow> a = b"
    by (cases a; cases b) (auto simp: addr_key_def)
  show "(a < b) = (a \<le> b \<and> \<not> b \<le> a)" by (auto simp: less_eq_addr_def less_addr_def)
  show "a \<le> a" by (simp add: less_eq_addr_def)
  show "a \<le> b \<Longrightarrow> b \<le> c \<Longrightarrow> a \<le> c" by (auto simp: less_eq_addr_def)
  show "a \<le> b \<Longrightarrow> b \<le> a \<Longrightarrow> a = b" by (auto simp: less_eq_addr_def intro: inj)
  show "a \<le> b \<or> b \<le> a" by (auto simp: less_eq_addr_def)
qed

end

text \<open>\<^verbatim>\<open>Addr.Next\<close>: the zero address after the last one of the family.\<close>

fun addr_next :: "addr \<Rightarrow> addr" where
  "addr_next ZeroAddr = ZeroAddr"
| "addr_next (IPv4 x) = (if x + 1 = 0 then ZeroAddr else IPv4 (x + 1))"
| "addr_next (IPv6 x z) = (if x + 1 = 0 then ZeroAddr else IPv6 (x + 1) z)"

fun unmap :: "addr \<Rightarrow> addr" where
  "unmap (IPv6 x z) = (if drop_bit 32 x = 0xFFFF then IPv4 (ucast x) else IPv6 x z)"
| "unmap a = a"

fun as_slice :: "addr \<Rightarrow> bytes" where
  "as_slice ZeroAddr = []"
| "as_slice (IPv4 x) = nat_be 4 (unat x)"
| "as_slice (IPv6 x _) = nat_be 16 (unat x)"

fun as16 :: "addr \<Rightarrow> bytes" where
  "as16 ZeroAddr = replicate 16 0"
| "as16 (IPv4 x) = replicate 10 0 @ [0xFF, 0xFF] @ nat_be 4 (unat x)"
| "as16 (IPv6 x _) = nat_be 16 (unat x)"

definition addr_from4 :: "bytes \<Rightarrow> addr" where "addr_from4 b = IPv4 (of_nat (be_nat b))"
definition addr_from16 :: "bytes \<Rightarrow> addr" where "addr_from16 b = IPv6 (of_nat (be_nat b)) []"

definition addr_from_slice :: "bytes \<Rightarrow> addr" where
  "addr_from_slice b =
     (if length b = 4 then addr_from4 b else if length b = 16 then addr_from16 b else ZeroAddr)"

definition ap_valid :: "addr_port \<Rightarrow> bool" where "ap_valid ap \<longleftrightarrow> addr_valid (fst ap)"

section \<open>Prefixes\<close>

text \<open>\<open>InvalidPrefix\<close> stands for every prefix whose \<^verbatim>\<open>IsValid\<close> is false.\<close>

datatype prefix = InvalidPrefix | Prefix addr nat

definition prefix_from :: "addr \<Rightarrow> nat \<Rightarrow> prefix" where
  "prefix_from a n =
     (if a \<noteq> ZeroAddr \<and> n \<le> bit_len a then Prefix (without_zone a) n else InvalidPrefix)"

fun pfx_addr :: "prefix \<Rightarrow> addr" where
  "pfx_addr InvalidPrefix = ZeroAddr"
| "pfx_addr (Prefix a _) = a"

text \<open>\<^verbatim>\<open>Prefix.Bits\<close> is \<open>-1\<close> for an invalid prefix; the sources read it of valid ones only.\<close>

fun pfx_bits :: "prefix \<Rightarrow> nat" where
  "pfx_bits InvalidPrefix = 0"
| "pfx_bits (Prefix _ n) = n"

fun pfx_valid :: "prefix \<Rightarrow> bool" where
  "pfx_valid InvalidPrefix = False"
| "pfx_valid (Prefix a n) \<longleftrightarrow> a \<noteq> ZeroAddr \<and> addr_zone a = [] \<and> n \<le> bit_len a"

fun mask_addr :: "nat \<Rightarrow> addr \<Rightarrow> addr" where
  "mask_addr n ZeroAddr = ZeroAddr"
| "mask_addr n (IPv4 x) = IPv4 (x AND NOT (mask (32 - n)))"
| "mask_addr n (IPv6 x z) = IPv6 (x AND NOT (mask (128 - n))) z"

fun masked :: "prefix \<Rightarrow> prefix" where
  "masked InvalidPrefix = InvalidPrefix"
| "masked (Prefix a n) = prefix_from (mask_addr n a) n"

fun contains :: "prefix \<Rightarrow> addr \<Rightarrow> bool" where
  "contains (Prefix (IPv4 x) n) (IPv4 y) \<longleftrightarrow> drop_bit (32 - n) (y XOR x) = 0"
| "contains (Prefix (IPv6 x _) n) (IPv6 y z) \<longleftrightarrow>
     z = [] \<and> (y XOR x) AND NOT (mask (128 - n)) = 0"
| "contains _ _ \<longleftrightarrow> False"

fun overlaps :: "prefix \<Rightarrow> prefix \<Rightarrow> bool" where
  "overlaps (Prefix a m) (Prefix b n) =
     (if Prefix a m = Prefix b n then True
      else if is4 a \<noteq> is4 b then False
      else let k = min m n in
        if k = 0 then True
        else pfx_addr (masked (Prefix a k)) = pfx_addr (masked (Prefix b k)))"
| "overlaps _ _ = False"

text \<open>The number of address bits a prefix leaves open.\<close>

definition host_bits :: "prefix \<Rightarrow> nat" where
  "host_bits p = bit_len (pfx_addr p) - pfx_bits p"

section \<open>Parsing\<close>

fun parse_ipv4_fields :: "nat \<Rightarrow> nat \<Rightarrow> nat list \<Rightarrow> string \<Rightarrow> nat list option" where
  "parse_ipv4_fields v dig fs [] = (if length fs < 3 then None else Some (fs @ [v]))"
| "parse_ipv4_fields v dig fs (c # r) =
     (if is_digit c then
        (if dig = 1 \<and> v = 0 then None
         else let v' = v * 10 + digit_val c in
           if v' > 255 then None else parse_ipv4_fields v' (dig + 1) fs r)
      else if c = CHR ''.'' then
        (if dig = 0 \<or> r = [] then None
         else if length fs = 3 then None
         else parse_ipv4_fields 0 0 (fs @ [v]) r)
      else None)"

definition parse_ipv4 :: "string \<Rightarrow> addr option" where
  "parse_ipv4 s =
     (case parse_ipv4_fields 0 0 [] s of
        None \<Rightarrow> None | Some fs \<Rightarrow> Some (addr_from4 (map of_nat fs)))"

definition hex_digit_val :: "char \<Rightarrow> nat option" where
  "hex_digit_val c =
     (let n = (of_char c :: nat) in
      if 48 \<le> n \<and> n \<le> 57 then Some (n - 48)
      else if 97 \<le> n \<and> n \<le> 102 then Some (n - 97 + 10)
      else if 65 \<le> n \<and> n \<le> 70 then Some (n - 65 + 10)
      else None)"

definition hex_val :: "string \<Rightarrow> nat" where
  "hex_val s = foldl (\<lambda>acc c. acc * 16 + (case hex_digit_val c of Some d \<Rightarrow> d | None \<Rightarrow> 0)) 0 s"

text \<open>The loop of \<^verbatim>\<open>parseIPv6\<close>: the bytes written so far, the position of the ellipsis and
  the rest of the string.\<close>

function ipv6_loop :: "bytes \<Rightarrow> nat option \<Rightarrow> string \<Rightarrow> (bytes \<times> nat option \<times> string) option" where
  "ipv6_loop acc ell s =
     (if 16 \<le> length acc then Some (acc, ell, s)
      else let ds = takeWhile (\<lambda>c. hex_digit_val c \<noteq> None) s; rest = drop (length ds) s in
        if length ds > 4 \<or> ds = [] then None
        else if take 1 rest = ''.'' then
          (if ell = None \<and> length acc \<noteq> 12 then None
           else if length acc + 4 > 16 then None
           else (case parse_ipv4_fields 0 0 [] s of
                   None \<Rightarrow> None
                 | Some fs \<Rightarrow> Some (acc @ map of_nat fs, ell, [])))
        else let acc' = acc @ nat_be 2 (hex_val ds) in
          (case rest of
             [] \<Rightarrow> Some (acc', ell, [])
           | c # r \<Rightarrow>
               if c \<noteq> CHR '':'' then None
               else (case r of
                  [] \<Rightarrow> None
                | d # r' \<Rightarrow>
                    if d = CHR '':'' then
                      (if ell \<noteq> None then None
                       else if r' = [] then Some (acc', Some (length acc'), [])
                       else ipv6_loop acc' (Some (length acc')) r')
                    else ipv6_loop acc' ell r)))"
  by pat_completeness auto
termination
  by (relation "measure (\<lambda>(acc, ell, s). 16 - length acc)") auto

definition parse_ipv6 :: "string \<Rightarrow> addr option" where
  "parse_ipv6 inp =
     (case cut_char (CHR ''%'') inp of (s, zone, has_zone) \<Rightarrow>
      if has_zone \<and> zone = [] then None
      else let (ell, s1) = (if take 2 s = ''::'' then (Some 0, drop 2 s) else (None, s)) in
        if ell = Some 0 \<and> s1 = [] then Some (IPv6 0 zone)
        else (case ipv6_loop [] ell s1 of
            None \<Rightarrow> None
          | Some (acc, ell', s2) \<Rightarrow>
              if s2 \<noteq> [] then None
              else if length acc < 16 then
                (case ell' of
                   None \<Rightarrow> None
                 | Some e \<Rightarrow>
                     Some (IPv6 (of_nat (be_nat
                       (take e acc @ replicate (16 - length acc) 0 @ drop e acc))) zone))
              else if ell' \<noteq> None then None
              else Some (IPv6 (of_nat (be_nat acc)) zone)))"

definition parse_addr :: "string \<Rightarrow> addr option" where
  "parse_addr s =
     (case find (\<lambda>c. c = CHR ''.'' \<or> c = CHR '':'' \<or> c = CHR ''%'') s of
        None \<Rightarrow> None
      | Some c \<Rightarrow>
          if c = CHR ''.'' then parse_ipv4 s
          else if c = CHR '':'' then parse_ipv6 s
          else None)"

definition parse_prefix :: "string \<Rightarrow> prefix option" where
  "parse_prefix s =
     (case last_index_byte (CHR ''/'') s of
        None \<Rightarrow> None
      | Some i \<Rightarrow>
          (case parse_addr (take i s) of
             None \<Rightarrow> None
           | Some ip \<Rightarrow>
               if addr_zone ip \<noteq> [] then None
               else let b = drop (Suc i) s in
                 if length b > 1 \<and> (of_char (hd b) < (49::nat) \<or> (57::nat) < of_char (hd b)) then None
                 else (case atoi b of
                     None \<Rightarrow> None
                   | Some n \<Rightarrow>
                       if n < 0 \<or> n > int (bit_len ip) then None
                       else Some (prefix_from ip (nat n)))))"

section \<open>Numeric reading\<close>

lemma addr_eqI:
  "bit_len a = bit_len b \<Longrightarrow> addr_val a = addr_val b \<Longrightarrow> addr_zone a = addr_zone b \<Longrightarrow> a = b"
  by (cases a; cases b) auto

lemma addr_val_less: "addr_val a < 2 ^ bit_len a"
proof (cases a)
  case (IPv4 x)
  then show ?thesis using unat_bound [of x] by simp
next
  case (IPv6 x z)
  then show ?thesis using unat_bound [of x] by simp
qed simp

lemma bit_len_cases: "bit_len a = 0 \<or> bit_len a = 32 \<or> bit_len a = 128"
  by (cases a) auto

lemma bit_len_eq_0 [simp]: "bit_len a = 0 \<longleftrightarrow> a = ZeroAddr"
  by (cases a) auto

lemma less_eq_addr_iff:
  "a \<le> b \<longleftrightarrow> bit_len a < bit_len b \<or> bit_len a = bit_len b \<and>
     (addr_val a < addr_val b \<or> addr_val a = addr_val b \<and> addr_zone a \<le> addr_zone b)"
  by (auto simp: less_eq_addr_def addr_key_def less_eq_prod_def)

lemma addr_le_same_family:
  "bit_len a = bit_len b \<Longrightarrow> addr_zone a = [] \<Longrightarrow> addr_zone b = [] \<Longrightarrow>
     a \<le> b \<longleftrightarrow> addr_val a \<le> addr_val b"
  by (auto simp: less_eq_addr_iff)

lemma addr_less_same_family:
  "bit_len a = bit_len b \<Longrightarrow> addr_zone a = [] \<Longrightarrow> addr_zone b = [] \<Longrightarrow>
     a < b \<longleftrightarrow> addr_val a < addr_val b"
  by (auto simp: less_le_not_le addr_le_same_family)

lemma unat_and_not_mask: "unat ((x::'a::len word) AND NOT (mask k)) = unat x div 2 ^ k * 2 ^ k"
proof -
  have "unat (x AND NOT (mask k)) = push_bit k (drop_bit k (unat x))"
    by (rule bit_eqI) (auto simp: bit_simps dest: bit_imp_le_length)
  then show ?thesis by (simp add: push_bit_eq_mult drop_bit_eq_div)
qed
lemma unat_drop_bit: "unat (drop_bit k (x::'a::len word)) = unat x div 2 ^ k"
proof -
  have "unat (drop_bit k x) = drop_bit k (unat x)"
    using unat_bound [of x] by (simp only: unsigned_drop_bit_eq take_bit_nat_eq_self)
  then show ?thesis by (simp add: drop_bit_eq_div)
qed
lemma xor_drop_bit_eq_0: "(drop_bit k (y XOR (x::'a::len word)) = 0) \<longleftrightarrow> unat y div 2 ^ k = unat x div 2 ^ k"
proof -
  have "drop_bit k (y XOR x) = 0 \<longleftrightarrow> drop_bit k y = drop_bit k x"
    by (auto simp: bit_eq_iff bit_simps)
  also have "\<dots> \<longleftrightarrow> unat (drop_bit k y) = unat (drop_bit k x)" by simp
  finally show ?thesis by (simp only: unat_drop_bit)
qed
lemma xor_and_not_mask_eq_0: "((y XOR (x::'a::len word)) AND NOT (mask k) = 0) \<longleftrightarrow> unat y div 2 ^ k = unat x div 2 ^ k"
proof -
  have "(y XOR x) AND NOT (mask k) = 0 \<longleftrightarrow> unat ((y XOR x) AND NOT (mask k)) = 0"
    by (simp only: unsigned_eq_0_iff)
  also have "\<dots> \<longleftrightarrow> unat (drop_bit k (y XOR x)) = 0"
    by (simp only: unat_and_not_mask unat_drop_bit) simp
  also have "\<dots> \<longleftrightarrow> drop_bit k (y XOR x) = 0" by (simp only: unsigned_eq_0_iff)
  finally show ?thesis by (simp only: xor_drop_bit_eq_0)
qed

lemma addr_val_mask_addr:
  "addr_val (mask_addr n a) = addr_val a div 2 ^ (bit_len a - n) * 2 ^ (bit_len a - n)"
  by (cases a) (simp_all add: unat_and_not_mask)

lemma mask_addr_simps [simp]:
  "bit_len (mask_addr n a) = bit_len a" "addr_zone (mask_addr n a) = addr_zone a"
  "mask_addr n a = ZeroAddr \<longleftrightarrow> a = ZeroAddr"
  by (cases a; simp)+

lemma without_zone_simps [simp]:
  "bit_len (without_zone a) = bit_len a" "addr_zone (without_zone a) = []"
  "addr_val (without_zone a) = addr_val a" "without_zone a = ZeroAddr \<longleftrightarrow> a = ZeroAddr"
  by (cases a; simp)+

lemma without_zone_id [simp]: "addr_zone a = [] \<Longrightarrow> without_zone a = a"
  by (cases a) auto

lemma pfx_valid_prefix_from: "a \<noteq> ZeroAddr \<Longrightarrow> n \<le> bit_len a \<Longrightarrow> pfx_valid (prefix_from a n)"
  by (simp add: prefix_from_def)

lemma masked_valid:
  "pfx_valid (Prefix a n) \<Longrightarrow> masked (Prefix a n) = Prefix (mask_addr n a) n"
  by (auto simp: prefix_from_def)

lemma pfx_valid_masked [simp]: "pfx_valid p \<Longrightarrow> pfx_valid (masked p)"
  by (cases p) (auto simp: prefix_from_def)

lemma masked_simps [simp]:
  assumes "pfx_valid p"
  shows "pfx_bits (masked p) = pfx_bits p" "bit_len (pfx_addr (masked p)) = bit_len (pfx_addr p)"
    "addr_zone (pfx_addr (masked p)) = []"
  using assms by (cases p; simp add: prefix_from_def)+

lemma contains_iff:
  assumes "pfx_valid p"
  shows "contains p a \<longleftrightarrow> bit_len a = bit_len (pfx_addr p) \<and> addr_zone a = [] \<and>
    addr_val a div 2 ^ host_bits p = addr_val (pfx_addr p) div 2 ^ host_bits p"
proof (cases p)
  case (Prefix b n)
  then show ?thesis
    using assms by (cases b; cases a) (auto simp: host_bits_def xor_drop_bit_eq_0 xor_and_not_mask_eq_0 simp del: drop_bit_xor)
qed (use assms in simp)


subsection \<open>Parsed prefixes are valid\<close>

lemma parse_addr_nonzero: "parse_addr s = Some a \<Longrightarrow> a \<noteq> ZeroAddr"
  by (auto simp: parse_addr_def parse_ipv4_def parse_ipv6_def addr_from4_def Let_def
      split: option.splits if_splits prod.splits)

lemma parse_prefix_valid: "parse_prefix s = Some p \<Longrightarrow> pfx_valid p"
  by (auto simp: parse_prefix_def Let_def split: option.splits if_splits
      intro!: pfx_valid_prefix_from dest: parse_addr_nonzero)

lemmas [go_eval] = parse_prefix_def parse_addr_def parse_ipv4_def parse_ipv6_def addr_from4_def
  addr_from16_def prefix_from_def addr_valid_def ap_valid_def

end
