(* ===== verification/Prefixes.thy ===== *)
theory Prefixes
  imports Netip
begin

text \<open>
  \<^verbatim>\<open>internal/policy/prefixes.go\<close>: merging a list of prefixes into the smallest list of CIDRs
  that covers exactly the same addresses.  The main lemma, \<open>aggregate_canonical\<close>, says that
  the result is the ascending list of the maximal CIDR blocks inside the covered set; exact
  cover, minimality, idempotence and independence of the order in which \<^verbatim>\<open>sort.Slice\<close>
  leaves equal spans all follow from it.

  \<^verbatim>\<open>lastAddr\<close> indexes an empty slice, and so panics, on an invalid prefix; the model is
  total and answers \<open>ZeroAddr\<close> there.  Every statement below is about valid prefixes, and
  the compiler only builds valid ones.
\<close>

section \<open>Definitions\<close>

type_synonym span = "addr \<times> addr"

text \<open>\<^verbatim>\<open>lastAddr\<close>: sets bit \<open>i\<close>, counted from the front of the slice, for each \<open>i\<close> past the
  prefix length.\<close>

definition last_addr :: "prefix \<Rightarrow> addr" where
  "last_addr p =
     (let b = as_slice (pfx_addr (masked p)) in
      addr_from_slice
        (fold (\<lambda>i b. b[i div 8 := b ! (i div 8) OR drop_bit (i mod 8) 0x80])
          [pfx_bits p ..< length b * 8] b))"

text \<open>The biggest block that starts at \<open>lo\<close> and ends by \<open>hi\<close> (the inner loop of \<^verbatim>\<open>appendRange\<close>).\<close>

definition biggest_block :: "addr \<Rightarrow> addr \<Rightarrow> prefix" where
  "biggest_block lo hi =
     (case find (\<lambda>b. let c = prefix_from lo b in
                   pfx_addr (masked c) = lo \<and> last_addr c \<le> hi) [0..<bit_len lo] of
        Some b \<Rightarrow> prefix_from lo b
      | None \<Rightarrow> prefix_from lo (bit_len lo))"

text \<open>One round of the loop over the sorted spans; \<open>merged\<close> is never empty.\<close>

definition merge_step :: "span list \<Rightarrow> span \<Rightarrow> span list" where
  "merge_step merged s =
     (let l = last merged in
      if bit_len (fst s) = bit_len (snd l) \<and> (fst s \<le> snd l \<or> addr_next (snd l) = fst s)
      then (if snd s > snd l then butlast merged @ [(fst l, snd s)] else merged)
      else merged @ [s])"

definition merge_spans :: "span list \<Rightarrow> span list" where
  "merge_spans spans = foldl merge_step (take 1 spans) (drop 1 spans)"

section \<open>The last address of a prefix\<close>

lemma bit_position:
  fixes i k n :: nat
  assumes "i < 8 * n" "k < 8 * n"
  shows "k = 8 * n - 1 - i \<longleftrightarrow> n - 1 - k div 8 = i div 8 \<and> k mod 8 = 7 - i mod 8"
proof -
  obtain q r where k: "k = 8 * q + r" "r < 8" by (metis mod_less_divisor mult_div_mod_eq zero_less_numeral)
  obtain p t where i: "i = 8 * p + t" "t < 8" by (metis mod_less_divisor mult_div_mod_eq zero_less_numeral)
  have "8 * q + r = 8 * n - 1 - (8 * p + t) \<longleftrightarrow> n - 1 - q = p \<and> r = 7 - t"
  proof
    assume "8 * q + r = 8 * n - 1 - (8 * p + t)"
    then have e: "8 * (q + p) + (r + t + 1) = 8 * n" using assms(1) unfolding i(1) by simp
    then have "r + t + 1 = 8" using k(2) i(2) by presburger
    with e k(2) i(2) show "n - 1 - q = p \<and> r = 7 - t" by auto
  next
    assume "n - 1 - q = p \<and> r = 7 - t"
    moreover have "q < n" using assms(2) k by simp
    ultimately have "q + p + 1 = n" "r + t = 7" using i(2) by auto
    then show "8 * q + r = 8 * n - 1 - (8 * p + t)" by auto
  qed
  then show ?thesis using k i by simp
qed

lemma set_bit_step_bit:
  fixes b :: bytes
  assumes "i < 8 * length b" "k < 8 * length b"
  shows "bit (be_nat (b[i div 8 := b ! (i div 8) OR drop_bit (i mod 8) 0x80])) k \<longleftrightarrow>
    bit (be_nat b) k \<or> k = 8 * length b - 1 - i"
proof -
  let ?j = "length b - 1 - k div 8"
  have idx: "?j < length b" "i div 8 < length b" using assms by auto
  have b80: "bit (drop_bit (i mod 8) 0x80 :: byte) (k mod 8) \<longleftrightarrow> k mod 8 = 7 - i mod 8"
  proof -
    have e: "(2 ^ 7 :: byte) = 0x80" by simp
    have "bit (2 ^ 7 :: byte) n \<longleftrightarrow> n = 7" for n by (subst bit_exp_iff) auto
    then have b7: "bit (0x80 :: byte) n \<longleftrightarrow> n = 7" for n unfolding e .
    have "bit (drop_bit (i mod 8) 0x80 :: byte) (k mod 8) \<longleftrightarrow> i mod 8 + k mod 8 = 7"
      by (simp only: bit_drop_bit_eq o_def b7)
    moreover have "i mod 8 \<le> 7" by simp
    ultimately show ?thesis by linarith
  qed
  have "bit (be_nat (b[i div 8 := b ! (i div 8) OR drop_bit (i mod 8) 0x80])) k \<longleftrightarrow>
    bit (b ! ?j) (k mod 8) \<or> ?j = i div 8 \<and> k mod 8 = 7 - i mod 8"
    using assms idx b80 by (simp add: be_nat_bit nth_list_update bit_or_iff)
  also have "\<dots> \<longleftrightarrow> bit (be_nat b) k \<or> k = 8 * length b - 1 - i"
    using assms by (simp only: be_nat_bit bit_position)
  finally show ?thesis .
qed

lemma set_bits_length [simp]:
  "length (fold (\<lambda>i b. b[i div 8 := f i b]) is b) = length b"
  by (induction "is" arbitrary: b) auto

lemma set_bits_bit:
  fixes b :: bytes
  assumes "\<forall>i \<in> set is. i < 8 * length b" "k < 8 * length b"
  shows "bit (be_nat (fold (\<lambda>i b. b[i div 8 := b ! (i div 8) OR drop_bit (i mod 8) 0x80]) is b)) k
    \<longleftrightarrow> bit (be_nat b) k \<or> (\<exists>i \<in> set is. k = 8 * length b - 1 - i)"
  using assms
proof (induction "is" arbitrary: b)
  case (Cons i "is")
  then show ?case
    using set_bit_step_bit [of i b k] by simp
qed simp

lemma be_nat_set_bits:
  fixes b :: bytes
  assumes "n \<le> 8 * length b" "be_nat b mod 2 ^ (8 * length b - n) = 0"
  shows "be_nat (fold (\<lambda>i b. b[i div 8 := b ! (i div 8) OR drop_bit (i mod 8) 0x80])
    [n..<length b * 8] b) = be_nat b + (2 ^ (8 * length b - n) - 1)"
    (is "be_nat ?r = _")
proof -
  let ?W = "8 * length b" and ?h = "8 * length b - n"
  have lt: "be_nat c < 2 ^ ?W" if "length c = length b" for c :: bytes
    using be_nat_less [of c] that by (simp add: power_mult)
  have "be_nat ?r = be_nat b OR mask ?h"
  proof (rule bit_eqI)
    fix k
    show "bit (be_nat ?r) k \<longleftrightarrow> bit (be_nat b OR mask ?h) k"
    proof (cases "k < ?W")
      case True
      have "(\<exists>i \<in> set [n..<length b * 8]. k = ?W - 1 - i) \<longleftrightarrow> k < ?h"
        using True assms(1) by (auto intro!: bexI [of _ "?W - 1 - k"])
      then show ?thesis
        using True by (simp add: set_bits_bit bit_or_iff bit_mask_iff)
    next
      case False
      then have "\<not> bit (be_nat c) k" if "length c = length b" for c :: bytes
        using take_bit_nat_eq_self [OF lt [OF that]] False by (metis bit_take_bit_iff)
      then show ?thesis using False by (simp add: bit_or_iff bit_mask_iff)
    qed
  qed
  also have "\<dots> = be_nat b + mask ?h"
  proof (rule disjunctive_add [symmetric])
    fix k
    have "take_bit ?h (be_nat b) = 0" using assms(2) by (simp add: take_bit_eq_mod)
    then have "k < ?h \<Longrightarrow> \<not> bit (be_nat b) k"
      using bit_take_bit_iff [of ?h "be_nat b" k] by simp
    then show "\<not> bit (be_nat b) k \<or> \<not> bit (mask ?h :: nat) k" by (auto simp: bit_mask_iff)
  qed
  finally show ?thesis by (simp add: mask_eq_exp_minus_1)
qed


lemma be_nat_as_slice: "be_nat (as_slice a) = addr_val a"
  using addr_val_less [of a] by (cases a) (simp_all add: be_nat_nat_be)

lemma length_as_slice: "8 * length (as_slice a) = bit_len a"
  by (cases a) auto

lemma addr_from_slice_simps:
  assumes "8 * length b = bit_len a" "a \<noteq> ZeroAddr"
  shows "bit_len (addr_from_slice b) = bit_len a" "addr_zone (addr_from_slice b) = []"
    "addr_val (addr_from_slice b) = be_nat b"
proof -
  have "be_nat b < 2 ^ (8 * length b)"
    using be_nat_less [of b] by (simp add: power_mult)
  with assms show "addr_val (addr_from_slice b) = be_nat b"
    by (cases a) (auto simp: addr_from_slice_def addr_from4_def addr_from16_def unat_of_nat)
  show "bit_len (addr_from_slice b) = bit_len a" "addr_zone (addr_from_slice b) = []"
    using assms by (cases a; simp add: addr_from_slice_def addr_from4_def addr_from16_def)+
qed

lemma last_addr_simps:
  assumes "pfx_valid p"
  shows "bit_len (last_addr p) = bit_len (pfx_addr p)" "addr_zone (last_addr p) = []"
    "addr_val (last_addr p) =
       addr_val (pfx_addr p) div 2 ^ host_bits p * 2 ^ host_bits p + (2 ^ host_bits p - 1)"
proof -
  obtain a n where p: "p = Prefix a n" using assms by (cases p) auto
  let ?m = "mask_addr n a"
  have m: "masked p = Prefix ?m n" using assms p masked_valid by simp
  have h: "host_bits p = bit_len a - n" by (simp add: p host_bits_def)
  have v: "addr_val ?m = addr_val a div 2 ^ (bit_len a - n) * 2 ^ (bit_len a - n)"
    by (simp add: addr_val_mask_addr)
  define r where "r = fold (\<lambda>i b. b[i div 8 := b ! (i div 8) OR drop_bit (i mod 8) 0x80])
      [n..<length (as_slice ?m) * 8] (as_slice ?m)"
  have len: "8 * length (as_slice ?m) = bit_len a" by (simp add: length_as_slice)
  then have lr: "8 * length r = bit_len a" by (simp add: r_def)
  have bn: "be_nat r = addr_val ?m + (2 ^ (bit_len a - n) - 1)"
    using assms p unfolding r_def by (subst be_nat_set_bits) (simp_all add: be_nat_as_slice len v)
  have l: "last_addr p = addr_from_slice r" unfolding last_addr_def m r_def Let_def by (simp add: p)
  have "a \<noteq> ZeroAddr" using assms p by simp
  note r = addr_from_slice_simps [OF lr this]
  show "bit_len (last_addr p) = bit_len (pfx_addr p)" "addr_zone (last_addr p) = []"
    "addr_val (last_addr p) =
       addr_val (pfx_addr p) div 2 ^ host_bits p * 2 ^ host_bits p + (2 ^ host_bits p - 1)"
    unfolding l r bn h v by (simp_all add: p)
qed

lemma addr_val_le_last_addr: "pfx_valid p \<Longrightarrow> addr_val (pfx_addr p) \<le> addr_val (last_addr p)"
  using div_mult_mod_eq [of "addr_val (pfx_addr p)" "2 ^ host_bits p"]
    mod_less_divisor [of "2 ^ host_bits p" "addr_val (pfx_addr p)"]
  by (simp add: last_addr_simps del: mod_less_divisor)

lemma unat_plus_1:
  "x + 1 = 0 \<longleftrightarrow> unat x + 1 = 2 ^ LENGTH('a)"
  "x + 1 \<noteq> 0 \<Longrightarrow> unat (x + 1) = unat x + 1" for x :: "'a::len word"
proof -
  have "unat (x + 1) = (unat x + 1) mod 2 ^ LENGTH('a)" by (simp add: unat_word_ariths)
  moreover have "unat x + 1 \<le> 2 ^ LENGTH('a)"
    using unat_bound [of x] by (simp only: Suc_le_eq Suc_eq_plus1 [symmetric])
  ultimately have *: "unat x + 1 = 2 ^ LENGTH('a) \<and> unat (x + 1) = 0 \<or>
      unat x + 1 < 2 ^ LENGTH('a) \<and> unat (x + 1) = unat x + 1"
    by (auto simp: le_less)
  then show "x + 1 = 0 \<longleftrightarrow> unat x + 1 = 2 ^ LENGTH('a)"
    by (auto simp: unsigned_eq_0_iff)
  show "unat (x + 1) = unat x + 1" if "x + 1 \<noteq> 0"
    using * that by (auto simp: unsigned_eq_0_iff)
qed

lemma addr_next_simps:
  assumes "addr_val a + 1 < 2 ^ bit_len a"
  shows "bit_len (addr_next a) = bit_len a" "addr_zone (addr_next a) = addr_zone a"
    "addr_val (addr_next a) = addr_val a + 1"
  using assms by (cases a; simp add: unat_plus_1)+

lemma addr_next_cases:
  "addr_next a = ZeroAddr \<or> bit_len (addr_next a) = bit_len a \<and> addr_val (addr_next a) = addr_val a + 1"
  by (cases a) (auto simp: unat_plus_1(2))

lemma biggest_block_cases:
  "\<exists>b \<le> bit_len lo. biggest_block lo hi = prefix_from lo b"
proof (cases "find (\<lambda>b. let c = prefix_from lo b in
    pfx_addr (masked c) = lo \<and> last_addr c \<le> hi) [0..<bit_len lo]")
  case (Some b)
  then have "b < bit_len lo" by (auto simp: find_Some_iff)
  with Some show ?thesis by (auto simp: biggest_block_def intro!: exI [of _ b])
qed (auto simp: biggest_block_def)

section \<open>The merge loop and the range loop\<close>

text \<open>\<^verbatim>\<open>appendRange\<close>.  With \<open>lo\<close> the zero address the Go loop panics in \<^verbatim>\<open>lastAddr\<close>; the model
  stops.\<close>

function append_range :: "prefix list \<Rightarrow> addr \<Rightarrow> addr \<Rightarrow> prefix list" where
  "append_range out lo hi =
     (if lo = ZeroAddr then out
      else let p = biggest_block lo hi; e = last_addr p in
        if e \<ge> hi then out @ [p]
        else append_range (out @ [p]) (addr_next e) hi)"
  by pat_completeness auto
termination
proof (relation "measure (\<lambda>(out, lo, hi).
    if lo = ZeroAddr then 0 else 2 ^ bit_len lo - addr_val lo)", goal_cases)
  case 1
  show ?case by simp
next
  case (2 out lo hi p e)
  obtain b where b: "b \<le> bit_len lo" "p = prefix_from lo b"
    using biggest_block_cases 2 by blast
  have v: "pfx_valid p" using b 2 by (simp add: pfx_valid_prefix_from)
  have "bit_len e = bit_len lo" "addr_val lo \<le> addr_val e"
    using last_addr_simps [OF v] addr_val_le_last_addr [OF v] b 2
    by (simp_all add: prefix_from_def)
  then show ?case
    using addr_next_cases [of e] addr_val_less [of lo] 2 by auto
qed

declare append_range.simps [simp del]

text \<open>\<^verbatim>\<open>Aggregate\<close> after the sort, and \<^verbatim>\<open>Aggregate\<close>.  \<^verbatim>\<open>sort.Slice\<close> may leave spans with equal
  \<^verbatim>\<open>from\<close> in any order; \<open>sort_key\<close> fixes one, and the choice does not matter
  (\<open>aggregate_any_sort\<close>).\<close>

definition prefix_span :: "prefix \<Rightarrow> span" where
  "prefix_span p = (let p = masked p in (pfx_addr p, last_addr p))"

definition aggregate_sorted :: "span list \<Rightarrow> prefix list" where
  "aggregate_sorted spans = foldl (\<lambda>out s. append_range out (fst s) (snd s)) [] (merge_spans spans)"

definition aggregate :: "prefix list \<Rightarrow> prefix list" where
  "aggregate ps =
     (if ps = [] then [] else aggregate_sorted (sort_key fst (map prefix_span ps)))"

section \<open>What a list of prefixes covers\<close>

text \<open>Specification: the addresses of a prefix, of a list of prefixes and of a span, and the
  maximal CIDR blocks inside a set of addresses.\<close>

definition addrs :: "prefix \<Rightarrow> addr set" where
  "addrs p = {a. contains p a}"

definition covered :: "prefix list \<Rightarrow> addr set" where
  "covered ps = (\<Union>p \<in> set ps. addrs p)"

definition span_set :: "span \<Rightarrow> addr set" where
  "span_set s = {a. bit_len a = bit_len (fst s) \<and> addr_zone a = [] \<and>
     addr_val (fst s) \<le> addr_val a \<and> addr_val a \<le> addr_val (snd s)}"

definition span_wf :: "span \<Rightarrow> bool" where
  "span_wf s \<longleftrightarrow> fst s \<noteq> ZeroAddr \<and> bit_len (snd s) = bit_len (fst s) \<and>
     addr_zone (fst s) = [] \<and> addr_zone (snd s) = [] \<and> addr_val (fst s) \<le> addr_val (snd s)"

definition maximal_in :: "addr set \<Rightarrow> prefix \<Rightarrow> bool" where
  "maximal_in S p \<longleftrightarrow> pfx_valid p \<and> masked p = p \<and> addrs p \<subseteq> S \<and>
     (\<forall>q. pfx_valid q \<longrightarrow> addrs p \<subseteq> addrs q \<longrightarrow> addrs q \<subseteq> S \<longrightarrow> addrs q \<subseteq> addrs p)"

lemma mem_addrs:
  "pfx_valid p \<Longrightarrow> a \<in> addrs p \<longleftrightarrow> bit_len a = bit_len (pfx_addr p) \<and> addr_zone a = [] \<and>
    addr_val a div 2 ^ host_bits p = addr_val (pfx_addr p) div 2 ^ host_bits p"
  by (simp add: addrs_def contains_iff)

lemma div_pow_interval: "v div 2 ^ h = q \<longleftrightarrow> q * 2 ^ h \<le> v \<and> v \<le> q * 2 ^ h + (2 ^ h - (1::nat))"
proof
  assume "v div 2 ^ h = q"
  then have "v = q * 2 ^ h + v mod 2 ^ h"
    using div_mult_mod_eq [of v "2 ^ h"] by simp
  moreover have "v mod 2 ^ h < 2 ^ h" by simp
  ultimately show "q * 2 ^ h \<le> v \<and> v \<le> q * 2 ^ h + (2 ^ h - 1)" by linarith
next
  assume "q * 2 ^ h \<le> v \<and> v \<le> q * 2 ^ h + (2 ^ h - 1)"
  moreover have "(0::nat) < 2 ^ h" by simp
  ultimately have "2 ^ h * q \<le> v" "v < 2 ^ h * Suc q" by (simp_all add: mult.commute, linarith)
  then show "v div 2 ^ h = q" by (rule div_nat_eqI)
qed

lemma addrs_laminar:
  assumes "pfx_valid p" "pfx_valid q" "a \<in> addrs p" "a \<in> addrs q" "host_bits q \<le> host_bits p"
  shows "addrs q \<subseteq> addrs p"
proof
  fix x assume x: "x \<in> addrs q"
  have e: "(2::nat) ^ host_bits p = 2 ^ host_bits q * 2 ^ (host_bits p - host_bits q)"
    using assms(5) by (simp flip: power_add)
  have "addr_val x div 2 ^ host_bits q = addr_val a div 2 ^ host_bits q"
    using x assms(2,4) by (simp add: mem_addrs)
  then have "addr_val x div 2 ^ host_bits p = addr_val a div 2 ^ host_bits p"
    unfolding e div_mult2_eq by simp
  then show "x \<in> addrs p" using x assms(1-4) by (simp add: mem_addrs)
qed

lemma addrs_convex:
  assumes "pfx_valid q" "x \<in> addrs q" "z \<in> addrs q" "bit_len y = bit_len x" "addr_zone y = []"
    "addr_val x \<le> addr_val y" "addr_val y \<le> addr_val z"
  shows "y \<in> addrs q"
proof -
  have "addr_val x div 2 ^ host_bits q \<le> addr_val y div 2 ^ host_bits q"
    "addr_val y div 2 ^ host_bits q \<le> addr_val z div 2 ^ host_bits q"
    using assms(6,7) by (simp_all add: div_le_mono)
  then show ?thesis using assms(1-5) by (simp add: mem_addrs)
qed

lemma pfx_addr_mem: "pfx_valid p \<Longrightarrow> pfx_addr p \<in> addrs p"
  by (cases p) (auto simp: mem_addrs)

lemma addr_val_masked:
  "pfx_valid p \<Longrightarrow> addr_val (pfx_addr (masked p)) =
     addr_val (pfx_addr p) div 2 ^ host_bits p * 2 ^ host_bits p"
  by (cases p) (auto simp: masked_valid addr_val_mask_addr host_bits_def simp del: masked.simps)

lemma host_bits_masked [simp]: "pfx_valid p \<Longrightarrow> host_bits (masked p) = host_bits p"
  by (simp add: host_bits_def)

lemma addrs_interval:
  assumes "pfx_valid p"
  shows "a \<in> addrs p \<longleftrightarrow> bit_len a = bit_len (pfx_addr p) \<and> addr_zone a = [] \<and>
    addr_val (pfx_addr (masked p)) \<le> addr_val a \<and> addr_val a \<le> addr_val (last_addr p)"
  using assms by (simp add: mem_addrs div_pow_interval addr_val_masked last_addr_simps)

lemma addrs_masked [simp]: "pfx_valid p \<Longrightarrow> addrs (masked p) = addrs p"
  by (auto simp: mem_addrs addr_val_masked)

lemma masked_masked [simp]:
  assumes "pfx_valid p" shows "masked (masked p) = masked p"
proof -
  obtain a n where p: "p = Prefix a n" using assms by (cases p) auto
  have "mask_addr n (mask_addr n a) = mask_addr n a"
    by (rule addr_eqI) (simp_all add: addr_val_mask_addr)
  then show ?thesis using assms p masked_valid [of a n] masked_valid [of "mask_addr n a" n] by simp
qed

lemma masked_le_last_addr:
  "pfx_valid p \<Longrightarrow> addr_val (pfx_addr (masked p)) \<le> addr_val (last_addr p)"
  by (rule order_trans [OF _ addr_val_le_last_addr])
    (simp_all add: addr_val_masked)

lemma prefix_span_spec:
  assumes "pfx_valid p"
  shows "span_wf (prefix_span p)" "span_set (prefix_span p) = addrs p"
proof -
  have l: "last_addr (masked p) = last_addr p" using assms by (simp add: last_addr_def)
  have "pfx_addr (masked p) \<noteq> ZeroAddr" using assms by (cases p) (auto simp: prefix_from_def)
  then show "span_wf (prefix_span p)"
    using assms masked_le_last_addr [OF assms]
    by (simp add: span_wf_def prefix_span_def Let_def l last_addr_simps(1,2))
  show "span_set (prefix_span p) = addrs p"
    using assms by (auto simp: span_set_def prefix_span_def Let_def l addrs_interval)
qed


section \<open>The range loop yields maximal blocks\<close>

lemma candidate_iff:
  assumes "lo \<noteq> ZeroAddr" "addr_zone lo = []" "b \<le> bit_len lo" "bit_len hi = bit_len lo" "addr_zone hi = []"
  shows "pfx_addr (masked (prefix_from lo b)) = lo \<and> last_addr (prefix_from lo b) \<le> hi \<longleftrightarrow>
    addrs (prefix_from lo b) \<subseteq> span_set (lo, hi)" (is "?l \<longleftrightarrow> ?r")
proof -
  let ?p = "prefix_from lo b"
  have v: "pfx_valid ?p" and pa: "pfx_addr ?p = lo"
    using assms by (auto simp: prefix_from_def)
  have le: "addr_val (pfx_addr (masked ?p)) \<le> addr_val lo"
    using v pa by (simp add: addr_val_masked)
  have l: "last_addr ?p \<le> hi \<longleftrightarrow> addr_val (last_addr ?p) \<le> addr_val hi"
    using assms pa v by (intro addr_le_same_family) (simp_all add: last_addr_simps)
  have first: "pfx_addr (masked ?p) = lo \<longleftrightarrow> addr_val lo \<le> addr_val (pfx_addr (masked ?p))"
    using v pa assms le by (auto intro!: addr_eqI)
  have ends: "pfx_addr (masked ?p) \<in> addrs ?p" "last_addr ?p \<in> addrs ?p"
    using v pfx_addr_mem [of "masked ?p"] masked_le_last_addr [OF v]
    by (simp, simp add: addrs_interval last_addr_simps(1,2))
  show ?thesis
  proof
    assume ?l
    then show ?r using first l v pa by (auto simp: span_set_def addrs_interval)
  next
    assume ?r
    then show ?l using ends first l by (auto simp: span_set_def)
  qed
qed

lemma biggest_block_spec:
  assumes "span_wf (lo, hi)"
  defines "p \<equiv> biggest_block lo hi"
  shows "pfx_valid p" "pfx_addr p = lo" "masked p = p" "lo \<in> addrs p" "addrs p \<subseteq> span_set (lo, hi)"
    and "\<And>q. pfx_valid q \<Longrightarrow> lo \<in> addrs q \<Longrightarrow> addrs q \<subseteq> span_set (lo, hi) \<Longrightarrow> addrs q \<subseteq> addrs p"
proof -
  have wf: "lo \<noteq> ZeroAddr" "addr_zone lo = []" "bit_len hi = bit_len lo" "addr_zone hi = []"
    "addr_val lo \<le> addr_val hi"
    using assms by (auto simp: span_wf_def)
  let ?ok = "\<lambda>b. addrs (prefix_from lo b) \<subseteq> span_set (lo, hi)"
  let ?P = "\<lambda>b. let c = prefix_from lo b in pfx_addr (masked c) = lo \<and> last_addr c \<le> hi"
  have P: "?P b \<longleftrightarrow> ?ok b" if "b \<le> bit_len lo" for b
    using candidate_iff [OF wf(1,2) that wf(3,4)] by (simp add: Let_def)
  have h: "host_bits (prefix_from lo b) = bit_len lo - b" if "b \<le> bit_len lo" for b
    using wf that by (simp add: prefix_from_def host_bits_def)
  have ok_last: "?ok (bit_len lo)"
    using wf by (auto simp: mem_addrs pfx_valid_prefix_from h span_set_def) (simp_all add: prefix_from_def)
  obtain b where b: "b \<le> bit_len lo" "p = prefix_from lo b" "?ok b" "\<And>c. c < b \<Longrightarrow> \<not> ?ok c"
  proof (cases "find ?P [0..<bit_len lo]")
    case None
    then have "\<not> ?ok c" if "c < bit_len lo" for c
      using that P [of c] by (auto simp: find_None_iff)
    with None ok_last show ?thesis by (intro that) (auto simp: p_def biggest_block_def)
  next
    case (Some b)
    then have "b < bit_len lo" "?P b" "\<forall>c < b. \<not> ?P c" by (auto simp: find_Some_iff)
    with Some P show ?thesis by (intro that [of b]) (auto simp: p_def biggest_block_def)
  qed
  show v: "pfx_valid p" and a: "pfx_addr p = lo"
    using b wf by (auto simp: prefix_from_def)
  show m: "lo \<in> addrs p" using pfx_addr_mem [OF v] a by simp
  show "addrs p \<subseteq> span_set (lo, hi)" using b by simp
  have "?P b" using P b by simp
  then have "pfx_addr (masked p) = lo" using b by (simp add: Let_def)
  then show "masked p = p" using v a by (cases p) (auto simp: prefix_from_def)
  fix q assume q: "pfx_valid q" "lo \<in> addrs q" "addrs q \<subseteq> span_set (lo, hi)"
  have bl: "bit_len lo = bit_len (pfx_addr q)" using q by (simp add: mem_addrs)
  have qb: "pfx_bits q \<le> bit_len lo" using q(1) bl by (cases q) auto
  have "addrs (prefix_from lo (pfx_bits q)) = addrs q"
    using q wf bl qb by (auto simp: mem_addrs pfx_valid_prefix_from h) (simp_all add: prefix_from_def host_bits_def)
  then have "?ok (pfx_bits q)" using q(3) by simp
  then have "b \<le> pfx_bits q" using b(4) not_le by blast
  then have "host_bits q \<le> host_bits p" using b h qb bl by (simp add: host_bits_def diff_le_mono2)
  then show "addrs q \<subseteq> addrs p" using addrs_laminar [OF v q(1) m q(2)] by simp
qed

abbreviation pfx_before :: "prefix \<Rightarrow> prefix \<Rightarrow> bool" where
  "pfx_before p q \<equiv> pfx_addr p < pfx_addr q"

text \<open>The loop invariant: a block of the whole span that contains the next start begins there.\<close>

definition fresh_start :: "addr \<Rightarrow> span \<Rightarrow> bool" where
  "fresh_start f0 s \<longleftrightarrow> (\<forall>q. pfx_valid q \<longrightarrow> fst s \<in> addrs q \<longrightarrow>
     addrs q \<subseteq> span_set (f0, snd s) \<longrightarrow> addrs q \<subseteq> span_set s)"

lemma next_start:
  assumes wf: "span_wf (lo, hi)" and p: "p = biggest_block lo hi" and more: "\<not> last_addr p \<ge> hi"
  defines "lo' \<equiv> addr_next (last_addr p)"
  shows "span_wf (lo', hi)" "bit_len lo' = bit_len lo" "addr_val lo' = addr_val (last_addr p) + 1"
    "addr_val lo < addr_val lo'"
    "span_set (lo, hi) = addrs p \<union> span_set (lo', hi)"
proof -
  note bb = biggest_block_spec [OF wf, folded p]
  have w: "bit_len hi = bit_len lo" "addr_zone hi = []" "addr_zone lo = []" "lo \<noteq> ZeroAddr"
    using wf by (auto simp: span_wf_def)
  note la = last_addr_simps(1,2) [OF bb(1), unfolded bb(2)]
  have "last_addr p < hi" using more by simp
  then have less: "addr_val (last_addr p) < addr_val hi"
    using la w by (simp add: addr_less_same_family)
  then have "addr_val (last_addr p) + 1 < 2 ^ bit_len (last_addr p)"
    using addr_val_less [of hi] la w by simp
  note nx = addr_next_simps [OF this]
  show l': "bit_len lo' = bit_len lo" "addr_val lo' = addr_val (last_addr p) + 1"
    using nx la by (simp_all add: lo'_def)
  show "addr_val lo < addr_val lo'"
    using addr_val_le_last_addr [OF bb(1)] bb(2) l' by simp
  have "lo' \<noteq> ZeroAddr" using l' w by (metis bit_len_eq_0)
  then show "span_wf (lo', hi)" using w l' nx la less by (simp add: span_wf_def lo'_def)
  show "span_set (lo, hi) = addrs p \<union> span_set (lo', hi)"
    using less l' bb(2,3) addr_val_le_last_addr [OF bb(1)]
    by (auto simp: addrs_interval [OF bb(1)] span_set_def)
qed

lemma fresh_start_next:
  assumes wf: "span_wf (lo, hi)" and p: "p = biggest_block lo hi" and more: "\<not> last_addr p \<ge> hi"
    and fresh: "fresh_start f0 (lo, hi)" and f0: "bit_len f0 = bit_len lo"
  shows "fresh_start f0 (addr_next (last_addr p), hi)"
  unfolding fresh_start_def fst_conv snd_conv
proof (intro allI impI subsetI)
  let ?lo' = "addr_next (last_addr p)"
  note bb = biggest_block_spec [OF wf, folded p] and nx = next_start [OF wf p more]
  fix q x
  assume q: "pfx_valid q" "?lo' \<in> addrs q" "addrs q \<subseteq> span_set (f0, hi)" and x: "x \<in> addrs q"
  show "x \<in> span_set (?lo', hi)"
  proof (rule ccontr)
    assume "x \<notin> span_set (?lo', hi)"
    then have xl: "addr_val x \<le> addr_val (last_addr p)" and xb: "bit_len x = bit_len (last_addr p)"
      using x q(3) nx(2,3) f0 last_addr_simps(1) [OF bb(1)] bb(2) by (auto simp: span_set_def)
    have lq: "last_addr p \<in> addrs q"
      by (rule addrs_convex [OF q(1) x q(2)])
        (use xl xb nx(3) last_addr_simps(2) [OF bb(1)] in simp_all)
    have lp: "last_addr p \<in> addrs p"
      using masked_le_last_addr [OF bb(1)] last_addr_simps(1,2) [OF bb(1)]
      by (simp add: addrs_interval [OF bb(1)])
    have "?lo' \<notin> addrs p" using nx(3) by (simp add: addrs_interval [OF bb(1)])
    then have "addrs p \<subseteq> addrs q"
      using addrs_laminar [OF bb(1) q(1) lp lq] addrs_laminar [OF q(1) bb(1) lq lp] q(2)
      by (meson nle_le subsetD)
    then have lo: "lo \<in> addrs q" using bb(4) by blast
    then have "addrs q \<subseteq> span_set (lo, hi)"
      using fresh q(1,3) by (simp add: fresh_start_def)
    then have "addrs q \<subseteq> addrs p" using bb(6) q(1) lo by blast
    with q(2) \<open>?lo' \<notin> addrs p\<close> show False by blast
  qed
qed

lemma append_range_spec:
  assumes "span_wf (lo, hi)" "fresh_start f0 (lo, hi)" "bit_len f0 = bit_len lo" "addr_val f0 \<le> addr_val lo"
  shows "\<exists>bs. append_range out lo hi = out @ bs \<and> covered bs = span_set (lo, hi) \<and>
    (\<forall>p \<in> set bs. maximal_in (span_set (f0, hi)) p \<and> bit_len (pfx_addr p) = bit_len lo \<and>
       addr_val lo \<le> addr_val (pfx_addr p)) \<and> sorted_wrt pfx_before bs"
  using assms
proof (induction out lo hi rule: append_range.induct)
  case (1 out lo hi)
  define p where "p = biggest_block lo hi"
  note bb = biggest_block_spec [OF 1(2), folded p_def]
  have lo0: "lo \<noteq> ZeroAddr" using 1(2) by (simp add: span_wf_def)
  have sub: "span_set (lo, hi) \<subseteq> span_set (f0, hi)" using 1(4,5) by (auto simp: span_set_def)
  have mx: "maximal_in (span_set (f0, hi)) p"
    unfolding maximal_in_def
  proof (intro conjI allI impI)
    fix q assume "pfx_valid q" "addrs p \<subseteq> addrs q" "addrs q \<subseteq> span_set (f0, hi)"
    then show "addrs q \<subseteq> addrs p"
      using bb(4,6) 1(3) by (simp add: fresh_start_def) blast
  qed (use bb sub in auto)
  show ?case
  proof (cases "last_addr p \<ge> hi")
    case True
    have "bit_len hi = bit_len lo" "addr_zone hi = []" using 1(2) by (auto simp: span_wf_def)
    then have "addr_val hi \<le> addr_val (last_addr p)"
      using True last_addr_simps(1,2) [OF bb(1)] bb(2) by (simp add: addr_le_same_family)
    then have "span_set (lo, hi) \<subseteq> addrs p"
      using bb(2,3) by (auto simp: span_set_def addrs_interval [OF bb(1)])
    then have "covered [p] = span_set (lo, hi)" using bb(5) by (auto simp: covered_def)
    then show ?thesis
      using lo0 True mx bb(2) by (subst append_range.simps) (auto simp: Let_def p_def [symmetric])
  next
    case False
    note nx = next_start [OF 1(2) p_def False]
    obtain bs where bs: "append_range (out @ [p]) (addr_next (last_addr p)) hi = (out @ [p]) @ bs"
      "covered bs = span_set (addr_next (last_addr p), hi)" "sorted_wrt pfx_before bs"
      "\<forall>p' \<in> set bs. maximal_in (span_set (f0, hi)) p' \<and> bit_len (pfx_addr p') = bit_len lo \<and>
         addr_val (addr_next (last_addr p)) \<le> addr_val (pfx_addr p')"
      using 1(1) [OF lo0 p_def refl False nx(1) fresh_start_next [OF 1(2) p_def False 1(3,4)]]
        nx(2,4) 1(4,5) by auto
    have "append_range out lo hi = out @ p # bs"
      using lo0 False bs(1) by (subst append_range.simps) (simp add: Let_def p_def [symmetric])
    moreover have "covered (p # bs) = span_set (lo, hi)"
      using bs(2) nx(5) by (simp add: covered_def)
    moreover have "pfx_before p q" if "q \<in> set bs" for q
      using bs(4) that nx(4) bb(2) by (force simp: less_le_not_le less_eq_addr_iff)
    ultimately show ?thesis using bs(3,4) mx bb(2) nx(4) by (intro exI [of _ "p # bs"]) auto
  qed
qed

section \<open>The merge loop keeps the spans apart\<close>

definition separated :: "span \<Rightarrow> span \<Rightarrow> bool" where
  "separated s t \<longleftrightarrow> bit_len (fst s) < bit_len (fst t) \<or>
     bit_len (fst s) = bit_len (fst t) \<and> addr_val (snd s) + 1 < addr_val (fst t)"

definition merge_inv :: "span list \<Rightarrow> span set \<Rightarrow> bool" where
  "merge_inv merged seen \<longleftrightarrow> merged \<noteq> [] \<and> (\<forall>s \<in> set merged. span_wf s) \<and>
     sorted_wrt separated merged \<and> (\<Union>s \<in> set merged. span_set s) = (\<Union>s \<in> seen. span_set s)"

lemma separated_trans_wf: "separated s t \<Longrightarrow> span_wf t \<Longrightarrow> separated t u \<Longrightarrow> separated s u"
  by (auto simp: separated_def span_wf_def)

lemma joins_iff:
  assumes "span_wf l" "span_wf s" "fst l \<le> fst s"
  shows "bit_len (fst s) = bit_len (snd l) \<and> (fst s \<le> snd l \<or> addr_next (snd l) = fst s) \<longleftrightarrow>
    \<not> separated l s"
proof -
  have w: "bit_len (snd l) = bit_len (fst l)" "addr_zone (fst l) = []" "addr_zone (snd l) = []"
    "addr_zone (fst s) = []" "fst s \<noteq> ZeroAddr"
    using assms by (auto simp: span_wf_def)
  have nxt: "addr_next (snd l) = fst s \<longleftrightarrow> addr_val (fst s) = addr_val (snd l) + 1"
    if "bit_len (fst s) = bit_len (snd l)"
  proof
    assume "addr_next (snd l) = fst s"
    then show "addr_val (fst s) = addr_val (snd l) + 1" using addr_next_cases [of "snd l"] w by auto
  next
    assume a: "addr_val (fst s) = addr_val (snd l) + 1"
    then have "addr_val (snd l) + 1 < 2 ^ bit_len (snd l)" using addr_val_less [of "fst s"] that by simp
    note nx = addr_next_simps [OF this]
    show "addr_next (snd l) = fst s"
      by (rule addr_eqI) (simp_all only: nx a that w)
  qed
  have bl: "bit_len (fst l) \<le> bit_len (fst s)" using assms(3) by (auto simp: less_eq_addr_iff)
  show ?thesis
  proof (cases "bit_len (fst s) = bit_len (snd l)")
    case True
    have "fst s \<le> snd l \<longleftrightarrow> addr_val (fst s) \<le> addr_val (snd l)"
      by (rule addr_le_same_family [OF True w(4,3)])
    then show ?thesis using True w(1) nxt [OF True] by (simp add: separated_def) linarith
  next
    case False
    then show ?thesis using w(1) bl by (simp add: separated_def)
  qed
qed

lemma merge_step_inv:
  assumes inv: "merge_inv merged seen" and wf: "span_wf s" and le: "fst (last merged) \<le> fst s"
  shows "merge_inv (merge_step merged s) (insert s seen)"
    "fst (last (merge_step merged s)) \<in> {fst (last merged), fst s}"
proof -
  obtain ms l where ms: "merged = ms @ [l]" using inv by (metis merge_inv_def rev_exhaust)
  have l: "span_wf l" "fst l \<le> fst s" and un: "(\<Union>t \<in> set ms. span_set t) \<union> span_set l = (\<Union>t \<in> seen. span_set t)"
    and srt: "sorted_wrt separated (ms @ [l])" and all: "\<forall>t \<in> set ms. span_wf t"
    using inv le by (auto simp: merge_inv_def ms)
  note j = joins_iff [OF l(1) wf l(2)]
  have w: "bit_len (snd l) = bit_len (fst l)" "bit_len (snd s) = bit_len (fst s)" "addr_zone (snd l) = []"
    "addr_zone (snd s) = []" "addr_val (fst l) \<le> addr_val (snd l)" "addr_val (fst s) \<le> addr_val (snd s)"
    using l wf by (auto simp: span_wf_def)
  consider (apart) "separated l s" | (grow) "\<not> separated l s" "snd s > snd l" | (inside) "\<not> separated l s" "\<not> snd s > snd l"
    by blast
  then have "merge_inv (merge_step merged s) (insert s seen) \<and>
    fst (last (merge_step merged s)) \<in> {fst (last merged), fst s}"
  proof cases
    case apart
    then have "merge_step merged s = ms @ [l, s]" using j by (auto simp: merge_step_def ms Let_def)
    moreover have "separated t s" if "t \<in> set ms" for t
      using that srt l(1) apart by (auto simp: sorted_wrt_append intro: separated_trans_wf)
    ultimately show ?thesis
      using apart srt all l wf un by (auto simp: merge_inv_def sorted_wrt_append ms)
  next
    case grow
    have b: "bit_len (fst s) = bit_len (fst l)" using j grow w by auto
    have v: "addr_val (snd l) < addr_val (snd s)" using grow b w by (simp add: addr_less_same_family)
    have fl: "addr_val (fst l) \<le> addr_val (fst s)"
      using l(2) b by (auto simp: less_eq_addr_iff)
    have "merge_step merged s = ms @ [(fst l, snd s)]"
      using j grow by (auto simp: merge_step_def ms Let_def)
    moreover have "span_set (fst l, snd s) = span_set l \<union> span_set s"
      using grow(1) b v fl by (auto simp: span_set_def separated_def)
    moreover have "span_wf (fst l, snd s)" using l(1) b w v by (auto simp: span_wf_def)
    moreover have "separated t (fst l, snd s)" if "t \<in> set ms" for t
      using that srt by (auto simp: sorted_wrt_append separated_def)
    ultimately show ?thesis
      using srt all un by (auto simp: merge_inv_def sorted_wrt_append ms)
  next
    case inside
    have b: "bit_len (fst s) = bit_len (fst l)" using j inside w by auto
    have v: "addr_val (snd s) \<le> addr_val (snd l)" using inside b w by (simp add: addr_less_same_family)
    have fl: "addr_val (fst l) \<le> addr_val (fst s)"
      using l(2) b by (auto simp: less_eq_addr_iff)
    have "merge_step merged s = merged" using j inside by (auto simp: merge_step_def ms Let_def)
    moreover have "span_set s \<subseteq> span_set l" using b v fl by (auto simp: span_set_def)
    ultimately show ?thesis using inv un by (auto simp: merge_inv_def ms)
  qed
  then show "merge_inv (merge_step merged s) (insert s seen)"
    "fst (last (merge_step merged s)) \<in> {fst (last merged), fst s}" by blast+
qed

lemma merge_loop_inv:
  assumes "merge_inv merged seen" "\<forall>s \<in> set rest. span_wf s" "sorted (fst (last merged) # map fst rest)"
  shows "merge_inv (foldl merge_step merged rest) (seen \<union> set rest)"
  using assms
proof (induction rest arbitrary: merged seen)
  case (Cons s rest)
  note st = merge_step_inv [OF Cons.prems(1), of s]
  have "merge_inv (foldl merge_step (merge_step merged s) rest) (insert s seen \<union> set rest)"
    using Cons.prems st by (intro Cons.IH) auto
  then show ?case by simp
qed simp

lemma merge_spans_spec:
  assumes "ss \<noteq> []" "\<forall>s \<in> set ss. span_wf s" "sorted (map fst ss)"
  shows "merge_inv (merge_spans ss) (set ss)"
proof -
  obtain s rest where ss: "ss = s # rest" using assms(1) by (cases ss) auto
  have "merge_inv [s] {s}" using assms ss by (simp add: merge_inv_def)
  then show ?thesis using merge_loop_inv [of "[s]" "{s}" rest] assms ss by (simp add: merge_spans_def)
qed

section \<open>Aggregation is canonical\<close>

lemma addr_exists: "v < 2 ^ bit_len a \<Longrightarrow> \<exists>y. bit_len y = bit_len a \<and> addr_zone y = [] \<and> addr_val y = v"
proof (cases a)
  case (IPv4 x)
  then show "v < 2 ^ bit_len a \<Longrightarrow> ?thesis" by (intro exI [of _ "IPv4 (of_nat v)"]) (simp add: unat_of_nat)
next
  case (IPv6 x z)
  then show "v < 2 ^ bit_len a \<Longrightarrow> ?thesis" by (intro exI [of _ "IPv6 (of_nat v) []"]) (simp add: unat_of_nat)
qed (auto intro: exI [of _ ZeroAddr])

lemma block_in_one_span:
  assumes sep: "sorted_wrt separated ms" and wf: "\<forall>t \<in> set ms. span_wf t" and s: "s \<in> set ms"
    and q: "pfx_valid q" "addrs q \<subseteq> (\<Union>t \<in> set ms. span_set t)" and a: "a \<in> addrs q" "a \<in> span_set s"
  shows "addrs q \<subseteq> span_set s"
proof
  have other: "u = s \<or> separated s u \<or> separated u s" if "u \<in> set ms" for u
    using sep s that by (metis in_set_conv_nth linorder_neqE_nat sorted_wrt_iff_nth_less)
  have sw: "bit_len (snd s) = bit_len (fst s)" "addr_val (fst s) \<le> addr_val (snd s)"
    using wf s by (auto simp: span_wf_def)
  have as: "bit_len a = bit_len (fst s)" "addr_val (fst s) \<le> addr_val a" "addr_val a \<le> addr_val (snd s)"
    using a by (auto simp: span_set_def)
  fix x assume x: "x \<in> addrs q"
  then obtain t where t: "t \<in> set ms" "x \<in> span_set t" using q by blast
  have b: "bit_len x = bit_len a" using x a q by (simp add: mem_addrs)
  have gap: False if y: "bit_len y = bit_len a" "addr_zone y = []" "y \<in> addrs q" "y \<notin> span_set s"
      "addr_val y = addr_val (snd s) + 1 \<or> addr_val y + 1 = addr_val (fst s)" for y
  proof -
    obtain u where u: "u \<in> set ms" "y \<in> span_set u" using y(3) q by blast
    have "u \<noteq> s" using u y by blast
    moreover have "span_wf u" using u wf by blast
    ultimately show False
      using other [OF u(1)] u(2) y as sw by (auto simp: separated_def span_set_def span_wf_def)
  qed
  show "x \<in> span_set s"
  proof (rule ccontr)
    assume nx: "x \<notin> span_set s"
    then have ts: "separated s t \<or> separated t s" using other [OF t(1)] t(2) by blast
    have tw: "span_wf t" using wf t by blast
    show False
      using ts
    proof
      assume "separated s t"
      then have less: "addr_val (snd s) + 1 < addr_val x"
        using t b as by (auto simp: separated_def span_set_def)
      then obtain y where y: "bit_len y = bit_len a" "addr_zone y = []" "addr_val y = addr_val (snd s) + 1"
        using addr_exists [of "addr_val (snd s) + 1" a] addr_val_less [of x] b by auto
      moreover have "y \<in> addrs q" by (rule addrs_convex [OF q(1) a(1) x]) (use y as less in auto)
      ultimately show False using gap [of y] by (auto simp: span_set_def)
    next
      assume "separated t s"
      then have less: "addr_val x + 1 < addr_val (fst s)"
        using t b as tw by (auto simp: separated_def span_set_def span_wf_def)
      then obtain y where y: "bit_len y = bit_len a" "addr_zone y = []" "addr_val y = addr_val (fst s) - 1"
        using addr_exists [of "addr_val (fst s) - 1" a] addr_val_less [of "fst s"] as
        by (metis diff_le_self le_less_trans)
      moreover have "y \<in> addrs q" by (rule addrs_convex [OF q(1) x a(1)]) (use y as less b in auto)
      moreover have "y \<notin> span_set s" "addr_val y + 1 = addr_val (fst s)"
        using y(3) less by (auto simp: span_set_def)
      ultimately show False using gap [of y] by blast
    qed
  qed
qed


lemma maximal_in_union:
  assumes "sorted_wrt separated ms" "\<forall>t \<in> set ms. span_wf t" "s \<in> set ms" "maximal_in (span_set s) p"
  shows "maximal_in (\<Union>t \<in> set ms. span_set t) p"
  unfolding maximal_in_def
proof (intro conjI allI impI)
  have p: "pfx_valid p" "masked p = p" "addrs p \<subseteq> span_set s" using assms(4) by (auto simp: maximal_in_def)
  then show "pfx_valid p" "masked p = p" "addrs p \<subseteq> (\<Union>t \<in> set ms. span_set t)" using assms(3) by auto
  fix q assume q: "pfx_valid q" "addrs p \<subseteq> addrs q" "addrs q \<subseteq> (\<Union>t \<in> set ms. span_set t)"
  have "pfx_addr p \<in> addrs q" "pfx_addr p \<in> span_set s" using pfx_addr_mem [OF p(1)] q(2) p(3) by auto
  then have "addrs q \<subseteq> span_set s" by (rule block_in_one_span [OF assms(1-3) q(1,3)])
  then show "addrs q \<subseteq> addrs p" using assms(4) q(1,2) by (simp add: maximal_in_def)
qed

lemma maximal_in_mem: "maximal_in S p \<Longrightarrow> pfx_addr p \<in> S"
  using pfx_addr_mem unfolding maximal_in_def by blast

lemma addr_lessI:
  "bit_len a < bit_len b \<or> bit_len a = bit_len b \<and> addr_val a < addr_val b \<Longrightarrow> a < b"
  by (auto simp: less_addr_def addr_key_def)

lemma append_ranges_spec:
  assumes "\<forall>s \<in> set ms. span_wf s" "sorted_wrt separated ms"
  shows "\<exists>bs. foldl (\<lambda>out s. append_range out (fst s) (snd s)) out ms = out @ bs \<and>
    covered bs = (\<Union>s \<in> set ms. span_set s) \<and> sorted_wrt pfx_before bs \<and>
    (\<forall>p \<in> set bs. \<exists>s \<in> set ms. maximal_in (span_set s) p)"
  using assms
proof (induction ms arbitrary: out)
  case (Cons s ms)
  have w: "span_wf (fst s, snd s)" using Cons.prems by simp
  obtain as where as: "append_range out (fst s) (snd s) = out @ as" "covered as = span_set s"
    "sorted_wrt pfx_before as" "\<forall>p \<in> set as. maximal_in (span_set s) p"
    using append_range_spec [OF w, of "fst s" out] by (auto simp: fresh_start_def)
  obtain bs where bs: "foldl (\<lambda>out s. append_range out (fst s) (snd s)) (out @ as) ms = (out @ as) @ bs"
    "covered bs = (\<Union>s \<in> set ms. span_set s)" "sorted_wrt pfx_before bs"
    "\<forall>p \<in> set bs. \<exists>s \<in> set ms. maximal_in (span_set s) p"
    using Cons.IH [of "out @ as"] Cons.prems by auto
  have "pfx_before p q" if p: "p \<in> set as" and q: "q \<in> set bs" for p q
  proof -
    obtain t where t: "t \<in> set ms" "maximal_in (span_set t) q" using bs(4) q by blast
    have "separated s t" using t Cons.prems by simp
    moreover have "pfx_addr p \<in> span_set s" "pfx_addr q \<in> span_set t"
      using as(4) p t maximal_in_mem by blast+
    ultimately have "bit_len (pfx_addr p) < bit_len (pfx_addr q) \<or>
      bit_len (pfx_addr p) = bit_len (pfx_addr q) \<and> addr_val (pfx_addr p) < addr_val (pfx_addr q)"
      unfolding span_set_def separated_def by auto
    then show ?thesis by (rule addr_lessI)
  qed
  note before = this
  show ?case 
  proof (intro exI [of _ "as @ bs"] conjI)
    show "foldl (\<lambda>out s. append_range out (fst s) (snd s)) out (s # ms) = out @ as @ bs"
      using as(1) bs(1) by simp
    show "covered (as @ bs) = (\<Union>s \<in> set (s # ms). span_set s)"
      using as(2) bs(2) by (simp add: covered_def)
    show "sorted_wrt pfx_before (as @ bs)" using as(3) bs(3) before by (simp add: sorted_wrt_append)
    show "\<forall>p \<in> set (as @ bs). \<exists>t \<in> set (s # ms). maximal_in (span_set t) p"
      using as(4) bs(4) by auto
  qed
qed (simp add: covered_def)

lemma aggregate_sorted_spec:
  assumes "ss \<noteq> []" "\<forall>s \<in> set ss. span_wf s" "sorted (map fst ss)"
  shows "covered (aggregate_sorted ss) = (\<Union>s \<in> set ss. span_set s)"
    "sorted_wrt pfx_before (aggregate_sorted ss)"
    "\<forall>p \<in> set (aggregate_sorted ss). maximal_in (\<Union>s \<in> set ss. span_set s) p"
proof -
  have inv: "\<forall>s \<in> set (merge_spans ss). span_wf s" "sorted_wrt separated (merge_spans ss)"
    "(\<Union>s \<in> set (merge_spans ss). span_set s) = (\<Union>s \<in> set ss. span_set s)"
    using merge_spans_spec [OF assms] by (auto simp: merge_inv_def)
  show "covered (aggregate_sorted ss) = (\<Union>s \<in> set ss. span_set s)"
    "sorted_wrt pfx_before (aggregate_sorted ss)"
    "\<forall>p \<in> set (aggregate_sorted ss). maximal_in (\<Union>s \<in> set ss. span_set s) p"
    using append_ranges_spec [OF inv(1,2), of "[]"] maximal_in_union [OF inv(2,1)]
    by (auto simp: aggregate_sorted_def inv(3))
qed

text \<open>A masked prefix is determined by its addresses, so the maximal blocks of a set are the
  only ascending list of maximal blocks that covers it.\<close>

lemma addrs_inj:
  assumes "pfx_valid p" "pfx_valid q" "masked p = p" "masked q = q" "addrs p = addrs q"
  shows "p = q"
proof -
  have b: "bit_len (pfx_addr p) = bit_len (pfx_addr q)"
    using pfx_addr_mem [OF assms(1)] assms(2,5) by (simp add: mem_addrs)
  have ends: "pfx_addr r \<in> addrs r \<and> last_addr r \<in> addrs r \<and> addr_zone (pfx_addr r) = []"
    if "pfx_valid r" "masked r = r" for r
    using that masked_le_last_addr [OF that(1)] pfx_addr_mem [OF that(1)]
    by (auto simp: addrs_interval last_addr_simps(1,2) mem_addrs)
  have "addr_val (pfx_addr p) = addr_val (pfx_addr q)" "addr_val (last_addr p) = addr_val (last_addr q)"
    using ends [OF assms(1,3)] ends [OF assms(2,4)] assms
    by (auto simp: addrs_interval intro!: order_antisym)
  moreover from this have a: "pfx_addr p = pfx_addr q"
    using b ends [OF assms(1,3)] ends [OF assms(2,4)] by (intro addr_eqI) auto
  moreover have "addr_val (last_addr r) = addr_val (pfx_addr r) + (2 ^ host_bits r - 1)"
    if "pfx_valid r" "masked r = r" for r
    using last_addr_simps(3) [OF that(1)] addr_val_masked [OF that(1)] that(2) by simp
  ultimately have "addr_val (pfx_addr p) + (2 ^ host_bits p - 1) = addr_val (pfx_addr p) + (2 ^ host_bits q - 1)"
    using assms by metis
  moreover have "(0::nat) < 2 ^ host_bits p" "(0::nat) < 2 ^ host_bits q" by simp_all
  ultimately have "(2::nat) ^ host_bits p = 2 ^ host_bits q" by linarith
  then have "host_bits p = host_bits q" by simp
  then show ?thesis using a assms(1,2) b by (cases p; cases q) (auto simp: host_bits_def)
qed

lemma maximal_unique:
  assumes "maximal_in S p" "maximal_in S q" "a \<in> addrs p" "a \<in> addrs q"
  shows "p = q"
proof -
  have v: "pfx_valid p" "pfx_valid q" "masked p = p" "masked q = q"
    using assms by (auto simp: maximal_in_def)
  have "addrs p \<subseteq> addrs q \<or> addrs q \<subseteq> addrs p"
    using addrs_laminar v(1,2) assms(3,4) by (metis nle_le)
  then have "addrs p = addrs q" using assms(1,2) by (auto simp: maximal_in_def)
  then show ?thesis by (rule addrs_inj [OF v])
qed

lemma cover_of_maximal:
  assumes "covered bs = S" "\<forall>p \<in> set bs. maximal_in S p"
  shows "set bs = {p. maximal_in S p}"
proof (intro set_eqI iffI)
  fix p assume p: "p \<in> {p. maximal_in S p}"
  then have a: "pfx_addr p \<in> addrs p" "pfx_addr p \<in> S" using pfx_addr_mem by (auto simp: maximal_in_def)
  then obtain q where "q \<in> set bs" "pfx_addr p \<in> addrs q" using assms(1) by (auto simp: covered_def)
  then show "p \<in> set bs" using maximal_unique p a assms(2) by blast
qed (use assms in auto)

lemma ascending_unique:
  assumes "sorted_wrt pfx_before bs" "sorted_wrt pfx_before cs" "set bs = set cs"
  shows "bs = cs"
proof -
  have s: "sorted_wrt (<) (map pfx_addr bs)" "sorted_wrt (<) (map pfx_addr cs)"
    using assms by (simp_all add: sorted_wrt_map)
  then have "map pfx_addr bs = map pfx_addr cs"
    using assms(3) by (intro strict_sorted_equal) simp_all
  moreover have "inj_on pfx_addr (set bs \<union> set cs)"
    using s(1) assms(3) by (simp add: strict_sorted_iff distinct_map)
  ultimately show ?thesis using map_inj_on by blast
qed

lemma aggregate_canonical:
  assumes "\<forall>p \<in> set ps. pfx_valid p"
  shows "set (aggregate ps) = {p. maximal_in (covered ps) p}" "sorted_wrt pfx_before (aggregate ps)"
    "covered (aggregate ps) = covered ps"
proof -
  have "covered (aggregate ps) = covered ps \<and> sorted_wrt pfx_before (aggregate ps) \<and>
    (\<forall>p \<in> set (aggregate ps). maximal_in (covered ps) p)"
  proof (cases "ps = []")
    case False
    let ?ss = "sort_key fst (map prefix_span ps)"
    have c: "(\<Union>s \<in> set ?ss. span_set s) = covered ps"
      using assms prefix_span_spec(2) by (auto simp: covered_def)
    have "?ss \<noteq> []" using False by (metis Nil_is_map_conv length_0_conv length_sort)
    moreover have "\<forall>s \<in> set ?ss. span_wf s" using assms prefix_span_spec(1) by auto
    moreover have "sorted (map fst ?ss)" by (rule sorted_sort_key)
    ultimately show ?thesis
      using aggregate_sorted_spec [of ?ss] unfolding c by (simp add: aggregate_def False)
  qed (simp add: aggregate_def covered_def)
  then show "covered (aggregate ps) = covered ps" "sorted_wrt pfx_before (aggregate ps)"
    "set (aggregate ps) = {p. maximal_in (covered ps) p}"
    using cover_of_maximal by blast+
qed

section \<open>Overlap\<close>

lemma div_eq_coarser:
  "x div 2 ^ h = y div 2 ^ h \<Longrightarrow> h \<le> k \<Longrightarrow> x div 2 ^ k = y div (2::nat) ^ k"
proof -
  assume "x div 2 ^ h = y div 2 ^ h" "h \<le> k"
  moreover have "(2::nat) ^ k = 2 ^ h * 2 ^ (k - h)" using \<open>h \<le> k\<close> by (simp flip: power_add)
  ultimately show ?thesis by (simp only: div_mult2_eq)
qed

lemma overlaps_iff:
  assumes "pfx_valid p" "pfx_valid q"
  shows "overlaps p q \<longleftrightarrow> addrs p \<inter> addrs q \<noteq> {}"
proof -
  obtain a m b n where p: "p = Prefix a m" and q: "q = Prefix b n" using assms by (cases p; cases q) auto
  let ?k = "min m n"
  have w: "a \<noteq> ZeroAddr" "b \<noteq> ZeroAddr" "addr_zone a = []" "addr_zone b = []" "m \<le> bit_len a" "n \<le> bit_len b"
    using assms p q by auto
  have fam: "is4 a = is4 b \<longleftrightarrow> bit_len a = bit_len b"
    using w bit_len_cases [of a] bit_len_cases [of b] by (auto simp: is4_def)
  show ?thesis
  proof (cases "bit_len a = bit_len b")
    case False
    then have "addrs p \<inter> addrs q = {}" using assms p q by (auto simp: mem_addrs)
    moreover have "Prefix a m \<noteq> Prefix b n" using False by auto
    ultimately show ?thesis using False fam by (simp add: p q)
  next
    case True
    let ?W = "bit_len a"
    have vk: "pfx_valid (Prefix a ?k)" "pfx_valid (Prefix b ?k)" using w True by auto
    have "pfx_addr (masked (Prefix a ?k)) = pfx_addr (masked (Prefix b ?k)) \<longleftrightarrow>
        addr_val a div 2 ^ (?W - ?k) = addr_val b div 2 ^ (?W - ?k)" (is "?A = ?B \<longleftrightarrow> ?E")
    proof
      have av: "addr_val ?A = addr_val a div 2 ^ (?W - ?k) * 2 ^ (?W - ?k)"
        "addr_val ?B = addr_val b div 2 ^ (?W - ?k) * 2 ^ (?W - ?k)"
        using addr_val_masked [OF vk(1)] addr_val_masked [OF vk(2)] True by (simp_all add: host_bits_def)
      show "?A = ?B \<Longrightarrow> ?E" using av by (metis mult_cancel2 power_not_zero zero_neq_numeral)
      show "?E \<Longrightarrow> ?A = ?B" using av vk True by (intro addr_eqI) (simp_all del: masked.simps)
    qed
    moreover have "addrs p \<inter> addrs q \<noteq> {} \<longleftrightarrow> ?E"
    proof
      assume "addrs p \<inter> addrs q \<noteq> {}"
      then obtain x where "x \<in> addrs p" "x \<in> addrs q" by blast
      then have "addr_val x div 2 ^ (?W - m) = addr_val a div 2 ^ (?W - m)"
        "addr_val x div 2 ^ (?W - n) = addr_val b div 2 ^ (?W - n)"
        using assms True by (auto simp: mem_addrs p q host_bits_def)
      then show ?E by (metis div_eq_coarser diff_le_mono2 min.cobounded1 min.cobounded2)
    next
      assume E: ?E
      have "b \<in> addrs p \<or> a \<in> addrs q"
        using E assms True w by (cases "m \<le> n") (auto simp: mem_addrs p q host_bits_def min_def)
      then show "addrs p \<inter> addrs q \<noteq> {}"
        using pfx_addr_mem [OF assms(1)] pfx_addr_mem [OF assms(2)] by (auto simp: p q)
    qed
    moreover have "?k = 0 \<Longrightarrow> ?E" "Prefix a m = Prefix b n \<Longrightarrow> ?E"
      using addr_val_less [of a] addr_val_less [of b] True by auto
    ultimately show ?thesis using True fam by (auto simp: p q Let_def simp del: masked.simps)
  qed
qed

lemma overlap_part:
  assumes "pfx_valid r" "pfx_valid c" "overlaps r c"
  shows "addrs (if pfx_bits r \<ge> pfx_bits c then r else c) = addrs r \<inter> addrs c"
proof -
  obtain x where x: "x \<in> addrs r" "x \<in> addrs c" using assms overlaps_iff by blast
  then have b: "bit_len (pfx_addr r) = bit_len (pfx_addr c)" using assms(1,2) by (simp add: mem_addrs)
  have "host_bits r \<le> host_bits c \<or> host_bits c \<le> host_bits r" by linarith
  then show ?thesis
    using addrs_laminar [OF assms(1,2) x] addrs_laminar [OF assms(2,1) x(2,1)] b
    by (auto simp: host_bits_def)
qed

section \<open>Properties\<close>

lemma aggregate_unique:
  assumes "\<forall>p \<in> set ps. pfx_valid p" "\<forall>q \<in> set qs. pfx_valid q" "covered ps = covered qs"
  shows "aggregate ps = aggregate qs"
  using aggregate_canonical [OF assms(1)] aggregate_canonical [OF assms(2)] assms(3)
  by (intro ascending_unique) simp_all

lemma maximal_cover_card:
  assumes "set bs = {p. maximal_in S p}" "distinct bs" "covered qs = S" "\<forall>q \<in> set qs. pfx_valid q"
  shows "length bs \<le> length qs"
proof -
  have "\<exists>q \<in> set qs. addrs q \<subseteq> addrs p" if "p \<in> set bs" for p
  proof -
    have p: "maximal_in S p" "pfx_valid p" using that assms(1) by (auto simp: maximal_in_def)
    obtain q where q: "q \<in> set qs" "pfx_addr p \<in> addrs q"
      using maximal_in_mem [OF p(1)] assms(3) by (auto simp: covered_def)
    have "addrs q \<subseteq> S" using q assms(3) by (auto simp: covered_def)
    moreover have "addrs q \<subseteq> addrs p \<or> addrs p \<subseteq> addrs q"
      using addrs_laminar q pfx_addr_mem [OF p(2)] p(2) assms(4) by (metis nle_le)
    ultimately show ?thesis using p(1) q(1) assms(4) unfolding maximal_in_def by blast
  qed
  then obtain f where f: "\<And>p. p \<in> set bs \<Longrightarrow> f p \<in> set qs \<and> addrs (f p) \<subseteq> addrs p" by metis
  have "inj_on f (set bs)"
  proof (rule inj_onI)
    fix p r assume pr: "p \<in> set bs" "r \<in> set bs" "f p = f r"
    have "pfx_addr (f p) \<in> addrs (f p)" using f pr assms(4) pfx_addr_mem by blast
    then have "pfx_addr (f p) \<in> addrs p" "pfx_addr (f p) \<in> addrs r" using f pr by (blast, metis subsetD)
    then show "p = r" using maximal_unique pr assms(1) by blast
  qed
  then have "card (set bs) \<le> card (set qs)" using f by (intro card_inj_on_le [of f]) auto
  then show ?thesis using card_length [of qs] assms(2) by (simp add: distinct_card)
qed

text \<open>Claim C31: \<^verbatim>\<open>Aggregate\<close> returns the smallest list: no list of prefixes that covers exactly the
  same addresses is shorter.\<close>

theorem aggregate_minimal:
  assumes "\<forall>p \<in> set ps. pfx_valid p" "\<forall>q \<in> set qs. pfx_valid q"
    and "\<forall>a. (\<exists>q \<in> set qs. contains q a) \<longleftrightarrow> (\<exists>p \<in> set ps. contains p a)"
  shows "length (aggregate ps) \<le> length qs"
proof (rule maximal_cover_card [OF aggregate_canonical(1) [OF assms(1)]])
  show "distinct (aggregate ps)"
    using aggregate_canonical(2) [OF assms(1)] by (auto simp: distinct_conv_nth sorted_wrt_iff_nth_less neq_iff)
      (metis less_irrefl)+
  show "covered qs = covered ps" using assms(3) by (auto simp: covered_def addrs_def)
qed (rule assms)

theorem aggregate_minimal_witness:
  "length (aggregate [Prefix (IPv4 0x64400001) 32, Prefix (IPv4 0x64400001) 32]) \<le> 1"
  using aggregate_minimal [of "[Prefix (IPv4 0x64400001) 32, Prefix (IPv4 0x64400001) 32]"
      "[Prefix (IPv4 0x64400001) 32]"] by simp

text \<open>\<^verbatim>\<open>Aggregate\<close> neither loses nor adds an address: an address is in some prefix of
  the result exactly if it is in some prefix of the input.\<close>

theorem aggregate_exact:
  assumes "\<forall>p \<in> set ps. pfx_valid p"
  shows "(\<exists>p \<in> set (aggregate ps). contains p a) \<longleftrightarrow> (\<exists>p \<in> set ps. contains p a)"
  using aggregate_canonical(3) [OF assms] by (auto simp: covered_def addrs_def)

theorem aggregate_exact_witness:
  "\<exists>p \<in> set (aggregate [Prefix (IPv4 0x64400000) 24, Prefix (IPv6 5 []) 128]). contains p (IPv4 0x64400007)"
  using aggregate_exact [of "[Prefix (IPv4 0x64400000) 24, Prefix (IPv6 5 []) 128]" "IPv4 0x64400007"]
  by simp

text \<open>Whatever order \<^verbatim>\<open>sort.Slice\<close> leaves spans with the same start in, the result is
  the same list of prefixes.\<close>

theorem aggregate_any_sort:
  assumes "\<forall>p \<in> set ps. pfx_valid p" "ps \<noteq> []"
    and "mset ss = mset (map prefix_span ps)" "sorted (map fst ss)"
  shows "aggregate_sorted ss = aggregate ps"
proof -
  have set: "set ss = prefix_span ` set ps" using assms(3) by (metis set_map set_mset_mset)
  then have wf: "\<forall>s \<in> set ss. span_wf s" and un: "(\<Union>s \<in> set ss. span_set s) = covered ps"
    using assms(1) prefix_span_spec by (auto simp: covered_def)
  have "ss \<noteq> []" using set assms(2) by auto
  note spec = aggregate_sorted_spec [OF this wf assms(4), unfolded un]
  show ?thesis
    using spec aggregate_canonical [OF assms(1)] cover_of_maximal [OF spec(1,3)]
    by (intro ascending_unique) simp_all
qed


theorem aggregate_any_sort_witness:
  "aggregate_sorted [prefix_span (Prefix (IPv4 0) 24), prefix_span (Prefix (IPv4 0) 8)] =
     aggregate [Prefix (IPv4 0) 8, Prefix (IPv4 0) 24]"
proof -
  have "sorted (map fst [prefix_span (Prefix (IPv4 0) 24), prefix_span (Prefix (IPv4 0) 8)])"
    by (simp add: prefix_span_def prefix_from_def)
  then show ?thesis
    using aggregate_any_sort [of "[Prefix (IPv4 0) 8, Prefix (IPv4 0) 24]"
        "[prefix_span (Prefix (IPv4 0) 24), prefix_span (Prefix (IPv4 0) 8)]"]
    by (simp add: add_mset_commute)
qed

end
