(* ===== verification/Policy_Base.thy ===== *)
theory Policy_Base
  imports Prefixes
begin

text \<open>
  \<^verbatim>\<open>internal/policy/policy.go\<close>: the policy, node and rule types, selectors, destination and
  port syntax, device limits and \<^verbatim>\<open>Lint\<close>.  Error texts are not modelled: an error is a
  constructor that names the failed check.  \<^verbatim>\<open>json.Decoder\<close> fills the records; the model starts
  from the decoded policy.
\<close>

section \<open>Types\<close>

record acl =
  acl_action :: string
  acl_src :: "string list"
  acl_dst :: "string list"
  acl_src_posture :: "string list"
  acl_origin :: string

record ssh_rule =
  ssh_action :: string
  ssh_src :: "string list"
  ssh_dst :: "string list"
  ssh_users :: "string list"
  ssh_record :: bool
  ssh_src_posture :: "string list"

record access_rule =
  ar_src :: "string list"
  ar_dst :: "string list"
  ar_max_duration :: string
  ar_auto_approve :: bool

record policy_test =
  test_src :: string
  test_accept :: "string list"
  test_deny :: "string list"

record policy =
  groups :: "(string, string list) gomap"
  acls :: "acl list"
  tests :: "policy_test list"
  ssh :: "ssh_rule list"
  device_limits :: "(string, int) gomap"
  access_requests :: "access_rule list"
  postures :: "(string, string list) gomap"

record node =
  node_id :: u64
  node_name :: string
  node_user :: string
  node_addrs :: "addr list"
  node_routes :: "prefix list"
  node_posture :: "(string, string) gomap"

record port_range =
  pr_first :: u16
  pr_last :: u16

record rule =
  rule_src :: "prefix list"
  rule_dst :: "prefix list"
  rule_ports :: "port_range list"

record compiled_ssh =
  cssh_src :: "prefix list"
  cssh_users :: "string list"
  cssh_record :: bool

datatype selector_error =
  UndefinedGroup | EmptyNodeName | BadCIDR | UnknownSelectorPrefix | EmptySelector

section \<open>Operations\<close>

text \<open>Reading a Go map of slices: a missing key gives the nil slice.\<close>

definition lookup_list :: "(string, 'a list) gomap \<Rightarrow> string \<Rightarrow> 'a list" where
  "lookup_list m k = (case map_of m k of Some xs \<Rightarrow> xs | None \<Rightarrow> [])"

definition allow_all :: policy where
  "allow_all = \<lparr>groups = [], acls = [\<lparr>acl_action = ''accept'', acl_src = [''*''], acl_dst = [''*:*''],
      acl_src_posture = [], acl_origin = []\<rparr>], tests = [], ssh = [], device_limits = [],
      access_requests = [], postures = []\<rparr>"

definition check_selector :: "policy \<Rightarrow> string \<Rightarrow> selector_error option" where
  "check_selector p s =
     (if s = ''*'' then None
      else if has_prefix ''group:'' s then
        (if map_of (groups p) s = None then Some UndefinedGroup else None)
      else if has_prefix ''node:'' s then
        (if length s = length ''node:'' then Some EmptyNodeName else None)
      else if contains_char (CHR ''/'') s then
        (if parse_prefix s = None then Some BadCIDR else None)
      else if contains_char (CHR '':'') s then Some UnknownSelectorPrefix
      else if s = [] then Some EmptySelector
      else None)"

text \<open>\<^verbatim>\<open>splitDst\<close> splits at the last colon.\<close>

definition split_dst :: "string \<Rightarrow> (string \<times> string) option" where
  "split_dst d =
     (case last_index_byte (CHR '':'') d of
        None \<Rightarrow> None
      | Some i \<Rightarrow> if i = 0 \<or> i = length d - 1 then None else Some (take i d, drop (Suc i) d))"

definition all_ports :: "port_range list" where
  "all_ports = [\<lparr>pr_first = 0, pr_last = 65535\<rparr>]"

definition parse_port_part :: "string \<Rightarrow> port_range option" where
  "parse_port_part part =
     (case cut_char (CHR ''-'') part of (lo, hi, is_range) \<Rightarrow>
        (case parse_uint16 lo of
           None \<Rightarrow> None
         | Some first \<Rightarrow>
             if is_range then
               (case parse_uint16 hi of
                  None \<Rightarrow> None
                | Some l \<Rightarrow> if l < first then None else Some \<lparr>pr_first = first, pr_last = l\<rparr>)
             else Some \<lparr>pr_first = first, pr_last = first\<rparr>))"

fun parse_port_parts :: "string list \<Rightarrow> port_range list option" where
  "parse_port_parts [] = Some []"
| "parse_port_parts (part # rest) =
     (case parse_port_part part of
        None \<Rightarrow> None
      | Some r \<Rightarrow> (case parse_port_parts rest of None \<Rightarrow> None | Some rs \<Rightarrow> Some (r # rs)))"

definition parse_ports :: "string \<Rightarrow> port_range list option" where
  "parse_ports s = (if s = ''*'' then Some all_ports else parse_port_parts (split_char (CHR '','') s))"

text \<open>Callers that ignore the error get empty strings and the nil slice.\<close>

definition split_dst_or_empty :: "string \<Rightarrow> string \<times> string" where
  "split_dst_or_empty d = (case split_dst d of Some x \<Rightarrow> x | None \<Rightarrow> ([], []))"

definition parse_ports_or_nil :: "string \<Rightarrow> port_range list" where
  "parse_ports_or_nil s = (case parse_ports s of Some r \<Rightarrow> r | None \<Rightarrow> [])"

text \<open>\<^verbatim>\<open>DeviceLimit\<close>: \<open>None\<close> when no limit applies.  The loop visits the map in its iteration
  order.\<close>

definition device_limit :: "policy \<Rightarrow> string \<Rightarrow> int option" where
  "device_limit p user =
     (case map_of (device_limits p) user of
        Some n \<Rightarrow> Some n
      | None \<Rightarrow>
          let limit = foldl (\<lambda>limit (sel, n).
                if has_prefix ''group:'' sel \<and> n > limit \<and> user \<in> set (lookup_list (groups p) sel)
                then n else limit) (- 1) (device_limits p)
          in if limit \<ge> 0 then Some limit else map_of (device_limits p) ''*'')"

definition matches :: "policy \<Rightarrow> string \<Rightarrow> node \<Rightarrow> bool" where
  "matches p sel n =
     (if sel = ''*'' then True
      else if has_prefix ''group:'' sel then node_user n \<in> set (lookup_list (groups p) sel)
      else if has_prefix ''node:'' sel then node_name n = drop (length ''node:'') sel
      else node_user n = sel)"

definition matches_dst :: "policy \<Rightarrow> string \<Rightarrow> node \<Rightarrow> bool" where
  "matches_dst p sel n =
     (case parse_prefix sel of
        Some pfx \<Rightarrow> list_ex (contains pfx) (node_addrs n)
      | None \<Rightarrow> matches p sel n)"

definition routed_dst :: "string \<Rightarrow> prefix list \<Rightarrow> prefix list" where
  "routed_dst sel routes =
     (if routes = [] then []
      else if sel = ''*'' then routes
      else (case parse_prefix sel of
          None \<Rightarrow> []
        | Some cidr \<Rightarrow>
            let cidr = masked cidr in
            map (\<lambda>r. if pfx_bits r \<ge> pfx_bits cidr then r else cidr)
              (filter (\<lambda>r. overlaps r cidr) routes)))"

text \<open>\<^verbatim>\<open>Lint\<close>: a warning is the place and the unknown user.  The final \<^verbatim>\<open>sort.Strings\<close> orders the
  message texts, which are not modelled.\<close>

datatype lint_place = LintGroup string | LintDeviceLimits | LintAclSrc nat | LintAclDst nat

definition lint_check :: "string list \<Rightarrow> lint_place \<Rightarrow> string \<Rightarrow> (lint_place \<times> string) list" where
  "lint_check users place sel =
     (if sel = ''*'' \<or> contains_char (CHR '':'') sel \<or> contains_char (CHR ''/'') sel then []
      else if sel \<notin> set users then [(place, sel)] else [])"

definition lint :: "policy \<Rightarrow> string list \<Rightarrow> (lint_place \<times> string) list" where
  "lint p users =
     concat (map (\<lambda>(g, members). concat (map (lint_check users (LintGroup g)) members)) (groups p))
     @ concat (map (\<lambda>(sel, _). lint_check users LintDeviceLimits sel) (device_limits p))
     @ concat (map (\<lambda>(i, a).
           concat (map (lint_check users (LintAclSrc i)) (acl_src a))
           @ concat (map (\<lambda>d. lint_check users (LintAclDst i) (fst (split_dst_or_empty d))) (acl_dst a)))
         (enumerate 0 (acls p)))"

section \<open>Lemmas\<close>

lemma split_dst_Some:
  "split_dst d = Some (sel, ports) \<Longrightarrow>
     d = sel @ CHR '':'' # ports \<and> sel \<noteq> [] \<and> ports \<noteq> [] \<and> CHR '':'' \<notin> set ports"
proof -
  assume a: "split_dst d = Some (sel, ports)"
  then obtain i where i: "last_index_byte (CHR '':'') d = Some i" "i \<noteq> 0" "i \<noteq> length d - 1"
    "sel = take i d" "ports = drop (Suc i) d"
    by (auto simp: split_dst_def split: option.splits if_splits)
  then have "i < length d" "d ! i = CHR '':''" "CHR '':'' \<notin> set ports"
    by (auto simp: last_index_byte_Some)
  then show ?thesis using i id_take_nth_drop [of i d] by auto
qed

lemma split_dst_join:
  "sel \<noteq> [] \<Longrightarrow> ports \<noteq> [] \<Longrightarrow> CHR '':'' \<notin> set ports \<Longrightarrow>
     split_dst (sel @ CHR '':'' # ports) = Some (sel, ports)"
  by (simp add: split_dst_def last_index_byte_append)

lemma parse_port_part_ordered: "parse_port_part s = Some r \<Longrightarrow> pr_first r \<le> pr_last r"
  by (auto simp: parse_port_part_def split: prod.splits option.splits if_splits)

lemma parse_port_parts_ordered:
  "parse_port_parts ss = Some rs \<Longrightarrow> r \<in> set rs \<Longrightarrow> pr_first r \<le> pr_last r"
  by (induction ss arbitrary: rs) (auto split: option.splits dest: parse_port_part_ordered)

lemma parse_port_parts_length: "parse_port_parts ss = Some rs \<Longrightarrow> length rs = length ss"
  by (induction ss arbitrary: rs) (auto split: option.splits)

section \<open>Properties\<close>

text \<open>A CIDR destination grants exactly the routed addresses inside it: an address is
  in a prefix \<^verbatim>\<open>routedDst\<close> returns exactly if some approved route and the CIDR both contain it.\<close>

theorem routed_dst_exact:
  assumes "parse_prefix sel = Some cidr" "\<forall>r \<in> set routes. pfx_valid r"
  shows "(\<exists>q \<in> set (routed_dst sel routes). contains q a) \<longleftrightarrow>
    contains cidr a \<and> (\<exists>r \<in> set routes. contains r a)"
proof -
  have star: "sel \<noteq> ''*''" using assms(1) by (auto simp: parse_prefix_def)
  have c: "pfx_valid cidr" using parse_prefix_valid assms(1) by blast
  have part: "contains (if pfx_bits r \<ge> pfx_bits (masked cidr) then r else masked cidr) a \<longleftrightarrow>
      contains r a \<and> contains cidr a" if "r \<in> set routes" "overlaps r (masked cidr)" for r
    using overlap_part [of r "masked cidr"] that assms(2) c addrs_masked [OF c]
    by (auto simp: addrs_def set_eq_iff)
  have ov: "overlaps r (masked cidr)" if "r \<in> set routes" "contains r a" "contains cidr a" for r
    using that assms(2) c overlaps_iff [of r "masked cidr"] addrs_masked [OF c] by (auto simp: addrs_def)
  define f where "f r = (if pfx_bits r \<ge> pfx_bits (masked cidr) then r else masked cidr)" for r
  have "routed_dst sel routes = map f (filter (\<lambda>r. overlaps r (masked cidr)) routes)"
    using star assms(1) by (simp add: routed_dst_def f_def [abs_def] Let_def)
  then have "(\<exists>q \<in> set (routed_dst sel routes). contains q a) \<longleftrightarrow>
      (\<exists>r \<in> set routes. overlaps r (masked cidr) \<and> contains (f r) a)" by auto
  then show ?thesis using part ov unfolding f_def by blast
qed

theorem routed_dst_exact_witness:
  "\<exists>q \<in> set (routed_dst ''10.1.0.0/16'' [Prefix (IPv4 0x0A000000) 8]). contains q (IPv4 0x0A010203)"
proof -
  have p: "parse_prefix ''10.1.0.0/16'' = Some (Prefix (IPv4 0x0A010000) 16)" by (simp add: go_eval)
  show ?thesis
    using routed_dst_exact [OF p, of "[Prefix (IPv4 0x0A000000) 8]" "IPv4 0x0A010203"] by simp
qed

lemma device_limit_loop:
  fixes ls :: "(string \<times> int) list" and m :: int
  shows "foldl (\<lambda>l (sel, n). if P sel \<and> n > l \<and> Q sel then n else l) m ls =
     Max (insert m {n. \<exists>g. (g, n) \<in> set ls \<and> P g \<and> Q g})"
proof -
  let ?vs = "map snd (filter (\<lambda>(g, n). P g \<and> Q g) ls)"
  have "foldl (\<lambda>l (sel, n). if P sel \<and> n > l \<and> Q sel then n else l) m ls = fold max ?vs m"
  proof (induction ls arbitrary: m)
    case (Cons x ls)
    then show ?case by (cases x; cases "P (fst x) \<and> Q (fst x)") (auto simp: max_def)
  qed simp
  also have "\<dots> = Max (set (m # ?vs))" by (rule Max.set_eq_fold [symmetric])
  also have "set (m # ?vs) = insert m {n. \<exists>g. (g, n) \<in> set ls \<and> P g \<and> Q g}" by force
  finally show ?thesis .
qed

lemma Max_nonneg_part:
  fixes A :: "int set"
  assumes "finite A" "{n \<in> A. 0 \<le> n} \<noteq> {}"
  shows "Max (insert (- 1) A) = Max {n \<in> A. 0 \<le> n}"
proof (rule Max_eqI)
  have m: "Max {n \<in> A. 0 \<le> n} \<in> {n \<in> A. 0 \<le> n}" using assms by (intro Max_in) auto
  then show "Max {n \<in> A. 0 \<le> n} \<in> insert (- 1) A" by simp
  fix y assume "y \<in> insert (- 1) A"
  then show "y \<le> Max {n \<in> A. 0 \<le> n}" using m assms(1) by (cases "0 \<le> y") auto
qed (use assms in simp)

text \<open>\<^verbatim>\<open>DeviceLimit\<close> is the user's own entry if there is one, else the most generous
  non-negative limit of their groups, else the entry for \<open>*\<close>, whatever order the map is
  iterated in.\<close>

theorem device_limit_most_generous:
  "device_limit p user =
     (let G = {n. n \<ge> 0 \<and> (\<exists>g. (g, n) \<in> set (device_limits p) \<and> has_prefix ''group:'' g \<and>
                user \<in> set (lookup_list (groups p) g))}
      in if map_of (device_limits p) user \<noteq> None then map_of (device_limits p) user
         else if G \<noteq> {} then Some (Max G)
         else map_of (device_limits p) ''*'')"
proof -
  define A where "A = {n. \<exists>g. (g, n) \<in> set (device_limits p) \<and> has_prefix ''group:'' g \<and>
                user \<in> set (lookup_list (groups p) g)}"
  have fin: "finite A"
    unfolding A_def by (rule finite_subset [of _ "snd ` set (device_limits p)"]) force+
  have G: "{n. n \<ge> 0 \<and> (\<exists>g. (g, n) \<in> set (device_limits p) \<and> has_prefix ''group:'' g \<and>
                user \<in> set (lookup_list (groups p) g))} = {n \<in> A. 0 \<le> n}" by (auto simp: A_def)
  have ge: "Max (insert (- 1) A) \<ge> 0 \<longleftrightarrow> {n \<in> A. 0 \<le> n} \<noteq> {}"
    using fin by (subst Max_ge_iff) auto
  have "device_limit p user = (case map_of (device_limits p) user of Some n \<Rightarrow> Some n
      | None \<Rightarrow> if Max (insert (- 1) A) \<ge> 0 then Some (Max (insert (- 1) A))
               else map_of (device_limits p) ''*'')"
    by (simp add: device_limit_def device_limit_loop A_def Let_def del: Max_insert split: option.split)
  then show ?thesis
    unfolding G Let_def ge using Max_nonneg_part [OF fin]
    by (cases "map_of (device_limits p) user"; cases "{n \<in> A. 0 \<le> n} = {}") simp_all
qed

end
