(* ===== verification/Posture.thy ===== *)
theory Posture
  imports Policy_Base
begin

text \<open>
  \<^verbatim>\<open>internal/policy/posture.go\<close>: named device requirements.  Conditions are parsed from their
  text, versions compare numerically part by part, and a machine passes a posture when it
  meets every condition.
\<close>

section \<open>Definitions\<close>

record condition =
  cond_attr :: string
  cond_op :: string
  cond_values :: "string list"

datatype cond_error = TooShort | UnknownAttribute | MissingValue | NeedsList | EmptyList | UnknownOperator

definition posture_attrs :: "string list" where
  "posture_attrs = [''os'', ''os_version'', ''client_version'']"

definition compare_ops :: "string list" where
  "compare_ops = [''=='', ''!='', ''>='', ''>'', ''<='', ''<'']"

definition parse_condition :: "string \<Rightarrow> cond_error + condition" where
  "parse_condition s =
     (let f = go_fields s in
      if length f < 3 then Inl TooShort
      else let attr = f ! 0;
               not_in = (f ! 1 = ''not'' \<and> f ! 2 = ''in'');
               op = (if not_in then ''not in'' else f ! 1);
               rest = (if not_in then drop 3 f else drop 2 f) in
        if attr \<notin> set posture_attrs then Inl UnknownAttribute
        else let val = join_with '' '' rest in
          if op \<in> set compare_ops then
            (if val = [] then Inl MissingValue
             else Inr \<lparr>cond_attr = attr, cond_op = op, cond_values = [val]\<rparr>)
          else if op = ''in'' \<or> op = ''not in'' then
            (if \<not> has_prefix ''['' val \<or> \<not> has_suffix '']'' val then Inl NeedsList
             else let vs = filter (\<lambda>v. v \<noteq> [])
                    (map trim_space (split_char (CHR '','') (slice 1 (length val - 1) val))) in
               if vs = [] then Inl EmptyList
               else Inr \<lparr>cond_attr = attr, cond_op = op, cond_values = vs\<rparr>)
          else Inl UnknownOperator)"

text \<open>\<^verbatim>\<open>versionParts\<close>: parts up to the first one that is not a number.\<close>

fun version_numbers :: "string list \<Rightarrow> int list" where
  "version_numbers [] = []"
| "version_numbers (p # ps) = (case atoi p of None \<Rightarrow> [] | Some n \<Rightarrow> n # version_numbers ps)"

definition version_parts :: "string \<Rightarrow> int list" where
  "version_parts v =
     (let v = (if has_prefix ''v'' v then drop 1 v else v);
          v = takeWhile (\<lambda>c. c \<notin> set ''-+ '') v
      in version_numbers (split_char (CHR ''.'') v))"

fun compare_parts :: "int list \<Rightarrow> int list \<Rightarrow> int" where
  "compare_parts [] [] = 0"
| "compare_parts (x # xs) [] = (if x \<noteq> 0 then (if x < 0 then - 1 else 1) else compare_parts xs [])"
| "compare_parts [] (y # ys) = (if 0 \<noteq> y then (if 0 < y then - 1 else 1) else compare_parts [] ys)"
| "compare_parts (x # xs) (y # ys) =
     (if x \<noteq> y then (if x < y then - 1 else 1) else compare_parts xs ys)"

definition compare_versions :: "string \<Rightarrow> string \<Rightarrow> int" where
  "compare_versions a b = compare_parts (version_parts a) (version_parts b)"

text \<open>\<^verbatim>\<open>condition.eval\<close>: \<open>None\<close> when the machine meets the condition, else why not.\<close>

datatype why = NotReported string | Differs string string string "string list"

definition cond_ok :: "condition \<Rightarrow> string \<Rightarrow> bool" where
  "cond_ok c have =
     (if cond_op c = ''in'' then have \<in> set (cond_values c)
      else if cond_op c = ''not in'' then have \<notin> set (cond_values c)
      else if cond_op c = ''=='' then have = cond_values c ! 0
      else if cond_op c = ''!='' then have \<noteq> cond_values c ! 0
      else let cmp = compare_versions have (cond_values c ! 0) in
        if cond_op c = ''>='' then cmp \<ge> 0
        else if cond_op c = ''>'' then cmp > 0
        else if cond_op c = ''<='' then cmp \<le> 0
        else if cond_op c = ''<'' then cmp < 0
        else False)"

definition cond_eval :: "condition \<Rightarrow> node \<Rightarrow> why option" where
  "cond_eval c n =
     (let have = (case map_of (node_posture n) (cond_attr c) of Some v \<Rightarrow> v | None \<Rightarrow> []) in
      if have = [] then Some (NotReported (cond_attr c))
      else if cond_ok c have then None
      else Some (Differs (cond_attr c) have (cond_op c) (cond_values c)))"

datatype posture_fail = BadCondition cond_error | Fails string string why

fun passes_conds :: "node \<Rightarrow> string \<Rightarrow> string list \<Rightarrow> posture_fail option" where
  "passes_conds n name [] = None"
| "passes_conds n name (s # ss) =
     (case parse_condition s of
        Inl e \<Rightarrow> Some (BadCondition e)
      | Inr c \<Rightarrow>
          (case cond_eval c n of
             Some w \<Rightarrow> Some (Fails (node_name n) name w)
           | None \<Rightarrow> passes_conds n name ss))"

text \<open>\<^verbatim>\<open>Passes\<close>: \<open>None\<close> when \<open>n\<close> meets every named posture, else the first failure.\<close>

fun passes :: "policy \<Rightarrow> node \<Rightarrow> string list \<Rightarrow> posture_fail option" where
  "passes p n [] = None"
| "passes p n (name # names) =
     (case passes_conds n name (lookup_list (postures p) name) of
        Some f \<Rightarrow> Some f
      | None \<Rightarrow> passes p n names)"

datatype posture_error =
    PostureName string | PostureNoConditions string | PostureCondition string cond_error
  | UndefinedPostureAcl nat string | UndefinedPostureSsh nat string

definition validate_postures :: "policy \<Rightarrow> posture_error list" where
  "validate_postures p =
     concat (map (\<lambda>(name, conds).
         (if \<not> has_prefix ''posture:'' name \<or> name = ''posture:'' then [PostureName name] else [])
         @ (if conds = [] then [PostureNoConditions name] else [])
         @ concat (map (\<lambda>c. case parse_condition c of
               Inl e \<Rightarrow> [PostureCondition name e] | Inr _ \<Rightarrow> []) conds))
       (postures p))
     @ concat (map (\<lambda>(i, a). map (UndefinedPostureAcl i)
           (filter (\<lambda>n. map_of (postures p) n = None) (acl_src_posture a))) (enumerate 0 (acls p)))
     @ concat (map (\<lambda>(i, r). map (UndefinedPostureSsh i)
           (filter (\<lambda>n. map_of (postures p) n = None) (ssh_src_posture r))) (enumerate 0 (ssh p)))"

section \<open>Lemmas\<close>

text \<open>Comparison of parts is the lexicographic order of the lists padded with zeros.\<close>

lemma compare_parts_range: "compare_parts xs ys \<in> {- 1, 0, 1}"
  by (induction xs ys rule: compare_parts.induct) auto

lemma compare_parts_swap: "compare_parts ys xs = - compare_parts xs ys"
  by (induction xs ys rule: compare_parts.induct) auto

definition part :: "int list \<Rightarrow> nat \<Rightarrow> int" where
  "part xs i = (if i < length xs then xs ! i else 0)"

lemma compare_parts_unfold:
  "xs \<noteq> [] \<or> ys \<noteq> [] \<Longrightarrow> compare_parts xs ys =
     (if part xs 0 \<noteq> part ys 0 then (if part xs 0 < part ys 0 then - 1 else 1)
      else compare_parts (tl xs) (tl ys))"
  by (cases xs; cases ys) (auto simp: part_def)

lemma compare_parts_trans:
  "compare_parts xs ys \<le> 0 \<Longrightarrow> compare_parts ys zs \<le> 0 \<Longrightarrow> compare_parts xs zs \<le> 0"
proof (induction "length xs + length ys + length zs" arbitrary: xs ys zs rule: less_induct)
  case less
  show ?case
  proof (cases "xs = [] \<and> ys = [] \<and> zs = []")
    case False
    let ?c = "\<lambda>xs ys. if part xs 0 \<noteq> part ys 0 then (if part xs 0 < part ys 0 then - 1 else 1)
      else compare_parts (tl xs) (tl ys)"
    have u: "compare_parts as bs = ?c as bs" for as bs
      using compare_parts_unfold [of as bs] by (cases "as = [] \<and> bs = []") auto
    have "length (tl xs) + length (tl ys) + length (tl zs) < length xs + length ys + length zs"
      using False by (cases xs; cases ys; cases zs) auto
    from less.hyps [OF this] show ?thesis
      using less.prems unfolding u [of xs ys] u [of ys zs] u [of xs zs] by (auto split: if_splits)
  qed simp
qed

lemma passes_conds_None:
  "passes_conds n name ss = None \<longleftrightarrow>
     (\<forall>s \<in> set ss. \<exists>c. parse_condition s = Inr c \<and> cond_eval c n = None)"
  by (induction ss) (auto split: sum.splits option.splits)

lemma passes_None:
  "passes p n names = None \<longleftrightarrow>
     (\<forall>name \<in> set names. passes_conds n name (lookup_list (postures p) name) = None)"
  by (induction names) (auto split: option.splits)

section \<open>Properties\<close>

text \<open>Version comparison is a total preorder: antisymmetric in its sign and
  transitive, so \<open>>=\<close> conditions behave like an order on versions of any length.\<close>

theorem compare_versions_preorder:
  "compare_versions b a = - compare_versions a b \<and>
   (compare_versions a b \<le> 0 \<longrightarrow> compare_versions b c \<le> 0 \<longrightarrow> compare_versions a c \<le> 0)"
  using compare_parts_swap compare_parts_trans unfolding compare_versions_def by blast

theorem compare_versions_preorder_witness:
  "compare_versions ''0.9'' ''10.0.22631'' \<le> 0"
proof -
  have "compare_versions ''0.9'' ''v0.10-rc1'' \<le> 0" "compare_versions ''v0.10-rc1'' ''10.0.22631'' \<le> 0"
    by (simp_all add: compare_versions_def version_parts_def go_eval)
  then show ?thesis using compare_versions_preorder by blast
qed

text \<open>Postures fail closed: a machine passes exactly if every condition of every named
  posture parses and holds of a value the machine reports; an attribute it does not report
  fails every condition on it.\<close>

theorem passes_iff:
  "passes p n names = None \<longleftrightarrow>
     (\<forall>name \<in> set names. \<forall>s \<in> set (lookup_list (postures p) name).
        \<exists>c v. parse_condition s = Inr c \<and> map_of (node_posture n) (cond_attr c) = Some v \<and>
          v \<noteq> [] \<and> cond_ok c v)"
proof -
  have "cond_eval c n = None \<longleftrightarrow>
      (\<exists>v. map_of (node_posture n) (cond_attr c) = Some v \<and> v \<noteq> [] \<and> cond_ok c v)" for c
    by (auto simp: cond_eval_def Let_def split: option.splits)
  then show ?thesis unfolding passes_None passes_conds_None by blast
qed

theorem passes_iff_witness:
  "passes (allow_all\<lparr>postures := [(''posture:new'', [''os == linux''])]\<rparr>)
     \<lparr>node_id = 1, node_name = ''laptop'', node_user = ''karan'', node_addrs = [], node_routes = [],
       node_posture = [(''os'', ''linux'')]\<rparr> [''posture:new''] = None"
proof -
  have "parse_condition ''os == linux'' = Inr \<lparr>cond_attr = ''os'', cond_op = ''=='', cond_values = [''linux'']\<rparr>"
    by (simp add: parse_condition_def posture_attrs_def compare_ops_def go_fields_def space_len_def go_eval)
  then show ?thesis
    by (subst passes_iff) (simp add: allow_all_def lookup_list_def cond_ok_def)
qed

end
