(* ===== verification/Explain.thy ===== *)
theory Explain
  imports Posture
begin

text \<open>
  \<^verbatim>\<open>internal/policy/explain.go\<close>: resolving what an operator types to an identity, explaining why
  a connection is allowed or not, and running a policy's own tests.  Reasons and errors are
  constructors in place of their texts.
\<close>

section \<open>Definitions\<close>

record identity =
  id_user :: string
  id_node :: string
  id_addrs :: "addr list"

datatype resolve_error = UnknownNode | NotSingle | BadIdentity | BadDestination | BadPort

definition node_identity :: "node \<Rightarrow> identity" where
  "node_identity n = \<lparr>id_user = node_user n, id_node = node_name n, id_addrs = node_addrs n\<rparr>"

definition resolve :: "string \<Rightarrow> node list \<Rightarrow> resolve_error + identity" where
  "resolve s nodes =
     (if has_prefix ''node:'' s then
        (case find (\<lambda>n. node_name n = drop (length ''node:'') s) nodes of
           Some n \<Rightarrow> Inr (node_identity n)
         | None \<Rightarrow> Inl UnknownNode)
      else if has_prefix ''group:'' s \<or> s = ''*'' \<or> contains_char (CHR ''/'') s then Inl NotSingle
      else (case parse_addr s of
          Some ip \<Rightarrow>
            (case find (\<lambda>n. ip \<in> set (node_addrs n)) nodes of
               Some n \<Rightarrow> Inr (node_identity n)
             | None \<Rightarrow> Inr \<lparr>id_user = [], id_node = [], id_addrs = [ip]\<rparr>)
        | None \<Rightarrow>
            if s = [] \<or> contains_char (CHR '':'') s then Inl BadIdentity
            else Inr \<lparr>id_user = s, id_node = [], id_addrs = []\<rparr>))"

text \<open>\<^verbatim>\<open>strings.Trim(s, "[]")\<close>.\<close>

definition trim_brackets :: "string \<Rightarrow> string" where
  "trim_brackets s =
     (let b = (\<lambda>c. c = CHR ''['' \<or> c = CHR '']'') in rev (dropWhile b (rev (dropWhile b s))))"

definition resolve_dst :: "string \<Rightarrow> node list \<Rightarrow> resolve_error + (identity \<times> u16)" where
  "resolve_dst s nodes =
     (case last_index_byte (CHR '':'') s of
        None \<Rightarrow> Inl BadDestination
      | Some i \<Rightarrow>
          if i = 0 then Inl BadDestination
          else (case parse_uint16 (drop (Suc i) s) of
              None \<Rightarrow> Inl BadPort
            | Some port \<Rightarrow>
                (case resolve (trim_brackets (take i s)) nodes of
                   Inl e \<Rightarrow> Inl e
                 | Inr ident \<Rightarrow> Inr (ident, port))))"

definition matches_identity :: "policy \<Rightarrow> string \<Rightarrow> identity \<Rightarrow> bool" where
  "matches_identity p sel ident =
     (if sel = ''*'' then True
      else if has_prefix ''group:'' sel then
        list_ex (\<lambda>m. id_user ident \<noteq> [] \<and> m = id_user ident) (lookup_list (groups p) sel)
      else if has_prefix ''node:'' sel then
        id_node ident \<noteq> [] \<and> id_node ident = drop (length ''node:'') sel
      else if contains_char (CHR ''/'') sel then
        (case parse_prefix sel of
           None \<Rightarrow> False
         | Some pfx \<Rightarrow> list_ex (contains pfx) (id_addrs ident))
      else id_user ident \<noteq> [] \<and> id_user ident = sel)"

datatype reason =
    AllowedBy nat string "string list"
  | NoRouterServes addr
  | PostureMiss nat posture_fail
  | PortMiss nat string
  | SrcMiss nat
  | NoRule
  | RepliesAllowed

record explanation =
  ex_allowed :: bool
  ex_rule :: int
  ex_reasons :: "reason list"

record explain_state =
  es_ex :: explanation
  es_posture_miss :: "reason list"
  es_port_miss :: "reason list"
  es_src_miss :: "reason list"

definition port_in :: "u16 \<Rightarrow> port_range list \<Rightarrow> bool" where
  "port_in port prs \<longleftrightarrow> list_ex (\<lambda>pr. pr_first pr \<le> port \<and> port \<le> pr_last pr) prs"

text \<open>The source check of one rule: whether a selector names the source, and the posture
  failure that takes it back.\<close>

definition explain_src :: "policy \<Rightarrow> acl \<Rightarrow> identity \<Rightarrow> node list \<Rightarrow> bool \<times> posture_fail option" where
  "explain_src p a src nodes =
     (let src_ok = list_ex (\<lambda>s. matches_identity p s src) (acl_src a) in
      if src_ok \<and> acl_src_posture a \<noteq> [] \<and> id_node src \<noteq> [] then
        foldl (\<lambda>(ok, w) n.
            if node_name n = id_node src then
              (case passes p n (acl_src_posture a) of
                 Some f \<Rightarrow> (False, Some f)
               | None \<Rightarrow> (ok, w))
            else (ok, w)) (src_ok, None) nodes
      else (src_ok, None))"

definition explain_dst ::
  "policy \<Rightarrow> nat \<Rightarrow> acl \<Rightarrow> bool \<Rightarrow> posture_fail option \<Rightarrow> identity \<Rightarrow> identity \<Rightarrow> u16 \<Rightarrow>
     explain_state \<Rightarrow> string \<Rightarrow> explain_state" where
  "explain_dst p i a src_ok posture_why src dst port st d =
     (case split_dst d of
        None \<Rightarrow> st
      | Some (sel, port_str) \<Rightarrow>
          let ports = parse_ports_or_nil port_str;
              dst_ok = matches_identity p sel dst;
              port_ok = port_in port ports in
          if src_ok \<and> dst_ok \<and> port_ok then
            (if \<not> ex_allowed (es_ex st) then
               st\<lparr>es_ex := \<lparr>ex_allowed = True, ex_rule = int i,
                    ex_reasons = [AllowedBy i d (if acl_src_posture a \<noteq> [] \<and> id_node src = []
                                                 then acl_src_posture a else [])]\<rparr>\<rparr>
             else st)
          else if posture_why \<noteq> None \<and> dst_ok \<and> port_ok then
            st\<lparr>es_posture_miss := es_posture_miss st @ [PostureMiss i (the posture_why)]\<rparr>
          else if src_ok \<and> dst_ok then
            st\<lparr>es_port_miss := es_port_miss st @ [PortMiss i port_str]\<rparr>
          else if \<not> src_ok \<and> dst_ok \<and> port_ok then
            st\<lparr>es_src_miss := es_src_miss st @ [SrcMiss i]\<rparr>
          else st)"

definition explain_acl ::
  "policy \<Rightarrow> identity \<Rightarrow> identity \<Rightarrow> u16 \<Rightarrow> node list \<Rightarrow> explain_state \<Rightarrow> nat \<times> acl \<Rightarrow> explain_state" where
  "explain_acl p src dst port nodes st ia =
     (case explain_src p (snd ia) src nodes of (src_ok, w) \<Rightarrow>
        foldl (explain_dst p (fst ia) (snd ia) src_ok w src dst port) st (acl_dst (snd ia)))"

definition served_by_router :: "addr \<Rightarrow> node list \<Rightarrow> bool" where
  "served_by_router a nodes \<longleftrightarrow> list_ex (\<lambda>n. list_ex (\<lambda>r. contains r a) (node_routes n)) nodes"

definition explain :: "policy \<Rightarrow> identity \<Rightarrow> identity \<Rightarrow> u16 \<Rightarrow> node list \<Rightarrow> explanation" where
  "explain p src dst port nodes =
     (let st = foldl (explain_acl p src dst port nodes)
            \<lparr>es_ex = \<lparr>ex_allowed = False, ex_rule = - 1, ex_reasons = []\<rparr>,
             es_posture_miss = [], es_port_miss = [], es_src_miss = []\<rparr>
            (enumerate 0 (acls p));
          ex = es_ex st in
      if ex_allowed ex then
        ex\<lparr>ex_reasons := take 1 (ex_reasons ex) @
            (if id_node dst = [] \<and> id_addrs dst \<noteq> [] \<and> \<not> served_by_router (hd (id_addrs dst)) nodes
             then [NoRouterServes (hd (id_addrs dst))] else [])\<rparr>
      else
        let rs = es_posture_miss st @ es_port_miss st @ es_src_miss st;
            rs = (if rs = [] then [NoRule] else rs)
        in ex\<lparr>ex_reasons := rs @ [RepliesAllowed]\<rparr>)"

text \<open>\<^verbatim>\<open>Test.validate\<close>: the nodes are not known yet, so \<open>node:\<close> entries are not resolved.\<close>

datatype test_error = TestIncomplete | TestResolve resolve_error

fun first_bad_entry :: "string list \<Rightarrow> test_error option" where
  "first_bad_entry [] = None"
| "first_bad_entry (d # ds) =
     (case resolve_dst d [] of
        Inl e \<Rightarrow> if \<not> has_prefix ''node:'' d then Some (TestResolve e) else first_bad_entry ds
      | Inr _ \<Rightarrow> first_bad_entry ds)"

definition test_validate :: "policy_test \<Rightarrow> test_error option" where
  "test_validate t =
     (if test_src t = [] \<or> length (test_accept t) + length (test_deny t) = 0 then Some TestIncomplete
      else (case resolve (test_src t) [] of
          Inl e \<Rightarrow> if \<not> has_prefix ''node:'' (test_src t) then Some (TestResolve e)
                   else first_bad_entry (test_accept t @ test_deny t)
        | Inr _ \<Rightarrow> first_bad_entry (test_accept t @ test_deny t)))"

datatype test_fail =
    TestSrc nat resolve_error
  | TestEntry nat string resolve_error
  | ShouldReach nat string reason
  | ShouldNotReach nat string reason

definition run_check :: "policy \<Rightarrow> node list \<Rightarrow> nat \<Rightarrow> identity \<Rightarrow> string \<Rightarrow> bool \<Rightarrow> test_fail list" where
  "run_check p nodes i src entry want =
     (case resolve_dst entry nodes of
        Inl e \<Rightarrow> [TestEntry i entry e]
      | Inr (dst, port) \<Rightarrow>
          let ex = explain p src dst port nodes in
          if want \<and> \<not> ex_allowed ex then [ShouldReach i entry (hd (ex_reasons ex))]
          else if \<not> want \<and> ex_allowed ex then [ShouldNotReach i entry (hd (ex_reasons ex))]
          else [])"

definition run_tests :: "policy \<Rightarrow> node list \<Rightarrow> test_fail list" where
  "run_tests p nodes =
     concat (map (\<lambda>(i, t).
         case resolve (test_src t) nodes of
           Inl e \<Rightarrow> [TestSrc i e]
         | Inr src \<Rightarrow>
             concat (map (\<lambda>a. run_check p nodes i src a True) (test_accept t))
             @ concat (map (\<lambda>d. run_check p nodes i src d False) (test_deny t)))
       (enumerate 0 (tests p)))"

section \<open>Lemmas\<close>

text \<open>What it means that one rule of the policy grants a connection.\<close>

definition dst_grants :: "policy \<Rightarrow> identity \<Rightarrow> u16 \<Rightarrow> string \<Rightarrow> bool" where
  "dst_grants p dst port d \<longleftrightarrow>
     (\<exists>sel port_str. split_dst d = Some (sel, port_str) \<and> matches_identity p sel dst \<and>
        port_in port (parse_ports_or_nil port_str))"

definition acl_grants :: "policy \<Rightarrow> identity \<Rightarrow> identity \<Rightarrow> u16 \<Rightarrow> node list \<Rightarrow> acl \<Rightarrow> bool" where
  "acl_grants p src dst port nodes a \<longleftrightarrow>
     fst (explain_src p a src nodes) \<and> (\<exists>d \<in> set (acl_dst a). dst_grants p dst port d)"

definition es_inv :: "explain_state \<Rightarrow> bool" where
  "es_inv st \<longleftrightarrow> (ex_allowed (es_ex st) \<longleftrightarrow> ex_rule (es_ex st) \<noteq> - 1) \<and>
     (ex_allowed (es_ex st) \<longrightarrow> ex_reasons (es_ex st) \<noteq> [])"

lemma explain_dst_ex:
  "es_ex (explain_dst p i a ok w src dst port st d) =
     (if ok \<and> dst_grants p dst port d \<and> \<not> ex_allowed (es_ex st)
      then \<lparr>ex_allowed = True, ex_rule = int i,
            ex_reasons = [AllowedBy i d (if acl_src_posture a \<noteq> [] \<and> id_node src = []
                                         then acl_src_posture a else [])]\<rparr>
      else es_ex st)"
  by (auto simp: explain_dst_def dst_grants_def Let_def split: option.splits)

lemma explain_dsts_ex:
  "ex_allowed (es_ex (foldl (explain_dst p i a ok w src dst port) st ds)) \<longleftrightarrow>
     ex_allowed (es_ex st) \<or> ok \<and> (\<exists>d \<in> set ds. dst_grants p dst port d)"
  "ex_rule (es_ex (foldl (explain_dst p i a ok w src dst port) st ds)) =
     (if ex_allowed (es_ex st) \<or> \<not> (ok \<and> (\<exists>d \<in> set ds. dst_grants p dst port d))
      then ex_rule (es_ex st) else int i)"
  by (induction ds arbitrary: st) (auto simp: explain_dst_ex)

lemma explain_acl_ex:
  "ex_allowed (es_ex (explain_acl p src dst port nodes st (i, a))) \<longleftrightarrow>
     ex_allowed (es_ex st) \<or> acl_grants p src dst port nodes a"
  "ex_rule (es_ex (explain_acl p src dst port nodes st (i, a))) =
     (if ex_allowed (es_ex st) \<or> \<not> acl_grants p src dst port nodes a then ex_rule (es_ex st) else int i)"
  by (auto simp: explain_acl_def acl_grants_def explain_dsts_ex split: prod.splits)

lemma explain_acls_allowed:
  "ex_allowed (es_ex (foldl (explain_acl p src dst port nodes) st ias)) \<longleftrightarrow>
     ex_allowed (es_ex st) \<or> (\<exists>ia \<in> set ias. acl_grants p src dst port nodes (snd ia))"
  by (induction ias arbitrary: st) (auto simp: explain_acl_ex)

lemma explain_acls_rule:
  "ex_rule (es_ex (foldl (explain_acl p src dst port nodes) st ias)) =
     (if ex_allowed (es_ex st) then ex_rule (es_ex st)
      else case find (\<lambda>ia. acl_grants p src dst port nodes (snd ia)) ias of
          Some ia \<Rightarrow> int (fst ia) | None \<Rightarrow> ex_rule (es_ex st))"
  by (induction ias arbitrary: st) (auto simp: explain_acl_ex split: option.splits)

lemma explain_allowed:
  "ex_allowed (explain p src dst port nodes) \<longleftrightarrow>
     (\<exists>a \<in> set (acls p). acl_grants p src dst port nodes a)"
  by (simp add: explain_def Let_def explain_acls_allowed ex_enumerate)

section \<open>Properties\<close>

text \<open>\<^verbatim>\<open>Explain\<close> names the first rule of the policy that grants the connection, and says
  it is allowed exactly if there is one; otherwise the rule index is \<open>-1\<close>.\<close>

theorem explain_first_rule:
  "ex_rule (explain p src dst port nodes) =
     (case find (\<lambda>ia. acl_grants p src dst port nodes (snd ia)) (enumerate 0 (acls p)) of
        Some (i, a) \<Rightarrow> int i | None \<Rightarrow> - 1)
   \<and> (ex_allowed (explain p src dst port nodes) \<longleftrightarrow> ex_rule (explain p src dst port nodes) \<noteq> - 1)"
proof -
  have "ex_rule (explain p src dst port nodes) =
     (case find (\<lambda>ia. acl_grants p src dst port nodes (snd ia)) (enumerate 0 (acls p)) of
        Some (i, a) \<Rightarrow> int i | None \<Rightarrow> - 1)"
    by (simp add: explain_def Let_def explain_acls_rule split: option.split prod.split)
  moreover have "ex_allowed (explain p src dst port nodes) \<longleftrightarrow>
      find (\<lambda>ia. acl_grants p src dst port nodes (snd ia)) (enumerate 0 (acls p)) \<noteq> None"
    unfolding find_None_iff explain_allowed
      ex_enumerate [of 0 "acls p" "acl_grants p src dst port nodes", symmetric] by blast
  ultimately show ?thesis by (auto split: option.splits prod.splits)
qed

text \<open>A policy passes its own tests exactly if every test resolves, every accepted entry
  is reachable and every denied entry is not, as \<^verbatim>\<open>Explain\<close> decides.\<close>

theorem run_tests_sound:
  "run_tests p nodes = [] \<longleftrightarrow>
     (\<forall>t \<in> set (tests p). \<exists>src. resolve (test_src t) nodes = Inr src \<and>
        (\<forall>(want, entries) \<in> {(True, test_accept t), (False, test_deny t)}. \<forall>e \<in> set entries.
           \<exists>dst port. resolve_dst e nodes = Inr (dst, port) \<and>
             ex_allowed (explain p src dst port nodes) = want))"
proof -
  have chk: "run_check p nodes i src e want = [] \<longleftrightarrow>
      (\<exists>dst port. resolve_dst e nodes = Inr (dst, port) \<and> ex_allowed (explain p src dst port nodes) = want)"
    for i src e want
    by (cases want) (auto simp: run_check_def Let_def split: sum.splits prod.splits if_splits)
  have "run_tests p nodes = [] \<longleftrightarrow> (\<forall>(i, t) \<in> set (enumerate 0 (tests p)).
      \<exists>src. resolve (test_src t) nodes = Inr src \<and>
        (\<forall>e \<in> set (test_accept t). run_check p nodes i src e True = []) \<and>
        (\<forall>e \<in> set (test_deny t). run_check p nodes i src e False = []))"
    by (auto simp: run_tests_def split: sum.splits)
  also have "\<dots> \<longleftrightarrow> (\<forall>t \<in> snd ` set (enumerate 0 (tests p)). \<exists>src. resolve (test_src t) nodes = Inr src \<and>
        (\<forall>e \<in> set (test_accept t). \<exists>dst port. resolve_dst e nodes = Inr (dst, port) \<and>
           ex_allowed (explain p src dst port nodes) = True) \<and>
        (\<forall>e \<in> set (test_deny t). \<exists>dst port. resolve_dst e nodes = Inr (dst, port) \<and>
           ex_allowed (explain p src dst port nodes) = False))"
    unfolding chk by auto
  also have "snd ` set (enumerate 0 (tests p)) = set (tests p)" by (rule snd_set_enumerate)
  finally show ?thesis by simp
qed

theorem run_tests_sound_witness:
  "run_tests (allow_all\<lparr>tests := [\<lparr>test_src = ''guest'', test_accept = [''karan:22''], test_deny = []\<rparr>]\<rparr>) [] = []"
proof -
  let ?p = "allow_all\<lparr>tests := [\<lparr>test_src = ''guest'', test_accept = [''karan:22''], test_deny = []\<rparr>]\<rparr>"
  have "resolve ''guest'' [] = Inr \<lparr>id_user = ''guest'', id_node = [], id_addrs = []\<rparr>"
    "resolve_dst ''karan:22'' [] = Inr (\<lparr>id_user = ''karan'', id_node = [], id_addrs = []\<rparr>, 22)"
    by (simp_all add: resolve_def resolve_dst_def trim_brackets_def go_eval)
  moreover have "acl_grants ?p \<lparr>id_user = ''guest'', id_node = [], id_addrs = []\<rparr>
      \<lparr>id_user = ''karan'', id_node = [], id_addrs = []\<rparr> 22 [] (hd (acls ?p))"
    by (simp add: acl_grants_def dst_grants_def explain_src_def matches_identity_def allow_all_def
        split_dst_def parse_ports_or_nil_def parse_ports_def all_ports_def port_in_def)
  ultimately show ?thesis
    using run_tests_sound [of ?p "[]"] by (simp add: explain_allowed allow_all_def)
qed

end
