(* ===== verification/Access.thy ===== *)
theory Access
  imports Complex_Main Explain
begin

text \<open>
  \<^verbatim>\<open>internal/policy/access.go\<close>: who may request temporary access to what, and for how long, with
  the part of \<^verbatim>\<open>time.ParseDuration\<close> it needs; and \<^verbatim>\<open>Policy.validate\<close> of \<^verbatim>\<open>policy.go\<close>, which calls
  the validators of every part of a policy.
\<close>

section \<open>time.ParseDuration\<close>

text \<open>Rounding of a positive rational to the nearest \<^verbatim>\<open>float64\<close>, ties to even, in the range a
  duration's fraction can have (between \<open>2 ^ -97\<close> and \<open>2 ^ 203\<close>).\<close>

definition round_half_even :: "rat \<Rightarrow> int" where
  "round_half_even r =
     (let n = \<lfloor>r\<rfloor>; d = r - of_int n in
      if d < 1 / 2 then n else if d > 1 / 2 then n + 1 else if even n then n else n + 1)"

definition float64 :: "rat \<Rightarrow> rat" where
  "float64 q =
     (let s = q * 2 ^ 150 in
      case find (\<lambda>k. 2 ^ 52 \<le> s / 2 ^ k \<and> s / 2 ^ k < 2 ^ 53) [0..<300] of
        Some k \<Rightarrow> of_int (round_half_even (s / 2 ^ k)) * 2 ^ k / 2 ^ 150
      | None \<Rightarrow> q)"

definition duration_unit :: "string \<Rightarrow> nat option" where
  "duration_unit u =
     map_of [(''ns'', 1), (''us'', 10 ^ 3), ([CHR 0xC2, CHR 0xB5, CHR ''s''], 10 ^ 3),
       ([CHR 0xCE, CHR 0xBC, CHR ''s''], 10 ^ 3), (''ms'', 10 ^ 6), (''s'', 10 ^ 9),
       (''m'', 60 * 10 ^ 9), (''h'', 3600 * 10 ^ 9)] u"

text \<open>\<^verbatim>\<open>leadingFraction\<close>: the digits read as \<open>x\<close> with \<open>scale = 10 ^ k\<close>, ignoring digits that do not
  fit.\<close>

fun leading_fraction :: "nat \<Rightarrow> nat \<Rightarrow> bool \<Rightarrow> string \<Rightarrow> nat \<times> nat" where
  "leading_fraction x k overflow [] = (x, k)"
| "leading_fraction x k overflow (c # cs) =
     (if overflow then leading_fraction x k True cs
      else if x > (2 ^ 63 - 1) div 10 then leading_fraction x k True cs
      else let y = x * 10 + digit_val c in
        if y > 2 ^ 63 then leading_fraction x k True cs
        else leading_fraction y (k + 1) False cs)"

definition fraction_nanos :: "nat \<Rightarrow> nat \<Rightarrow> nat \<Rightarrow> nat" where
  "fraction_nanos f unit k =
     nat \<lfloor>float64 (float64 (of_nat f) * float64 (of_nat unit / 10 ^ k))\<rfloor>"

definition unit_char :: "char \<Rightarrow> bool" where
  "unit_char c \<longleftrightarrow> c \<noteq> CHR ''.'' \<and> \<not> is_digit c"

text \<open>The loop, on the magnitude so far (a \<^verbatim>\<open>uint64\<close>, so the sum wraps) and the rest.\<close>

function duration_loop :: "nat \<Rightarrow> string \<Rightarrow> nat option" where
  "duration_loop d s =
     (if s = [] then Some d
      else if unit_char (hd s) then None
      else let ds = takeWhile is_digit s; s1 = dropWhile is_digit s; v = dec_val ds;
               dotted = (s1 \<noteq> [] \<and> hd s1 = CHR ''.'');
               fs = (if dotted then takeWhile is_digit (tl s1) else []);
               s2 = (if dotted then dropWhile is_digit (tl s1) else s1);
               (f, k) = leading_fraction 0 0 False fs;
               u = takeWhile unit_char s2; s3 = dropWhile unit_char s2 in
        if v > 2 ^ 63 \<or> ds = [] \<and> fs = [] \<or> u = [] then None
        else (case duration_unit u of
            None \<Rightarrow> None
          | Some unit \<Rightarrow>
              if v > 2 ^ 63 div unit then None
              else let v' = v * unit + (if f > 0 then fraction_nanos f unit k else 0);
                       d' = (d + v') mod 2 ^ 64 in
                if f > 0 \<and> v' > 2 ^ 63 \<or> d' > 2 ^ 63 then None
                else duration_loop d' s3))"
  by pat_completeness auto
termination
proof (relation "measure (\<lambda>(d, s). length s)", goal_cases)
  case (2 d s ds s1 v dotted fs s2 fk f k u s3)
  have "length s2 \<le> length s"
    using 2 length_dropWhile_le [of is_digit s] length_dropWhile_le [of is_digit "tl s1"] by auto
  moreover have "length s3 < length s2"
    using 2 length_append [of u s3] takeWhile_dropWhile_id [of unit_char s2] by (cases u) auto
  ultimately show ?case by simp
qed simp

declare duration_loop.simps [simp del]

definition parse_duration :: "string \<Rightarrow> duration option" where
  "parse_duration s =
     (let (neg, body) = (case s of
             [] \<Rightarrow> (False, [])
           | c # r \<Rightarrow> if c = CHR ''-'' then (True, r) else if c = CHR ''+'' then (False, r) else (False, s))
      in if body = ''0'' then Some 0
         else if body = [] then None
         else (case duration_loop 0 body of
             None \<Rightarrow> None
           | Some d \<Rightarrow>
               if neg then Some (- int d)
               else if d > 2 ^ 63 - 1 then None else Some (int d)))"

section \<open>Access requests\<close>

definition default_access_duration :: duration where
  "default_access_duration = hour"

definition max_access_duration :: duration where
  "max_access_duration = 7 * 24 * hour"

definition ar_max :: "access_rule \<Rightarrow> duration" where
  "ar_max r =
     (case parse_duration (ar_max_duration r) of
        Some d \<Rightarrow> if d > 0 then d else default_access_duration
      | None \<Rightarrow> default_access_duration)"

datatype dst_error = DstSyntax | DstSelector selector_error | DstPorts

definition check_dst :: "policy \<Rightarrow> string \<Rightarrow> dst_error option" where
  "check_dst p d =
     (case split_dst d of
        None \<Rightarrow> Some DstSyntax
      | Some (sel, ports) \<Rightarrow>
          (case check_selector p sel of
             Some e \<Rightarrow> Some (DstSelector e)
           | None \<Rightarrow> if parse_ports ports = None then Some DstPorts else None))"

datatype access_error =
    AccessEmpty nat | AccessSrcNetwork nat string | AccessSrc nat string selector_error
  | AccessDst nat string dst_error | AccessMaxDuration nat string

definition validate_access_rules :: "policy \<Rightarrow> access_error list" where
  "validate_access_rules p =
     concat (map (\<lambda>(i, r).
         (if ar_src r = [] \<or> ar_dst r = [] then [AccessEmpty i] else [])
         @ concat (map (\<lambda>s. if contains_char (CHR ''/'') s then [AccessSrcNetwork i s]
             else (case check_selector p s of Some e \<Rightarrow> [AccessSrc i s e] | None \<Rightarrow> [])) (ar_src r))
         @ concat (map (\<lambda>d. case check_dst p d of Some e \<Rightarrow> [AccessDst i d e] | None \<Rightarrow> []) (ar_dst r))
         @ (if ar_max_duration r \<noteq> [] then
              (case parse_duration (ar_max_duration r) of
                 None \<Rightarrow> [AccessMaxDuration i (ar_max_duration r)]
               | Some d \<Rightarrow> if d \<le> 0 \<or> d > max_access_duration
                          then [AccessMaxDuration i (ar_max_duration r)] else [])
            else []))
       (enumerate 0 (access_requests p)))"

definition requestable :: "policy \<Rightarrow> node \<Rightarrow> access_rule list" where
  "requestable p n = filter (\<lambda>r. list_ex (\<lambda>s. matches p s n) (ar_src r)) (access_requests p)"

definition ports_within :: "port_range list \<Rightarrow> port_range list \<Rightarrow> bool" where
  "ports_within want have \<longleftrightarrow>
     list_all (\<lambda>w. list_ex (\<lambda>h. pr_first h \<le> pr_first w \<and> pr_last w \<le> pr_last h) have) want"

definition covering :: "policy \<Rightarrow> node \<Rightarrow> string \<Rightarrow> access_rule list option" where
  "covering p n dst =
     (case split_dst dst of
        None \<Rightarrow> None
      | Some (sel, ports) \<Rightarrow>
          (case parse_ports ports of
             None \<Rightarrow> None
           | Some want \<Rightarrow>
               Some (filter (\<lambda>r. list_ex (\<lambda>rd.
                   case split_dst_or_empty rd of (rsel, rports) \<Rightarrow>
                     rsel = sel \<and> ports_within want (parse_ports_or_nil rports)) (ar_dst r))
                 (requestable p n))))"

text \<open>The running maximum of \<^verbatim>\<open>MaxRequest\<close> and \<^verbatim>\<open>MatchRequest\<close>.\<close>

definition longest :: "access_rule list \<Rightarrow> duration" where
  "longest rules = foldl (\<lambda>l r. max l (ar_max r)) 0 rules"

definition max_request :: "policy \<Rightarrow> node \<Rightarrow> string \<Rightarrow> duration" where
  "max_request p n dst = (case covering p n dst of Some rules \<Rightarrow> longest rules | None \<Rightarrow> 0)"

datatype request_error = RequestSyntax | AtMost duration | NotRequestable

definition pick_rule :: "duration \<Rightarrow> access_rule option \<Rightarrow> access_rule \<Rightarrow> access_rule option" where
  "pick_rule d found r =
     (if d \<le> ar_max r \<and>
         (case found of None \<Rightarrow> True | Some f \<Rightarrow> ar_auto_approve r \<and> \<not> ar_auto_approve f)
      then Some r else found)"

definition match_request :: "policy \<Rightarrow> node \<Rightarrow> string \<Rightarrow> duration \<Rightarrow> request_error + access_rule" where
  "match_request p n dst d =
     (case covering p n dst of
        None \<Rightarrow> Inl RequestSyntax
      | Some rules \<Rightarrow>
          (case foldl (pick_rule d) None rules of
             Some r \<Rightarrow> Inr r
           | None \<Rightarrow> if longest rules > 0 then Inl (AtMost (longest rules)) else Inl NotRequestable))"

section \<open>Validation of a whole policy\<close>

text \<open>\<^verbatim>\<open>localUserRe\<close>: \<^verbatim>\<open>^[a-z_][a-z0-9_.-]{0,31}$\<close>.\<close>

definition lower_or_underscore :: "char \<Rightarrow> bool" where
  "lower_or_underscore c \<longleftrightarrow> 97 \<le> (of_char c :: nat) \<and> (of_char c :: nat) \<le> 122 \<or> c = CHR ''_''"

definition local_user_ok :: "string \<Rightarrow> bool" where
  "local_user_ok u \<longleftrightarrow>
     (case u of [] \<Rightarrow> False
      | c # r \<Rightarrow> lower_or_underscore c \<and> length r \<le> 31 \<and>
          list_all (\<lambda>c. lower_or_underscore c \<or> is_digit c \<or> c = CHR ''.'' \<or> c = CHR ''-'') r)"

datatype policy_error =
    GroupName string | GroupMember string string
  | AclAction nat | AclEmpty nat | AclSrc nat string selector_error | AclDst nat string dst_error
  | TestInvalid nat test_error
  | SshAction nat | SshEmpty nat | SshSrc nat string selector_error | SshDstNetwork nat string
  | SshDst nat string selector_error | SshUser nat string
  | AccessInvalid access_error | PostureInvalid posture_error
  | LimitNegative string | LimitScope string | LimitSelector string selector_error

definition validate_groups :: "policy \<Rightarrow> policy_error list" where
  "validate_groups p =
     concat (map (\<lambda>(g, members).
         (if \<not> has_prefix ''group:'' g \<or> length g = length ''group:'' then [GroupName g] else [])
         @ map (GroupMember g) (filter (contains_char (CHR '':'')) members)) (groups p))"

definition validate_acls :: "policy \<Rightarrow> policy_error list" where
  "validate_acls p =
     concat (map (\<lambda>(i, a).
         (if acl_action a \<noteq> ''accept'' then [AclAction i] else [])
         @ (if acl_src a = [] \<or> acl_dst a = [] then [AclEmpty i] else [])
         @ concat (map (\<lambda>s. case check_selector p s of Some e \<Rightarrow> [AclSrc i s e] | None \<Rightarrow> []) (acl_src a))
         @ concat (map (\<lambda>d. case check_dst p d of Some e \<Rightarrow> [AclDst i d e] | None \<Rightarrow> []) (acl_dst a)))
       (enumerate 0 (acls p)))"

definition validate_ssh :: "policy \<Rightarrow> policy_error list" where
  "validate_ssh p =
     concat (map (\<lambda>(i, r).
         (if ssh_action r \<noteq> ''accept'' then [SshAction i] else [])
         @ (if ssh_src r = [] \<or> ssh_dst r = [] \<or> ssh_users r = [] then [SshEmpty i] else [])
         @ concat (map (\<lambda>s. case check_selector p s of Some e \<Rightarrow> [SshSrc i s e] | None \<Rightarrow> []) (ssh_src r))
         @ concat (map (\<lambda>s. if contains_char (CHR ''/'') s then [SshDstNetwork i s]
             else (case check_selector p s of Some e \<Rightarrow> [SshDst i s e] | None \<Rightarrow> [])) (ssh_dst r))
         @ map (SshUser i) (filter (\<lambda>u. u \<noteq> ''$user'' \<and> \<not> local_user_ok u) (ssh_users r)))
       (enumerate 0 (ssh p)))"

definition validate_limits :: "policy \<Rightarrow> policy_error list" where
  "validate_limits p =
     concat (map (\<lambda>(sel, n).
         if n < 0 then [LimitNegative sel]
         else if has_prefix ''node:'' sel \<or> contains_char (CHR ''/'') sel then [LimitScope sel]
         else (case check_selector p sel of Some e \<Rightarrow> [LimitSelector sel e] | None \<Rightarrow> []))
       (device_limits p))"

definition validate_tests :: "policy \<Rightarrow> policy_error list" where
  "validate_tests p =
     concat (map (\<lambda>(i, t). case test_validate t of Some e \<Rightarrow> [TestInvalid i e] | None \<Rightarrow> [])
       (enumerate 0 (tests p)))"

definition validate :: "policy \<Rightarrow> policy_error list" where
  "validate p = validate_groups p @ validate_acls p @ validate_tests p @ validate_ssh p
     @ map AccessInvalid (validate_access_rules p) @ map PostureInvalid (validate_postures p)
     @ validate_limits p"

section \<open>Lemmas\<close>

lemma ports_within_sound: "ports_within want have \<Longrightarrow> port_in port want \<Longrightarrow> port_in port have"
proof -
  assume *: "ports_within want have" "port_in port want"
  obtain w where w: "w \<in> set want" "pr_first w \<le> port" "port \<le> pr_last w"
    using *(2) unfolding port_in_def list_ex_iff by blast
  then obtain h where "h \<in> set have" "pr_first h \<le> pr_first w" "pr_last w \<le> pr_last h"
    using *(1) unfolding ports_within_def list_all_iff list_ex_iff by blast
  with w show ?thesis unfolding port_in_def list_ex_iff by (meson order_trans)
qed

lemma longest_step: "l \<le> foldl (\<lambda>l r. max l (ar_max r)) l rules"
proof (induction rules arbitrary: l)
  case (Cons r rules)
  show ?case using Cons.IH [of "max l (ar_max r)"] by simp
qed simp

lemma longest_from: "r \<in> set rules \<Longrightarrow> ar_max r \<le> foldl (\<lambda>l r. max l (ar_max r)) l rules"
proof (induction rules arbitrary: l)
  case (Cons q rules)
  then show ?case using longest_step [of "max l (ar_max q)" rules] by (cases "r = q") simp_all
qed simp

lemma longest_ge: "r \<in> set rules \<Longrightarrow> ar_max r \<le> longest rules"
  unfolding longest_def by (rule longest_from)

lemma ar_max_pos: "0 < ar_max r"
  by (auto simp: ar_max_def default_access_duration_def split: option.splits)

text \<open>The best rule so far: long enough, and self-approving if any seen is.\<close>

definition best_of :: "duration \<Rightarrow> access_rule set \<Rightarrow> access_rule option \<Rightarrow> bool" where
  "best_of d R found \<longleftrightarrow>
     (case found of
        None \<Rightarrow> \<forall>r \<in> R. \<not> d \<le> ar_max r
      | Some f \<Rightarrow> f \<in> R \<and> d \<le> ar_max f \<and>
          ((\<exists>r \<in> R. d \<le> ar_max r \<and> ar_auto_approve r) \<longrightarrow> ar_auto_approve f))"

lemma pick_rule_best: "best_of d R found \<Longrightarrow> best_of d (insert r R) (pick_rule d found r)"
  by (cases found) (auto simp: best_of_def pick_rule_def)

lemma pick_rules_best: "best_of d R found \<Longrightarrow> best_of d (R \<union> set rules) (foldl (pick_rule d) found rules)"
proof (induction rules arbitrary: R found)
  case (Cons r rules)
  then show ?case using pick_rule_best [OF Cons.prems, of r] Cons.IH by fastforce
qed simp

lemma match_best: "best_of d (set rules) (foldl (pick_rule d) None rules)"
  using pick_rules_best [of d "{}" None rules] by (simp add: best_of_def)

lemma validate_access_rulesD:
  assumes "validate_access_rules p = []" "r \<in> set (access_requests p)"
  shows "ar_max r \<le> max_access_duration"
proof -
  obtain i where "(i, r) \<in> set (enumerate 0 (access_requests p))"
    using assms(2) snd_set_enumerate [of 0 "access_requests p"] by force
  then have "ar_max_duration r \<noteq> [] \<longrightarrow>
      (\<exists>d. parse_duration (ar_max_duration r) = Some d \<and> 0 < d \<and> d \<le> max_access_duration)"
    using assms(1) by (fastforce simp: validate_access_rules_def split: option.splits if_splits)
  moreover have "parse_duration [] = None" by (simp add: parse_duration_def)
  ultimately show ?thesis
    by (cases "ar_max_duration r = []") (auto simp: ar_max_def default_access_duration_def max_access_duration_def)
qed

lemma validate_aclsD:
  assumes "validate_acls p = []" "a \<in> set (acls p)"
  shows "acl_action a = ''accept''" "acl_src a \<noteq> []" "acl_dst a \<noteq> []"
    "s \<in> set (acl_src a) \<Longrightarrow> check_selector p s = None"
    "d \<in> set (acl_dst a) \<Longrightarrow> check_dst p d = None"
proof -
  obtain i where "(i, a) \<in> set (enumerate 0 (acls p))"
    using assms(2) snd_set_enumerate [of 0 "acls p"] by force
  then show "acl_action a = ''accept''" "acl_src a \<noteq> []" "acl_dst a \<noteq> []"
    "s \<in> set (acl_src a) \<Longrightarrow> check_selector p s = None"
    "d \<in> set (acl_dst a) \<Longrightarrow> check_dst p d = None"
    using assms(1) by (fastforce simp: validate_acls_def split: option.splits if_splits)+
qed

lemma check_dst_None:
  "check_dst p d = None \<longleftrightarrow>
     (\<exists>sel ports rs. split_dst d = Some (sel, ports) \<and> check_selector p sel = None \<and> parse_ports ports = Some rs)"
  by (auto simp: check_dst_def split: option.splits)

lemma parse_ports_nonempty: "parse_ports s = Some rs \<Longrightarrow> rs \<noteq> []"
  using parse_port_parts_length by (force simp: parse_ports_def all_ports_def split: if_splits)

lemma parse_ports_ordered: "parse_ports s = Some rs \<Longrightarrow> r \<in> set rs \<Longrightarrow> pr_first r \<le> pr_last r"
  using parse_port_parts_ordered by (force simp: parse_ports_def all_ports_def split: if_splits)

lemma match_request_rule:
  assumes "match_request p n dst d = Inr r"
  shows "r \<in> set (access_requests p)" "d \<le> ar_max r"
proof -
  obtain rules where rules: "covering p n dst = Some rules" "foldl (pick_rule d) None rules = Some r"
    using assms by (auto simp: match_request_def split: option.splits if_splits)
  then have "r \<in> set rules" "d \<le> ar_max r" using match_best [of d rules] by (auto simp: best_of_def)
  then show "r \<in> set (access_requests p)" "d \<le> ar_max r"
    using rules(1) by (auto simp: covering_def requestable_def split: option.splits)
qed

lemma match_request_week: "match_request p n dst d = Inr r \<Longrightarrow> validate p = [] \<Longrightarrow> d \<le> max_access_duration"
  using match_request_rule validate_access_rulesD by (fastforce simp: validate_def)

section \<open>Properties\<close>

text \<open>Claim C27: a granted access request is one the policy allows: the rule comes from the policy,
  one of its sources names the machine, it lists the destination with ports that include every
  requested port, and the duration is at most the rule's; in a valid policy that is at most
  seven days.\<close>

theorem match_request_sound:
  assumes "match_request p n dst d = Inr r"
  shows "r \<in> set (access_requests p) \<and> (\<exists>s \<in> set (ar_src r). matches p s n) \<and> d \<le> ar_max r
    \<and> (\<exists>sel ports want rd rports. split_dst dst = Some (sel, ports) \<and> parse_ports ports = Some want \<and>
         rd \<in> set (ar_dst r) \<and> split_dst_or_empty rd = (sel, rports) \<and>
         (\<forall>port. port_in port want \<longrightarrow> port_in port (parse_ports_or_nil rports)))
    \<and> (validate p = [] \<longrightarrow> d \<le> max_access_duration)"
proof -
  obtain rules where rules: "covering p n dst = Some rules" "foldl (pick_rule d) None rules = Some r"
    using assms by (auto simp: match_request_def split: option.splits if_splits)
  have r: "r \<in> set rules" "d \<le> ar_max r"
    using match_best [of d rules] rules(2) by (auto simp: best_of_def)
  obtain sel ports want where sp: "split_dst dst = Some (sel, ports)" "parse_ports ports = Some want"
    using rules(1) by (auto simp: covering_def split: option.splits)
  with rules(1) r(1) obtain rd where rd: "rd \<in> set (ar_dst r)" "r \<in> set (requestable p n)"
      "case split_dst_or_empty rd of (rsel, rports) \<Rightarrow> rsel = sel \<and> ports_within want (parse_ports_or_nil rports)"
    by (auto simp: covering_def list_ex_iff)
  then have req: "r \<in> set (access_requests p)" "\<exists>s \<in> set (ar_src r). matches p s n"
    by (auto simp: requestable_def list_ex_iff)
  have "validate p = [] \<longrightarrow> d \<le> max_access_duration" using match_request_week [OF assms] ..
  moreover obtain rports where "split_dst_or_empty rd = (sel, rports)" "ports_within want (parse_ports_or_nil rports)"
    using rd(3) by (cases "split_dst_or_empty rd") auto
  ultimately show ?thesis using req r(2) sp rd(1) ports_within_sound by blast
qed

text \<open>A request is granted whenever some covering rule allows its duration, a
  self-approving rule is preferred to one that needs an admin, and otherwise the error names
  the longest duration that would have been granted.\<close>

theorem match_request_complete:
  assumes "covering p n dst = Some rules"
  shows "if \<exists>r \<in> set rules. d \<le> ar_max r
    then \<exists>r. match_request p n dst d = Inr r \<and>
      ((\<exists>q \<in> set rules. d \<le> ar_max q \<and> ar_auto_approve q) \<longrightarrow> ar_auto_approve r)
    else match_request p n dst d =
      Inl (if rules = [] then NotRequestable else AtMost (max_request p n dst))"
proof (cases "foldl (pick_rule d) None rules")
  case None
  then have "\<forall>r \<in> set rules. \<not> d \<le> ar_max r" using match_best [of d rules] by (simp add: best_of_def)
  moreover have "longest rules > 0 \<longleftrightarrow> rules \<noteq> []"
    using longest_ge [of "hd rules" rules] ar_max_pos [of "hd rules"] by (cases rules) (simp_all add: longest_def)
  ultimately show ?thesis using None assms by (auto simp: match_request_def max_request_def)
next
  case (Some r)
  then show ?thesis using match_best [of d rules] assms by (auto simp: match_request_def best_of_def)
qed

text \<open>In a policy that validates, every rule accepts, and every destination of every rule
  splits into a selector and a non-empty list of ordered port ranges, so the errors the
  compiler ignores never occur.\<close>

theorem validated_destinations:
  assumes "validate p = []" "a \<in> set (acls p)" "d \<in> set (acl_dst a)"
  shows "acl_action a = ''accept'' \<and> (\<exists>sel ports rs. split_dst d = Some (sel, ports) \<and>
    check_selector p sel = None \<and> parse_ports ports = Some rs \<and> rs \<noteq> [] \<and>
    (\<forall>r \<in> set rs. pr_first r \<le> pr_last r))"
proof -
  have v: "validate_acls p = []" using assms(1) by (simp add: validate_def)
  obtain sel ports rs where "split_dst d = Some (sel, ports)" "check_selector p sel = None"
      "parse_ports ports = Some rs"
    using validate_aclsD(5) [OF v assms(2,3)] by (auto simp: check_dst_None)
  then show ?thesis
    using validate_aclsD(1) [OF v assms(2)] parse_ports_nonempty parse_ports_ordered by blast
qed


text \<open>A policy with one requestable destination, and a machine that may request it.\<close>

definition demo_policy :: policy where
  "demo_policy = allow_all\<lparr>access_requests :=
     [\<lparr>ar_src = [''*''], ar_dst = [''db:5432''], ar_max_duration = [], ar_auto_approve = True\<rparr>]\<rparr>"

definition demo_node :: node where
  "demo_node = \<lparr>node_id = 1, node_name = ''laptop'', node_user = ''karan'', node_addrs = [],
     node_routes = [], node_posture = []\<rparr>"

lemmas demo_defs = demo_policy_def demo_node_def allow_all_def

lemma demo_covering:
  "covering demo_policy demo_node ''db:5432'' =
     Some [\<lparr>ar_src = [''*''], ar_dst = [''db:5432''], ar_max_duration = [], ar_auto_approve = True\<rparr>]"
  by (simp add: covering_def requestable_def demo_defs matches_def split_dst_def split_dst_or_empty_def
      parse_ports_def parse_port_part_def parse_ports_or_nil_def ports_within_def go_eval)

lemma demo_ar_max:
  "ar_max \<lparr>ar_src = [''*''], ar_dst = [''db:5432''], ar_max_duration = [], ar_auto_approve = True\<rparr> = hour"
  by (simp add: ar_max_def parse_duration_def default_access_duration_def)

theorem match_request_sound_witness:
  "\<exists>r. match_request demo_policy demo_node ''db:5432'' minute = Inr r \<and> minute \<le> ar_max r"
proof -
  obtain r where "match_request demo_policy demo_node ''db:5432'' minute = Inr r"
    by (simp add: match_request_def demo_covering pick_rule_def demo_ar_max)
  then show ?thesis using match_request_sound by blast
qed

theorem match_request_complete_witness:
  "match_request demo_policy demo_node ''db:5432'' (2 * hour) =
     Inl (AtMost (max_request demo_policy demo_node ''db:5432''))"
  using match_request_complete [OF demo_covering, of "2 * hour"] by (simp add: demo_ar_max)

lemma allow_all_valid: "validate allow_all = []"
  by (simp add: allow_all_def validate_def validate_groups_def validate_acls_def validate_tests_def validate_ssh_def
     validate_access_rules_def validate_postures_def validate_limits_def check_selector_def check_dst_def
     split_dst_def parse_ports_def go_eval)

theorem validated_destinations_witness:
  "\<exists>sel ports. split_dst ''*:*'' = Some (sel, ports)"
  using validated_destinations [OF allow_all_valid, of "hd (acls allow_all)" "''*:*''"]
  by (auto simp: allow_all_def)

end
