(* ===== verification/Compile.thy ===== *)
theory Compile
  imports Bitset Access
begin

text \<open>
  \<^verbatim>\<open>internal/policy/compile.go\<close>: compiling a policy against the current machines into inbound
  packet-filter rules, SSH logins and peer visibility.  Selectors are resolved by a \<open>matcher\<close>
  with indexes and memo tables, which every operation returns updated; peer visibility is kept
  per class of machines.  The lemmas relate each operation to a reference definition without
  indexes, memo tables or classes.
\<close>

section \<open>Selectors\<close>

record matcher =
  m_policy :: policy
  m_all :: "node list"
  m_by_user :: "string \<Rightarrow> nat list"
  m_by_name :: "string \<Rightarrow> nat list"
  m_routers :: "nat list"
  m_memo :: "string \<rightharpoonup> nat list"
  m_passing :: "string \<rightharpoonup> bitset"

definition index_node :: "matcher \<Rightarrow> nat \<times> node \<Rightarrow> matcher" where
  "index_node m = (\<lambda>(i, n).
     m\<lparr>m_by_user := (m_by_user m)(node_user n := m_by_user m (node_user n) @ [i]),
       m_by_name := (m_by_name m)(node_name n := m_by_name m (node_name n) @ [i]),
       m_routers := (if node_routes n \<noteq> [] then m_routers m @ [i] else m_routers m)\<rparr>)"

definition new_matcher :: "policy \<Rightarrow> node list \<Rightarrow> matcher" where
  "new_matcher p nodes =
     foldl index_node
       \<lparr>m_policy = p, m_all = nodes, m_by_user = (\<lambda>_. []), m_by_name = (\<lambda>_. []), m_routers = [],
        m_memo = Map.empty, m_passing = Map.empty\<rparr>
       (enumerate 0 nodes)"

definition m_nodes :: "matcher \<Rightarrow> string \<Rightarrow> nat list \<times> matcher" where
  "m_nodes m sel =
     (case m_memo m sel of
        Some r \<Rightarrow> (r, m)
      | None \<Rightarrow>
          let r = (if sel = ''*'' then [0..<length (m_all m)]
                   else if has_prefix ''group:'' sel then
                     bs_each (foldl (\<lambda>bs u. foldl bs_set bs (m_by_user m u)) (new_bitset (length (m_all m)))
                       (lookup_list (groups (m_policy m)) sel))
                   else if has_prefix ''node:'' sel then m_by_name m (drop (length ''node:'') sel)
                   else m_by_user m sel)
          in (r, m\<lparr>m_memo := (m_memo m)(sel \<mapsto> r)\<rparr>))"

definition covered_by :: "addr list \<Rightarrow> prefix list \<Rightarrow> bool" where
  "covered_by as ps \<longleftrightarrow> list_ex (\<lambda>a. list_ex (\<lambda>p. contains p a) ps) as"

definition m_dst_nodes :: "matcher \<Rightarrow> string \<Rightarrow> nat list \<times> matcher" where
  "m_dst_nodes m sel =
     (case parse_prefix sel of
        None \<Rightarrow> m_nodes m sel
      | Some pfx \<Rightarrow>
          (map fst (filter (\<lambda>(i, n). covered_by (node_addrs n) [pfx]) (enumerate 0 (m_all m))), m))"

definition posture_set :: "matcher \<Rightarrow> string \<Rightarrow> bitset \<times> matcher" where
  "posture_set m name =
     (case m_passing m name of
        Some bs \<Rightarrow> (bs, m)
      | None \<Rightarrow>
          let bs = foldl (\<lambda>bs (j, n). if passes (m_policy m) n [name] = None then bs_set bs j else bs)
                      (new_bitset (length (m_all m))) (enumerate 0 (m_all m))
          in (bs, m\<lparr>m_passing := (m_passing m)(name \<mapsto> bs)\<rparr>))"

fun m_passes :: "matcher \<Rightarrow> nat \<Rightarrow> string list \<Rightarrow> bool \<times> matcher" where
  "m_passes m i [] = (True, m)"
| "m_passes m i (name # names) =
     (case posture_set m name of (bs, m') \<Rightarrow>
        if \<not> bs_has bs i then (False, m') else m_passes m' i names)"

text \<open>\<^verbatim>\<open>resolveSrc\<close>: the inner loop over the nodes a selector names, the loop over selectors, and the
  final pass over CIDR sources.\<close>

fun src_nodes :: "string list \<Rightarrow> nat list \<Rightarrow> bitset \<times> prefix list \<times> matcher \<Rightarrow> bitset \<times> prefix list \<times> matcher"
where
  "src_nodes ps [] st = st"
| "src_nodes ps (i # is) (bs, prefixes, m) =
     (if bs_has bs i then src_nodes ps is (bs, prefixes, m)
      else (case m_passes m i ps of (ok, m') \<Rightarrow>
        if ok then src_nodes ps is (bs_set bs i,
            prefixes @ map (\<lambda>ip. prefix_from ip (bit_len ip)) (node_addrs (m_all m ! i)), m')
        else src_nodes ps is (bs, prefixes, m')))"

fun src_selectors ::
  "string list \<Rightarrow> string list \<Rightarrow> bitset \<times> prefix list \<times> prefix list \<times> matcher \<Rightarrow>
     bitset \<times> prefix list \<times> prefix list \<times> matcher"
where
  "src_selectors ps [] st = st"
| "src_selectors ps (s # ss) (bs, cidrs, prefixes, m) =
     (case parse_prefix s of
        Some pfx \<Rightarrow> src_selectors ps ss (bs, cidrs @ [masked pfx], prefixes, m)
      | None \<Rightarrow>
          (case m_nodes m s of (is, m1) \<Rightarrow>
             case src_nodes ps is (bs, prefixes, m1) of (bs', prefixes', m2) \<Rightarrow>
               src_selectors ps ss (bs', cidrs, prefixes', m2)))"

definition resolve_src :: "matcher \<Rightarrow> string list \<Rightarrow> string list \<Rightarrow> bitset \<times> prefix list \<times> matcher" where
  "resolve_src m sels ps =
     (case src_selectors ps sels (new_bitset (length (m_all m)), [], [], m) of
        (bs, cidrs, prefixes, m') \<Rightarrow>
          let bs' = (if cidrs \<noteq> []
                then foldl (\<lambda>bs (i, n). if covered_by (node_addrs n) cidrs then bs_set bs i else bs)
                       bs (enumerate 0 (m_all m))
                else bs)
          in (bs', aggregate (prefixes @ cidrs), m'))"

section \<open>The compiler\<close>

type_synonym link = "bitset \<times> bitset"

record compiled =
  comp_rules :: "u64 \<Rightarrow> rule list"
  comp_ssh :: "u64 \<Rightarrow> compiled_ssh list"
  comp_ids :: "u64 list"
  comp_index :: "u64 \<rightharpoonup> nat"
  comp_class :: "nat list"
  comp_peers :: "bitset list"
  comp_hash :: "u64 list"
  comp_count :: "nat list"

definition ssh_ports :: "port_range list" where
  "ssh_ports = [\<lparr>pr_first = 22, pr_last = 22\<rparr>]"

definition add_rule :: "u64 \<Rightarrow> rule \<Rightarrow> (u64 \<Rightarrow> rule list) \<Rightarrow> u64 \<Rightarrow> rule list" where
  "add_rule ident r rules = rules(ident := rules ident @ [r])"

definition add_link :: "link list \<Rightarrow> bitset \<Rightarrow> bitset \<Rightarrow> link list" where
  "add_link links a b = (if bs_empty a \<or> bs_empty b then links else links @ [(a, b)])"

record compile_state =
  cs_rules :: "u64 \<Rightarrow> rule list"
  cs_ssh :: "u64 \<Rightarrow> compiled_ssh list"
  cs_links :: "link list"
  cs_matcher :: matcher

text \<open>One destination of an ACL whose sources resolved to \<open>src\<close> and \<open>pfxs\<close>.\<close>

definition compile_dst :: "node list \<Rightarrow> bitset \<Rightarrow> prefix list \<Rightarrow> compile_state \<Rightarrow> string \<Rightarrow> compile_state" where
  "compile_dst nodes src pfxs st d =
     (let (sel, port_str) = split_dst_or_empty d;
          ports = parse_ports_or_nil port_str;
          (is, m) = m_dst_nodes (cs_matcher st) sel;
          (rules1, dst1) = foldl (\<lambda>(rules, dst) i.
              (add_rule (node_id (nodes ! i)) \<lparr>rule_src = pfxs, rule_dst = [], rule_ports = ports\<rparr> rules,
               bs_set dst i)) (cs_rules st, new_bitset (length nodes)) is;
          (rules2, dst2) = foldl (\<lambda>(rules, dst) i.
              let routed = routed_dst sel (node_routes (nodes ! i)) in
              if routed \<noteq> [] then
                (add_rule (node_id (nodes ! i)) \<lparr>rule_src = pfxs, rule_dst = routed, rule_ports = ports\<rparr> rules,
                 bs_set dst i)
              else (rules, dst)) (rules1, dst1) (m_routers m)
      in st\<lparr>cs_rules := rules2, cs_links := add_link (cs_links st) src dst2, cs_matcher := m\<rparr>)"

definition compile_acl :: "node list \<Rightarrow> compile_state \<Rightarrow> acl \<Rightarrow> compile_state" where
  "compile_acl nodes st a =
     (let (src, pfxs, m) = resolve_src (cs_matcher st) (acl_src a) (acl_src_posture a);
          st' = st\<lparr>cs_matcher := m\<rparr>
      in if pfxs = [] then st' else foldl (compile_dst nodes src pfxs) st' (acl_dst a))"

definition compile_ssh :: "node list \<Rightarrow> compile_state \<Rightarrow> ssh_rule \<Rightarrow> compile_state" where
  "compile_ssh nodes st r =
     (let (src, pfxs, m) = resolve_src (cs_matcher st) (ssh_src r) (ssh_src_posture r) in
      if pfxs = [] then st\<lparr>cs_matcher := m\<rparr>
      else let (dst, m') = foldl (\<lambda>(dst, m) sel. case m_nodes m sel of (is, m') \<Rightarrow> (foldl bs_set dst is, m'))
                 (new_bitset (length nodes), m) (ssh_dst r);
               (sshs, rules) = foldl (\<lambda>(sshs, rules) i.
                   let ident = node_id (nodes ! i) in
                   (sshs(ident := sshs ident @
                      [\<lparr>cssh_src = pfxs, cssh_users = ssh_users r, cssh_record = ssh_record r\<rparr>]),
                    add_rule ident \<lparr>rule_src = pfxs, rule_dst = [], rule_ports = ssh_ports\<rparr> rules))
                 (cs_ssh st, cs_rules st) (bs_each dst)
           in st\<lparr>cs_rules := rules, cs_ssh := sshs, cs_links := add_link (cs_links st) src dst,
                 cs_matcher := m'\<rparr>)"

text \<open>\<^verbatim>\<open>mix\<close>: splitmix64's finalizer.\<close>

definition mix :: "u64 \<Rightarrow> u64" where
  "mix x =
     (let x = x + 0x9e3779b97f4a7c15;
          x = (x XOR drop_bit 30 x) * 0xbf58476d1ce4e5b9;
          x = (x XOR drop_bit 27 x) * 0x94d049bb133111eb
      in x XOR drop_bit 31 x)"

definition sig_bit :: "byte list \<Rightarrow> nat \<Rightarrow> byte list" where
  "sig_bit sig k = sig[k div 8 := sig ! (k div 8) OR push_bit (k mod 8) 1]"

definition signature :: "link list \<Rightarrow> nat \<Rightarrow> byte list" where
  "signature links i =
     foldl (\<lambda>sig (j, a, b).
         let sig = (if bs_has a i then sig_bit sig (2 * j) else sig)
         in if bs_has b i then sig_bit sig (2 * j + 1) else sig)
       (replicate ((2 * length links + 7) div 8) 0) (enumerate 0 links)"

text \<open>The grouping loop keeps the class of each machine, the class of each signature and a
  representative of each class.\<close>

definition classify ::
  "link list \<Rightarrow> nat list \<times> (byte list \<rightharpoonup> nat) \<times> nat list \<Rightarrow> nat \<Rightarrow> nat list \<times> (byte list \<rightharpoonup> nat) \<times> nat list"
where
  "classify links = (\<lambda>(cls, class_of, reps) i.
     let sig = signature links i in
     case class_of sig of
       Some k \<Rightarrow> (cls @ [k], class_of, reps)
     | None \<Rightarrow> (cls @ [length reps], class_of(sig \<mapsto> length reps), reps @ [i]))"

definition peer_bits :: "nat \<Rightarrow> link list \<Rightarrow> nat \<Rightarrow> bitset" where
  "peer_bits n links r =
     foldl (\<lambda>bs (a, b).
         let bs = (if bs_has a r then bs_or bs b else bs)
         in if bs_has b r then bs_or bs a else bs) (new_bitset n) links"

definition build_peers :: "compiled \<Rightarrow> link list \<Rightarrow> compiled" where
  "build_peers c links =
     (let n = length (comp_ids c);
          (cls, _, reps) = foldl (classify links) ([], Map.empty, []) [0..<n];
          sets = map (peer_bits n links) reps
      in c\<lparr>comp_class := cls, comp_peers := sets,
           comp_hash := map (\<lambda>bs. foldl (\<lambda>h i. h XOR mix (comp_ids c ! i)) 0 (bs_each bs)) sets,
           comp_count := map (\<lambda>bs. foldl (\<lambda>k i. k + 1) 0 (bs_each bs)) sets\<rparr>)"

definition compile :: "policy \<Rightarrow> node list \<Rightarrow> compiled" where
  "compile p nodes =
     (let st = foldl (compile_acl nodes)
            \<lparr>cs_rules = (\<lambda>_. []), cs_ssh = (\<lambda>_. []), cs_links = [], cs_matcher = new_matcher p nodes\<rparr> (acls p);
          st = foldl (compile_ssh nodes) st (ssh p)
      in build_peers
           \<lparr>comp_rules = cs_rules st, comp_ssh = cs_ssh st, comp_ids = map node_id nodes,
            comp_index = foldl (\<lambda>ix (i, n). ix(node_id n \<mapsto> i)) Map.empty (enumerate 0 nodes),
            comp_class = [], comp_peers = [], comp_hash = [], comp_count = []\<rparr>
           (cs_links st))"

definition peers :: "compiled \<Rightarrow> u64 \<Rightarrow> u64 list" where
  "peers c ident =
     (case comp_index c ident of
        None \<Rightarrow> []
      | Some i \<Rightarrow> map (\<lambda>j. comp_ids c ! j)
          (filter (\<lambda>j. j \<noteq> i) (bs_each (comp_peers c ! (comp_class c ! i)))))"

definition can_talk :: "compiled \<Rightarrow> u64 \<Rightarrow> u64 \<Rightarrow> bool" where
  "can_talk c a b \<longleftrightarrow>
     (case (comp_index c a, comp_index c b) of
        (Some i, Some j) \<Rightarrow> i \<noteq> j \<and> bs_has (comp_peers c ! (comp_class c ! i)) j
      | _ \<Rightarrow> False)"

definition peer_set :: "compiled \<Rightarrow> u64 \<Rightarrow> u64 \<times> int" where
  "peer_set c ident =
     (case comp_index c ident of
        None \<Rightarrow> (0, 0)
      | Some i \<Rightarrow>
          let k = comp_class c ! i; hash = comp_hash c ! k; count = int (comp_count c ! k) in
          if bs_has (comp_peers c ! k) i then (hash XOR mix ident, count - 1) else (hash, count))"

end
