(* ===== verification/Compile_Correct.thy ===== *)
theory Compile_Correct
  imports Compile
begin

text \<open>
  Correctness of the policy compiler: the matcher's indexes and memo tables agree with the
  selectors' meaning, the loops append exactly the rules a policy states, and the classes of
  machines give the same peers as the pairwise relation.  The reference definitions
  (\<open>acl_rules\<close>, \<open>ssh_logins\<close>, \<open>policy_joins\<close>, \<open>src_prefixes\<close>) read the policy directly.
\<close>

section \<open>Lemmas: the matcher\<close>

text \<open>Reference: the indexes a selector names, without indexes or memo.\<close>

definition sel_nodes :: "policy \<Rightarrow> node list \<Rightarrow> string \<Rightarrow> nat list" where
  "sel_nodes p nodes sel = filter (\<lambda>i. matches p sel (nodes ! i)) [0..<length nodes]"

definition matcher_ok :: "policy \<Rightarrow> node list \<Rightarrow> matcher \<Rightarrow> bool" where
  "matcher_ok p nodes m \<longleftrightarrow>
     m_policy m = p \<and> m_all m = nodes \<and>
     (\<forall>u. m_by_user m u = filter (\<lambda>i. node_user (nodes ! i) = u) [0..<length nodes]) \<and>
     (\<forall>u. m_by_name m u = filter (\<lambda>i. node_name (nodes ! i) = u) [0..<length nodes]) \<and>
     m_routers m = filter (\<lambda>i. node_routes (nodes ! i) \<noteq> []) [0..<length nodes] \<and>
     (\<forall>sel r. m_memo m sel = Some r \<longrightarrow> r = sel_nodes p nodes sel) \<and>
     (\<forall>name s. m_passing m name = Some s \<longrightarrow> bs_inv (length nodes) s \<and>
        (\<forall>i < length nodes. bs_has s i \<longleftrightarrow> passes p (nodes ! i) [name] = None))"

lemma enumerate_nth: "enumerate 0 xs = map (\<lambda>i. (i, xs ! i)) [0..<length xs]"
  by (rule nth_equalityI) (simp_all add: nth_enumerate_eq)

lemma index_nodes:
  "foldl index_node m (map (\<lambda>i. (i, nodes ! i)) is) =
     m\<lparr>m_by_user := (\<lambda>u. m_by_user m u @ filter (\<lambda>i. node_user (nodes ! i) = u) is),
       m_by_name := (\<lambda>u. m_by_name m u @ filter (\<lambda>i. node_name (nodes ! i) = u) is),
       m_routers := m_routers m @ filter (\<lambda>i. node_routes (nodes ! i) \<noteq> []) is\<rparr>"
  by (induction "is" arbitrary: m) (auto simp: index_node_def fun_eq_iff)

lemma new_matcher_ok: "matcher_ok p nodes (new_matcher p nodes)"
  by (simp add: new_matcher_def enumerate_nth index_nodes matcher_ok_def)

text \<open>Setting the bits of the indexes that satisfy a predicate.\<close>

lemma fold_if_set:
  "foldl (\<lambda>bs (j, n). if P j n then bs_set bs j else bs) s (map (\<lambda>i. (i, nodes ! i)) is) =
     foldl bs_set s (filter (\<lambda>i. P i (nodes ! i)) is)"
  by (induction "is" arbitrary: s) auto

lemma fold_fold_set: "foldl (\<lambda>bs u. foldl bs_set bs (f u)) s us = foldl bs_set s (concat (map f us))"
  by (induction us arbitrary: s) auto

lemma sel_nodes_bound: "i \<in> set (sel_nodes p nodes sel) \<Longrightarrow> i < length nodes"
  by (simp add: sel_nodes_def)

lemma group_nodes:
  assumes "matcher_ok p nodes m"
  shows "bs_each (foldl (\<lambda>bs u. foldl bs_set bs (m_by_user m u)) (new_bitset (length nodes)) us) =
    filter (\<lambda>i. node_user (nodes ! i) \<in> set us) [0..<length nodes]"
proof -
  have by_user: "m_by_user m = (\<lambda>u. filter (\<lambda>i. node_user (nodes ! i) = u) [0..<length nodes])"
    using assms by (auto simp: matcher_ok_def)
  show ?thesis
    unfolding fold_fold_set by_user by (subst bits.elems_fold_ins) (auto intro!: filter_cong)
qed

lemma m_nodes_ok:
  assumes "matcher_ok p nodes m" "m_nodes m sel = (r, m')"
  shows "r = sel_nodes p nodes sel" "matcher_ok p nodes m'"
proof -
  have ok: "m_policy m = p" "m_all m = nodes" using assms(1) by (auto simp: matcher_ok_def)
  have r: "r = sel_nodes p nodes sel"
  proof (cases "m_memo m sel")
    case None
    then show ?thesis
      using assms ok group_nodes [OF assms(1)]
      by (auto simp: m_nodes_def sel_nodes_def matches_def matcher_ok_def Let_def split: if_splits)
  next
    case (Some r)
    then show ?thesis using assms by (auto simp: m_nodes_def matcher_ok_def)
  qed
  then show "r = sel_nodes p nodes sel" .
  have "m' = m \<or> m' = m\<lparr>m_memo := (m_memo m)(sel \<mapsto> r)\<rparr>"
    using assms(2) by (auto simp: m_nodes_def Let_def split: option.splits)
  then show "matcher_ok p nodes m'"
    using assms(1) r by (auto simp: matcher_ok_def simp del: passes.simps split: if_splits)
qed

lemma covered_by_single: "covered_by as [pfx] \<longleftrightarrow> list_ex (contains pfx) as"
  by (simp add: covered_by_def)

definition dst_nodes :: "policy \<Rightarrow> node list \<Rightarrow> string \<Rightarrow> nat list" where
  "dst_nodes p nodes sel = filter (\<lambda>i. matches_dst p sel (nodes ! i)) [0..<length nodes]"

lemma m_dst_nodes_ok:
  assumes "matcher_ok p nodes m" "m_dst_nodes m sel = (r, m')"
  shows "r = dst_nodes p nodes sel \<and> matcher_ok p nodes m'"
proof (cases "parse_prefix sel")
  case None
  then have "m_nodes m sel = (r, m')" using assms(2) by (simp add: m_dst_nodes_def)
  from m_nodes_ok [OF assms(1) this] show ?thesis
    using None by (simp add: dst_nodes_def sel_nodes_def matches_dst_def)
next
  case (Some pfx)
  have "m_all m = nodes" using assms(1) by (simp add: matcher_ok_def)
  then show ?thesis
    using assms Some
    by (auto simp: m_dst_nodes_def enumerate_nth filter_map comp_def dst_nodes_def matches_dst_def covered_by_single)
qed

lemma posture_set_ok:
  assumes "matcher_ok p nodes m" "posture_set m name = (s, m')"
  shows "matcher_ok p nodes m'" "i < length nodes \<Longrightarrow> bs_has s i \<longleftrightarrow> passes p (nodes ! i) [name] = None"
proof -
  have ok: "m_policy m = p" "m_all m = nodes" using assms(1) by (auto simp: matcher_ok_def)
  have "matcher_ok p nodes m' \<and> (\<forall>i < length nodes. bs_has s i \<longleftrightarrow> passes p (nodes ! i) [name] = None)"
  proof (cases "m_passing m name")
    case None
    define t where "t = foldl bs_set (new_bitset (length nodes))
        (filter (\<lambda>i. passes p (nodes ! i) [name] = None) [0..<length nodes])"
    have t: "bs_inv (length nodes) t"
      "\<forall>i < length nodes. bs_has t i \<longleftrightarrow> passes p (nodes ! i) [name] = None"
      unfolding t_def using bits.fold_ins [OF bits.inv_mk] bits.has_mk by (auto simp del: passes.simps)
    have "s = t \<and> m' = m\<lparr>m_passing := (m_passing m)(name \<mapsto> t)\<rparr>"
      using assms(2) None ok
      by (auto simp: posture_set_def enumerate_nth fold_if_set [where P = "\<lambda>j n. passes p n [name] = None"] t_def Let_def
          simp del: passes.simps)
    then show ?thesis using t assms(1) by (auto simp: matcher_ok_def simp del: passes.simps)
  next
    case (Some u)
    then show ?thesis using assms by (auto simp: posture_set_def matcher_ok_def simp del: passes.simps)
  qed
  then show "matcher_ok p nodes m'" "i < length nodes \<Longrightarrow> bs_has s i \<longleftrightarrow> passes p (nodes ! i) [name] = None"
    by blast+
qed

lemma passes_Cons: "passes p n (name # names) = None \<longleftrightarrow> passes p n [name] = None \<and> passes p n names = None"
  by (auto split: option.splits)

lemma m_passes_ok:
  assumes "matcher_ok p nodes m" "i < length nodes" "m_passes m i names = (ok, m')"
  shows "matcher_ok p nodes m' \<and> (ok \<longleftrightarrow> passes p (nodes ! i) names = None)"
  using assms
proof (induction names arbitrary: m)
  case (Cons name names)
  obtain s m1 where s: "posture_set m name = (s, m1)" by fastforce
  note ps = posture_set_ok [OF Cons.prems(1) s]
  show ?case
    using Cons.IH [OF ps(1) Cons.prems(2)] Cons.prems(3) ps s
    by (auto simp: passes_Cons [of _ _ _ names] Cons.prems(2) simp del: passes.simps split: if_splits)
qed simp

section \<open>Lemmas: sources\<close>

text \<open>Reference: the machines a list of source selectors names and that meet the postures, the
  CIDR sources, and the prefixes both stand for.\<close>

definition named_src :: "policy \<Rightarrow> string list \<Rightarrow> string list \<Rightarrow> node \<Rightarrow> bool" where
  "named_src p sels ps n \<longleftrightarrow>
     (\<exists>s \<in> set sels. parse_prefix s = None \<and> matches p s n) \<and> passes p n ps = None"

definition src_cidrs :: "string list \<Rightarrow> prefix list" where
  "src_cidrs sels = map masked (List.map_filter parse_prefix sels)"

definition in_src :: "policy \<Rightarrow> string list \<Rightarrow> string list \<Rightarrow> node \<Rightarrow> bool" where
  "in_src p sels ps n \<longleftrightarrow> named_src p sels ps n \<or> covered_by (node_addrs n) (src_cidrs sels)"

definition host_prefixes :: "node \<Rightarrow> prefix list" where
  "host_prefixes n = map (\<lambda>ip. prefix_from ip (bit_len ip)) (node_addrs n)"

text \<open>Invariant of the source loops: the bits are the indexes of the chosen machines, the prefixes
  their addresses.\<close>

definition src_inv :: "node list \<Rightarrow> bitset \<Rightarrow> prefix list \<Rightarrow> nat set \<Rightarrow> bool" where
  "src_inv nodes s prefixes C \<longleftrightarrow>
     bs_inv (length nodes) s \<and> C \<subseteq> {..<length nodes} \<and> (\<forall>i < length nodes. bs_has s i \<longleftrightarrow> i \<in> C) \<and>
     set prefixes = (\<Union>i \<in> C. set (host_prefixes (nodes ! i)))"

lemma src_nodes_ok:
  assumes "matcher_ok p nodes m" "src_inv nodes s prefixes C" "\<forall>i \<in> set is. i < length nodes"
    "src_nodes ps is (s, prefixes, m) = (s', prefixes', m')"
  shows "matcher_ok p nodes m' \<and>
    src_inv nodes s' prefixes' (C \<union> {i \<in> set is. passes p (nodes ! i) ps = None})"
  using assms
proof (induction "is" arbitrary: s prefixes m C)
  case (Cons i "is")
  let ?C = "C \<union> {j \<in> set (i # is). passes p (nodes ! j) ps = None}"
  have i: "i < length nodes" using Cons.prems(3) by simp
  have all: "m_all m = nodes" using Cons.prems(1) by (simp add: matcher_ok_def)
  obtain ok m1 where mp: "m_passes m i ps = (ok, m1)" by fastforce
  note ok = m_passes_ok [OF Cons.prems(1) i mp]
  show ?case
  proof (cases "bs_has s i \<or> \<not> ok")
    case True
    then have "?C = C \<union> {j \<in> set is. passes p (nodes ! j) ps = None}"
      using ok i Cons.prems(2) by (auto simp: src_inv_def)
    then show ?thesis
      using True Cons.IH [of m s prefixes C] Cons.IH [of m1 s prefixes C] Cons.prems mp ok
      by (auto split: if_splits)
  next
    case False
    then have "src_inv nodes (bs_set s i) (prefixes @ host_prefixes (nodes ! i)) (insert i C)"
      using Cons.prems(2) i by (auto simp: src_inv_def bits.inv_ins bits.has_ins)
    moreover have "?C = insert i C \<union> {j \<in> set is. passes p (nodes ! j) ps = None}" using False ok by auto
    ultimately show ?thesis
      using False Cons.IH [of m1 "bs_set s i" "prefixes @ host_prefixes (nodes ! i)" "insert i C"]
        Cons.prems mp ok all by (auto simp: host_prefixes_def)
  qed
qed simp

lemma src_selectors_ok:
  assumes "matcher_ok p nodes m" "src_inv nodes s prefixes C"
    "src_selectors ps sels (s, cidrs, prefixes, m) = (s', cidrs', prefixes', m')"
  shows "matcher_ok p nodes m' \<and> cidrs' = cidrs @ src_cidrs sels \<and>
    src_inv nodes s' prefixes' (C \<union> {i. i < length nodes \<and> named_src p sels ps (nodes ! i)})"
  using assms
proof (induction sels arbitrary: s cidrs prefixes m C)
  case (Cons sel sels)
  show ?case
  proof (cases "parse_prefix sel")
    case None
    obtain r m1 where r: "m_nodes m sel = (r, m1)" by fastforce
    obtain s2 p2 m2 where st: "src_nodes ps r (s, prefixes, m1) = (s2, p2, m2)" by (metis prod_cases3)
    note ok = m_nodes_ok [OF Cons.prems(1) r]
    have "matcher_ok p nodes m2 \<and> src_inv nodes s2 p2 (C \<union> {i \<in> set r. passes p (nodes ! i) ps = None})"
      using src_nodes_ok [OF ok(2) Cons.prems(2) _ st] ok(1) sel_nodes_bound by blast
    moreover have "C \<union> {i. i < length nodes \<and> named_src p (sel # sels) ps (nodes ! i)} =
        (C \<union> {i \<in> set r. passes p (nodes ! i) ps = None}) \<union> {i. i < length nodes \<and> named_src p sels ps (nodes ! i)}"
      using None by (auto simp: ok(1) sel_nodes_def named_src_def)
    ultimately show ?thesis
      using Cons.IH [of m2 s2 p2] Cons.prems(3) None r st by (auto simp: src_cidrs_def map_filter_simps)
  next
    case (Some pfx)
    then have "named_src p (sel # sels) ps = named_src p sels ps" by (auto simp: named_src_def fun_eq_iff)
    then show ?thesis
      using Cons.IH [of m s prefixes C "cidrs @ [masked pfx]"] Cons.prems Some
      by (simp add: src_cidrs_def map_filter_simps)
  qed
qed (simp add: src_cidrs_def named_src_def map_filter_simps)

definition src_prefixes :: "policy \<Rightarrow> node list \<Rightarrow> string list \<Rightarrow> string list \<Rightarrow> prefix list" where
  "src_prefixes p nodes sels ps =
     aggregate (concat (map host_prefixes (filter (named_src p sels ps) nodes)) @ src_cidrs sels)"

definition node_ok :: "node \<Rightarrow> bool" where
  "node_ok n \<longleftrightarrow> list_all (\<lambda>a. a \<noteq> ZeroAddr \<and> addr_zone a = []) (node_addrs n) \<and> list_all pfx_valid (node_routes n)"

lemma host_prefixes_valid: "node_ok n \<Longrightarrow> q \<in> set (host_prefixes n) \<Longrightarrow> pfx_valid q"
  by (auto simp: node_ok_def host_prefixes_def list_all_iff prefix_from_def)

lemma src_cidrs_valid: "q \<in> set (src_cidrs sels) \<Longrightarrow> pfx_valid q"
  using parse_prefix_valid by (fastforce simp: src_cidrs_def map_filter_def)

lemma resolve_src_ok:
  assumes "matcher_ok p nodes m" "\<forall>n \<in> set nodes. node_ok n" "resolve_src m sels ps = (s, pfxs, m')"
  shows "matcher_ok p nodes m'" "bs_inv (length nodes) s" "pfxs = src_prefixes p nodes sels ps"
    "i < length nodes \<Longrightarrow> bs_has s i \<longleftrightarrow> in_src p sels ps (nodes ! i)"
proof -
  have all: "m_all m = nodes" using assms(1) by (simp add: matcher_ok_def)
  let ?C = "{i. i < length nodes \<and> named_src p sels ps (nodes ! i)}"
  obtain s1 cidrs prefixes where st: "src_selectors ps sels (new_bitset (length nodes), [], [], m) = (s1, cidrs, prefixes, m')"
      "pfxs = aggregate (prefixes @ cidrs)"
      "s = (if cidrs \<noteq> [] then foldl (\<lambda>bs (i, n). if covered_by (node_addrs n) cidrs then bs_set bs i else bs)
         s1 (enumerate 0 nodes) else s1)"
    using assms(3) all by (auto simp: resolve_src_def Let_def split: prod.splits)
  have "src_inv nodes (new_bitset (length nodes)) [] {}"
    using bits.inv_mk bits.has_mk by (simp add: src_inv_def)
  from src_selectors_ok [OF assms(1) this st(1)]
  have ok: "matcher_ok p nodes m'" "cidrs = src_cidrs sels" "src_inv nodes s1 prefixes ?C" by auto
  show "matcher_ok p nodes m'" by (rule ok(1))
  have s: "s = foldl bs_set s1 (filter (\<lambda>i. covered_by (node_addrs (nodes ! i)) cidrs) [0..<length nodes])"
    using st(3) fold_if_set [where P = "\<lambda>i n. covered_by (node_addrs n) cidrs"]
    by (cases "cidrs = []") (simp_all add: enumerate_nth covered_by_def list_ex_iff)
  have s1: "bs_inv (length nodes) s1" using ok(3) by (simp add: src_inv_def)
  show "bs_inv (length nodes) s" unfolding s by (rule bits.inv_fold_ins [OF s1]) simp
  show "bs_has s i \<longleftrightarrow> in_src p sels ps (nodes ! i)" if "i < length nodes"
    unfolding s using bits.has_fold_ins [OF s1 _ that] that ok(2,3) by (auto simp: src_inv_def in_src_def)
  have "set prefixes = set (concat (map host_prefixes (filter (named_src p sels ps) nodes)))"
    using ok(3) by (auto simp: src_inv_def in_set_conv_nth)
  then show "pfxs = src_prefixes p nodes sels ps"
    unfolding st(2) src_prefixes_def ok(2)
    using assms(2) host_prefixes_valid src_cidrs_valid
    by (intro aggregate_unique) (auto simp: covered_def)
qed

section \<open>Lemmas: rules and links\<close>

text \<open>Reference: the rules and logins of one machine, and which pairs of machines a policy joins,
  read off the policy.\<close>

definition dst_rules :: "policy \<Rightarrow> prefix list \<Rightarrow> node \<Rightarrow> string \<Rightarrow> rule list" where
  "dst_rules p pfxs n d =
     (let (sel, port_str) = split_dst_or_empty d; ports = parse_ports_or_nil port_str;
          routed = routed_dst sel (node_routes n)
      in (if matches_dst p sel n then [\<lparr>rule_src = pfxs, rule_dst = [], rule_ports = ports\<rparr>] else [])
         @ (if routed \<noteq> [] then [\<lparr>rule_src = pfxs, rule_dst = routed, rule_ports = ports\<rparr>] else []))"

definition acl_rules :: "policy \<Rightarrow> node list \<Rightarrow> node \<Rightarrow> acl \<Rightarrow> rule list" where
  "acl_rules p nodes n a =
     (let pfxs = src_prefixes p nodes (acl_src a) (acl_src_posture a) in
      if pfxs = [] then [] else concat (map (dst_rules p pfxs n) (acl_dst a)))"

definition ssh_logins :: "policy \<Rightarrow> node list \<Rightarrow> node \<Rightarrow> ssh_rule \<Rightarrow> compiled_ssh list" where
  "ssh_logins p nodes n r =
     (let pfxs = src_prefixes p nodes (ssh_src r) (ssh_src_posture r) in
      if pfxs \<noteq> [] \<and> list_ex (\<lambda>sel. matches p sel n) (ssh_dst r)
      then [\<lparr>cssh_src = pfxs, cssh_users = ssh_users r, cssh_record = ssh_record r\<rparr>] else [])"

definition login_rule :: "compiled_ssh \<Rightarrow> rule" where
  "login_rule l = \<lparr>rule_src = cssh_src l, rule_dst = [], rule_ports = ssh_ports\<rparr>"

definition dst_reaches :: "policy \<Rightarrow> node \<Rightarrow> string \<Rightarrow> bool" where
  "dst_reaches p n d \<longleftrightarrow>
     (let sel = fst (split_dst_or_empty d) in matches_dst p sel n \<or> routed_dst sel (node_routes n) \<noteq> [])"

definition acl_joins :: "policy \<Rightarrow> node list \<Rightarrow> acl \<Rightarrow> node \<Rightarrow> node \<Rightarrow> bool" where
  "acl_joins p nodes a m n \<longleftrightarrow>
     src_prefixes p nodes (acl_src a) (acl_src_posture a) \<noteq> [] \<and>
     in_src p (acl_src a) (acl_src_posture a) m \<and> list_ex (dst_reaches p n) (acl_dst a)"

definition ssh_joins :: "policy \<Rightarrow> node list \<Rightarrow> ssh_rule \<Rightarrow> node \<Rightarrow> node \<Rightarrow> bool" where
  "ssh_joins p nodes r m n \<longleftrightarrow>
     src_prefixes p nodes (ssh_src r) (ssh_src_posture r) \<noteq> [] \<and>
     in_src p (ssh_src r) (ssh_src_posture r) m \<and> list_ex (\<lambda>sel. matches p sel n) (ssh_dst r)"

definition joined :: "link list \<Rightarrow> nat \<Rightarrow> nat \<Rightarrow> bool" where
  "joined links i j \<longleftrightarrow> (\<exists>(a, b) \<in> set links. bs_has a i \<and> bs_has b j)"

definition links_ok :: "nat \<Rightarrow> link list \<Rightarrow> bool" where
  "links_ok n links \<longleftrightarrow> (\<forall>(a, b) \<in> set links. bs_inv n a \<and> bs_inv n b)"

lemma add_link_ok:
  assumes "links_ok n links" "bs_inv n a" "bs_inv n b"
  shows "links_ok n (add_link links a b)"
    "i < n \<Longrightarrow> j < n \<Longrightarrow> joined (add_link links a b) i j \<longleftrightarrow> joined links i j \<or> bs_has a i \<and> bs_has b j"
  using assms by (auto simp: add_link_def links_ok_def joined_def bits.is_empty)

text \<open>A loop that appends one rule for each chosen index.\<close>

lemma fold_rules:
  "foldl (\<lambda>(rules, dst) i. if P i then (add_rule (ident i) (r i) rules, bs_set dst i) else (rules, dst)) (R, s) ks =
     (\<lambda>x. R x @ concat (map (\<lambda>i. if P i \<and> ident i = x then [r i] else []) ks), foldl bs_set s (filter P ks))"
  by (induction ks arbitrary: R s) (auto simp: add_rule_def fun_eq_iff)

lemma fold_logins:
  "foldl (\<lambda>(sshs, rules) i. (sshs(ident i := sshs (ident i) @ [l]), add_rule (ident i) r rules)) (S, R) ks =
     (\<lambda>x. S x @ concat (map (\<lambda>i. if ident i = x then [l] else []) ks),
      \<lambda>x. R x @ concat (map (\<lambda>i. if ident i = x then [r] else []) ks))"
  by (induction ks arbitrary: S R) (auto simp: add_rule_def fun_eq_iff)

lemma pick_one:
  assumes "distinct ks"
  shows "concat (map (\<lambda>j. if j = i then [r j] else []) ks) = (if i \<in> set ks then [r i] else [])"
  using assms by (induction ks) (auto simp: concat_eq_Nil_conv)

lemma pick_index:
  assumes "distinct (map node_id nodes)" "i < length nodes"
  shows "concat (map (\<lambda>j. if P j \<and> node_id (nodes ! j) = node_id (nodes ! i) then [r j] else [])
      (filter Q [0..<length nodes])) = (if P i \<and> Q i then [r i] else [])"
proof -
  have "node_id (nodes ! j) = node_id (nodes ! i) \<longleftrightarrow> j = i" if "j < length nodes" for j
    using assms that nth_eq_iff_index_eq [OF assms(1), of j i] by simp
  then have "map (\<lambda>j. if P j \<and> node_id (nodes ! j) = node_id (nodes ! i) then [r j] else []) (filter Q [0..<length nodes]) =
      map (\<lambda>j. if j = i then (if P i then [r i] else []) else []) (filter Q [0..<length nodes])"
    by (intro map_cong) auto
  also have "concat \<dots> = (if P i \<and> Q i then [r i] else [])"
    using pick_one [of "filter Q [0..<length nodes]" i r] assms(2) by (cases "P i") (auto cong: if_cong)
  finally show ?thesis .
qed

text \<open>What one rule of the policy adds to the compile state.\<close>

definition extends :: "policy \<Rightarrow> node list \<Rightarrow> (node \<Rightarrow> rule list) \<Rightarrow> (node \<Rightarrow> compiled_ssh list) \<Rightarrow>
    (node \<Rightarrow> node \<Rightarrow> bool) \<Rightarrow> compile_state \<Rightarrow> compile_state \<Rightarrow> bool" where
  "extends p nodes rs ls J st st' \<longleftrightarrow>
     matcher_ok p nodes (cs_matcher st') \<and> links_ok (length nodes) (cs_links st') \<and>
     (\<forall>i < length nodes.
        cs_rules st' (node_id (nodes ! i)) = cs_rules st (node_id (nodes ! i)) @ rs (nodes ! i) \<and>
        cs_ssh st' (node_id (nodes ! i)) = cs_ssh st (node_id (nodes ! i)) @ ls (nodes ! i) \<and>
        (\<forall>j < length nodes. joined (cs_links st') i j \<longleftrightarrow> joined (cs_links st) i j \<or> J (nodes ! i) (nodes ! j)))"

lemma extends_trans:
  "extends p nodes r1 l1 J1 s0 s1 \<Longrightarrow> extends p nodes r2 l2 J2 s1 s2 \<Longrightarrow>
     extends p nodes (\<lambda>n. r1 n @ r2 n) (\<lambda>n. l1 n @ l2 n) (\<lambda>m n. J1 m n \<or> J2 m n) s0 s2"
  by (auto simp: extends_def)

definition state_ok :: "policy \<Rightarrow> node list \<Rightarrow> compile_state \<Rightarrow> bool" where
  "state_ok p nodes st \<longleftrightarrow> matcher_ok p nodes (cs_matcher st) \<and> links_ok (length nodes) (cs_links st)"

lemma extends_ok: "extends p nodes rs ls J st st' \<Longrightarrow> state_ok p nodes st'"
  by (simp add: extends_def state_ok_def)

lemma extends_fold:
  assumes "\<And>st x. state_ok p nodes st \<Longrightarrow> x \<in> set xs \<Longrightarrow> extends p nodes (rs x) (ls x) (J x) st (f st x)" "state_ok p nodes st"
  shows "extends p nodes (\<lambda>n. concat (map (\<lambda>x. rs x n) xs)) (\<lambda>n. concat (map (\<lambda>x. ls x n) xs))
    (\<lambda>m n. list_ex (\<lambda>x. J x m n) xs) st (foldl f st xs)"
  using assms
proof (induction xs arbitrary: st)
  case Nil
  then show ?case by (simp add: extends_def state_ok_def)
next
  case (Cons x xs)
  have 1: "extends p nodes (rs x) (ls x) (J x) st (f st x)" using Cons.prems by simp
  have "extends p nodes (\<lambda>n. concat (map (\<lambda>x. rs x n) xs)) (\<lambda>n. concat (map (\<lambda>x. ls x n) xs))
      (\<lambda>m n. list_ex (\<lambda>x. J x m n) xs) (f st x) (foldl f (f st x) xs)"
    using Cons.IH [OF Cons.prems(1) extends_ok [OF 1]] by simp
  from extends_trans [OF 1 this] show ?case by simp
qed

lemma routed_dst_Nil: "routed_dst sel routes \<noteq> [] \<Longrightarrow> routes \<noteq> []" "routed_dst sel [] = []"
  by (auto simp: routed_dst_def)

lemma compile_dst_ok:
  assumes "distinct (map node_id nodes)" "state_ok p nodes st" "bs_inv (length nodes) src"
    "\<And>i. i < length nodes \<Longrightarrow> bs_has src i \<longleftrightarrow> S (nodes ! i)"
  shows "extends p nodes (\<lambda>n. dst_rules p pfxs n d) (\<lambda>_. []) (\<lambda>m n. S m \<and> dst_reaches p n d) st
    (compile_dst nodes src pfxs st d)"
proof -
  obtain sel port_str where d: "split_dst_or_empty d = (sel, port_str)" by fastforce
  obtain r m where m: "m_dst_nodes (cs_matcher st) sel = (r, m)" by fastforce
  let ?n = "length nodes" and ?ports = "parse_ports_or_nil port_str"
  let ?R = "\<lambda>i. routed_dst sel (node_routes (nodes ! i))"
  have ok: "r = dst_nodes p nodes sel" "matcher_ok p nodes m"
    using m_dst_nodes_ok [OF _ m] assms(2) by (auto simp: state_ok_def)
  have routers: "m_routers m = filter (\<lambda>i. node_routes (nodes ! i) \<noteq> []) [0..<?n]"
    using ok(2) by (simp add: matcher_ok_def)
  define hits where "hits = r @ filter (\<lambda>i. ?R i \<noteq> []) (m_routers m)"
  define dst where "dst = foldl bs_set (new_bitset ?n) hits"
  define R where "R = (\<lambda>x. (cs_rules st x
      @ concat (map (\<lambda>i. if node_id (nodes ! i) = x then [\<lparr>rule_src = pfxs, rule_dst = [], rule_ports = ?ports\<rparr>] else []) r))
      @ concat (map (\<lambda>i. if ?R i \<noteq> [] \<and> node_id (nodes ! i) = x
            then [\<lparr>rule_src = pfxs, rule_dst = ?R i, rule_ports = ?ports\<rparr>] else []) (m_routers m)))"
  have step: "compile_dst nodes src pfxs st d =
      st\<lparr>cs_rules := R, cs_links := add_link (cs_links st) src dst, cs_matcher := m\<rparr>"
    using fold_rules [where P = "\<lambda>_. True" and ident = "\<lambda>i. node_id (nodes ! i)" and R = "cs_rules st"
        and r = "\<lambda>_. \<lparr>rule_src = pfxs, rule_dst = [], rule_ports = ?ports\<rparr>" and s = "new_bitset ?n" and ks = r]
      fold_rules [where P = "\<lambda>i. ?R i \<noteq> []" and ident = "\<lambda>i. node_id (nodes ! i)"
        and r = "\<lambda>i. \<lparr>rule_src = pfxs, rule_dst = ?R i, rule_ports = ?ports\<rparr>" and ks = "m_routers m"]
    by (simp add: compile_dst_def d m R_def dst_def hits_def Let_def)
  have hits: "\<forall>i \<in> set hits. i < ?n" "\<And>i. i < ?n \<Longrightarrow> i \<in> set hits \<longleftrightarrow> dst_reaches p (nodes ! i) d"
    by (auto simp: hits_def ok(1) dst_nodes_def routers dst_reaches_def d routed_dst_Nil)
  have dst: "bs_inv ?n dst" "\<And>i. i < ?n \<Longrightarrow> bs_has dst i \<longleftrightarrow> dst_reaches p (nodes ! i) d"
    using bits.inv_fold_ins [OF bits.inv_mk hits(1)] bits.has_fold_ins [OF bits.inv_mk hits(1)] bits.has_mk hits(2)
    by (auto simp: dst_def)
  have R: "R (node_id (nodes ! i)) = cs_rules st (node_id (nodes ! i)) @ dst_rules p pfxs (nodes ! i) d"
    if "i < ?n" for i
  proof -
    note pick = pick_index [OF assms(1) that]
    show ?thesis
      using pick [where P = "\<lambda>_. True" and r = "\<lambda>_. \<lparr>rule_src = pfxs, rule_dst = [], rule_ports = ?ports\<rparr>"
          and Q = "\<lambda>i. matches_dst p sel (nodes ! i)"]
        pick [where P = "\<lambda>i. ?R i \<noteq> []" and r = "\<lambda>i. \<lparr>rule_src = pfxs, rule_dst = ?R i, rule_ports = ?ports\<rparr>"
          and Q = "\<lambda>i. node_routes (nodes ! i) \<noteq> []"]
      by (simp add: R_def ok(1) dst_nodes_def routers dst_rules_def d Let_def routed_dst_Nil)
  qed
  show ?thesis
    unfolding extends_def step
    using R ok(2) assms(2) add_link_ok [OF _ assms(3) dst(1), of "cs_links st"] dst(2) assms(4)
    by (auto simp: state_ok_def)
qed

lemma extends_matcher:
  assumes "extends p nodes rs ls J (st\<lparr>cs_matcher := m\<rparr>) st'"
  shows "extends p nodes rs ls J st st'"
  using assms by (simp add: extends_def)

lemma compile_acl_ok:
  assumes "distinct (map node_id nodes)" "\<forall>n \<in> set nodes. node_ok n" "state_ok p nodes st"
  shows "extends p nodes (\<lambda>n. acl_rules p nodes n a) (\<lambda>_. []) (acl_joins p nodes a) st (compile_acl nodes st a)"
proof -
  obtain src pfxs m where m: "resolve_src (cs_matcher st) (acl_src a) (acl_src_posture a) = (src, pfxs, m)"
    by (metis prod_cases3)
  note ok = resolve_src_ok [OF _ assms(2) m, of p]
  have st: "state_ok p nodes (st\<lparr>cs_matcher := m\<rparr>)" and mo: "matcher_ok p nodes (cs_matcher st)"
    using assms(3) ok(1) by (auto simp: state_ok_def)
  show ?thesis
  proof (cases "pfxs = []")
    case True
    then show ?thesis
      using st ok(3) [OF mo]
      by (auto simp: compile_acl_def m extends_def state_ok_def acl_rules_def acl_joins_def)
  next
    case False
    have "extends p nodes (\<lambda>n. concat (map (\<lambda>d. dst_rules p pfxs n d) (acl_dst a))) (\<lambda>n. concat (map (\<lambda>d. []) (acl_dst a)))
      (\<lambda>m n. list_ex (\<lambda>d. in_src p (acl_src a) (acl_src_posture a) m \<and> dst_reaches p n d) (acl_dst a))
      (st\<lparr>cs_matcher := m\<rparr>) (foldl (compile_dst nodes src pfxs) (st\<lparr>cs_matcher := m\<rparr>) (acl_dst a))"
      by (rule extends_fold [OF compile_dst_ok [OF assms(1)] st]) (simp_all add: ok [OF mo])
    then have "extends p nodes (\<lambda>n. acl_rules p nodes n a) (\<lambda>_. []) (acl_joins p nodes a)
      (st\<lparr>cs_matcher := m\<rparr>) (foldl (compile_dst nodes src pfxs) (st\<lparr>cs_matcher := m\<rparr>) (acl_dst a))"
      using False ok(3) [OF mo] unfolding acl_rules_def acl_joins_def [abs_def]
      by (simp add: map_replicate_const list_ex_iff cong: conj_cong)
    then show ?thesis using False extends_matcher by (simp add: compile_acl_def m)
  qed
qed

lemma ssh_dst_ok:
  assumes "matcher_ok p nodes m" "bs_inv (length nodes) s"
    "foldl (\<lambda>(dst, m) sel. case m_nodes m sel of (is, m') \<Rightarrow> (foldl bs_set dst is, m')) (s, m) sels = (dst, m')"
  shows "matcher_ok p nodes m' \<and> bs_inv (length nodes) dst \<and>
    (\<forall>i < length nodes. bs_has dst i \<longleftrightarrow> bs_has s i \<or> list_ex (\<lambda>sel. matches p sel (nodes ! i)) sels)"
  using assms
proof (induction sels arbitrary: s m)
  case (Cons sel sels)
  obtain r m1 where r: "m_nodes m sel = (r, m1)" by fastforce
  note ok = m_nodes_ok [OF Cons.prems(1) r]
  have b: "\<forall>i \<in> set r. i < length nodes" using ok(1) sel_nodes_bound by blast
  have "bs_inv (length nodes) (foldl bs_set s r)" by (rule bits.inv_fold_ins [OF Cons.prems(2) b])
  moreover have "i \<in> set r \<longleftrightarrow> matches p sel (nodes ! i)" if "i < length nodes" for i
    using that by (auto simp: ok(1) sel_nodes_def)
  ultimately show ?case
    using Cons.IH [OF ok(2)] Cons.prems(3) r bits.has_fold_ins [OF Cons.prems(2) b] by auto
qed simp

lemma compile_ssh_ok:
  assumes "distinct (map node_id nodes)" "\<forall>n \<in> set nodes. node_ok n" "state_ok p nodes st"
  shows "extends p nodes (\<lambda>n. map login_rule (ssh_logins p nodes n r)) (\<lambda>n. ssh_logins p nodes n r)
    (ssh_joins p nodes r) st (compile_ssh nodes st r)"
proof -
  let ?n = "length nodes"
  obtain src pfxs m where m: "resolve_src (cs_matcher st) (ssh_src r) (ssh_src_posture r) = (src, pfxs, m)"
    by (metis prod_cases3)
  obtain dst m' where d: "foldl (\<lambda>(dst, m) sel. case m_nodes m sel of (is, m') \<Rightarrow> (foldl bs_set dst is, m'))
      (new_bitset ?n, m) (ssh_dst r) = (dst, m')" by fastforce
  have mo: "matcher_ok p nodes (cs_matcher st)" using assms(3) by (simp add: state_ok_def)
  note ok = resolve_src_ok [OF mo assms(2) m]
  have dst: "matcher_ok p nodes m'" "bs_inv ?n dst"
    "\<And>i. i < ?n \<Longrightarrow> bs_has dst i \<longleftrightarrow> list_ex (\<lambda>sel. matches p sel (nodes ! i)) (ssh_dst r)"
    using ssh_dst_ok [OF ok(1) bits.inv_mk d] bits.has_mk by auto
  let ?l = "\<lparr>cssh_src = pfxs, cssh_users = ssh_users r, cssh_record = ssh_record r\<rparr>"
  show ?thesis
  proof (cases "pfxs = []")
    case True
    then show ?thesis
      using ok assms(3) by (auto simp: compile_ssh_def m extends_def state_ok_def ssh_logins_def ssh_joins_def)
  next
    case False
    have each: "bs_each dst = filter (bs_has dst) [0..<?n]" by (rule bits.elems [OF dst(2)])
    have step: "compile_ssh nodes st r = st\<lparr>
        cs_rules := (\<lambda>x. cs_rules st x @
           concat (map (\<lambda>i. if node_id (nodes ! i) = x then [login_rule ?l] else []) (bs_each dst))),
        cs_ssh := (\<lambda>x. cs_ssh st x @ concat (map (\<lambda>i. if node_id (nodes ! i) = x then [?l] else []) (bs_each dst))),
        cs_links := add_link (cs_links st) src dst, cs_matcher := m'\<rparr>"
      using False by (simp add: compile_ssh_def m d Let_def login_rule_def
          fold_logins [where ident = "\<lambda>i. node_id (nodes ! i)"] cong: if_cong)
    have logins: "ssh_logins p nodes (nodes ! i) r = (if bs_has dst i then [?l] else [])" if "i < ?n" for i
      using False ok(3) dst(3) [OF that] by (simp add: ssh_logins_def)
    note pick = pick_index [OF assms(1), where P = "\<lambda>_. True" and Q = "bs_has dst"]
    have pl: "concat (map (\<lambda>j. if node_id (nodes ! j) = node_id (nodes ! i) then [?l] else []) (bs_each dst)) =
        ssh_logins p nodes (nodes ! i) r" if "i < ?n" for i
      using pick [OF that, where r = "\<lambda>_. ?l"] logins [OF that] by (simp add: each)
    have pr: "concat (map (\<lambda>j. if node_id (nodes ! j) = node_id (nodes ! i) then [login_rule ?l] else []) (bs_each dst)) =
        map login_rule (ssh_logins p nodes (nodes ! i) r)" if "i < ?n" for i
      using pick [OF that, where r = "\<lambda>_. login_rule ?l"] logins [OF that] by (simp add: each)
    show ?thesis
      unfolding extends_def step
      using pl pr dst ok add_link_ok [OF _ ok(2) dst(2), of "cs_links st"] assms(3) False
      by (simp add: state_ok_def ssh_joins_def)
  qed
qed

section \<open>Lemmas: classes of machines\<close>

lemma sig_bit_bits:
  assumes "k < 8 * length sig"
  shows "length (sig_bit sig k) = length sig"
    "q < 8 * length sig \<Longrightarrow> bit (sig_bit sig k ! (q div 8)) (q mod 8) \<longleftrightarrow> q = k \<or> bit (sig ! (q div 8)) (q mod 8)"
proof -
  show "length (sig_bit sig k) = length sig" by (simp add: sig_bit_def)
  have k: "k div 8 < length sig" using assms by (simp add: div_less_iff_less_mult)
  show "bit (sig_bit sig k ! (q div 8)) (q mod 8) \<longleftrightarrow> q = k \<or> bit (sig ! (q div 8)) (q mod 8)"
    if "q < 8 * length sig"
  proof (cases "q div 8 = k div 8")
    case True
    then have "q = k \<longleftrightarrow> q mod 8 = k mod 8" by (metis div_mult_mod_eq)
    then show ?thesis
      using True k by (auto simp: sig_bit_def bit_or_iff push_bit_of_1 bit_exp_iff)
  next
    case False
    then show ?thesis by (auto simp: sig_bit_def)
  qed
qed

definition sig_holds :: "link list \<Rightarrow> nat \<Rightarrow> byte list \<Rightarrow> bool" where
  "sig_holds links i sig \<longleftrightarrow>
     (\<forall>j < length links. (bit (sig ! (2 * j div 8)) (2 * j mod 8) \<longleftrightarrow> bs_has (fst (links ! j)) i) \<and>
        (bit (sig ! ((2 * j + 1) div 8)) ((2 * j + 1) mod 8) \<longleftrightarrow> bs_has (snd (links ! j)) i))"

lemma signature_step:
  assumes "\<forall>q < 8 * length sig. bit (sig ! (q div 8)) (q mod 8) \<longrightarrow> q < 2 * m" "sig_holds (take m links) i sig"
    "m < length links" "2 * length links \<le> 8 * length sig" "links ! m = (a, b)"
    "sig1 = (if bs_has a i then sig_bit sig (2 * m) else sig)"
    "sig2 = (if bs_has b i then sig_bit sig1 (2 * m + 1) else sig1)"
  shows "length sig2 = length sig \<and> (\<forall>q < 8 * length sig. bit (sig2 ! (q div 8)) (q mod 8) \<longrightarrow> q < 2 * Suc m) \<and>
    sig_holds (take (Suc m) links) i sig2"
proof -
  have len1: "length sig1 = length sig" using assms(6) by (simp add: sig_bit_def)
  have len: "length sig2 = length sig" using len1 assms(7) by (simp add: sig_bit_def)
  have b1: "bit (sig1 ! (q div 8)) (q mod 8) \<longleftrightarrow> bs_has a i \<and> q = 2 * m \<or> bit (sig ! (q div 8)) (q mod 8)"
    if "q < 8 * length sig" for q
    using sig_bit_bits(2) [of "2 * m" sig q] that assms(3,4,6) by auto
  have b2: "bit (sig2 ! (q div 8)) (q mod 8) \<longleftrightarrow> bs_has b i \<and> q = 2 * m + 1 \<or> bs_has a i \<and> q = 2 * m \<or>
      bit (sig ! (q div 8)) (q mod 8)" if "q < 8 * length sig" for q
    using sig_bit_bits(2) [of "2 * m + 1" sig1 q] b1 [OF that] that len1 assms(3,4,7) by auto
  have new: "\<not> bit (sig ! (q div 8)) (q mod 8)" if "q < 8 * length sig" "2 * m \<le> q" for q
    using assms(1) that by auto
  have "sig_holds (take (Suc m) links) i sig2"
    unfolding sig_holds_def
  proof (intro allI impI)
    fix j assume "j < length (take (Suc m) links)"
    then have j: "j < m \<or> j = m" "j < length links" by auto
    then have q: "2 * j < 8 * length sig" "2 * j + 1 < 8 * length sig" using assms(4) by auto
    show "(bit (sig2 ! (2 * j div 8)) (2 * j mod 8) \<longleftrightarrow> bs_has (fst (take (Suc m) links ! j)) i) \<and>
        (bit (sig2 ! ((2 * j + 1) div 8)) ((2 * j + 1) mod 8) \<longleftrightarrow> bs_has (snd (take (Suc m) links ! j)) i)"
      using j(1)
    proof
      assume "j < m"
      then have "2 * j \<noteq> 2 * m + 1" "2 * j \<noteq> 2 * m" "2 * j + 1 \<noteq> 2 * m + 1" "2 * j + 1 \<noteq> 2 * m" by presburger+
      then show ?thesis
        unfolding b2 [OF q(1)] b2 [OF q(2)] using assms(2) \<open>j < m\<close> j(2) by (auto simp: sig_holds_def)
    next
      assume "j = m"
      moreover have "2 * m \<noteq> 2 * m + 1" "2 * m + 1 \<noteq> 2 * m" by simp_all
      ultimately show ?thesis
        unfolding b2 [OF q(1)] b2 [OF q(2)] using new [OF q(1)] new [OF q(2)] assms(3,5) by auto
    qed
  qed
  then show ?thesis using b2 assms(1) len by fastforce
qed

lemma signature_holds: "sig_holds links i (signature links i)"
proof -
  let ?f = "\<lambda>sig (j, a, b). let sig = (if bs_has a i then sig_bit sig (2 * j) else sig)
         in if bs_has b i then sig_bit sig (2 * j + 1) else sig"
  let ?z = "replicate ((2 * length links + 7) div 8) (0 :: byte)"
  let ?g = "\<lambda>m. foldl ?f ?z (map (\<lambda>j. (j, links ! j)) [0..<m])"
  have "length (?g m) = length ?z \<and> (\<forall>q < 8 * length ?z. bit (?g m ! (q div 8)) (q mod 8) \<longrightarrow> q < 2 * m) \<and>
      sig_holds (take m links) i (?g m)" if "m \<le> length links" for m
    using that
  proof (induction m)
    case 0
    have "q div 8 < length ?z" if "q < 8 * length ?z" for q using that by (simp add: div_less_iff_less_mult)
    then show ?case by (auto simp: sig_holds_def)
  next
    case (Suc m)
    obtain a b where ab: "links ! m = (a, b)" by fastforce
    have len: "2 * length links \<le> 8 * length ?z" by simp
    show ?case
      using signature_step [of "?g m" m links i a b] Suc ab len by (auto simp: Let_def)
  qed
  from this [of "length links"] show ?thesis by (simp add: signature_def enumerate_nth)
qed

lemma same_signature:
  assumes "signature links i = signature links j"
  shows "(a, b) \<in> set links \<Longrightarrow> bs_has a i = bs_has a j \<and> bs_has b i = bs_has b j"
proof -
  assume "(a, b) \<in> set links"
  then obtain k where "k < length links" "links ! k = (a, b)" by (metis in_set_conv_nth)
  then show ?thesis
    using signature_holds [of links i] signature_holds [of links j] assms unfolding sig_holds_def by (metis fst_conv snd_conv)
qed

text \<open>Every machine's class has a representative with the machine's signature.\<close>

definition class_inv :: "link list \<Rightarrow> nat \<Rightarrow> nat list \<times> (byte list \<rightharpoonup> nat) \<times> nat list \<Rightarrow> bool" where
  "class_inv links m = (\<lambda>(cls, class_of, reps).
     length cls = m \<and> (\<forall>i < m. cls ! i < length reps \<and> signature links (reps ! (cls ! i)) = signature links i) \<and>
     (\<forall>sig k. class_of sig = Some k \<longrightarrow> k < length reps \<and> signature links (reps ! k) = sig))"

lemma classify_inv: "class_inv links m st \<Longrightarrow> class_inv links (Suc m) (classify links st m)"
  by (cases st) (force simp: class_inv_def classify_def Let_def nth_append less_Suc_eq split: option.splits if_splits)

lemma classes_inv: "class_inv links n (foldl (classify links) ([], Map.empty, []) [0..<n])"
proof (induction n)
  case 0
  show ?case by (simp add: class_inv_def)
next
  case (Suc n)
  then show ?case by (simp add: classify_inv)
qed

lemma peer_bits_ok:
  assumes "links_ok n links"
  shows "bs_inv n (peer_bits n links r) \<and>
    (\<forall>j < n. bs_has (peer_bits n links r) j \<longleftrightarrow> joined links r j \<or> joined links j r)"
proof -
  have "bs_inv n (foldl (\<lambda>bs (a, b).
         let bs = (if bs_has a r then bs_or bs b else bs)
         in if bs_has b r then bs_or bs a else bs) s ls) \<and>
    (\<forall>j < n. bs_has (foldl (\<lambda>bs (a, b).
         let bs = (if bs_has a r then bs_or bs b else bs)
         in if bs_has b r then bs_or bs a else bs) s ls) j \<longleftrightarrow> bs_has s j \<or> joined ls r j \<or> joined ls j r)"
    if "bs_inv n s" "links_ok n ls" for s ls
    using that
  proof (induction ls arbitrary: s)
    case (Cons l ls)
    obtain a b where l: "l = (a, b)" by fastforce
    let ?s1 = "if bs_has a r then bs_or s b else s"
    let ?s2 = "if bs_has b r then bs_or ?s1 a else ?s1"
    have inv: "bs_inv n a" "bs_inv n b" "links_ok n ls" using Cons.prems l by (auto simp: links_ok_def)
    have s1: "bs_inv n ?s1" using Cons.prems inv bits.inv_join by simp
    have "bs_inv n ?s2" using s1 inv bits.inv_join by simp
    moreover have "bs_has ?s2 j \<longleftrightarrow> bs_has s j \<or> bs_has a r \<and> bs_has b j \<or> bs_has b r \<and> bs_has a j" if "j < n" for j
      using bits.has_join [OF s1 inv(1) that] bits.has_join [OF Cons.prems(1) inv(2) that] by auto
    ultimately show ?case
      using Cons.IH [of ?s2] inv(3) l by (auto simp: joined_def Let_def)
  qed (simp add: joined_def)
  from this [OF bits.inv_mk assms] show ?thesis using bits.has_mk by (auto simp: peer_bits_def)
qed

section \<open>Lemmas: the compiled policy\<close>

definition policy_joins :: "policy \<Rightarrow> node list \<Rightarrow> node \<Rightarrow> node \<Rightarrow> bool" where
  "policy_joins p nodes m n \<longleftrightarrow>
     list_ex (\<lambda>a. acl_joins p nodes a m n) (acls p) \<or> list_ex (\<lambda>r. ssh_joins p nodes r m n) (ssh p)"

lemma concat_map_Nil: "concat (map (\<lambda>x. []) xs) = []"
  by (induction xs) auto

lemma map_concat_map: "concat (map (\<lambda>x. map f (g x)) xs) = map f (concat (map g xs))"
  by (induction xs) auto

lemma index_lookup:
  "foldl (\<lambda>ix (i, n). ix(node_id n \<mapsto> i)) m (map (\<lambda>i. (i, nodes ! i)) ks) x =
     (case filter (\<lambda>i. node_id (nodes ! i) = x) ks of [] \<Rightarrow> m x | js \<Rightarrow> Some (last js))"
  by (induction ks arbitrary: m) (auto split: list.splits)

lemma compiled_index:
  assumes "distinct (map node_id nodes)"
  shows "comp_index (compile p nodes) x = Some i \<longleftrightarrow> i < length nodes \<and> node_id (nodes ! i) = x"
proof -
  define F where "F = filter (\<lambda>i. node_id (nodes ! i) = x) [0..<length nodes]"
  have ix: "comp_index (compile p nodes) x = (case F of [] \<Rightarrow> None | js \<Rightarrow> Some (last js))"
    by (simp add: compile_def build_peers_def Let_def case_prod_beta enumerate_nth index_lookup F_def)
  have F: "i \<in> set F \<longleftrightarrow> i < length nodes \<and> node_id (nodes ! i) = x" for i by (auto simp: F_def)
  have uniq: "i = j" if "i \<in> set F" "j \<in> set F" for i j
    using that nth_eq_iff_index_eq [OF assms, of i j] by (auto simp: F)
  show ?thesis
  proof (cases F)
    case Nil
    then show ?thesis using F [of i] by (simp add: ix)
  next
    case (Cons j js)
    then have l: "last F \<in> set F" by (intro last_in_set) simp
    have "comp_index (compile p nodes) x = Some (last F)" using Cons by (simp add: ix)
    then show ?thesis using l uniq [OF l, of i] by (auto simp: F)
  qed
qed

text \<open>What the compiler relies on of its machines: identifiers are unique, addresses are real
  addresses without a zone and routes are valid prefixes.\<close>

definition nodes_wf :: "node list \<Rightarrow> bool" where
  "nodes_wf nodes \<longleftrightarrow> distinct (map node_id nodes) \<and> list_all node_ok nodes"

lemma compile_extends:
  assumes "nodes_wf nodes"
  obtains st where "extends p nodes
      (\<lambda>n. concat (map (acl_rules p nodes n) (acls p)) @ map login_rule (concat (map (ssh_logins p nodes n) (ssh p))))
      (\<lambda>n. concat (map (ssh_logins p nodes n) (ssh p))) (policy_joins p nodes)
      \<lparr>cs_rules = (\<lambda>_. []), cs_ssh = (\<lambda>_. []), cs_links = [], cs_matcher = new_matcher p nodes\<rparr> st"
    "compile p nodes = build_peers
           \<lparr>comp_rules = cs_rules st, comp_ssh = cs_ssh st, comp_ids = map node_id nodes,
            comp_index = foldl (\<lambda>ix (i, n). ix(node_id n \<mapsto> i)) Map.empty (enumerate 0 nodes),
            comp_class = [], comp_peers = [], comp_hash = [], comp_count = []\<rparr>
           (cs_links st)"
proof -
  have ids: "distinct (map node_id nodes)" and nodes_ok: "\<forall>n \<in> set nodes. node_ok n"
    using assms by (auto simp: nodes_wf_def list_all_iff)
  let ?s0 = "\<lparr>cs_rules = (\<lambda>_. []), cs_ssh = (\<lambda>_. []), cs_links = [], cs_matcher = new_matcher p nodes\<rparr>"
  let ?s1 = "foldl (compile_acl nodes) ?s0 (acls p)"
  have "state_ok p nodes ?s0" by (simp add: state_ok_def new_matcher_ok links_ok_def)
  from extends_fold [OF compile_acl_ok [OF ids nodes_ok] this]
  have 1: "extends p nodes (\<lambda>n. concat (map (acl_rules p nodes n) (acls p))) (\<lambda>_. [])
      (\<lambda>m n. list_ex (\<lambda>a. acl_joins p nodes a m n) (acls p)) ?s0 ?s1"
    by (simp add: concat_map_Nil)
  from extends_fold [OF compile_ssh_ok [OF ids nodes_ok] extends_ok [OF 1]]
  have "extends p nodes (\<lambda>n. map login_rule (concat (map (ssh_logins p nodes n) (ssh p))))
      (\<lambda>n. concat (map (ssh_logins p nodes n) (ssh p)))
      (\<lambda>m n. list_ex (\<lambda>r. ssh_joins p nodes r m n) (ssh p)) ?s1 (foldl (compile_ssh nodes) ?s1 (ssh p))"
    by (simp add: map_concat_map)
  from extends_trans [OF 1 this]
  show ?thesis
    by (intro that [of "foldl (compile_ssh nodes) ?s1 (ssh p)"])
      (simp_all add: policy_joins_def [abs_def] compile_def Let_def)
qed

lemma rules_eq:
  assumes "nodes_wf nodes" "i < length nodes"
  shows "comp_rules (compile p nodes) (node_id (nodes ! i)) =
      concat (map (acl_rules p nodes (nodes ! i)) (acls p))
      @ map login_rule (comp_ssh (compile p nodes) (node_id (nodes ! i)))" (is ?rules)
    "comp_ssh (compile p nodes) (node_id (nodes ! i)) = concat (map (ssh_logins p nodes (nodes ! i)) (ssh p))" (is ?logins)
proof -
  obtain st where st: "extends p nodes
      (\<lambda>n. concat (map (acl_rules p nodes n) (acls p)) @ map login_rule (concat (map (ssh_logins p nodes n) (ssh p))))
      (\<lambda>n. concat (map (ssh_logins p nodes n) (ssh p))) (policy_joins p nodes)
      \<lparr>cs_rules = (\<lambda>_. []), cs_ssh = (\<lambda>_. []), cs_links = [], cs_matcher = new_matcher p nodes\<rparr> st"
    and c: "comp_rules (compile p nodes) = cs_rules st" "comp_ssh (compile p nodes) = cs_ssh st"
    by (rule compile_extends [OF assms(1), of p]) (simp add: build_peers_def Let_def case_prod_beta)
  then show ?rules and ?logins using assms(2) by (simp_all add: extends_def)
qed

lemma class_peers:
  assumes "nodes_wf nodes" "i < length nodes"
  shows "bs_inv (length nodes) (comp_peers (compile p nodes) ! (comp_class (compile p nodes) ! i))"
    "j < length nodes \<Longrightarrow> bs_has (comp_peers (compile p nodes) ! (comp_class (compile p nodes) ! i)) j \<longleftrightarrow>
       policy_joins p nodes (nodes ! i) (nodes ! j) \<or> policy_joins p nodes (nodes ! j) (nodes ! i)"
    "comp_class (compile p nodes) ! i < length (comp_peers (compile p nodes))"
proof -
  let ?n = "length nodes"
  obtain st where st: "extends p nodes
      (\<lambda>n. concat (map (acl_rules p nodes n) (acls p)) @ map login_rule (concat (map (ssh_logins p nodes n) (ssh p))))
      (\<lambda>n. concat (map (ssh_logins p nodes n) (ssh p))) (policy_joins p nodes)
      \<lparr>cs_rules = (\<lambda>_. []), cs_ssh = (\<lambda>_. []), cs_links = [], cs_matcher = new_matcher p nodes\<rparr> st"
    "compile p nodes = build_peers
           \<lparr>comp_rules = cs_rules st, comp_ssh = cs_ssh st, comp_ids = map node_id nodes,
            comp_index = foldl (\<lambda>ix (i, n). ix(node_id n \<mapsto> i)) Map.empty (enumerate 0 nodes),
            comp_class = [], comp_peers = [], comp_hash = [], comp_count = []\<rparr>
           (cs_links st)"
    by (rule compile_extends [OF assms(1)])
  let ?L = "cs_links st"
  obtain cls class_of reps where cl: "foldl (classify ?L) ([], Map.empty, []) [0..<?n] = (cls, class_of, reps)"
    by (metis prod_cases3)
  have c: "comp_class (compile p nodes) = cls" "comp_peers (compile p nodes) = map (peer_bits ?n ?L) reps"
    by (simp_all add: st(2) build_peers_def cl Let_def)
  have k: "cls ! i < length reps" "signature ?L (reps ! (cls ! i)) = signature ?L i"
    using classes_inv [of ?L ?n] assms by (auto simp: cl class_inv_def)
  have ok: "links_ok ?n ?L" using st(1) by (simp add: extends_def)
  note pb = peer_bits_ok [OF ok, of "reps ! (cls ! i)"]
  show "comp_class (compile p nodes) ! i < length (comp_peers (compile p nodes))"
    using k by (simp add: c)
  show "bs_inv ?n (comp_peers (compile p nodes) ! (comp_class (compile p nodes) ! i))"
    using pb k by (simp add: c)
  assume j: "j < ?n"
  have "joined ?L (reps ! (cls ! i)) j = joined ?L i j" "joined ?L j (reps ! (cls ! i)) = joined ?L j i"
    using same_signature [OF k(2)] by (auto simp: joined_def)
  moreover have "joined ?L i j = policy_joins p nodes (nodes ! i) (nodes ! j)"
    "joined ?L j i = policy_joins p nodes (nodes ! j) (nodes ! i)"
    using st(1) assms j by (auto simp: extends_def joined_def)
  ultimately show "bs_has (comp_peers (compile p nodes) ! (comp_class (compile p nodes) ! i)) j \<longleftrightarrow>
       policy_joins p nodes (nodes ! i) (nodes ! j) \<or> policy_joins p nodes (nodes ! j) (nodes ! i)"
    using pb k(1) j by (simp add: c)
qed

lemma xor_eq_zero: "x XOR y = 0 \<longleftrightarrow> x = y" for x y :: "'a::len word"
  by (metis xor.assoc xor.left_neutral xor.right_neutral xor_self_eq)

lemma contains_host: "a \<noteq> ZeroAddr \<Longrightarrow> addr_zone a = [] \<Longrightarrow> contains (prefix_from a (bit_len a)) b \<longleftrightarrow> b = a"
  by (cases a; cases b) (auto simp: prefix_from_def xor_eq_zero)

lemma src_prefixes_cover:
  assumes "nodes_wf nodes"
  shows "(\<exists>q \<in> set (src_prefixes p nodes sels ps). contains q x) \<longleftrightarrow>
    (\<exists>n \<in> set nodes. named_src p sels ps n \<and> x \<in> set (node_addrs n)) \<or> (\<exists>q \<in> set (src_cidrs sels). contains q x)"
proof -
  have ok: "\<forall>n \<in> set nodes. node_ok n" using assms by (simp add: nodes_wf_def list_all_iff)
  let ?ps = "concat (map host_prefixes (filter (named_src p sels ps) nodes)) @ src_cidrs sels"
  have valid: "\<forall>q \<in> set ?ps. pfx_valid q" using ok host_prefixes_valid src_cidrs_valid by auto
  have "(\<exists>q \<in> set (src_prefixes p nodes sels ps). contains q x) \<longleftrightarrow> x \<in> covered (aggregate ?ps)"
    by (simp add: src_prefixes_def covered_def addrs_def)
  also have "\<dots> \<longleftrightarrow> x \<in> covered ?ps" using aggregate_canonical(3) [OF valid] by simp
  also have "\<dots> \<longleftrightarrow> (\<exists>n \<in> set nodes. named_src p sels ps n \<and> (\<exists>q \<in> set (host_prefixes n). contains q x)) \<or>
      (\<exists>q \<in> set (src_cidrs sels). contains q x)"
    by (auto simp: covered_def addrs_def)
  also have "\<dots> \<longleftrightarrow> (\<exists>n \<in> set nodes. named_src p sels ps n \<and> x \<in> set (node_addrs n)) \<or>
      (\<exists>q \<in> set (src_cidrs sels). contains q x)"
    using ok contains_host by (auto simp: host_prefixes_def node_ok_def list_all_iff)
  finally show ?thesis .
qed

definition addrs_unique :: "node list \<Rightarrow> bool" where
  "addrs_unique nodes \<longleftrightarrow> list_all (\<lambda>n. node_addrs n \<noteq> []) nodes \<and>
     list_all (\<lambda>m. list_all (\<lambda>n. m = n \<or> set (node_addrs m) \<inter> set (node_addrs n) = {}) nodes) nodes"

definition admits :: "rule list \<Rightarrow> node \<Rightarrow> bool" where
  "admits rules m \<longleftrightarrow> list_ex (\<lambda>r. list_ex (\<lambda>q. list_ex (contains q) (node_addrs m)) (rule_src r)) rules"

lemma in_src_cover:
  assumes "nodes_wf nodes" "addrs_unique nodes" "m \<in> set nodes"
  shows "in_src p sels ps m \<longleftrightarrow>
    (\<exists>q \<in> set (src_prefixes p nodes sels ps). \<exists>x \<in> set (node_addrs m). contains q x)"
proof -
  have swap: "(\<exists>q \<in> set (src_prefixes p nodes sels ps). \<exists>x \<in> set (node_addrs m). contains q x) \<longleftrightarrow>
      (\<exists>x \<in> set (node_addrs m). \<exists>q \<in> set (src_prefixes p nodes sels ps). contains q x)" by blast
  have "n = m" if "n \<in> set nodes" "x \<in> set (node_addrs n)" "x \<in> set (node_addrs m)" for n x
    using assms(2,3) that by (auto simp: addrs_unique_def list_all_iff)
  moreover have "node_addrs m \<noteq> []" using assms(2,3) by (simp add: addrs_unique_def list_all_iff)
  then have "\<exists>x. x \<in> set (node_addrs m)" by (metis list.set_intros(1) neq_Nil_conv)
  ultimately show ?thesis
    unfolding swap src_prefixes_cover [OF assms(1)] in_src_def covered_by_def list_ex_iff
    using assms(3) by blast
qed

lemma acl_admits:
  assumes "nodes_wf nodes" "addrs_unique nodes" "m \<in> set nodes"
  shows "admits (acl_rules p nodes n a) m \<longleftrightarrow> acl_joins p nodes a m n"
proof -
  let ?pfxs = "src_prefixes p nodes (acl_src a) (acl_src_posture a)"
  have "admits (dst_rules p ?pfxs n d) m \<longleftrightarrow> in_src p (acl_src a) (acl_src_posture a) m \<and> dst_reaches p n d" for d
  proof -
    obtain sel ports where "split_dst_or_empty d = (sel, ports)" by fastforce
    then show ?thesis
      unfolding in_src_cover [OF assms] by (auto simp: admits_def dst_rules_def dst_reaches_def Let_def list_ex_iff)
  qed
  then show ?thesis
    by (auto simp: acl_rules_def acl_joins_def admits_def list_ex_iff Let_def)
qed

lemma ssh_admits:
  assumes "nodes_wf nodes" "addrs_unique nodes" "m \<in> set nodes"
  shows "admits (map login_rule (ssh_logins p nodes n r)) m \<longleftrightarrow> ssh_joins p nodes r m n"
  unfolding ssh_joins_def in_src_cover [OF assms]
  by (auto simp: ssh_logins_def login_rule_def admits_def list_ex_iff Let_def)

lemma admits_concat: "admits (concat rs) m \<longleftrightarrow> (\<exists>r \<in> set rs. admits r m)"
  by (induction rs) (auto simp: admits_def)

lemma admits_append: "admits (r @ s) m \<longleftrightarrow> admits r m \<or> admits s m"
  by (simp add: admits_def)

lemma compiled_ids: "comp_ids (compile p nodes) = map node_id nodes"
  by (simp add: compile_def build_peers_def Let_def case_prod_beta)

lemma compiled_hash:
  assumes "k < length (comp_peers (compile p nodes))"
  shows "comp_hash (compile p nodes) ! k =
      foldl (\<lambda>h i. h XOR mix (comp_ids (compile p nodes) ! i)) 0 (bs_each (comp_peers (compile p nodes) ! k))"
    "comp_count (compile p nodes) ! k = length (bs_each (comp_peers (compile p nodes) ! k))"
proof -
  have "foldl (\<lambda>k i. k + 1) m xs = m + length xs" for m :: nat and xs :: "nat list"
    by (induction xs arbitrary: m) auto
  then show "comp_count (compile p nodes) ! k = length (bs_each (comp_peers (compile p nodes) ! k))"
    using assms by (simp add: compile_def build_peers_def Let_def case_prod_beta)
  show "comp_hash (compile p nodes) ! k =
      foldl (\<lambda>h i. h XOR mix (comp_ids (compile p nodes) ! i)) 0 (bs_each (comp_peers (compile p nodes) ! k))"
    using assms by (simp add: compile_def build_peers_def Let_def case_prod_beta)
qed

lemma can_talk_joins:
  assumes "nodes_wf nodes" "i < length nodes" "j < length nodes"
  shows "can_talk (compile p nodes) (node_id (nodes ! i)) (node_id (nodes ! j)) \<longleftrightarrow>
    i \<noteq> j \<and> (policy_joins p nodes (nodes ! i) (nodes ! j) \<or> policy_joins p nodes (nodes ! j) (nodes ! i))"
proof -
  have "comp_index (compile p nodes) (node_id (nodes ! k)) = Some k" if "k < length nodes" for k
    using assms(1) that compiled_index [of nodes p "node_id (nodes ! k)" k] by (simp add: nodes_wf_def)
  then show ?thesis using class_peers(2) [OF assms, of p] assms by (simp add: can_talk_def)
qed

lemma policy_joins_admits:
  assumes "nodes_wf nodes" "addrs_unique nodes" "m \<in> set nodes" "i < length nodes"
  shows "policy_joins p nodes m (nodes ! i) \<longleftrightarrow> admits (comp_rules (compile p nodes) (node_id (nodes ! i))) m"
proof -
  have ssh: "admits (map login_rule (concat (map (ssh_logins p nodes n) rs))) m \<longleftrightarrow>
      (\<exists>r \<in> set rs. ssh_joins p nodes r m n)" for n rs
    using ssh_admits [OF assms(1-3)] by (auto simp: map_concat admits_concat)
  show ?thesis
    unfolding policy_joins_def rules_eq [OF assms(1,4)] admits_append ssh
    using acl_admits [OF assms(1-3)] by (auto simp: admits_concat list_ex_iff)
qed

lemma foldl_xor_comm: "foldl (\<lambda>h j. h XOR f j) (z XOR y) js = foldl (\<lambda>h j. h XOR f j) z js XOR (y :: u64)"
proof (induction js arbitrary: z)
  case (Cons j js)
  have "(z XOR y) XOR f j = (z XOR f j) XOR y" by (metis xor.assoc xor.commute)
  then show ?case using Cons by simp
qed simp

lemma foldl_xor_remove:
  fixes f :: "nat \<Rightarrow> u64"
  assumes "distinct js" "i \<in> set js"
  shows "foldl (\<lambda>h j. h XOR f j) z js XOR f i = foldl (\<lambda>h j. h XOR f j) z (filter (\<lambda>j. j \<noteq> i) js)"
  using assms
proof (induction js arbitrary: z)
  case (Cons j js)
  show ?case
  proof (cases "j = i")
    case True
    then have "filter (\<lambda>j. j \<noteq> i) js = js" using Cons.prems by (intro filter_True) auto
    then show ?thesis using True by (simp add: foldl_xor_comm xor.assoc)
  qed (use Cons in auto)
qed simp

lemma length_remove: "distinct js \<Longrightarrow> i \<in> set js \<Longrightarrow> length js = Suc (length (filter (\<lambda>j. j \<noteq> i) js))"
proof (induction js)
  case (Cons j js)
  then have "j = i \<Longrightarrow> filter (\<lambda>j. j \<noteq> i) js = js" by (intro filter_True) auto
  then show ?case using Cons by (cases "j = i") auto
qed simp

section \<open>Properties\<close>

text \<open>Claim C2: the compiled rules are exactly what the policy says, machine by machine: for each
  rule of the policy whose sources resolve to some prefix, in order, one filter rule per
  destination that names the machine and one per destination whose network it routes, then one
  TCP 22 rule per SSH login; indexes, memo tables and bit sets change nothing.\<close>

theorem compile_rules_exact:
  assumes "nodes_wf nodes" "i < length nodes"
  shows "comp_rules (compile p nodes) (node_id (nodes ! i)) =
      concat (map (acl_rules p nodes (nodes ! i)) (acls p)) @
      map login_rule (concat (map (ssh_logins p nodes (nodes ! i)) (ssh p))) \<and>
    comp_ssh (compile p nodes) (node_id (nodes ! i)) = concat (map (ssh_logins p nodes (nodes ! i)) (ssh p))"
  using rules_eq [OF assms] by simp

text \<open>The addresses a rule's source selectors and postures name: those of the machines a selector matches that meet
  the postures, and those inside the CIDR selectors.\<close>

definition may_send :: "policy \<Rightarrow> node list \<Rightarrow> string list \<Rightarrow> string list \<Rightarrow> addr \<Rightarrow> bool" where
  "may_send p nodes sels ps x \<longleftrightarrow>
     (\<exists>n \<in> set nodes. x \<in> set (node_addrs n) \<and> passes p n ps = None \<and> (\<exists>s \<in> set sels. parse_prefix s = None \<and> matches p s n)) \<or>
     (\<exists>s \<in> set sels. \<exists>c. parse_prefix s = Some c \<and> contains c x)"

lemma src_prefixes_may_send:
  assumes "nodes_wf nodes"
  shows "(\<exists>q \<in> set (src_prefixes p nodes sels ps). contains q x) \<longleftrightarrow> may_send p nodes sels ps x"
proof -
  have "contains (masked c) x \<longleftrightarrow> contains c x" if "parse_prefix s = Some c" for s c
    using addrs_masked [OF parse_prefix_valid [OF that]] by (auto simp: addrs_def set_eq_iff)
  then show ?thesis
    unfolding src_prefixes_cover [OF assms] may_send_def
    by (fastforce simp: named_src_def src_cidrs_def map_filter_def)
qed

text \<open>A rule for a machine with the destinations \<open>D\<close> and the ports \<open>P\<close> whose sources contain \<open>x\<close>.\<close>

definition opens :: "rule list \<Rightarrow> addr \<Rightarrow> prefix list \<Rightarrow> port_range list \<Rightarrow> bool" where
  "opens rules x D P \<longleftrightarrow> (\<exists>r \<in> set rules. rule_dst r = D \<and> rule_ports r = P \<and> (\<exists>q \<in> set (rule_src r). contains q x))"

lemma opens_append: "opens (as @ bs) x D P \<longleftrightarrow> opens as x D P \<or> opens bs x D P"
  by (auto simp: opens_def)

lemma opens_nil: "\<not> opens [] x D P"
  by (simp add: opens_def)

lemma opens_concat: "opens (concat (map f xs)) x D P \<longleftrightarrow> (\<exists>a \<in> set xs. opens (f a) x D P)"
  by (auto simp: opens_def)

lemma opens_acl:
  assumes "nodes_wf nodes"
  shows "opens (acl_rules p nodes n a) x D P \<longleftrightarrow> may_send p nodes (acl_src a) (acl_src_posture a) x \<and>
    (\<exists>d \<in> set (acl_dst a). \<exists>sel ports. split_dst_or_empty d = (sel, ports) \<and> P = parse_ports_or_nil ports \<and>
       (D = [] \<and> matches_dst p sel n \<or> D \<noteq> [] \<and> D = routed_dst sel (node_routes n)))"
proof -
  let ?pfxs = "src_prefixes p nodes (acl_src a) (acl_src_posture a)"
  have "opens (dst_rules p ?pfxs n d) x D P \<longleftrightarrow> may_send p nodes (acl_src a) (acl_src_posture a) x \<and>
      (\<exists>sel ports. split_dst_or_empty d = (sel, ports) \<and> P = parse_ports_or_nil ports \<and>
         (D = [] \<and> matches_dst p sel n \<or> D \<noteq> [] \<and> D = routed_dst sel (node_routes n)))" for d
    unfolding src_prefixes_may_send [OF assms, symmetric]
    by (cases "split_dst_or_empty d") (auto simp: opens_def dst_rules_def Let_def)
  moreover have "\<not> may_send p nodes (acl_src a) (acl_src_posture a) x" if "?pfxs = []"
    using src_prefixes_may_send [OF assms, of p "acl_src a" "acl_src_posture a" x] that by simp
  ultimately show ?thesis
    by (cases "?pfxs = []") (simp_all add: acl_rules_def Let_def opens_concat opens_nil)
qed

lemma opens_ssh:
  assumes "nodes_wf nodes"
  shows "opens (map login_rule (ssh_logins p nodes n r)) x D P \<longleftrightarrow>
    may_send p nodes (ssh_src r) (ssh_src_posture r) x \<and> (\<exists>sel \<in> set (ssh_dst r). matches p sel n) \<and> D = [] \<and> P = ssh_ports"
  using src_prefixes_may_send [OF assms, of p "ssh_src r" "ssh_src_posture r" x]
  by (auto simp: ssh_logins_def opens_def login_rule_def list_ex_iff Let_def)

text \<open>Claim C17: the compiled rules of a machine admit exactly the addresses the policy names.  A compiled rule
  with given destinations and ports has \<open>x\<close> among its sources exactly if an ACL lets \<open>x\<close> send, as the
  address of a machine that one of its sources matches and that meets all of its postures or as an address of one
  of its CIDR sources, to a destination with these ports that names the machine or a network it routes, or
  if an SSH rule does, for port 22.\<close>

theorem compiled_sources_exact:
  assumes "nodes_wf nodes" "i < length nodes"
  shows "opens (comp_rules (compile p nodes) (node_id (nodes ! i))) x D P \<longleftrightarrow>
    (\<exists>a \<in> set (acls p). may_send p nodes (acl_src a) (acl_src_posture a) x \<and>
       (\<exists>d \<in> set (acl_dst a). \<exists>sel ports. split_dst_or_empty d = (sel, ports) \<and> P = parse_ports_or_nil ports \<and>
          (D = [] \<and> matches_dst p sel (nodes ! i) \<or> D \<noteq> [] \<and> D = routed_dst sel (node_routes (nodes ! i))))) \<or>
    (\<exists>r \<in> set (ssh p). may_send p nodes (ssh_src r) (ssh_src_posture r) x \<and>
       (\<exists>sel \<in> set (ssh_dst r). matches p sel (nodes ! i)) \<and> D = [] \<and> P = ssh_ports)"
  unfolding rules_eq(1) [OF assms] rules_eq(2) [OF assms] opens_append map_concat map_map comp_def opens_concat
    opens_acl [OF assms(1)] opens_ssh [OF assms(1)] by (rule refl)

text \<open>Claim C3: two machines see each other as peers exactly if a rule compiled for one of them admits
  an address of the other; visibility is symmetric and never relates a machine to itself.\<close>

theorem can_talk_iff_rules:
  assumes "nodes_wf nodes" "addrs_unique nodes" "i < length nodes" "j < length nodes"
  shows "can_talk (compile p nodes) (node_id (nodes ! i)) (node_id (nodes ! j)) \<longleftrightarrow>
    i \<noteq> j \<and> (admits (comp_rules (compile p nodes) (node_id (nodes ! j))) (nodes ! i) \<or>
             admits (comp_rules (compile p nodes) (node_id (nodes ! i))) (nodes ! j))"
  using can_talk_joins [OF assms(1,3,4)] policy_joins_admits [OF assms(1,2)] assms(3,4) by auto

lemma class_members:
  assumes "nodes_wf nodes" "i < length nodes"
  shows "bs_each (comp_peers (compile p nodes) ! (comp_class (compile p nodes) ! i)) =
    filter (bs_has (comp_peers (compile p nodes) ! (comp_class (compile p nodes) ! i))) [0..<length nodes]"
  by (rule bits.elems [OF class_peers(1) [OF assms]])

lemma node_index:
  assumes "nodes_wf nodes" "i < length nodes"
  shows "comp_index (compile p nodes) (node_id (nodes ! i)) = Some i"
  using assms compiled_index [of nodes p "node_id (nodes ! i)" i] by (simp add: nodes_wf_def)

lemma peers_others:
  assumes "nodes_wf nodes" "i < length nodes"
  shows "peers (compile p nodes) (node_id (nodes ! i)) = map (\<lambda>j. node_id (nodes ! j))
    (filter (\<lambda>j. j \<noteq> i) (bs_each (comp_peers (compile p nodes) ! (comp_class (compile p nodes) ! i))))"
  by (simp add: peers_def node_index [OF assms] compiled_ids class_members [OF assms] cong: map_cong)

lemma peers_filter:
  assumes "nodes_wf nodes" "i < length nodes"
  shows "peers (compile p nodes) (node_id (nodes ! i)) =
      filter (can_talk (compile p nodes) (node_id (nodes ! i))) (map node_id nodes)"
proof -
  let ?c = "compile p nodes" and ?n = "length nodes" and ?id = "node_id (nodes ! i)"
  let ?s = "comp_peers ?c ! (comp_class ?c ! i)"
  have talk: "can_talk ?c ?id (node_id (nodes ! j)) \<longleftrightarrow> j \<noteq> i \<and> bs_has ?s j" if "j < ?n" for j
    using can_talk_joins [OF assms that] class_peers(2) [OF assms that] by auto
  have ids: "map node_id nodes = map (\<lambda>j. node_id (nodes ! j)) [0..<?n]"
    by (rule nth_equalityI) simp_all
  show ?thesis
    unfolding peers_others [OF assms] ids filter_map class_members [OF assms] filter_filter
    by (intro arg_cong [where f = "map _"] filter_cong) (auto simp: talk)
qed

lemma can_talk_known: "can_talk c a b \<Longrightarrow> comp_index c b \<noteq> None"
  by (auto simp: can_talk_def split: option.splits)

text \<open>Claim C21: \<^verbatim>\<open>Peers\<close> lists exactly the machines \<^verbatim>\<open>CanTalk\<close> accepts, in the order they were given, and
  \<^verbatim>\<open>PeerSet\<close> is the count of that list and the exclusive or of its mixed identifiers.\<close>

theorem peers_exact:
  assumes "nodes_wf nodes" "i < length nodes"
  shows "peers (compile p nodes) (node_id (nodes ! i)) =
      filter (can_talk (compile p nodes) (node_id (nodes ! i))) (map node_id nodes) \<and>
    peer_set (compile p nodes) (node_id (nodes ! i)) =
      (let ids = peers (compile p nodes) (node_id (nodes ! i)) in (foldl (\<lambda>h x. h XOR mix x) 0 ids, int (length ids)))"
proof -
  let ?c = "compile p nodes" and ?n = "length nodes" and ?id = "node_id (nodes ! i)"
  let ?s = "comp_peers ?c ! (comp_class ?c ! i)"
  note ix = node_index [OF assms, of p] and each = class_members [OF assms, of p]
  define others where "others = filter (\<lambda>j. j \<noteq> i) (bs_each ?s)"
  have peers: "peers ?c ?id = map (\<lambda>j. node_id (nodes ! j)) others" by (simp add: peers_others [OF assms] others_def)
  have dist: "distinct (bs_each ?s)" unfolding each by simp
  have hash: "peer_set ?c ?id = (foldl (\<lambda>h j. h XOR mix (node_id (nodes ! j))) 0 others, int (length others))"
  proof -
    note ch = compiled_hash [OF class_peers(3) [OF assms]]
    have eq: "foldl (\<lambda>h j. h XOR mix (comp_ids ?c ! j)) 0 (bs_each ?s) = foldl (\<lambda>h j. h XOR mix (node_id (nodes ! j))) 0 (bs_each ?s)"
      by (rule foldl_cong) (auto simp: compiled_ids each)
    show ?thesis
    proof (cases "bs_has ?s i")
      case True
      then have "i \<in> set (bs_each ?s)" using assms by (simp add: each)
      then show ?thesis
        using True foldl_xor_remove [OF dist, of i "\<lambda>j. mix (node_id (nodes ! j))" 0] length_remove [OF dist, of i]
        by (simp add: peer_set_def ix Let_def ch eq others_def)
    next
      case False
      then have "others = bs_each ?s" by (auto simp: others_def each intro!: filter_cong)
      then show ?thesis using False by (simp add: peer_set_def ix Let_def ch eq)
    qed
  qed
  have "peer_set ?c ?id = (foldl (\<lambda>h x. h XOR mix x) 0 (peers ?c ?id), int (length (peers ?c ?id)))"
    by (simp add: hash peers foldl_map)
  then show ?thesis using peers_filter [OF assms, of p] by (simp only: Let_def)
qed

text \<open>Two machines and a policy that joins them.\<close>

definition demo_nodes :: "node list" where
  "demo_nodes = [demo_node\<lparr>node_addrs := [IPv4 0x64400001]\<rparr>,
     demo_node\<lparr>node_id := 2, node_name := ''db'', node_addrs := [IPv4 0x64400002]\<rparr>]"

lemma demo_nodes_wf: "nodes_wf demo_nodes" "addrs_unique demo_nodes" "length demo_nodes = 2"
  by (simp_all add: nodes_wf_def addrs_unique_def demo_nodes_def demo_node_def node_ok_def)

theorem compile_rules_exact_witness:
  "comp_ssh (compile allow_all demo_nodes) (node_id (demo_nodes ! 1)) = []"
  using compile_rules_exact [OF demo_nodes_wf(1), of 1 allow_all] by (simp add: demo_nodes_wf(3) allow_all_def)

lemma demo_src: "passes allow_all n [] = None" "parse_prefix ''*'' = None" "matches allow_all ''*'' n"
  by (simp_all add: go_eval matches_def)

lemma demo_may_send: "may_send allow_all demo_nodes [''*''] [] (IPv4 0x64400002)"
  using demo_src by (simp add: may_send_def demo_nodes_def)

theorem compiled_sources_exact_witness:
  "opens (comp_rules (compile allow_all demo_nodes) (node_id (demo_nodes ! 0))) (IPv4 0x64400002) [] all_ports"
proof -
  have "split_dst_or_empty ''*:*'' = (''*'', ''*'')" "parse_ports_or_nil ''*'' = all_ports" "matches_dst allow_all ''*'' (demo_nodes ! 0)"
    using demo_src by (simp_all add: split_dst_or_empty_def split_dst_def parse_ports_or_nil_def parse_ports_def matches_dst_def)
  then show ?thesis
    unfolding compiled_sources_exact [OF demo_nodes_wf(1), of 0 allow_all, unfolded demo_nodes_wf(3), simplified]
    using demo_may_send by (simp add: allow_all_def)
qed

lemma demo_admits: "admits (comp_rules (compile allow_all demo_nodes) (node_id (demo_nodes ! 1))) (demo_nodes ! 0)"
proof -
  have m: "demo_nodes ! 0 \<in> set demo_nodes" by (simp add: demo_nodes_def)
  have "policy_joins allow_all demo_nodes (demo_nodes ! 0) (demo_nodes ! 1)"
  proof -
    have "\<exists>q \<in> set (src_prefixes allow_all demo_nodes [''*''] []). contains q (IPv4 0x64400002)"
      unfolding src_prefixes_cover [OF demo_nodes_wf(1)] using demo_src by (simp add: demo_nodes_def named_src_def)
    then have "src_prefixes allow_all demo_nodes [''*''] [] \<noteq> []" by auto
    moreover have "dst_reaches allow_all n ''*:*''" for n
      using demo_src by (simp add: dst_reaches_def split_dst_or_empty_def split_dst_def matches_dst_def)
    moreover have "in_src allow_all [''*''] [] n" for n using demo_src by (simp add: in_src_def named_src_def)
    ultimately show ?thesis by (simp add: policy_joins_def acl_joins_def) (simp add: allow_all_def)
  qed
  then show ?thesis using policy_joins_admits [OF demo_nodes_wf(1,2) m, of 1] by (simp add: demo_nodes_wf(3))
qed

theorem can_talk_iff_rules_witness: "can_talk (compile allow_all demo_nodes) 1 2"
  using can_talk_iff_rules [OF demo_nodes_wf(1,2), of 0 1 allow_all] demo_admits
  by (simp add: demo_nodes_wf(3)) (simp add: demo_nodes_def demo_node_def)

theorem peers_exact_witness: "peers (compile allow_all demo_nodes) 2 =
   filter (can_talk (compile allow_all demo_nodes) 2) [1, 2]"
  using peers_exact [OF demo_nodes_wf(1), of 1 allow_all] by (simp add: demo_nodes_def demo_node_def)

end
