(* ===== verification/Packets.thy ===== *)
theory Packets
  imports Policy_Base
begin

text \<open>
  The packet parser of \<^verbatim>\<open>internal/filter/filter.go\<close> and the keys that tie a reply to the flow its
  request created.
\<close>

section \<open>Definitions\<close>

abbreviation proto_icmp :: byte where "proto_icmp \<equiv> 1"
abbreviation proto_tcp :: byte where "proto_tcp \<equiv> 6"
abbreviation proto_udp :: byte where "proto_udp \<equiv> 17"
abbreviation proto_icmpv6 :: byte where "proto_icmpv6 \<equiv> 58"

record flow =
  flow_proto :: byte
  flow_remote :: addr_port
  flow_local_port :: u16

record packet =
  pkt_proto :: byte
  pkt_src :: addr
  pkt_dst :: addr
  pkt_src_port :: u16
  pkt_dst_port :: u16
  pkt_has_ports :: bool
  pkt_fragment :: bool
  pkt_echo_request :: bool
  pkt_echo_reply :: bool
  pkt_echo_id :: u16

definition zero_packet :: packet where
  "zero_packet = \<lparr>pkt_proto = 0, pkt_src = ZeroAddr, pkt_dst = ZeroAddr, pkt_src_port = 0, pkt_dst_port = 0,
     pkt_has_ports = False, pkt_fragment = False, pkt_echo_request = False, pkt_echo_reply = False, pkt_echo_id = 0\<rparr>"

text \<open>The tail of \<^verbatim>\<open>parse\<close>: ports of TCP and UDP, identifiers of ping.\<close>

definition parse_l4 :: "packet \<Rightarrow> bytes \<Rightarrow> packet" where
  "parse_l4 p l4 =
     (let p = (if (pkt_proto p = proto_tcp \<or> pkt_proto p = proto_udp) \<and> length l4 \<ge> 4
               then p\<lparr>pkt_src_port := get_u16 (slice 0 2 l4), pkt_dst_port := get_u16 (slice 2 4 l4),
                      pkt_has_ports := True\<rparr>
               else p)
      in if (pkt_proto p = proto_icmp \<or> pkt_proto p = proto_icmpv6) \<and> length l4 \<ge> 8
         then let (request, reply) = (if pkt_proto p = proto_icmpv6 then (128, 129) else (8, 0))
              in p\<lparr>pkt_echo_request := (l4 ! 0 = request), pkt_echo_reply := (l4 ! 0 = reply),
                   pkt_echo_id := get_u16 (slice 4 6 l4)\<rparr>
         else p)"

text \<open>\<^verbatim>\<open>parse\<close>: \<open>None\<close> when it returns false.\<close>

definition parse_packet :: "bytes \<Rightarrow> packet option" where
  "parse_packet b =
     (if length b < 1 then None
      else if drop_bit 4 (b ! 0) = 4 then
        (if length b < 20 then None
         else let ihl = unat (b ! 0 AND 0x0f) * 4 in
           if ihl < 20 \<or> length b < ihl then None
           else let p = zero_packet\<lparr>pkt_proto := b ! 9, pkt_src := addr_from4 (slice 12 16 b),
                      pkt_dst := addr_from4 (slice 16 20 b)\<rparr>
             in if get_u16 (slice 6 8 b) AND 0x1fff \<noteq> 0 then Some (p\<lparr>pkt_fragment := True\<rparr>)
                else Some (parse_l4 p (drop ihl b)))
      else if drop_bit 4 (b ! 0) = 6 then
        (if length b < 40 then None
         else Some (parse_l4 (zero_packet\<lparr>pkt_proto := b ! 6, pkt_src := addr_from16 (slice 8 24 b),
                pkt_dst := addr_from16 (slice 24 40 b)\<rparr>) (drop 40 b)))
      else None)"

definition outbound_key :: "packet \<Rightarrow> flow option" where
  "outbound_key p =
     (if pkt_has_ports p then
        Some \<lparr>flow_proto = pkt_proto p, flow_remote = (pkt_dst p, pkt_dst_port p), flow_local_port = pkt_src_port p\<rparr>
      else if pkt_echo_request p then
        Some \<lparr>flow_proto = pkt_proto p, flow_remote = (pkt_dst p, pkt_echo_id p), flow_local_port = 0\<rparr>
      else None)"

definition inbound_key :: "packet \<Rightarrow> flow option" where
  "inbound_key p =
     (if pkt_has_ports p then
        Some \<lparr>flow_proto = pkt_proto p, flow_remote = (pkt_src p, pkt_src_port p), flow_local_port = pkt_dst_port p\<rparr>
      else if pkt_echo_reply p then
        Some \<lparr>flow_proto = pkt_proto p, flow_remote = (pkt_src p, pkt_echo_id p), flow_local_port = 0\<rparr>
      else None)"

section \<open>Lemmas\<close>

lemma parse_l4_fields [simp]:
  "pkt_proto (parse_l4 p l4) = pkt_proto p" "pkt_src (parse_l4 p l4) = pkt_src p"
  "pkt_dst (parse_l4 p l4) = pkt_dst p" "pkt_fragment (parse_l4 p l4) = pkt_fragment p"
  by (simp_all add: parse_l4_def Let_def)

text \<open>Only TCP and UDP packets that are not later fragments carry ports, and a parsed packet has
  real addresses of one family.\<close>

lemma parse_packet_wf:
  assumes "parse_packet b = Some p"
  shows "pkt_has_ports p \<Longrightarrow> pkt_proto p = proto_tcp \<or> pkt_proto p = proto_udp"
    "pkt_echo_request p \<or> pkt_echo_reply p \<Longrightarrow> pkt_proto p = proto_icmp \<or> pkt_proto p = proto_icmpv6"
    "pkt_has_ports p \<Longrightarrow> \<not> pkt_fragment p"
    "bit_len (pkt_src p) = bit_len (pkt_dst p)" "pkt_src p \<noteq> ZeroAddr" "pkt_dst p \<noteq> ZeroAddr"
  using assms
  by (auto simp: parse_packet_def parse_l4_def zero_packet_def addr_from4_def addr_from16_def Let_def
      split: if_splits)

end
