(* ===== verification/Flow_Log.thy ===== *)
theory Flow_Log
  imports Packets
begin

text \<open>
  The connection counters of \<^verbatim>\<open>internal/filter/flowlog.go\<close>.  A table entry holds its counters by
  value: the sources store each \<^verbatim>\<open>connStats\<close> under one key only, so no two entries share one and the
  \<^verbatim>\<open>seen\<close> set of \<^verbatim>\<open>DrainFlows\<close> never holds an entry before its turn.
\<close>

section \<open>Definitions\<close>

abbreviation flow_ttl :: duration where "flow_ttl \<equiv> 2 * minute"
abbreviation max_logged_conns :: nat where "max_logged_conns \<equiv> 8192"

record flow_record =
  fr_proto :: byte
  fr_client :: addr
  fr_server :: addr
  fr_port :: u16
  fr_outbound :: bool
  fr_denied :: bool
  fr_start :: time
  fr_end :: time
  fr_bytes_sent :: u64
  fr_bytes_recv :: u64
  fr_packets_sent :: u64
  fr_packets_recv :: u64

record conn_key =
  ck_proto :: byte
  ck_client :: addr
  ck_server :: addr
  ck_port :: u16
  ck_outbound :: bool
  ck_denied :: bool

record conn_stats =
  cs_key :: conn_key
  cs_first :: time
  cs_last :: time
  cs_bytes_sent :: u64
  cs_bytes_recv :: u64
  cs_packets_sent :: u64
  cs_packets_recv :: u64

record flow_log =
  by_flow :: "(flow, conn_stats) gomap"
  denied :: "(conn_key, conn_stats) gomap"

definition empty_log :: flow_log where
  "empty_log = \<lparr>by_flow = [], denied = []\<rparr>"

definition server_port :: "packet \<Rightarrow> u16" where
  "server_port p = (if pkt_has_ports p then pkt_dst_port p else 0)"

definition packet_conn :: "packet \<Rightarrow> bool \<Rightarrow> bool \<Rightarrow> conn_key" where
  "packet_conn p out den =
     \<lparr>ck_proto = pkt_proto p, ck_client = pkt_src p, ck_server = pkt_dst p, ck_port = server_port p,
      ck_outbound = out, ck_denied = den\<rparr>"

definition new_stats :: "conn_key \<Rightarrow> time \<Rightarrow> conn_stats" where
  "new_stats k now = \<lparr>cs_key = k, cs_first = now, cs_last = zero_time, cs_bytes_sent = 0, cs_bytes_recv = 0,
     cs_packets_sent = 0, cs_packets_recv = 0\<rparr>"

text \<open>Finding or making an entry: \<open>None\<close> when the table is full.\<close>

definition entry :: "('k, conn_stats) gomap \<Rightarrow> 'k \<Rightarrow> conn_key \<Rightarrow> time \<Rightarrow> conn_stats option" where
  "entry t k ck now =
     (case map_of t k of
        Some cs \<Rightarrow> Some cs
      | None \<Rightarrow> if length t \<ge> max_logged_conns then None else Some (new_stats ck now))"

definition count_sent :: "nat \<Rightarrow> time \<Rightarrow> conn_stats \<Rightarrow> conn_stats" where
  "count_sent len now cs =
     cs\<lparr>cs_last := now, cs_bytes_sent := cs_bytes_sent cs + of_nat len,
        cs_packets_sent := cs_packets_sent cs + 1\<rparr>"

definition count_recv :: "nat \<Rightarrow> time \<Rightarrow> conn_stats \<Rightarrow> conn_stats" where
  "count_recv len now cs =
     cs\<lparr>cs_last := now, cs_bytes_recv := cs_bytes_recv cs + of_nat len,
        cs_packets_recv := cs_packets_recv cs + 1\<rparr>"

definition log_outbound :: "flow_log \<Rightarrow> packet \<Rightarrow> nat \<Rightarrow> time \<Rightarrow> flow_log" where
  "log_outbound l p len now =
     (case outbound_key p of
        None \<Rightarrow> l
      | Some k \<Rightarrow>
          (case entry (by_flow l) k (packet_conn p True False) now of
             None \<Rightarrow> l
           | Some cs \<Rightarrow> l\<lparr>by_flow := AList.update k (count_sent len now cs) (by_flow l)\<rparr>))"

definition log_inbound :: "flow_log \<Rightarrow> packet \<Rightarrow> nat \<Rightarrow> bool \<Rightarrow> time \<Rightarrow> flow_log" where
  "log_inbound l p len allowed now =
     (if \<not> allowed then
        let key = packet_conn p False True in
        (case entry (denied l) key key now of
           None \<Rightarrow> l
         | Some cs \<Rightarrow> l\<lparr>denied := AList.update key (count_recv len now cs) (denied l)\<rparr>)
      else
        (case inbound_key p of
           None \<Rightarrow> l
         | Some k \<Rightarrow>
             (case entry (by_flow l) k (packet_conn p False False) now of
                None \<Rightarrow> l
              | Some cs \<Rightarrow> l\<lparr>by_flow := AList.update k (count_recv len now cs) (by_flow l)\<rparr>)))"

text \<open>\<^verbatim>\<open>take\<close> of \<^verbatim>\<open>DrainFlows\<close>: the record to report, if any, and the entry afterwards.\<close>

definition idle :: "conn_stats \<Rightarrow> bool" where
  "idle cs \<longleftrightarrow> cs_packets_sent cs + cs_packets_recv cs = 0"

definition report :: "conn_stats \<Rightarrow> flow_record" where
  "report cs = (let k = cs_key cs in
     \<lparr>fr_proto = ck_proto k, fr_client = ck_client k, fr_server = ck_server k, fr_port = ck_port k,
      fr_outbound = ck_outbound k, fr_denied = ck_denied k, fr_start = cs_first cs, fr_end = cs_last cs,
      fr_bytes_sent = cs_bytes_sent cs, fr_bytes_recv = cs_bytes_recv cs,
      fr_packets_sent = cs_packets_sent cs, fr_packets_recv = cs_packets_recv cs\<rparr>)"

definition reset_stats :: "time \<Rightarrow> conn_stats \<Rightarrow> conn_stats" where
  "reset_stats now cs =
     (if idle cs then cs
      else cs\<lparr>cs_bytes_sent := 0, cs_bytes_recv := 0, cs_packets_sent := 0, cs_packets_recv := 0,
              cs_first := now\<rparr>)"

definition take_all :: "('k, conn_stats) gomap \<Rightarrow> flow_record list" where
  "take_all t = map report (filter (\<lambda>cs. \<not> idle cs) (map snd t))"

definition busiest_first :: "flow_record list \<Rightarrow> flow_record list" where
  "busiest_first = sort_key (\<lambda>r. - int (unat (fr_bytes_sent r + fr_bytes_recv r)))"

definition drain_log :: "flow_log \<Rightarrow> time \<Rightarrow> int \<Rightarrow> flow_record list \<times> flow_log" where
  "drain_log l now limit =
     (let out = busiest_first (take_all (by_flow l) @ take_all (denied l));
          kept = filter (\<lambda>(k, cs). \<not> time_sub now (cs_last cs) > flow_ttl)
                   (map (\<lambda>(k, cs). (k, reset_stats now cs)) (by_flow l))
      in (if limit > 0 \<and> int (length out) > limit then take (nat limit) out else out,
          \<lparr>by_flow = kept, denied = []\<rparr>))"

section \<open>Lemmas\<close>

definition log_wf :: "flow_log \<Rightarrow> bool" where
  "log_wf l \<longleftrightarrow> distinct (map fst (by_flow l)) \<and> length (by_flow l) \<le> max_logged_conns \<and>
     distinct (map fst (denied l)) \<and> length (denied l) \<le> max_logged_conns"

lemma update_bound:
  assumes "distinct (map fst t)" "length t \<le> N" "k \<in> set (map fst t) \<or> length t < N"
  shows "distinct (map fst (AList.update k v t)) \<and> length (AList.update k v t) \<le> N"
proof -
  have "length (AList.update k v t) = (if k \<in> set (map fst t) then length t else Suc (length t))"
    by (induction t) auto
  then show ?thesis using assms by (auto simp: distinct_update)
qed

lemma entry_bound:
  assumes "distinct (map fst t)" "length t \<le> max_logged_conns" "entry t k ck now = Some cs"
  shows "distinct (map fst (AList.update k v t)) \<and> length (AList.update k v t) \<le> max_logged_conns"
proof (rule update_bound [OF assms(1,2)])
  show "k \<in> set (map fst t) \<or> length t < max_logged_conns"
    using assms(3) by (auto simp: entry_def map_of_eq_None_iff split: option.splits if_splits dest!: map_of_SomeD)
      (metis fst_conv image_eqI)
qed

lemma log_outbound_wf: "log_wf l \<Longrightarrow> log_wf (log_outbound l p n now)"
  using entry_bound by (fastforce simp: log_wf_def log_outbound_def split: option.splits)

lemma log_inbound_wf: "log_wf l \<Longrightarrow> log_wf (log_inbound l p n allowed now)"
  using entry_bound [of "by_flow l"] entry_bound [of "denied l"]
  by (fastforce simp: log_wf_def log_inbound_def Let_def split: option.splits)

lemma drain_log_wf: "log_wf l \<Longrightarrow> log_wf (snd (drain_log l now limit))"
proof -
  assume l: "log_wf l"
  define m where "m = map (\<lambda>(k, cs). (k, reset_stats now cs)) (by_flow l)"
  have "map fst m = map fst (by_flow l)" by (simp add: m_def split_beta)
  moreover from this have "length m = length (by_flow l)" by (metis length_map)
  ultimately show ?thesis
    using l distinct_map_filter [of fst m] length_filter_le [of "\<lambda>(k, cs). \<not> time_sub now (cs_last cs) > flow_ttl" m]
    by (simp add: log_wf_def drain_log_def Let_def flip: m_def)
qed

section \<open>Properties\<close>

text \<open>A drain without a limit reports every connection that saw traffic exactly once, busiest
  first, and a limit keeps the busiest; what was reported is not reported again: after a drain
  no entry has traffic to report.\<close>

theorem drain_reports_once:
  "(let all = fst (drain_log l now 0); (out, l') = drain_log l now limit in
     mset all = image_mset report (filter_mset (\<lambda>cs. \<not> idle cs) (mset (map snd (by_flow l) @ map snd (denied l)))) \<and>
     sorted_wrt (\<lambda>r s. unat (fr_bytes_sent s + fr_bytes_recv s) \<le> unat (fr_bytes_sent r + fr_bytes_recv r)) all \<and>
     out = (if limit > 0 then take (nat limit) all else all) \<and>
     fst (drain_log l' now' limit') = [])"
proof -
  let ?k = "\<lambda>r. - int (unat (fr_bytes_sent r + fr_bytes_recv r))"
  define rs where "rs = take_all (by_flow l) @ take_all (denied l)"
  have all: "fst (drain_log l now 0) = sort_key ?k rs"
    by (simp add: drain_log_def Let_def busiest_first_def rs_def)
  have "mset (fst (drain_log l now 0)) = image_mset report (filter_mset (\<lambda>cs. \<not> idle cs) (mset (map snd (by_flow l) @ map snd (denied l))))"
    unfolding all by (simp add: rs_def take_all_def)
  moreover have "sorted_wrt (\<lambda>r s. ?k r \<le> ?k s) (sort_key ?k rs)"
    using sorted_sort_key [of ?k rs] by (simp add: sorted_wrt_map)
  then have "sorted_wrt (\<lambda>r s. unat (fr_bytes_sent s + fr_bytes_recv s) \<le> unat (fr_bytes_sent r + fr_bytes_recv r)) (fst (drain_log l now 0))"
    unfolding all by (rule sorted_wrt_mono_rel [rotated]) (simp only: neg_le_iff_le of_nat_le_iff)
  moreover have "fst (drain_log l now limit) = (if limit > 0 then take (nat limit) (sort_key ?k rs) else sort_key ?k rs)"
    by (simp add: drain_log_def Let_def busiest_first_def rs_def)
  moreover have "idle cs" if "(k, cs) \<in> set (by_flow (snd (drain_log l now limit)))" for k cs
    using that by (auto simp: drain_log_def Let_def reset_stats_def idle_def split: if_splits)
  then have "take_all (by_flow (snd (drain_log l now limit))) = []"
    by (auto simp: take_all_def filter_empty_conv)
  moreover have "denied (snd (drain_log l now limit)) = []" by (simp add: drain_log_def Let_def)
  then have "fst (drain_log (snd (drain_log l now limit)) now' limit') = []"
    using \<open>take_all (by_flow (snd (drain_log l now limit))) = []\<close>
    by (simp add: drain_log_def [of "snd _"] Let_def busiest_first_def take_all_def [of "[]"])
  ultimately show ?thesis by (simp add: Let_def case_prod_beta all)
qed

end
