(* ===== verification/Packet_Filter.thy ===== *)
theory Packet_Filter
  imports Flow_Log
begin

text \<open>
  \<^verbatim>\<open>internal/filter/filter.go\<close>: the stateful inbound packet filter of a node.  Every operation is a
  function of the filter state; the readings of the clock are arguments, in the order the code
  takes them.
\<close>

section \<open>Definitions\<close>

abbreviation max_flows :: nat where "max_flows \<equiv> 16384"

record filter_state =
  f_rules :: "rule list"
  f_self :: "addr list"
  f_flows :: "(flow, time) gomap"
  f_log :: "flow_log option"

definition new_filter :: filter_state where
  "new_filter = \<lparr>f_rules = [], f_self = [], f_flows = [], f_log = None\<rparr>"

definition set_rules :: "filter_state \<Rightarrow> rule list \<Rightarrow> addr list \<Rightarrow> filter_state" where
  "set_rules f rules self = f\<lparr>f_rules := rules, f_self := self\<rparr>"

definition set_flow_logging :: "filter_state \<Rightarrow> bool \<Rightarrow> filter_state" where
  "set_flow_logging f on =
     (if on \<and> f_log f = None then f\<lparr>f_log := Some empty_log\<rparr>
      else if \<not> on then f\<lparr>f_log := None\<rparr> else f)"

definition expire :: "time \<Rightarrow> (flow, time) gomap \<Rightarrow> (flow, time) gomap" where
  "expire now flows = filter (\<lambda>(k, t). \<not> time_sub now t > flow_ttl) flows"

text \<open>The locked part of \<^verbatim>\<open>Outbound\<close>.\<close>

definition record_flow :: "flow \<Rightarrow> time \<Rightarrow> (flow, time) gomap \<Rightarrow> (flow, time) gomap" where
  "record_flow k now flows =
     (let flows = (if length flows \<ge> max_flows then expire now flows else flows)
      in if length flows < max_flows then AList.update k now flows else flows)"

definition outbound :: "filter_state \<Rightarrow> bytes \<Rightarrow> time \<Rightarrow> time \<Rightarrow> filter_state" where
  "outbound f b now1 now2 =
     (case parse_packet b of
        None \<Rightarrow> f
      | Some p \<Rightarrow>
          let f = f\<lparr>f_log := map_option (\<lambda>l. log_outbound l p (length b) now1) (f_log f)\<rparr> in
          (case outbound_key p of
             None \<Rightarrow> f
           | Some k \<Rightarrow> f\<lparr>f_flows := record_flow k now2 (f_flows f)\<rparr>))"

definition src_matches :: "prefix list \<Rightarrow> addr \<Rightarrow> bool" where
  "src_matches pfxs a \<longleftrightarrow> list_ex (\<lambda>p. contains p a) pfxs"

definition all_ports_range :: "port_range list \<Rightarrow> bool" where
  "all_ports_range prs \<longleftrightarrow> list_ex (\<lambda>pr. pr_first pr = 0 \<and> pr_last pr = 65535) prs"

definition rule_allows :: "bool \<Rightarrow> packet \<Rightarrow> rule \<Rightarrow> bool" where
  "rule_allows to_self p r \<longleftrightarrow>
     src_matches (rule_src r) (pkt_src p) \<and>
     \<not> (rule_dst r = [] \<and> \<not> to_self \<or> rule_dst r \<noteq> [] \<and> \<not> src_matches (rule_dst r) (pkt_dst p)) \<and>
     (if pkt_has_ports p then list_ex (\<lambda>pr. pkt_dst_port p \<ge> pr_first pr \<and> pkt_dst_port p \<le> pr_last pr) (rule_ports r)
      else if pkt_proto p = proto_icmp \<or> pkt_proto p = proto_icmpv6 \<or> pkt_fragment p then True
      else all_ports_range (rule_ports r))"

definition rules_allow :: "filter_state \<Rightarrow> packet \<Rightarrow> bool" where
  "rules_allow f p \<longleftrightarrow> list_ex (rule_allows (list_ex (\<lambda>a. a = pkt_dst p) (f_self f)) p) (f_rules f)"

text \<open>The unexported \<^verbatim>\<open>inbound\<close>: a reply to a recorded flow refreshes it, everything else goes
  through the rules.\<close>

definition inbound_packet :: "filter_state \<Rightarrow> packet \<Rightarrow> time \<Rightarrow> time \<Rightarrow> bool \<times> filter_state" where
  "inbound_packet f p now1 now2 =
     (case inbound_key p of
        Some k \<Rightarrow>
          (case map_of (f_flows f) k of
             Some t \<Rightarrow>
               if time_sub now1 t \<le> flow_ttl then (True, f\<lparr>f_flows := AList.update k now2 (f_flows f)\<rparr>)
               else (rules_allow f p, f)
           | None \<Rightarrow> (rules_allow f p, f))
      | None \<Rightarrow> (rules_allow f p, f))"

definition inbound :: "filter_state \<Rightarrow> bytes \<Rightarrow> time \<Rightarrow> time \<Rightarrow> time \<Rightarrow> bool \<times> filter_state" where
  "inbound f b now1 now2 now3 =
     (case parse_packet b of
        None \<Rightarrow> (False, f)
      | Some p \<Rightarrow>
          (case inbound_packet f p now1 now2 of (allowed, f') \<Rightarrow>
             (allowed, f'\<lparr>f_log := map_option (\<lambda>l. log_inbound l p (length b) allowed now3) (f_log f')\<rparr>)))"

definition drain_flows :: "filter_state \<Rightarrow> time \<Rightarrow> int \<Rightarrow> flow_record list \<times> filter_state" where
  "drain_flows f now limit =
     (case f_log f of
        None \<Rightarrow> ([], f)
      | Some l \<Rightarrow> (case drain_log l now limit of (out, l') \<Rightarrow> (out, f\<lparr>f_log := Some l'\<rparr>)))"

text \<open>A filter in use: the calls made on it, one after the other (each runs under its locks), and
  the verdicts of \<^verbatim>\<open>Inbound\<close> in order.\<close>

datatype filter_op =
    SetRules "rule list" "addr list"
  | SetFlowLogging bool
  | Outbound bytes time time
  | Inbound bytes time time time
  | DrainFlows time int

fun filter_step :: "filter_state \<Rightarrow> filter_op \<Rightarrow> bool list \<times> filter_state" where
  "filter_step f (SetRules rs self) = ([], set_rules f rs self)"
| "filter_step f (SetFlowLogging on) = ([], set_flow_logging f on)"
| "filter_step f (Outbound b t1 t2) = ([], outbound f b t1 t2)"
| "filter_step f (Inbound b t1 t2 t3) = (case inbound f b t1 t2 t3 of (v, f') \<Rightarrow> ([v], f'))"
| "filter_step f (DrainFlows t limit) = ([], snd (drain_flows f t limit))"

fun filter_run :: "filter_state \<Rightarrow> filter_op list \<Rightarrow> bool list \<times> filter_state" where
  "filter_run f [] = ([], f)"
| "filter_run f (a # as) =
     (case filter_step f a of (vs, f') \<Rightarrow> case filter_run f' as of (ws, f'') \<Rightarrow> (vs @ ws, f''))"

section \<open>Lemmas\<close>

definition table_wf :: "(flow, time) gomap \<Rightarrow> bool" where
  "table_wf t \<longleftrightarrow> distinct (map fst t) \<and> length t \<le> max_flows"

definition filter_inv :: "filter_state \<Rightarrow> bool" where
  "filter_inv f \<longleftrightarrow> table_wf (f_flows f) \<and> pred_option log_wf (f_log f)"

lemma expire_wf: "table_wf t \<Longrightarrow> table_wf (expire now t)"
  unfolding expire_def table_wf_def by (meson distinct_map_filter le_trans length_filter_le)

lemma record_flow_wf: "table_wf t \<Longrightarrow> table_wf (record_flow k now t)"
  using expire_wf [of t now] update_bound [of t max_flows k now] update_bound [of "expire now t" max_flows k now]
  by (simp add: table_wf_def record_flow_def Let_def)

lemma refresh_wf: "table_wf t \<Longrightarrow> map_of t k = Some u \<Longrightarrow> table_wf (AList.update k now t)"
  unfolding table_wf_def by (metis update_bound weak_map_of_SomeI map_of_eq_None_iff option.distinct(1) list.set_map)

text \<open>What the operations do to the table of flows and to the log.\<close>

lemma outbound_fields:
  "f_flows (outbound f b t1 t2) = (case parse_packet b of None \<Rightarrow> f_flows f | Some p \<Rightarrow>
     (case outbound_key p of None \<Rightarrow> f_flows f | Some k \<Rightarrow> record_flow k t2 (f_flows f)))"
  "f_log (outbound f b t1 t2) = (case parse_packet b of None \<Rightarrow> f_log f | Some p \<Rightarrow>
     map_option (\<lambda>l. log_outbound l p (length b) t1) (f_log f))"
  "f_rules (outbound f b t1 t2) = f_rules f" "f_self (outbound f b t1 t2) = f_self f"
  by (simp_all add: outbound_def Let_def split: option.split)

lemma inbound_fields:
  "f_flows (snd (inbound f b t1 t2 t3)) = f_flows f \<or>
   (\<exists>k t. map_of (f_flows f) k = Some t \<and> f_flows (snd (inbound f b t1 t2 t3)) = AList.update k t2 (f_flows f))"
  "f_log (snd (inbound f b t1 t2 t3)) = (case parse_packet b of None \<Rightarrow> f_log f | Some p \<Rightarrow>
     map_option (\<lambda>l. log_inbound l p (length b) (fst (inbound f b t1 t2 t3)) t3) (f_log f))"
  "f_rules (snd (inbound f b t1 t2 t3)) = f_rules f" "f_self (snd (inbound f b t1 t2 t3)) = f_self f"
  by (auto simp: inbound_def inbound_packet_def split: option.splits)

lemma outbound_inv: "filter_inv f \<Longrightarrow> filter_inv (outbound f b t1 t2)"
  by (auto simp: filter_inv_def outbound_fields record_flow_wf option.pred_map pred_option_def log_outbound_wf
      split: option.split)

lemma inbound_inv: "filter_inv f \<Longrightarrow> filter_inv (snd (inbound f b t1 t2 t3))"
  using inbound_fields(1) [of f b t1 t2 t3] refresh_wf [of "f_flows f"]
  by (auto simp: filter_inv_def inbound_fields(2) pred_option_def log_inbound_wf split: option.splits)

lemma drain_flows_fields:
  "f_flows (snd (drain_flows f t limit)) = f_flows f" "f_rules (snd (drain_flows f t limit)) = f_rules f"
  "f_self (snd (drain_flows f t limit)) = f_self f"
  "f_log (snd (drain_flows f t limit)) = map_option (\<lambda>l. snd (drain_log l t limit)) (f_log f)"
  by (auto simp: drain_flows_def split: option.splits prod.splits)

lemma set_flow_logging_fields:
  "f_flows (set_flow_logging f on) = f_flows f" "f_rules (set_flow_logging f on) = f_rules f"
  "f_self (set_flow_logging f on) = f_self f"
  "f_log (set_flow_logging f on) \<in> {f_log f, None, Some empty_log}"
  by (auto simp: set_flow_logging_def)

lemma empty_log_wf: "log_wf empty_log"
  by (simp add: log_wf_def empty_log_def)

lemma filter_step_inv:
  assumes "filter_inv f"
  shows "filter_inv (snd (filter_step f a))"
proof (cases a)
  case (Inbound b t1 t2 t3)
  then show ?thesis using inbound_inv [OF assms, of b t1 t2 t3] by (simp add: case_prod_beta)
next
  case (DrainFlows t limit)
  then show ?thesis
    using assms by (auto simp: filter_inv_def drain_flows_fields pred_option_def drain_log_wf)
next
  case (SetFlowLogging on)
  then show ?thesis
    using assms set_flow_logging_fields [of f on] empty_log_wf by (auto simp: filter_inv_def)
qed (use assms outbound_inv in \<open>auto simp: set_rules_def filter_inv_def\<close>)

lemma filter_run_inv: "filter_inv f \<Longrightarrow> filter_inv (snd (filter_run f ops))"
  by (induction ops arbitrary: f) (auto simp: case_prod_beta filter_step_inv)

lemma new_filter_inv: "filter_inv new_filter"
  by (simp add: filter_inv_def new_filter_def table_wf_def)

lemma update_keys: "fst ` set (AList.update k v t) = insert k (fst ` set t)"
  by (induction t) auto

lemma record_flow_keys: "fst ` set (record_flow k now t) \<subseteq> insert k (fst ` set t)"
  by (auto simp: record_flow_def expire_def Let_def update_keys split: if_splits)

text \<open>The flows of the packets a run sent.\<close>

definition sent_keys :: "filter_op list \<Rightarrow> flow set" where
  "sent_keys ops =
     {k. \<exists>b t1 t2 p. Outbound b t1 t2 \<in> set ops \<and> parse_packet b = Some p \<and> outbound_key p = Some k}"

lemma sent_keys_Cons: "sent_keys (a # ops) = sent_keys [a] \<union> sent_keys ops"
  by (rule set_eqI) (simp add: sent_keys_def, blast)

lemma step_keys: "fst ` set (f_flows (snd (filter_step f a))) \<subseteq> fst ` set (f_flows f) \<union> sent_keys [a]"
proof (cases a)
  case (Outbound b t1 t2)
  then show ?thesis
    using record_flow_keys [of _ t2 "f_flows f"] by (auto simp: sent_keys_def outbound_fields split: option.splits)
next
  case (Inbound b t1 t2 t3)
  have "k \<in> fst ` set (f_flows f)" if "map_of (f_flows f) k = Some t" for k t
    using map_of_SomeD [OF that] by (metis fst_conv image_eqI)
  then have "fst ` set (f_flows (snd (inbound f b t1 t2 t3))) = fst ` set (f_flows f)"
    using inbound_fields(1) [of f b t1 t2 t3] by (metis insert_absorb update_keys)
  then show ?thesis by (simp add: Inbound case_prod_beta)
qed (simp_all add: set_rules_def set_flow_logging_fields drain_flows_fields)

lemma filter_run_Cons: "snd (filter_run f (a # ops)) = snd (filter_run (snd (filter_step f a)) ops)"
  "fst (filter_run f (a # ops)) = fst (filter_step f a) @ fst (filter_run (snd (filter_step f a)) ops)"
  by (simp_all add: case_prod_beta)

lemma run_keys: "fst ` set (f_flows (snd (filter_run f ops))) \<subseteq> fst ` set (f_flows f) \<union> sent_keys ops"
proof (induction ops arbitrary: f)
  case (Cons a ops)
  show ?case
    unfolding filter_run_Cons sent_keys_Cons [of a ops]
    using Cons.IH [of "snd (filter_step f a)"] step_keys [of f a] by blast
qed simp

lemma inbound_verdict:
  "fst (inbound f b t1 t2 t3) \<longleftrightarrow> (\<exists>p. parse_packet b = Some p \<and>
     (rules_allow f p \<or> (\<exists>k t. inbound_key p = Some k \<and> map_of (f_flows f) k = Some t \<and> time_sub t1 t \<le> flow_ttl)))"
  by (auto simp: inbound_def inbound_packet_def split: option.splits)


text \<open>A flow stays while its latest use is less than two minutes old.\<close>

definition live :: "flow \<Rightarrow> time \<Rightarrow> time \<Rightarrow> (flow, time) gomap \<Rightarrow> bool" where
  "live k t0 t1 flows \<longleftrightarrow> (\<exists>t. map_of flows k = Some t \<and> t0 \<le> t \<and> t \<le> t1)"

lemma live_update: "live k t0 t1 flows \<Longrightarrow> t0 \<le> t \<Longrightarrow> t \<le> t1 \<Longrightarrow> live k t0 t1 (AList.update j t flows)"
  by (auto simp: live_def update_conv)

lemma live_expire:
  assumes "live k t0 t1 flows" "now \<le> t1" "t1 - t0 \<le> flow_ttl" "distinct (map fst flows)"
  shows "live k t0 t1 (expire now flows)"
proof -
  obtain t where t: "(k, t) \<in> set flows" "t0 \<le> t" "t \<le> t1"
    using assms(1) map_of_SomeD by (fastforce simp: live_def)
  then have "\<not> time_sub now t > flow_ttl" using assms(2,3) by (auto simp: time_sub_def)
  with t have "(k, t) \<in> set (expire now flows)" by (simp add: expire_def)
  moreover have "distinct (map fst (expire now flows))"
    using assms(4) by (simp add: expire_def distinct_map_filter)
  ultimately show ?thesis using t by (auto simp: live_def)
qed

fun op_times :: "filter_op \<Rightarrow> time list" where
  "op_times (Outbound b t1 t2) = [t1, t2]"
| "op_times (Inbound b t1 t2 t3) = [t1, t2, t3]"
| "op_times (DrainFlows t limit) = [t]"
| "op_times _ = []"

lemma step_live:
  assumes "live k t0 t1 (f_flows f)" "filter_inv f" "\<forall>t \<in> set (op_times a). t0 \<le> t \<and> t \<le> t1" "t1 - t0 \<le> flow_ttl"
  shows "live k t0 t1 (f_flows (snd (filter_step f a)))"
proof (cases a)
  case (Outbound b u1 u2)
  have d: "distinct (map fst (f_flows f))" using assms(2) by (simp add: filter_inv_def table_wf_def)
  have "live k t0 t1 (record_flow j u2 (f_flows f))" for j
    using assms live_expire [OF assms(1) _ assms(4) d, of u2] live_update
    by (simp add: record_flow_def Outbound Let_def)
  then show ?thesis using assms(1) by (simp add: Outbound outbound_fields split: option.split)
next
  case (Inbound b u1 u2 u3)
  then show ?thesis
    using assms inbound_fields(1) [of f b u1 u2 u3] live_update [OF assms(1), of u2] by (auto simp: case_prod_beta)
qed (use assms(1) in \<open>simp_all add: set_rules_def set_flow_logging_fields drain_flows_fields\<close>)

lemma run_live:
  assumes "live k t0 t1 (f_flows f)" "filter_inv f" "\<forall>a \<in> set ops. \<forall>t \<in> set (op_times a). t0 \<le> t \<and> t \<le> t1"
    "t1 - t0 \<le> flow_ttl"
  shows "live k t0 t1 (f_flows (snd (filter_run f ops)))"
  using assms
proof (induction ops arbitrary: f)
  case (Cons a ops)
  show ?case
    unfolding filter_run_Cons
    using Cons.IH [OF step_live [OF Cons.prems(1,2) _ Cons.prems(4)] filter_step_inv [OF Cons.prems(2)]] Cons.prems(3,4)
    by simp
qed simp

text \<open>Runs without the flow log.\<close>

definition erase_log :: "filter_state \<Rightarrow> filter_state" where
  "erase_log f = f\<lparr>f_log := None\<rparr>"

fun log_op :: "filter_op \<Rightarrow> bool" where
  "log_op (SetFlowLogging _) = True"
| "log_op (DrainFlows _ _) = True"
| "log_op _ = False"

lemma erase_inbound:
  "fst (inbound (erase_log f) b t1 t2 t3) = fst (inbound f b t1 t2 t3) \<and>
   snd (inbound (erase_log f) b t1 t2 t3) = erase_log (snd (inbound f b t1 t2 t3))"
proof -
  have "rules_allow (erase_log f) p = rules_allow f p" for p by (simp add: rules_allow_def erase_log_def)
  then show ?thesis
    by (auto simp: inbound_def inbound_packet_def erase_log_def split: option.splits)
qed

lemma erase_outbound: "outbound (erase_log f) b t1 t2 = erase_log (outbound f b t1 t2)"
  by (auto simp: outbound_def erase_log_def Let_def split: option.split)

section \<open>Properties\<close>

text \<open>Claim C32: whatever calls are made on a new filter, its table of flows never exceeds 16384 entries
  and has no duplicate keys, and neither table of the flow log exceeds 8192.\<close>

theorem filter_tables_bounded: "filter_inv (snd (filter_run new_filter ops))"
  by (rule filter_run_inv [OF new_filter_inv])

text \<open>Claim C4: a packet is delivered only if a rule in force allows it or it answers a packet this
  node sent: same protocol, from the address that packet went to, and with ports exchanged or
  the same ping identifier.\<close>

theorem delivered_allowed_or_solicited:
  assumes "fst (inbound (snd (filter_run new_filter ops)) b t1 t2 t3)"
  shows "\<exists>p. parse_packet b = Some p \<and> (rules_allow (snd (filter_run new_filter ops)) p \<or>
    (\<exists>b0 u1 u2 p0. Outbound b0 u1 u2 \<in> set ops \<and> parse_packet b0 = Some p0 \<and>
       pkt_proto p = pkt_proto p0 \<and> pkt_src p = pkt_dst p0 \<and>
       (pkt_has_ports p \<and> pkt_has_ports p0 \<and> pkt_src_port p = pkt_dst_port p0 \<and> pkt_dst_port p = pkt_src_port p0 \<or>
        pkt_echo_reply p \<and> pkt_echo_request p0 \<and> pkt_echo_id p = pkt_echo_id p0)))"
proof -
  let ?f = "snd (filter_run new_filter ops)"
  obtain p where p: "parse_packet b = Some p"
    "rules_allow ?f p \<or> (\<exists>k. inbound_key p = Some k \<and> k \<in> fst ` set (f_flows ?f))"
    using assms unfolding inbound_verdict by (metis map_of_SomeD image_eqI fst_conv)
  have solicited: "\<exists>b0 u1 u2 p0. Outbound b0 u1 u2 \<in> set ops \<and> parse_packet b0 = Some p0 \<and> outbound_key p0 = Some k"
    if "k \<in> fst ` set (f_flows ?f)" for k
    using that run_keys [of new_filter ops] by (auto simp: new_filter_def sent_keys_def) 
  have reply: "pkt_proto p = pkt_proto p0 \<and> pkt_src p = pkt_dst p0 \<and>
       (pkt_has_ports p \<and> pkt_has_ports p0 \<and> pkt_src_port p = pkt_dst_port p0 \<and> pkt_dst_port p = pkt_src_port p0 \<or>
        pkt_echo_reply p \<and> pkt_echo_request p0 \<and> pkt_echo_id p = pkt_echo_id p0)"
    if "inbound_key p = Some k" "outbound_key p0 = Some k" "parse_packet b0 = Some p0" for p0 k b0
    using that parse_packet_wf(1,2) [OF p(1)] parse_packet_wf(1,2) [OF that(3)]
    by (auto simp: inbound_key_def outbound_key_def split: if_splits)
  show ?thesis using p solicited reply by meson
qed

lemma record_flow_room:
  assumes "length (expire now flows) < max_flows"
  shows "\<exists>t. record_flow k now flows = AList.update k now t"
  using assms by (auto simp: record_flow_def Let_def)

lemma record_flow_full:
  assumes "table_wf flows" "max_flows \<le> length (expire now flows)"
  shows "record_flow k now flows = flows"
proof -
  have "length flows \<le> length (expire now flows)" using assms by (simp add: table_wf_def)
  then have "expire now flows = flows"
    unfolding expire_def by (metis filter_id_conv length_filter_less linorder_not_le)
  then show ?thesis using assms(2) by (simp add: record_flow_def)
qed

text \<open>Claim C20: replies are let in whatever the rules, while the table has room.  When fewer than 16384
  flows were used in the last two minutes at the time \<open>t0\<close> a packet is sent, a packet with the matching key that
  arrives within two minutes is delivered, whatever calls were made in between.  When the table is full
  of such flows the packet is not recorded: the table stays as it is, and a reply that matches none of its
  flows is delivered only if a rule allows it.\<close>

theorem reply_delivered:
  assumes "filter_inv f" "parse_packet b0 = Some p0" "outbound_key p0 = Some k"
    and "snd (filter_run f (Outbound b0 u0 t0 # ops)) = f'"
    and "\<forall>a \<in> set ops. \<forall>t \<in> set (op_times a). t0 \<le> t \<and> t \<le> t1" "t0 \<le> t1" "t1 - t0 \<le> flow_ttl"
    and "parse_packet b = Some p" "inbound_key p = Some k"
  shows "(length (expire t0 (f_flows f)) < max_flows \<longrightarrow> fst (inbound f' b t1 t2 t3)) \<and>
    (max_flows \<le> length (expire t0 (f_flows f)) \<longrightarrow> f_flows (outbound f b0 u0 t0) = f_flows f \<and>
       (map_of (f_flows f) k = None \<and> ops = [] \<longrightarrow> (fst (inbound f' b t1 t2 t3) \<longleftrightarrow> rules_allow f p)))"
proof (intro conjI impI)
  assume "length (expire t0 (f_flows f)) < max_flows"
  then have "live k t0 t1 (f_flows (outbound f b0 u0 t0))"
    using assms(2,3,6) record_flow_room [of t0 "f_flows f" k] by (auto simp: outbound_fields live_def update_conv)
  from run_live [OF this outbound_inv [OF assms(1)] assms(5,7)]
  have "live k t0 t1 (f_flows f')" using assms(4) by (simp add: case_prod_beta)
  then obtain t where "map_of (f_flows f') k = Some t" "t0 \<le> t" "t \<le> t1" by (auto simp: live_def)
  then show "fst (inbound f' b t1 t2 t3)" using assms(7-9) by (auto simp: inbound_verdict time_sub_def)
next
  assume full: "max_flows \<le> length (expire t0 (f_flows f))"
  then show same: "f_flows (outbound f b0 u0 t0) = f_flows f"
    using assms(1-3) record_flow_full by (simp add: outbound_fields filter_inv_def)
  assume "map_of (f_flows f) k = None \<and> ops = []"
  moreover from this have "f' = outbound f b0 u0 t0" using assms(4) by simp
  ultimately show "fst (inbound f' b t1 t2 t3) \<longleftrightarrow> rules_allow f p"
    using same assms(8,9) by (simp add: inbound_verdict rules_allow_def outbound_fields)
qed

text \<open>Flow logging never changes what is allowed: dropping every \<^verbatim>\<open>SetFlowLogging\<close> and
  \<^verbatim>\<open>DrainFlows\<close> call from a run leaves all verdicts, the rules and the table of flows unchanged.\<close>

theorem logging_transparent:
  "fst (filter_run f ops) = fst (filter_run (erase_log f) (filter (\<lambda>a. \<not> log_op a) ops)) \<and>
   erase_log (snd (filter_run f ops)) = snd (filter_run (erase_log f) (filter (\<lambda>a. \<not> log_op a) ops))"
proof (induction ops arbitrary: f)
  case (Cons a ops)
  show ?case
  proof (cases a)
    case (Inbound b t1 t2 t3)
    then show ?thesis using Cons.IH erase_inbound [of f b t1 t2 t3] by (simp add: case_prod_beta)
  next
    case (SetFlowLogging on)
    have "erase_log (set_flow_logging f on) = erase_log f" by (simp add: set_flow_logging_def erase_log_def)
    then show ?thesis using Cons.IH [of "set_flow_logging f on"] SetFlowLogging by (simp add: case_prod_beta)
  next
    case (DrainFlows t limit)
    have "erase_log (snd (drain_flows f t limit)) = erase_log f"
      by (simp add: drain_flows_def erase_log_def split: option.split prod.split)
    then show ?thesis using Cons.IH [of "snd (drain_flows f t limit)"] DrainFlows by (simp add: case_prod_beta)
  next
    case (SetRules rs self)
    have "set_rules (erase_log f) rs self = erase_log (set_rules f rs self)" by (simp add: set_rules_def erase_log_def)
    then show ?thesis using Cons.IH [of "set_rules f rs self"] SetRules by (simp add: case_prod_beta)
  qed (use Cons.IH in \<open>simp add: case_prod_beta erase_outbound\<close>)
qed simp


text \<open>A UDP packet from 100.64.0.1 port 1000 to 100.64.0.2 port 53, and its answer.\<close>

definition demo_query :: bytes where
  "demo_query = [0x45, 0, 0, 28, 0, 0, 0, 0, 64, 17, 0, 0, 100, 64, 0, 1, 100, 64, 0, 2, 3, 0xE8, 0, 53]"

definition demo_answer :: bytes where
  "demo_answer = [0x45, 0, 0, 28, 0, 0, 0, 0, 64, 17, 0, 0, 100, 64, 0, 2, 100, 64, 0, 1, 0, 53, 3, 0xE8]"

definition demo_flow :: flow where
  "demo_flow = \<lparr>flow_proto = 17, flow_remote = (IPv4 0x64400002, 53), flow_local_port = 1000\<rparr>"

lemma demo_packets:
  "\<exists>p0. parse_packet demo_query = Some p0 \<and> outbound_key p0 = Some demo_flow"
  "\<exists>p. parse_packet demo_answer = Some p \<and> inbound_key p = Some demo_flow"
  by (simp_all add: parse_packet_def demo_query_def demo_answer_def demo_flow_def parse_l4_def zero_packet_def
      outbound_key_def inbound_key_def slice_def get_u16_def be_nat_def addr_from4_def)

text \<open>A table of \<open>N\<close> flows last used at time 0.\<close>

definition demo_table :: "nat \<Rightarrow> filter_state" where
  "demo_table N = new_filter\<lparr>f_flows :=
     map (\<lambda>n. (\<lparr>flow_proto = 6, flow_remote = (IPv4 0x64400002, 53), flow_local_port = of_nat n\<rparr>, 0)) [0..<N]\<rparr>"

lemma demo_table_inv:
  assumes "N \<le> max_flows"
  shows "filter_inv (demo_table N)" "length (expire 0 (f_flows (demo_table N))) = N" "map_of (f_flows (demo_table N)) demo_flow = None"
proof -
  have "inj_on (\<lambda>n. \<lparr>flow_proto = 6, flow_remote = (IPv4 0x64400002, 53), flow_local_port = of_nat n :: 16 word\<rparr>) {0..<N}"
    using assms by (intro inj_onI) (auto simp: word_of_nat_eq_iff take_bit_nat_eq_self)
  then show "filter_inv (demo_table N)"
    using assms new_filter_inv by (simp add: filter_inv_def demo_table_def table_wf_def distinct_map comp_def)
  show "length (expire 0 (f_flows (demo_table N))) = N"
    by (simp add: demo_table_def expire_def filter_map comp_def time_sub_def)
  show "map_of (f_flows (demo_table N)) demo_flow = None" by (auto simp: demo_table_def map_of_eq_None_iff demo_flow_def)
qed

theorem reply_delivered_witness:
  "fst (inbound (snd (filter_run new_filter [Outbound demo_query 0 0, SetRules [] []])) demo_answer second second second) \<and>
   \<not> fst (inbound (snd (filter_run (demo_table max_flows) [Outbound demo_query 0 0])) demo_answer second second second)"
proof
  obtain p0 p where p: "parse_packet demo_query = Some p0" "outbound_key p0 = Some demo_flow"
    "parse_packet demo_answer = Some p" "inbound_key p = Some demo_flow" using demo_packets by auto
  have "length (expire 0 (f_flows new_filter)) < max_flows" by (simp add: new_filter_def expire_def)
  then show "fst (inbound (snd (filter_run new_filter [Outbound demo_query 0 0, SetRules [] []])) demo_answer second second second)"
    using reply_delivered [OF new_filter_inv p(1,2) refl _ _ _ p(3,4), of "[SetRules [] []]" 0 second 0 second second] by simp
  note full = demo_table_inv [of max_flows, OF order_refl]
  have "\<not> rules_allow (demo_table max_flows) p" by (simp add: rules_allow_def demo_table_def new_filter_def)
  then show "\<not> fst (inbound (snd (filter_run (demo_table max_flows) [Outbound demo_query 0 0])) demo_answer second second second)"
    using reply_delivered [OF full(1) p(1,2) refl _ _ _ p(3,4), of "[]" 0 second 0 second second] full(2,3) by simp
qed

theorem delivered_allowed_or_solicited_witness:
  "\<exists>p p0. parse_packet demo_answer = Some p \<and> parse_packet demo_query = Some p0 \<and> pkt_src p = pkt_dst p0"
proof -
  let ?ops = "[Outbound demo_query 0 0]"
  let ?f = "snd (filter_run new_filter ?ops)"
  obtain p0 p where p: "parse_packet demo_query = Some p0" "outbound_key p0 = Some demo_flow"
    "parse_packet demo_answer = Some p" "inbound_key p = Some demo_flow" using demo_packets by auto
  have "f_flows ?f = [(demo_flow, 0)]"
    using p by (simp add: outbound_fields record_flow_def new_filter_def)
  then have "fst (inbound ?f demo_answer 0 0 0)" using p by (auto simp: inbound_verdict time_sub_def)
  moreover have "\<not> rules_allow ?f p" for p by (simp add: rules_allow_def outbound_fields new_filter_def)
  ultimately show ?thesis using delivered_allowed_or_solicited [of ?ops demo_answer 0 0 0] by auto
qed

end
