(* ===== verification/Codec.thy ===== *)
theory Codec
  imports Netip
begin

text \<open>
  What the wire formats share: fixed-size byte arrays (\<^verbatim>\<open>[32]byte\<close> keys, \<^verbatim>\<open>[12]byte\<close> transaction
  identifiers and so on) as words of that many bits, and the interface of a message format, the
  locale \<open>message_format\<close>: what decoding gives back of an encoded message.  A format may lose
  detail that does not matter on the wire (an IPv4-mapped address comes back as IPv4), which
  \<open>norm\<close> names.
\<close>

section \<open>Fixed-size arrays\<close>

type_synonym key32 = "256 word"
type_synonym txid = "96 word"

definition array_bytes :: "'a::len word \<Rightarrow> bytes" where
  "array_bytes w = nat_be (LENGTH('a) div 8) (unat w)"

text \<open>\<^verbatim>\<open>copy(a[:], b)\<close> of a slice as long as the array.\<close>

definition bytes_array :: "bytes \<Rightarrow> 'a::len word" where
  "bytes_array b = of_nat (be_nat b)"

lemma length_array_bytes [simp]: "length (array_bytes (w :: 'a::len word)) = LENGTH('a) div 8"
  by (simp add: array_bytes_def)

lemma bytes_array_bytes [simp]:
  fixes w :: "'a::len word"
  assumes "LENGTH('a) mod 8 = 0"
  shows "bytes_array (array_bytes w) = w"
proof -
  have "256 ^ (LENGTH('a) div 8) = (2::nat) ^ (8 * (LENGTH('a) div 8))" by (simp add: power_mult)
  also have "8 * (LENGTH('a) div 8) = LENGTH('a)" using assms by (metis mult_div_mod_eq add.right_neutral)
  finally have "unat w mod 256 ^ (LENGTH('a) div 8) = unat w" using unat_bound [of w] by simp
  then show ?thesis by (simp add: bytes_array_def array_bytes_def be_nat_nat_be)
qed

lemma array_bytes_array:
  assumes "length b = LENGTH('a) div 8" "LENGTH('a) mod 8 = 0"
  shows "array_bytes (bytes_array b :: 'a::len word) = b"
proof -
  have "256 ^ length b = (2::nat) ^ (8 * (LENGTH('a) div 8))" by (simp add: power_mult assms(1))
  also have "8 * (LENGTH('a) div 8) = LENGTH('a)" using assms(2) by (metis mult_div_mod_eq add.right_neutral)
  finally have "be_nat b < 2 ^ LENGTH('a)" using be_nat_less [of b] by simp
  then have "unat (of_nat (be_nat b) :: 'a word) = be_nat b" by (simp add: unat_of_nat)
  then show ?thesis using nat_be_be_nat [of b] by (simp add: bytes_array_def array_bytes_def assms(1))
qed

text \<open>A constant string as bytes.\<close>

definition ascii :: "string \<Rightarrow> bytes" where
  "ascii s = map of_char s"

lemma ascii_inj: "ascii f = ascii g \<longleftrightarrow> f = g"
proof -
  have "inj (of_char :: char \<Rightarrow> byte)"
  proof (rule injI)
    fix c d :: char assume "(of_char c :: byte) = of_char d"
    then have "(of_nat (of_char c) :: byte) = of_nat (of_char d)" by (simp add: of_nat_of_char)
    from arg_cong [OF this, of unat] show "c = d" by (simp add: unat_of_nat)
  qed
  then show ?thesis by (simp add: ascii_def inj_map_eq_map)
qed

section \<open>Addresses on the wire\<close>

text \<open>\<open>wire_addr\<close> is what an address is after \<^verbatim>\<open>As16\<close> and \<^verbatim>\<open>AddrFrom16(...).Unmap()\<close>: without zone,
  and the zero address as \<^verbatim>\<open>::\<close>.\<close>

fun wire_addr :: "addr \<Rightarrow> addr" where
  "wire_addr ZeroAddr = IPv6 0 []"
| "wire_addr (IPv4 x) = IPv4 x"
| "wire_addr (IPv6 x z) = unmap (IPv6 x [])"

lemma length_as16 [simp]: "length (as16 a) = 16"
  by (cases a) simp_all

lemma be_nat_append: "be_nat (xs @ ys) = be_nat xs * 256 ^ length ys + be_nat ys"
proof (induction ys rule: rev_induct)
  case (snoc y ys)
  have "be_nat (xs @ ys @ [y]) = be_nat ((xs @ ys) @ [y])" by simp
  then show ?case using snoc by (simp only: be_nat_snoc) (simp add: algebra_simps)
qed simp

lemma be_nat_zeros [simp]: "be_nat (replicate n 0) = 0"
  by (induction n) (simp_all add: be_nat_Cons)

lemma unat_word_bound: "unat (x :: u32) < 4294967296" "unat (y :: 128 word) < 340282366920938463463374607431768211456"
  using unat_bound [of x] unat_bound [of y] by simp_all

lemma unmap_mapped: "unmap (IPv6 (of_nat (0xFFFF * 2 ^ 32 + unat (x :: u32))) []) = IPv4 x"
proof -
  let ?n = "0xFFFF * 2 ^ 32 + unat x"
  have x: "unat x < 2 ^ 32" using unat_bound [of x] by simp
  then have v: "unat (of_nat ?n :: 128 word) = ?n" by (simp only: unat_of_nat) simp
  have "drop_bit 32 (of_nat ?n :: 128 word) = 0xFFFF"
  proof (rule unat_eq_iff [THEN iffD1])
    have "unat (drop_bit 32 (of_nat ?n :: 128 word)) = ?n div 2 ^ 32"
      by (simp only: unat_drop_bit v)
    then show "unat (drop_bit 32 (of_nat ?n :: 128 word)) = unat (0xFFFF :: 128 word)" using x by simp
  qed
  moreover have "ucast (of_nat ?n :: 128 word) = x"
  proof (rule unat_eq_iff [THEN iffD1])
    have "unat (ucast (of_nat ?n :: 128 word) :: u32) = ?n mod 2 ^ 32"
      using v by (simp add: unsigned_ucast_eq take_bit_nat_def del: of_nat_add)
    also have "\<dots> = unat x" using x by (simp only: mod_mult_self3 mod_less)
    finally show "unat (ucast (of_nat ?n :: 128 word) :: u32) = unat x" .
  qed
  ultimately show ?thesis by simp
qed

lemma wire_round [simp]: "unmap (addr_from16 (as16 a)) = wire_addr a"
proof (cases a)
  case ZeroAddr
  then show ?thesis by (simp add: addr_from16_def)
next
  case (IPv4 x)
  have m: "unat x mod 256 ^ 4 = unat x" using unat_word_bound(1) [of x] by simp
  have "be_nat (as16 a) = 0xFFFF * 2 ^ 32 + unat x"
    using m by (simp only: IPv4 as16.simps be_nat_append) (simp add: be_nat_nat_be be_nat_Cons)
  then show ?thesis using unmap_mapped [of x] by (simp only: addr_from16_def IPv4 wire_addr.simps)
next
  case (IPv6 x z)
  have "unat x mod 256 ^ 16 = unat x" using unat_word_bound(2) [of x] by simp
  then have "addr_from16 (as16 a) = IPv6 x []" by (simp add: addr_from16_def IPv6 be_nat_nat_be)
  then show ?thesis by (simp add: IPv6)
qed

section \<open>The interface of a message format\<close>

locale message_format =
  fixes enc :: "'m \<Rightarrow> bytes" and dec :: "bytes \<Rightarrow> 'm option" and norm :: "'m \<Rightarrow> 'm" and ok :: "'m \<Rightarrow> bool"
  assumes round_trip: "ok m \<Longrightarrow> dec (enc m) = Some (norm m)"
begin

lemma same_encoding: "ok m \<Longrightarrow> ok m' \<Longrightarrow> enc m = enc m' \<Longrightarrow> norm m = norm m'"
  using round_trip by (metis option.inject)

lemma decodes: "ok m \<Longrightarrow> dec (enc m) \<noteq> None"
  by (simp add: round_trip)

end

end
