(* ===== verification/Encodings.thy ===== *)
theory Encodings
  imports Codec
begin

text \<open>
  The text encodings the sources use: \<^verbatim>\<open>base64.StdEncoding\<close>, \<^verbatim>\<open>base64.RawURLEncoding\<close> and
  \<^verbatim>\<open>hex\<close> of the Go library, and the key types of \<^verbatim>\<open>internal/key/key.go\<close>.  Go's base64 decoder skips
  line breaks and ignores the unused bits of a last digit.
\<close>

section \<open>Base64 digits\<close>

fun b64_digits :: "nat list \<Rightarrow> nat list" where
  "b64_digits [] = []"
| "b64_digits [a] = [a div 4, a mod 4 * 16]"
| "b64_digits [a, b] = [a div 4, a mod 4 * 16 + b div 16, b mod 16 * 4]"
| "b64_digits (a # b # c # r) =
     [a div 4, a mod 4 * 16 + b div 16, b mod 16 * 4 + c div 64, c mod 64] @ b64_digits r"

fun b64_octets :: "nat list \<Rightarrow> nat list" where
  "b64_octets (p # q # r # s # t) =
     [p * 4 + q div 16, q mod 16 * 16 + r div 4, r mod 4 * 64 + s] @ b64_octets t"
| "b64_octets [p, q, r] = [p * 4 + q div 16, q mod 16 * 16 + r div 4]"
| "b64_octets [p, q] = [p * 4 + q div 16]"
| "b64_octets _ = []"

definition std_alphabet :: string where
  "std_alphabet = ''ABCDEFGHIJKLMNOPQRSTUVWXYZabcdefghijklmnopqrstuvwxyz0123456789+/''"

definition url_alphabet :: string where
  "url_alphabet = ''ABCDEFGHIJKLMNOPQRSTUVWXYZabcdefghijklmnopqrstuvwxyz0123456789-_''"

fun index_in :: "string \<Rightarrow> char \<Rightarrow> nat option" where
  "index_in [] c = None"
| "index_in (x # xs) c = (if x = c then Some 0 else map_option Suc (index_in xs c))"

definition digits_text :: "string \<Rightarrow> nat list \<Rightarrow> string" where
  "digits_text alpha ds = map (\<lambda>d. alpha ! d) ds"

fun text_digits :: "string \<Rightarrow> string \<Rightarrow> nat list option" where
  "text_digits alpha [] = Some []"
| "text_digits alpha (c # cs) =
     (case index_in alpha c of None \<Rightarrow> None | Some d \<Rightarrow> map_option ((#) d) (text_digits alpha cs))"

definition skip_breaks :: "string \<Rightarrow> string" where
  "skip_breaks s = filter (\<lambda>c. c \<noteq> CHR 0x0A \<and> c \<noteq> CHR 0x0D) s"

definition to_bytes :: "nat list \<Rightarrow> bytes" where
  "to_bytes ns = map of_nat ns"

definition std_encode :: "bytes \<Rightarrow> string" where
  "std_encode bs = digits_text std_alphabet (b64_digits (map unat bs)) @ replicate ((3 - length bs mod 3) mod 3) CHR ''=''"

definition std_decode :: "string \<Rightarrow> bytes option" where
  "std_decode s =
     (let t = skip_breaks s; body = takeWhile (\<lambda>c. c \<noteq> CHR ''='') t; pad = dropWhile (\<lambda>c. c \<noteq> CHR ''='') t in
      if length body mod 4 = 0 \<and> pad = [] \<or> length body mod 4 = 3 \<and> pad = ''='' \<or> length body mod 4 = 2 \<and> pad = ''==''
      then map_option (\<lambda>ds. to_bytes (b64_octets ds)) (text_digits std_alphabet body)
      else None)"

definition raw_url_encode :: "bytes \<Rightarrow> string" where
  "raw_url_encode bs = digits_text url_alphabet (b64_digits (map unat bs))"

definition raw_url_decode :: "string \<Rightarrow> bytes option" where
  "raw_url_decode s =
     (let t = skip_breaks s in
      if length t mod 4 = 1 then None else map_option (\<lambda>ds. to_bytes (b64_octets ds)) (text_digits url_alphabet t))"

section \<open>Hexadecimal\<close>

definition hex_encode :: "bytes \<Rightarrow> string" where
  "hex_encode bs = concat (map (\<lambda>b. [''0123456789abcdef'' ! (unat b div 16), ''0123456789abcdef'' ! (unat b mod 16)]) bs)"

fun hex_decode :: "string \<Rightarrow> bytes option" where
  "hex_decode [] = Some []"
| "hex_decode [c] = None"
| "hex_decode (c # d # r) =
     (case (hex_digit_val c, hex_digit_val d) of
        (Some x, Some y) \<Rightarrow> map_option ((#) (of_nat (x * 16 + y))) (hex_decode r)
      | _ \<Rightarrow> None)"

section \<open>Keys\<close>

definition key_string :: "key32 \<Rightarrow> string" where
  "key_string k = std_encode (array_bytes k)"

definition key_hex :: "key32 \<Rightarrow> string" where
  "key_hex k = hex_encode (array_bytes k)"

definition short_string :: "key32 \<Rightarrow> string" where
  "short_string k = ''['' @ take 5 (key_string k) @ '']''"

definition key_is_zero :: "key32 \<Rightarrow> bool" where
  "key_is_zero k \<longleftrightarrow> k = 0"

definition parse_public :: "string \<Rightarrow> key32 option" where
  "parse_public s =
     (case std_decode s of Some b \<Rightarrow> if length b = 32 then Some (bytes_array b) else None | None \<Rightarrow> None)"

definition parse_public_hex :: "string \<Rightarrow> key32 option" where
  "parse_public_hex s =
     (case hex_decode s of Some b \<Rightarrow> if length b = 32 then Some (bytes_array b) else None | None \<Rightarrow> None)"

section \<open>Lemmas\<close>

lemma b64_octets_digits: "\<forall>a \<in> set ns. a < 256 \<Longrightarrow> b64_octets (b64_digits ns) = ns"
proof (induction ns rule: b64_digits.induct)
  case (4 a b c r)
  have "a div 4 * 4 + (a mod 4 * 16 + b div 16) div 16 = a" "(a mod 4 * 16 + b div 16) mod 16 * 16 + (b mod 16 * 4 + c div 64) div 4 = b"
    "(b mod 16 * 4 + c div 64) mod 4 * 64 + c mod 64 = c"
    using 4 by auto
  with 4 show ?case by simp
qed auto

lemma b64_digits_bound: "\<forall>a \<in> set ns. a < 256 \<Longrightarrow> \<forall>d \<in> set (b64_digits ns). d < 64"
  by (induction ns rule: b64_digits.induct) auto

lemma length_b64_digits:
  "length (b64_digits ns) mod 4 = (if length ns mod 3 = 0 then 0 else length ns mod 3 + 1)"
proof (induction ns rule: b64_digits.induct)
  case (4 a b c r)
  have "length (a # b # c # r) mod 3 = length r mod 3" by (simp del: One_nat_def)
  moreover have "length (b64_digits (a # b # c # r)) mod 4 = length (b64_digits r) mod 4" by simp
  ultimately show ?case using 4 by (simp only:)
qed simp_all

lemma index_in_nth: "distinct alpha \<Longrightarrow> d < length alpha \<Longrightarrow> index_in alpha (alpha ! d) = Some d"
proof (induction alpha arbitrary: d)
  case (Cons x alpha)
  then show ?case by (cases d) (auto simp: nth_mem)
qed simp

lemma text_digits_text:
  "distinct alpha \<Longrightarrow> \<forall>d \<in> set ds. d < length alpha \<Longrightarrow> text_digits alpha (digits_text alpha ds) = Some ds"
  by (induction ds) (auto simp: digits_text_def index_in_nth)

lemma alphabets: "distinct std_alphabet" "distinct url_alphabet" "length std_alphabet = 64" "length url_alphabet = 64"
  by (simp_all add: std_alphabet_def url_alphabet_def)

lemma alphabets_clean:
  "CHR ''='' \<notin> set std_alphabet" "CHR 0x0A \<notin> set std_alphabet" "CHR 0x0D \<notin> set std_alphabet"
  "CHR 0x0A \<notin> set url_alphabet" "CHR 0x0D \<notin> set url_alphabet"
  by (simp_all add: std_alphabet_def url_alphabet_def)

lemma unats_bound: "\<forall>a \<in> set (map unat (bs :: bytes)). a < 256"
  using unat_bound [where 'a = 8] by auto

lemma to_bytes_unat [simp]: "to_bytes (map unat bs) = bs"
  by (simp add: to_bytes_def comp_def)

lemma digits_text_in: "\<forall>d \<in> set ds. d < length alpha \<Longrightarrow> set (digits_text alpha ds) \<subseteq> set alpha"
  by (auto simp: digits_text_def)

lemma raw_url_round_trip [simp]: "raw_url_decode (raw_url_encode bs) = Some bs"
proof -
  let ?ds = "b64_digits (map unat bs)"
  have b: "\<forall>d \<in> set ?ds. d < length url_alphabet" using b64_digits_bound [OF unats_bound] by (simp add: alphabets)
  have "skip_breaks (raw_url_encode bs) = raw_url_encode bs"
    using digits_text_in [OF b] alphabets_clean unfolding skip_breaks_def raw_url_encode_def
    by (intro filter_True) blast
  moreover have "length (raw_url_encode bs) mod 4 \<noteq> 1"
    by (simp add: raw_url_encode_def digits_text_def length_b64_digits)
  ultimately show ?thesis
    using text_digits_text [OF alphabets(2) b] b64_octets_digits [OF unats_bound [of bs]]
    by (simp add: raw_url_decode_def raw_url_encode_def)
qed

lemma replicate_two: "replicate 2 x = [x, x]"
  by (simp add: numeral_2_eq_2)

lemma std_round_trip [simp]: "std_decode (std_encode bs) = Some bs"
proof -
  let ?ds = "b64_digits (map unat bs)" and ?pad = "replicate ((3 - length bs mod 3) mod 3) CHR ''=''"
  let ?body = "digits_text std_alphabet ?ds"
  have b: "\<forall>d \<in> set ?ds. d < length std_alphabet" using b64_digits_bound [OF unats_bound] by (simp add: alphabets)
  have in_alpha: "set ?body \<subseteq> set std_alphabet" by (rule digits_text_in [OF b])
  have "skip_breaks (std_encode bs) = ?body @ ?pad"
    using in_alpha alphabets_clean unfolding skip_breaks_def std_encode_def
    by (intro filter_True) (auto simp: in_set_replicate)
  moreover have "takeWhile (\<lambda>c. c \<noteq> CHR ''='') (?body @ ?pad) = ?body" "dropWhile (\<lambda>c. c \<noteq> CHR ''='') (?body @ ?pad) = ?pad"
  proof -
    have "\<forall>c \<in> set ?body. c \<noteq> CHR ''=''" using in_alpha alphabets_clean(1) by blast
    then show "takeWhile (\<lambda>c. c \<noteq> CHR ''='') (?body @ ?pad) = ?body" "dropWhile (\<lambda>c. c \<noteq> CHR ''='') (?body @ ?pad) = ?pad"
      by (simp_all add: takeWhile_append2 dropWhile_append2) 
  qed
  moreover have "length bs mod 3 = 0 \<or> length bs mod 3 = 1 \<or> length bs mod 3 = 2" by presburger
  then have "length ?body mod 4 = 0 \<and> ?pad = [] \<or> length ?body mod 4 = 3 \<and> ?pad = ''='' \<or> length ?body mod 4 = 2 \<and> ?pad = ''==''"
    using replicate_two by (elim disjE) (simp_all add: digits_text_def length_b64_digits)
  ultimately have "std_decode (std_encode bs) = map_option (\<lambda>ds. to_bytes (b64_octets ds)) (text_digits std_alphabet ?body)"
    unfolding std_decode_def Let_def by (simp only: if_True)
  then show ?thesis
    using text_digits_text [OF alphabets(1) b] b64_octets_digits [OF unats_bound [of bs]] by simp
qed

lemma hex_round_trip [simp]: "hex_decode (hex_encode bs) = Some bs"
proof (induction bs)
  case (Cons b bs)
  have digits: "\<forall>n \<in> set [0..<16]. hex_digit_val (''0123456789abcdef'' ! n) = Some n"
    by (simp add: upt_rec hex_digit_val_def)
  have v: "hex_digit_val (''0123456789abcdef'' ! n) = Some n" if "n < 16" for n
    by (rule bspec [OF digits]) (simp only: set_upt atLeastLessThan_iff, simp add: that)
  have "unat b div 16 < 16" using unat_bound [of b] by simp
  moreover have "unat b mod 16 < 16" "unat b div 16 * 16 + unat b mod 16 = unat b" by simp_all
  ultimately show ?case using Cons v by (simp add: hex_encode_def)
qed (simp add: hex_encode_def)

lemma parse_key_string [simp]: "parse_public (key_string k) = Some k"
  by (simp add: parse_public_def key_string_def)

lemma parse_key_hex [simp]: "parse_public_hex (key_hex k) = Some k"
  by (simp add: parse_public_hex_def key_hex_def)

section \<open>Properties\<close>

text \<open>Keys round-trip through both of their text forms, the base64 of the control API and the
  hexadecimal of WireGuard's configuration, and two keys with the same text are equal.\<close>

theorem keys_round_trip:
  "parse_public (key_string k) = Some k \<and> parse_public_hex (key_hex k) = Some k \<and>
   (key_string k = key_string k' \<or> key_hex k = key_hex k' \<longleftrightarrow> k = k')"
  by (metis parse_key_string parse_key_hex option.inject)

end
