(* ===== verification/Relay.thy ===== *)
theory Relay
  imports Codec
begin

text \<open>
  \<^verbatim>\<open>internal/relay/relay.go\<close> and the frame transport of \<^verbatim>\<open>quic.go\<close>: the server that forwards frames
  between nodes, and the client that keeps a session with it.

  Every accepted connection is a \<^verbatim>\<open>client\<close> object with an identity (its number in the order of
  acceptance), so that a node's newer connection and the one it replaces are different objects
  under the same key.  The operations of the server run under its mutex and are taken one after the
  other; \<open>relay_op\<close> lists them: a connection is accepted, a frame is read from one, a writer takes a
  frame off its queue, a connection ends.  The check of a node's credential is a parameter.
\<close>

section \<open>The server\<close>

abbreviation max_packet :: nat where "max_packet \<equiv> 65536"
abbreviation send_queue :: nat where "send_queue \<equiv> 512"

type_synonym authenticator = "string \<Rightarrow> string \<Rightarrow> string \<Rightarrow> key32 option"

record relay_conn =
  rc_key :: key32
  rc_out :: "bytes list"
  rc_kicked :: bool

record relay_server =
  rs_next :: nat
  rs_conns :: "(nat, relay_conn) gomap"
  rs_clients :: "(key32, nat) gomap"
  rs_packets :: u64
  rs_bytes :: u64
  rs_dropped :: u64

definition new_server :: relay_server where
  "new_server = \<lparr>rs_next = 0, rs_conns = [], rs_clients = [], rs_packets = 0, rs_bytes = 0, rs_dropped = 0\<rparr>"

definition relay_stats :: "relay_server \<Rightarrow> nat \<times> u64 \<times> u64 \<times> u64" where
  "relay_stats s = (length (rs_clients s), rs_packets s, rs_bytes s, rs_dropped s)"

text \<open>Whether, and as which node, a connection is let in: \<^verbatim>\<open>ServeHTTP\<close> takes the credential from the
  request, \<open>handle_quic\<close> from the first line of the stream.\<close>

definition admit_http :: "authenticator \<Rightarrow> string \<Rightarrow> string \<Rightarrow> string \<Rightarrow> key32 option" where
  "admit_http auth cred meth path =
     (if cred = [] then None
      else case auth cred meth path of
        None \<Rightarrow> None
      | Some k \<Rightarrow> if k = 0 then None else Some k)"

definition admit_quic :: "authenticator \<Rightarrow> string \<Rightarrow> key32 option" where
  "admit_quic auth line =
     (let cred = trim_space line in
      if cred = [] then None
      else case auth cred ''QUIC'' ''/relay'' of
        None \<Rightarrow> None
      | Some k \<Rightarrow> if k = 0 then None else Some k)"

definition kick :: "nat \<Rightarrow> relay_server \<Rightarrow> relay_server" where
  "kick c s = s\<lparr>rs_conns := AList.map_entry c (\<lambda>rc. rc\<lparr>rc_kicked := True\<rparr>) (rs_conns s)\<rparr>"

definition register :: "nat \<Rightarrow> key32 \<Rightarrow> relay_server \<Rightarrow> relay_server" where
  "register c k s =
     (let old = map_of (rs_clients s) k;
          s' = s\<lparr>rs_clients := AList.update k c (rs_clients s)\<rparr>
      in case old of None \<Rightarrow> s' | Some prev \<Rightarrow> kick prev s')"

text \<open>A connection that was let in: the \<^verbatim>\<open>client\<close> is made and registered.\<close>

definition accept_conn :: "key32 \<Rightarrow> relay_server \<Rightarrow> relay_server" where
  "accept_conn k s =
     (let c = rs_next s in
      register c k (s\<lparr>rs_next := Suc c,
        rs_conns := AList.update c \<lparr>rc_key = k, rc_out = [], rc_kicked = False\<rparr> (rs_conns s)\<rparr>))"

definition unregister :: "nat \<Rightarrow> relay_server \<Rightarrow> relay_server" where
  "unregister c s =
     (case map_of (rs_conns s) c of
        None \<Rightarrow> s
      | Some rc \<Rightarrow>
          (if map_of (rs_clients s) (rc_key rc) = Some c
           then s\<lparr>rs_clients := AList.delete (rc_key rc) (rs_clients s)\<rparr> else s))"

text \<open>\<^verbatim>\<open>route\<close>: the channel \<^verbatim>\<open>peer.out\<close> holds at most \<open>send_queue\<close> frames; a full one drops.\<close>

definition route :: "key32 \<Rightarrow> bytes \<Rightarrow> relay_server \<Rightarrow> relay_server" where
  "route src msg s =
     (if length msg < 32 then s
      else case map_of (rs_clients s) (bytes_array (take 32 msg)) of
        None \<Rightarrow> s\<lparr>rs_dropped := rs_dropped s + 1\<rparr>
      | Some p \<Rightarrow>
          (case map_of (rs_conns s) p of
             None \<Rightarrow> s
           | Some rc \<Rightarrow>
               if length (rc_out rc) < send_queue
               then s\<lparr>rs_conns := AList.update p (rc\<lparr>rc_out := rc_out rc @ [array_bytes src @ drop 32 msg]\<rparr>) (rs_conns s),
                      rs_packets := rs_packets s + 1,
                      rs_bytes := rs_bytes s + of_nat (length msg - 32)\<rparr>
               else s\<lparr>rs_dropped := rs_dropped s + 1\<rparr>))"

definition relay_connected :: "key32 \<Rightarrow> relay_server \<Rightarrow> bool" where
  "relay_connected k s \<longleftrightarrow> map_of (rs_clients s) k \<noteq> None"

text \<open>The goroutines of a connection, a step at a time: the reader routes a frame as the node that
  was let in, the writer sends the first frame of the queue, and the end of the connection
  unregisters it.  The written frames are the result.\<close>

datatype relay_op =
    AcceptHTTP string string string
  | AcceptQUIC string
  | ReadFrame nat bytes
  | WriteFrame nat
  | CloseConn nat

fun relay_step :: "authenticator \<Rightarrow> relay_op \<Rightarrow> relay_server \<Rightarrow> (nat \<times> bytes) list \<times> relay_server" where
  "relay_step auth (AcceptHTTP cred meth path) s =
     ([], case admit_http auth cred meth path of None \<Rightarrow> s | Some k \<Rightarrow> accept_conn k s)"
| "relay_step auth (AcceptQUIC line) s =
     ([], case admit_quic auth line of None \<Rightarrow> s | Some k \<Rightarrow> accept_conn k s)"
| "relay_step auth (ReadFrame c msg) s =
     ([], case map_of (rs_conns s) c of None \<Rightarrow> s | Some rc \<Rightarrow> route (rc_key rc) msg s)"
| "relay_step auth (WriteFrame c) s =
     (case map_of (rs_conns s) c of
        None \<Rightarrow> ([], s)
      | Some rc \<Rightarrow>
          (case rc_out rc of
             [] \<Rightarrow> ([], s)
           | m # ms \<Rightarrow> ([(c, m)], s\<lparr>rs_conns := AList.update c (rc\<lparr>rc_out := ms\<rparr>) (rs_conns s)\<rparr>)))"
| "relay_step auth (CloseConn c) s =
     ([], let s' = unregister c s in s'\<lparr>rs_conns := AList.delete c (rs_conns s')\<rparr>)"

fun relay_run :: "authenticator \<Rightarrow> relay_op list \<Rightarrow> relay_server \<Rightarrow> (nat \<times> bytes) list \<times> relay_server" where
  "relay_run auth [] s = ([], s)"
| "relay_run auth (op # ops) s =
     (let (w, s1) = relay_step auth op s; (ws, s2) = relay_run auth ops s1 in (w @ ws, s2))"

section \<open>The client\<close>

datatype relay_error = TooLarge | NotConnected | QueueFull

record relay_client =
  cl_quic_addr :: string
  cl_quic_fails :: int
  cl_quic_failed :: time
  cl_connected :: bool
  cl_transport :: string
  cl_reconnect_now :: bool
  cl_reconnects :: int
  cl_send :: "bytes list"
  cl_recv :: "(key32 \<times> bytes) list"

definition new_client :: relay_client where
  "new_client = \<lparr>cl_quic_addr = [], cl_quic_fails = 0, cl_quic_failed = zero_time, cl_connected = False,
     cl_transport = [], cl_reconnect_now = False, cl_reconnects = 0, cl_send = [], cl_recv = []\<rparr>"

definition set_quic :: "string \<Rightarrow> relay_client \<Rightarrow> relay_client" where
  "set_quic a c = c\<lparr>cl_quic_addr := a\<rparr>"

definition client_send :: "key32 \<Rightarrow> bytes \<Rightarrow> relay_client \<Rightarrow> relay_error option \<times> relay_client" where
  "client_send dst pkt c =
     (if length pkt > max_packet then (Some TooLarge, c)
      else if \<not> cl_connected c then (Some NotConnected, c)
      else if length (cl_send c) < send_queue
      then (None, c\<lparr>cl_send := cl_send c @ [array_bytes dst @ pkt]\<rparr>)
      else (Some QueueFull, c))"

definition set_connected :: "bool \<Rightarrow> string \<Rightarrow> relay_client \<Rightarrow> relay_client" where
  "set_connected v tr c = c\<lparr>cl_connected := v, cl_transport := tr\<rparr>"

definition transport :: "relay_client \<Rightarrow> string" where
  "transport c = (if \<not> cl_connected c then [] else cl_transport c)"

text \<open>A frame from the server, in \<^verbatim>\<open>session\<close> and in \<^verbatim>\<open>deliver\<close> of \<^verbatim>\<open>sessionQUIC\<close>.\<close>

definition client_frame :: "bytes \<Rightarrow> relay_client \<Rightarrow> relay_client" where
  "client_frame msg c =
     (if length msg < 32 then c
      else if length (cl_recv c) < send_queue
      then c\<lparr>cl_recv := cl_recv c @ [(bytes_array (take 32 msg), drop 32 msg)]\<rparr>
      else c)"

definition reconnect :: "relay_client \<Rightarrow> relay_client" where
  "reconnect c = c\<lparr>cl_reconnect_now := True, cl_reconnects := cl_reconnects c + 1\<rparr>"

definition take_reconnect :: "relay_client \<Rightarrow> bool \<times> relay_client" where
  "take_reconnect c = (cl_reconnect_now c, c\<lparr>cl_reconnect_now := False\<rparr>)"

subsection \<open>The session loop\<close>

abbreviation quic_retry_after :: duration where "quic_retry_after \<equiv> 5 * minute"

definition use_quic :: "relay_client \<Rightarrow> time \<Rightarrow> bool" where
  "use_quic c now \<longleftrightarrow>
     cl_quic_addr c \<noteq> [] \<and> (cl_quic_fails c < 2 \<or> time_sub now (cl_quic_failed c) > quic_retry_after)"

text \<open>
  One pass of \<^verbatim>\<open>Run\<close> whose context is still alive at the end: the session it chose has run from
  \<open>start\<close> to \<open>now\<close> and ended; \<open>deadline\<close> says that it was the planned end of a WebSocket fallback.
  The third component is the pause before the next pass, \<open>None\<close> for \<^verbatim>\<open>continue\<close>.
\<close>

definition run_pass :: "time \<Rightarrow> time \<Rightarrow> bool \<Rightarrow> relay_client \<times> duration \<Rightarrow> relay_client \<times> duration \<times> duration option" where
  "run_pass start now deadline = (\<lambda>(c, backoff).
     let quic = use_quic c start;
         (rec, c1) = take_reconnect (set_connected False [] c);
         pause = (\<lambda>c. let b = (if time_sub now start > minute then second else backoff)
                      in (c, min (b * 2) (30 * second), Some b))
     in if rec then (c1, second, None)
        else if quic then
          (if time_sub now start < 30 * second
           then (c1\<lparr>cl_quic_fails := cl_quic_fails c1 + 1, cl_quic_failed := now\<rparr>, backoff, None)
           else pause (c1\<lparr>cl_quic_fails := 0\<rparr>))
        else if cl_quic_addr c \<noteq> [] \<and> deadline then (c1\<lparr>cl_quic_fails := 0\<rparr>, backoff, None)
        else pause c1)"

text \<open>Passes one after the other, and the pauses taken.\<close>

fun run_passes :: "(time \<times> time \<times> bool) list \<Rightarrow> relay_client \<times> duration \<Rightarrow> duration list \<times> relay_client \<times> duration" where
  "run_passes [] cb = ([], cb)"
| "run_passes ((start, now, deadline) # ps) cb =
     (let (c, b, w) = run_pass start now deadline cb; (ws, cb') = run_passes ps (c, b)
      in ((case w of None \<Rightarrow> [] | Some d \<Rightarrow> [d]) @ ws, cb'))"

section \<open>Frames on a QUIC stream\<close>

text \<open>\<^verbatim>\<open>quicWriter.send\<close> for a frame too large for a datagram, and \<^verbatim>\<open>readStreamFrames\<close>: the frames it
  handles before the stream ends or breaks.\<close>

definition stream_frame :: "bytes \<Rightarrow> bytes" where
  "stream_frame frame = put_u32 (of_nat (length frame)) @ frame"

function read_stream_frames :: "bytes \<Rightarrow> bytes list" where
  "read_stream_frames r =
     (if length r < 4 then []
      else let n = unat (get_u32 r); rest = drop 4 r in
        if n > max_packet + 32 then []
        else if length rest < n then []
        else take n rest # read_stream_frames (drop n rest))"
  by pat_completeness auto
termination
  by (relation "measure length") auto

declare read_stream_frames.simps [simp del]

text \<open>\<^verbatim>\<open>pinnedTLS\<close>: the check of the certificates the server shows, with the hash as a parameter.\<close>

datatype pin_error = NoCertificate | PinMismatch

definition verify_pinned :: "(bytes \<Rightarrow> bytes) \<Rightarrow> bytes \<Rightarrow> bytes list \<Rightarrow> pin_error option" where
  "verify_pinned sha256 pin raw =
     (case raw of
        [] \<Rightarrow> Some NoCertificate
      | cert # _ \<Rightarrow> if sha256 cert \<noteq> pin then Some PinMismatch else None)"

section \<open>Lemmas\<close>

text \<open>Which node each connection was let in as, in the order of acceptance, and what it means that a
  frame for \<open>dst\<close> came from a connection of the history.\<close>

fun admitted_by :: "authenticator \<Rightarrow> relay_op \<Rightarrow> key32 option" where
  "admitted_by auth (AcceptHTTP cred meth path) = admit_http auth cred meth path"
| "admitted_by auth (AcceptQUIC line) = admit_quic auth line"
| "admitted_by auth _ = None"

definition admitted :: "authenticator \<Rightarrow> relay_op list \<Rightarrow> key32 list" where
  "admitted auth ops = List.map_filter (admitted_by auth) ops"

definition sourced :: "authenticator \<Rightarrow> relay_op list \<Rightarrow> key32 \<Rightarrow> bytes \<Rightarrow> bool" where
  "sourced auth ops dst m \<longleftrightarrow>
     (\<exists>c payload. ReadFrame c (array_bytes dst @ payload) \<in> set ops \<and> c < length (admitted auth ops) \<and>
        m = array_bytes (admitted auth ops ! c) @ payload)"

definition conn_ok :: "authenticator \<Rightarrow> relay_op list \<Rightarrow> nat \<Rightarrow> relay_conn \<Rightarrow> bool" where
  "conn_ok auth ops c rc \<longleftrightarrow>
     c < length (admitted auth ops) \<and> rc_key rc = admitted auth ops ! c \<and> length (rc_out rc) \<le> send_queue \<and>
     (\<forall>m \<in> set (rc_out rc). sourced auth ops (rc_key rc) m)"

definition relay_inv :: "authenticator \<Rightarrow> relay_op list \<Rightarrow> relay_server \<Rightarrow> bool" where
  "relay_inv auth ops s \<longleftrightarrow>
     rs_next s = length (admitted auth ops) \<and>
     (\<forall>c rc. map_of (rs_conns s) c = Some rc \<longrightarrow> conn_ok auth ops c rc) \<and>
     (\<forall>k c. map_of (rs_clients s) k = Some c \<longrightarrow> (\<exists>rc. map_of (rs_conns s) c = Some rc \<and> rc_key rc = k))"

lemma admitted_snoc: "admitted auth (ops @ [op]) = admitted auth ops @ (case admitted_by auth op of None \<Rightarrow> [] | Some k \<Rightarrow> [k])"
  by (simp add: admitted_def List.map_filter_def split: option.splits)

lemma sourced_snoc: "sourced auth ops dst m \<Longrightarrow> sourced auth (ops @ [op]) dst m"
  by (fastforce simp: sourced_def admitted_snoc nth_append split: option.splits)

lemma conn_ok_snoc: "conn_ok auth ops c rc \<Longrightarrow> conn_ok auth (ops @ [op]) c rc"
  by (auto simp: conn_ok_def admitted_snoc nth_append sourced_snoc split: option.splits)

lemma frame_split:
  assumes "32 \<le> length msg"
  shows "msg = array_bytes (bytes_array (take 32 msg) :: key32) @ drop 32 msg"
  using assms by (simp add: array_bytes_array)

lemma map_entry_conv:
  "map_of (AList.map_entry k f xs) = (\<lambda>x. if x = k then map_option f (map_of xs k) else map_of xs x)"
  by (induction xs) (auto simp: fun_eq_iff)

lemma relay_inv_mono:
  assumes "relay_inv auth ops s" and "admitted_by auth op = None"
  shows "relay_inv auth (ops @ [op]) s"
  using assms by (auto simp: relay_inv_def admitted_snoc intro: conn_ok_snoc)

lemma accept_inv:
  assumes inv: "relay_inv auth ops s" and k: "admitted_by auth op = Some k"
  shows "relay_inv auth (ops @ [op]) (accept_conn k s)"
proof -
  have adm: "admitted auth (ops @ [op]) = admitted auth ops @ [k]" by (simp add: admitted_snoc k)
  let ?s = "s\<lparr>rs_next := Suc (rs_next s),
     rs_conns := AList.update (rs_next s) \<lparr>rc_key = k, rc_out = [], rc_kicked = False\<rparr> (rs_conns s)\<rparr>"
  have fresh: "map_of (rs_clients s) k' \<noteq> Some (rs_next s)" for k'
    using inv by (fastforce simp: relay_inv_def conn_ok_def)
  have new: "conn_ok auth (ops @ [op]) (rs_next s) \<lparr>rc_key = k, rc_out = [], rc_kicked = b\<rparr>" for b
    using inv by (simp add: conn_ok_def adm relay_inv_def)
  have old: "conn_ok auth (ops @ [op]) c rc" "conn_ok auth (ops @ [op]) c (rc\<lparr>rc_kicked := b\<rparr>)"
    if "map_of (rs_conns s) c = Some rc" for c rc b
  proof -
    show "conn_ok auth (ops @ [op]) c rc"
      using inv that unfolding relay_inv_def by (intro conn_ok_snoc) blast
    then show "conn_ok auth (ops @ [op]) c (rc\<lparr>rc_kicked := b\<rparr>)" by (auto simp: conn_ok_def)
  qed
  have key: "\<exists>rc. map_of (rs_conns s) c = Some rc \<and> rc_key rc = k'" if "map_of (rs_clients s) k' = Some c" for k' c
    using inv that by (simp add: relay_inv_def)
  have len: "rs_next s = length (admitted auth ops)" using inv by (simp add: relay_inv_def)
  show ?thesis
    unfolding relay_inv_def
    by (auto simp: accept_conn_def register_def kick_def Let_def adm len update_conv' fresh new [unfolded len] old
        map_entry_conv split: option.splits if_splits dest: key dest!: fresh [unfolded len, THEN notE])
qed

lemma relay_inv_update:
  assumes inv: "relay_inv auth ops s" and rc: "map_of (rs_conns s) c = Some rc"
    and ok: "conn_ok auth ops c rc'" "rc_key rc' = rc_key rc"
    and s': "rs_conns s' = AList.update c rc' (rs_conns s)" "rs_clients s' = rs_clients s" "rs_next s' = rs_next s"
  shows "relay_inv auth ops s'"
  using inv rc ok by (force simp: relay_inv_def s' update_conv')

lemma route_inv:
  assumes inv: "relay_inv auth ops s" and rc: "map_of (rs_conns s) c = Some rc"
  shows "relay_inv auth (ops @ [ReadFrame c msg]) (route (rc_key rc) msg s)"
proof -
  let ?ops = "ops @ [ReadFrame c msg]"
  have inv': "relay_inv auth ?ops s" by (rule relay_inv_mono [OF inv]) simp
  have c: "c < length (admitted auth ?ops)" "rc_key rc = admitted auth ?ops ! c"
    using inv' rc by (auto simp: relay_inv_def conn_ok_def)
  have src: "sourced auth ?ops (bytes_array (take 32 msg)) (array_bytes (rc_key rc) @ drop 32 msg)"
    if "32 \<le> length msg"
    unfolding sourced_def using frame_split [OF that] c by (intro exI [of _ c] exI [of _ "drop 32 msg"]) auto
  have upd: "relay_inv auth ?ops (s\<lparr>rs_conns := AList.update p (rcp\<lparr>rc_out := rc_out rcp @ [array_bytes (rc_key rc) @ drop 32 msg]\<rparr>) (rs_conns s),
      rs_packets := x, rs_bytes := y\<rparr>)"
    if "32 \<le> length msg" "map_of (rs_clients s) (bytes_array (take 32 msg)) = Some p"
      "map_of (rs_conns s) p = Some rcp" "length (rc_out rcp) < send_queue" for p rcp x y
  proof -
    have "rc_key rcp = bytes_array (take 32 msg)" and ok: "conn_ok auth ?ops p rcp"
      using inv' that(2,3) by (fastforce simp: relay_inv_def)+
    then have "conn_ok auth ?ops p (rcp\<lparr>rc_out := rc_out rcp @ [array_bytes (rc_key rc) @ drop 32 msg]\<rparr>)"
      using src [OF that(1)] that(4) by (auto simp: conn_ok_def)
    then show ?thesis by (rule relay_inv_update [OF inv' that(3)]) simp_all
  qed
  have drop: "relay_inv auth ?ops (s\<lparr>rs_dropped := d\<rparr>)" for d
    using inv' by (simp add: relay_inv_def)
  show ?thesis using inv' by (auto simp: route_def upd drop split: option.splits)
qed

lemma relay_step_inv:
  assumes inv: "relay_inv auth ops s" and step: "relay_step auth op s = (w, s')"
  shows "relay_inv auth (ops @ [op]) s'"
proof (cases op)
  case (AcceptHTTP cred meth path)
  then show ?thesis using inv step
    by (auto intro: accept_inv relay_inv_mono split: option.splits)
next
  case (AcceptQUIC line)
  then show ?thesis using inv step
    by (auto intro: accept_inv relay_inv_mono split: option.splits)
next
  case (ReadFrame c msg)
  then show ?thesis using inv step
    by (auto intro: route_inv relay_inv_mono split: option.splits)
next
  case (WriteFrame c)
  have inv': "relay_inv auth (ops @ [op]) s" using inv WriteFrame by (intro relay_inv_mono) simp_all
  have "relay_inv auth (ops @ [op]) (s\<lparr>rs_conns := AList.update c (rc\<lparr>rc_out := ms\<rparr>) (rs_conns s)\<rparr>)"
    if rc: "map_of (rs_conns s) c = Some rc" "rc_out rc = m # ms" for rc m ms
  proof (rule relay_inv_update [OF inv' rc(1)])
    have "conn_ok auth (ops @ [op]) c rc" using inv' rc(1) by (simp add: relay_inv_def)
    then show "conn_ok auth (ops @ [op]) c (rc\<lparr>rc_out := ms\<rparr>)" using rc(2) by (auto simp: conn_ok_def)
  qed simp_all
  then show ?thesis using step WriteFrame inv' by (auto split: option.splits list.splits)
next
  case (CloseConn c)
  have "relay_inv auth (ops @ [op]) s" using inv CloseConn by (intro relay_inv_mono) simp_all
  then show ?thesis using step CloseConn
    by (fastforce simp: relay_inv_def unregister_def delete_conv' Let_def split: option.splits if_splits)
qed

lemma relay_step_writes:
  assumes "relay_inv auth ops s" and "relay_step auth op s = (w, s')" and "(c, m) \<in> set w"
  shows "c < length (admitted auth ops) \<and> sourced auth ops (admitted auth ops ! c) m"
  using assms by (cases op) (fastforce simp: relay_inv_def conn_ok_def split: option.splits list.splits)+

lemma admitted_append: "admitted auth (xs @ ys) = admitted auth xs @ admitted auth ys"
  by (simp add: admitted_def List.map_filter_def)

lemma sourced_append: "sourced auth xs dst m \<Longrightarrow> sourced auth (xs @ ys) dst m"
  unfolding sourced_def admitted_append set_append by (fastforce simp: nth_append)

lemma relay_run_sourced:
  assumes "relay_inv auth h s" and "relay_run auth ops s = (ws, s')"
  shows "relay_inv auth (h @ ops) s' \<and>
    (\<forall>(c, m) \<in> set ws. c < length (admitted auth (h @ ops)) \<and> sourced auth (h @ ops) (admitted auth (h @ ops) ! c) m)"
  using assms
proof (induction ops arbitrary: h s ws)
  case (Cons op ops)
  obtain w s1 ws' where step: "relay_step auth op s = (w, s1)" and run: "relay_run auth ops s1 = (ws', s')"
    and ws: "ws = w @ ws'" using Cons.prems(2) by (auto split: prod.splits)
  have inv1: "relay_inv auth (h @ [op]) s1" by (rule relay_step_inv [OF Cons.prems(1) step])
  have w: "c < length (admitted auth (h @ op # ops)) \<and> sourced auth (h @ op # ops) (admitted auth (h @ op # ops) ! c) m"
    if "(c, m) \<in> set w" for c m
    using relay_step_writes [OF Cons.prems(1) step that] sourced_append [of auth h _ m "op # ops"]
    by (auto simp: admitted_append nth_append)
  show ?case using Cons.IH [OF inv1 run] w by (auto simp: ws)
qed auto

lemma run_pass_backoff:
  assumes "run_pass start now dl (c, b) = (c', b', w)" and "second \<le> b" and "b \<le> 30 * second"
  shows "second \<le> b' \<and> b' \<le> 30 * second \<and> (\<forall>d. w = Some d \<longrightarrow> second \<le> d \<and> d \<le> 30 * second)"
  using assms by (auto simp: run_pass_def take_reconnect_def Let_def split: if_splits)

lemma run_passes_backoff:
  assumes "run_passes ps (c, b) = (ws, c', b')" and "second \<le> b" and "b \<le> 30 * second"
  shows "(\<forall>d \<in> set ws. second \<le> d \<and> d \<le> 30 * second) \<and> second \<le> b' \<and> b' \<le> 30 * second"
  using assms
proof (induction ps arbitrary: c b ws)
  case (Cons p ps)
  obtain start now dl where p: "p = (start, now, dl)" by (cases p) auto
  obtain c1 b1 w where pass: "run_pass start now dl (c, b) = (c1, b1, w)" by (cases "run_pass start now dl (c, b)") auto
  obtain ws1 where rest: "run_passes ps (c1, b1) = (ws1, c', b')"
    and ws: "ws = (case w of None \<Rightarrow> [] | Some d \<Rightarrow> [d]) @ ws1"
    using Cons.prems(1) pass by (auto simp: p split: prod.splits)
  note one = run_pass_backoff [OF pass Cons.prems(2,3)]
  show ?case using Cons.IH [OF rest] one by (auto simp: ws split: option.splits)
qed auto

lemma read_stream_frame:
  assumes "length f \<le> max_packet + 32"
  shows "read_stream_frames (stream_frame f @ r) = f # read_stream_frames r"
  using assms by (subst read_stream_frames.simps) (simp add: stream_frame_def unat_of_nat Let_def)

section \<open>Properties\<close>

text \<open>Claim C19 (safety): a relay never lets a node send as another.  Whatever connections are
  accepted, replaced and closed, and whatever bytes they carry, every frame the relay writes to
  connection \<open>c\<close> names as its source the node whose credential the sending connection showed, the
  payload is what that connection sent, and it was addressed to the node \<open>c\<close> belongs to.\<close>

theorem relay_never_spoofs:
  assumes "relay_run auth ops new_server = (ws, s)" and "(c, m) \<in> set ws"
  shows "\<exists>src payload. c < length (admitted auth ops) \<and> src < length (admitted auth ops) \<and>
    ReadFrame src (array_bytes (admitted auth ops ! c) @ payload) \<in> set ops \<and>
    m = array_bytes (admitted auth ops ! src) @ payload"
proof -
  have "relay_inv auth [] new_server" by (simp add: relay_inv_def new_server_def admitted_def List.map_filter_def)
  from relay_run_sourced [OF this assms(1)] assms(2)
  have "c < length (admitted auth ops) \<and> sourced auth ops (admitted auth ops ! c) m" by fastforce
  then show ?thesis by (auto simp: sourced_def)
qed

text \<open>The path through a relay works.  A packet the client of node \<open>ka\<close> queues
  for node \<open>kb\<close>, read by the server from that node's connection and written to a connection of \<open>kb\<close>
  whose queue is empty, reaches the other client's receive queue as a packet from \<open>ka\<close> with the
  same bytes.\<close>

theorem relay_end_to_end:
  assumes send: "client_send kb pkt ca = (None, ca')"
    and a: "map_of (rs_conns s) a = Some rca" "rc_key rca = ka"
    and b: "map_of (rs_clients s) kb = Some b" "map_of (rs_conns s) b = Some rcb" "rc_out rcb = []"
    and room: "length (cl_recv cb) < send_queue"
  shows "\<exists>frame m s'. cl_send ca' = cl_send ca @ [frame] \<and>
    relay_run auth [ReadFrame a frame, WriteFrame b] s = ([(b, m)], s') \<and>
    cl_recv (client_frame m cb) = cl_recv cb @ [(ka, pkt)]"
proof -
  let ?m = "array_bytes ka @ pkt"
  have frame: "cl_send ca' = cl_send ca @ [array_bytes kb @ pkt]"
    using send by (auto simp: client_send_def split: if_splits)
  have "\<exists>s'. relay_run auth [ReadFrame a (array_bytes kb @ pkt), WriteFrame b] s = ([(b, ?m)], s')"
    using a b by (simp add: route_def update_conv')
  moreover have "cl_recv (client_frame ?m cb) = cl_recv cb @ [(ka, pkt)]"
    using room by (simp add: client_frame_def)
  ultimately show ?thesis using frame by blast
qed

text \<open>The relay client never waits less than a second nor more than 30 seconds
  between two attempts, in whatever way its sessions end.\<close>

theorem relay_backoff_bounded:
  assumes "run_passes ps (c, second) = (ws, c', b)" and "d \<in> set ws"
  shows "second \<le> d \<and> d \<le> 30 * second"
  using run_passes_backoff [OF assms(1)] assms(2) by simp

text \<open>The frames written to a QUIC stream come back in order, as long as each
  is no larger than the relay accepts.\<close>

theorem stream_frames_round_trip:
  assumes "\<forall>f \<in> set fs. length f \<le> max_packet + 32"
  shows "read_stream_frames (concat (map stream_frame fs)) = fs"
  using assms
proof (induction fs)
  case Nil
  show ?case by (simp add: read_stream_frames.simps [of "[]"])
next
  case (Cons f fs)
  then show ?case using read_stream_frame [of f "concat (map stream_frame fs)"] by simp
qed

subsection \<open>Witnesses\<close>

definition demo_auth :: authenticator where
  "demo_auth cred meth path = (if cred = ''a'' then Some 1 else if cred = ''b'' then Some 2 else None)"

definition demo_relay_ops :: "relay_op list" where
  "demo_relay_ops = [AcceptHTTP ''a'' ''GET'' ''/relay'', AcceptHTTP ''b'' ''GET'' ''/relay'',
     ReadFrame 0 (array_bytes (2 :: key32) @ [7]), WriteFrame 1]"

lemmas relay_eval = admit_http_def demo_auth_def accept_conn_def register_def kick_def route_def
  new_server_def Let_def update_conv'

lemma demo_relay_run:
  "relay_run demo_auth demo_relay_ops new_server =
    ([(1, array_bytes (1 :: key32) @ [7])], snd (relay_run demo_auth demo_relay_ops new_server))"
  by (simp add: demo_relay_ops_def relay_eval)

theorem relay_never_spoofs_witness:
  "\<exists>src payload. src < length (admitted demo_auth demo_relay_ops) \<and>
    ReadFrame src (array_bytes (admitted demo_auth demo_relay_ops ! 1) @ payload) \<in> set demo_relay_ops \<and>
    array_bytes (1 :: key32) @ [7] = array_bytes (admitted demo_auth demo_relay_ops ! src) @ payload"
  using relay_never_spoofs [OF demo_relay_run, of 1 "array_bytes (1 :: key32) @ [7]"] by auto

theorem relay_end_to_end_witness:
  "\<exists>frame m s'. cl_send (snd (client_send 2 [7] (set_connected True ''quic'' new_client))) = [frame] \<and>
    relay_run demo_auth [ReadFrame 0 frame, WriteFrame 1] (accept_conn 2 (accept_conn 1 new_server)) = ([(1, m)], s') \<and>
    cl_recv (client_frame m new_client) = [(1, [7])]"
  using relay_end_to_end [of 2 "[7]" "set_connected True ''quic'' new_client"
      "snd (client_send 2 [7] (set_connected True ''quic'' new_client))" "accept_conn 2 (accept_conn 1 new_server)" 0
      "\<lparr>rc_key = 1, rc_out = [], rc_kicked = False\<rparr>" 1 1 "\<lparr>rc_key = 2, rc_out = [], rc_kicked = False\<rparr>" new_client demo_auth]
  by (simp add: relay_eval client_send_def set_connected_def new_client_def)

theorem relay_backoff_bounded_witness: "second \<le> second \<and> second \<le> 30 * second"
  using relay_backoff_bounded [of "[(0, 5, False)]" new_client "fst (run_passes [(0, 5, False)] (new_client, second))"
      "fst (snd (run_passes [(0, 5, False)] (new_client, second)))"
      "snd (snd (run_passes [(0, 5, False)] (new_client, second)))" second]
  by (simp add: run_pass_def use_quic_def new_client_def set_connected_def take_reconnect_def time_sub_def)

theorem stream_frames_round_trip_witness:
  "read_stream_frames (concat (map stream_frame [[1, 2], [3]])) = [[1, 2], [3]]"
  by (rule stream_frames_round_trip) simp

end
