(* ===== verification/Disco.thy ===== *)
theory Disco
  imports Codec
begin

text \<open>
  \<^verbatim>\<open>internal/disco/disco.go\<close>: the path-discovery messages, their encoding, and sealing them between
  two nodes.  NaCl box and X25519 (\<^verbatim>\<open>golang.org/x/crypto/nacl/box\<close>, \<^verbatim>\<open>key.Private.Public\<close>) are
  parameters: \<open>seal\<close> and \<open>opn\<close> stand for \<^verbatim>\<open>box.Seal\<close> and \<^verbatim>\<open>box.Open\<close>, \<open>pub\<close> for the public key of a
  private one.  \<open>box_laws\<close> states what is used of them: a box opens, for its receiver and as coming from its sender, to what was
  sealed.
\<close>

section \<open>Messages\<close>

definition magic :: bytes where
  "magic = [0x57, 0x53, 0xf0, 0x9f, 0x90, 0xb3]"

abbreviation header_len :: nat where "header_len \<equiv> 62"
abbreviation addr_len :: nat where "addr_len \<equiv> 18"
abbreviation pq_encap_key_size :: nat where "pq_encap_key_size \<equiv> 1184"
abbreviation pq_ciphertext_len :: nat where "pq_ciphertext_len \<equiv> 1088"

datatype message =
    Ping txid key32 "64 word"
  | Pong txid addr_port
  | CallMeMaybe "addr_port list"
  | PQInit txid bytes
  | PQReply txid bytes
  | PQCommit txid
  | PQDone txid

definition append_addr :: "addr_port \<Rightarrow> bytes" where
  "append_addr ap = as16 (fst ap) @ put_u16 (snd ap)"

definition read_addr :: "bytes \<Rightarrow> addr_port" where
  "read_addr b = (unmap (addr_from16 (slice 0 16 b)), get_u16 (slice 16 18 b))"

fun marshal :: "message \<Rightarrow> bytes" where
  "marshal (Ping tx k psk) = [1, 0] @ array_bytes tx @ array_bytes k @ array_bytes psk"
| "marshal (Pong tx src) = [2, 0] @ array_bytes tx @ append_addr src"
| "marshal (CallMeMaybe eps) = [3, 0] @ concat (map append_addr eps)"
| "marshal (PQInit tx ek) = [4, 0] @ array_bytes tx @ ek"
| "marshal (PQReply tx ct) = [5, 0] @ array_bytes tx @ ct"
| "marshal (PQCommit tx) = [6, 0] @ array_bytes tx"
| "marshal (PQDone tx) = [7, 0] @ array_bytes tx"

function read_addrs :: "bytes \<Rightarrow> addr_port list" where
  "read_addrs body = (if body = [] then [] else read_addr body # read_addrs (drop addr_len body))"
  by pat_completeness auto
termination
  by (relation "measure length") auto

declare read_addrs.simps [simp del]

text \<open>\<^verbatim>\<open>parse\<close>: \<open>None\<close> for \<^verbatim>\<open>errBad\<close>.\<close>

definition parse_message :: "bytes \<Rightarrow> message option" where
  "parse_message b =
     (if length b < 2 then None
      else let body = drop 2 b; typ = b ! 0 in
        if typ = 1 then
          (if length body < 44 then None
           else Some (Ping (bytes_array (slice 0 12 body)) (bytes_array (slice 12 44 body))
                  (if length body \<ge> 52 then bytes_array (slice 44 52 body) else 0)))
        else if typ = 2 then
          (if length body < 12 + addr_len then None
           else Some (Pong (bytes_array (slice 0 12 body)) (read_addr (drop 12 body))))
        else if typ = 4 \<or> typ = 5 \<or> typ = 6 \<or> typ = 7 then
          (if length body < 12 then None
           else let tx = bytes_array (slice 0 12 body); rest = drop 12 body in
             if typ = 4 then (if length rest \<noteq> pq_encap_key_size then None else Some (PQInit tx rest))
             else if typ = 5 then (if length rest \<noteq> pq_ciphertext_len then None else Some (PQReply tx rest))
             else if typ = 6 then Some (PQCommit tx)
             else Some (PQDone tx))
        else if typ = 3 then
          (if length body mod addr_len \<noteq> 0 then None else Some (CallMeMaybe (read_addrs body)))
        else None)"

text \<open>\<^verbatim>\<open>Is\<close>.\<close>

definition is_disco :: "bytes \<Rightarrow> bool" where
  "is_disco b \<longleftrightarrow> length b \<ge> header_len \<and> take (length magic) b = magic"

section \<open>Sealing\<close>

type_synonym nonce24 = "192 word"
type_synonym seal_fn = "bytes \<Rightarrow> nonce24 \<Rightarrow> key32 \<Rightarrow> key32 \<Rightarrow> bytes"
type_synonym open_fn = "bytes \<Rightarrow> nonce24 \<Rightarrow> key32 \<Rightarrow> key32 \<Rightarrow> bytes option"

text \<open>\<^verbatim>\<open>Seal\<close> with the nonce it draws as an argument.\<close>

definition seal_packet :: "seal_fn \<Rightarrow> (key32 \<Rightarrow> key32) \<Rightarrow> key32 \<Rightarrow> key32 \<Rightarrow> nonce24 \<Rightarrow> message \<Rightarrow> bytes" where
  "seal_packet seal pub priv peer nonce m =
     magic @ array_bytes (pub priv) @ array_bytes nonce @ seal (marshal m) nonce peer priv"

datatype disco_error = ErrBad | ErrAuth

text \<open>\<^verbatim>\<open>Open\<close>: the claimed sender comes back even with an error.\<close>

definition open_packet :: "open_fn \<Rightarrow> key32 \<Rightarrow> bytes \<Rightarrow> key32 \<times> (disco_error + message)" where
  "open_packet opn priv pkt =
     (if \<not> is_disco pkt then (0, Inl ErrBad)
      else let sender = bytes_array (slice 6 38 pkt); nonce = bytes_array (slice 38 62 pkt) in
        (sender, case opn (drop header_len pkt) nonce sender priv of
           None \<Rightarrow> Inl ErrAuth
         | Some plain \<Rightarrow> (case parse_message plain of None \<Rightarrow> Inl ErrBad | Some m \<Rightarrow> Inr m)))"

definition box_laws :: "seal_fn \<Rightarrow> open_fn \<Rightarrow> (key32 \<Rightarrow> key32) \<Rightarrow> bool" where
  "box_laws seal opn pub \<longleftrightarrow>
     (\<forall>m n a b. opn (seal m n (pub b) a) n (pub a) b = Some m)"

section \<open>Lemmas\<close>

definition wire_ap :: "addr_port \<Rightarrow> addr_port" where
  "wire_ap ap = (wire_addr (fst ap), snd ap)"

text \<open>What a message is after the wire, and which messages the sources make.\<close>

fun wire_message :: "message \<Rightarrow> message" where
  "wire_message (Pong tx src) = Pong tx (wire_ap src)"
| "wire_message (CallMeMaybe eps) = CallMeMaybe (map wire_ap eps)"
| "wire_message m = m"

fun message_ok :: "message \<Rightarrow> bool" where
  "message_ok (PQInit tx ek) \<longleftrightarrow> length ek = pq_encap_key_size"
| "message_ok (PQReply tx ct) \<longleftrightarrow> length ct = pq_ciphertext_len"
| "message_ok m \<longleftrightarrow> True"

lemma length_append_addr [simp]: "length (append_addr ap) = addr_len"
  by (simp add: append_addr_def)

lemma read_append_addr [simp]: "read_addr (append_addr ap @ r) = wire_ap ap"
  by (simp add: read_addr_def append_addr_def slice_def wire_ap_def)

lemma read_addrs_append: "read_addrs (concat (map append_addr eps)) = map wire_ap eps"
proof (induction eps)
  case (Cons ap eps)
  have "append_addr ap \<noteq> []" using length_append_addr [of ap] by (metis list.size(3) zero_neq_numeral)
  then have ne: "append_addr ap @ concat (map append_addr eps) \<noteq> []" by simp
  show ?case using ne Cons by (subst read_addrs.simps) simp
qed (simp add: read_addrs.simps)

lemma length_addrs [simp]: "length (concat (map append_addr eps)) = addr_len * length eps"
  by (induction eps) simp_all

lemma parse_marshal: "message_ok m \<Longrightarrow> parse_message (marshal m) = Some (wire_message m)"
  by (cases m) (simp_all add: parse_message_def slice_def read_addrs_append Let_def
      read_append_addr [of _ "[]", simplified])

interpretation disco_format: message_format marshal parse_message wire_message message_ok
  by unfold_locales (rule parse_marshal)

lemma open_seal_packet:
  assumes "box_laws seal opn pub" "message_ok m"
  shows "open_packet opn b (seal_packet seal pub a (pub b) n m) = (pub a, Inr (wire_message m))"
proof -
  let ?pkt = "seal_packet seal pub a (pub b) n m"
  have "is_disco ?pkt" by (simp add: is_disco_def seal_packet_def magic_def)
  moreover have "slice 6 38 ?pkt = array_bytes (pub a)" "slice 38 62 ?pkt = array_bytes n"
    "drop header_len ?pkt = seal (marshal m) n (pub b) a"
    by (simp_all add: seal_packet_def slice_def magic_def)
  moreover have "opn (seal (marshal m) n (pub b) a) n (pub a) b = Some (marshal m)"
    using assms(1) by (simp add: box_laws_def)
  ultimately show ?thesis
    using disco_format.round_trip [OF assms(2)] by (simp add: open_packet_def Let_def)
qed

section \<open>Properties\<close>

text \<open>Every disco message round-trips: what one node seals for another, the other opens,
  learning the sender's key and the message, with addresses in their wire form.\<close>

theorem disco_round_trip:
  assumes "box_laws seal opn pub" "message_ok m"
  shows "open_packet opn b (seal_packet seal pub a (pub b) n m) = (pub a, Inr (wire_message m))"
  by (rule open_seal_packet [OF assms])

text \<open>A transparent box, to run the model on.\<close>

definition demo_seal :: seal_fn where
  "demo_seal m n p k = array_bytes (p XOR k) @ m"

definition demo_open :: open_fn where
  "demo_open c n p k = (if take 32 c = array_bytes (p XOR k) then Some (drop 32 c) else None)"

lemma demo_box: "box_laws demo_seal demo_open id"
  unfolding box_laws_def demo_seal_def demo_open_def by (simp add: xor.commute)

theorem disco_round_trip_witness:
  "open_packet demo_open 2 (seal_packet demo_seal id 1 2 0 (Pong 7 (IPv4 0x01020304, 80))) =
     (1, Inr (Pong 7 (IPv4 0x01020304, 80)))"
  using disco_round_trip [OF demo_box, of "Pong 7 (IPv4 0x01020304, 80)" 2 1 0] by (simp add: wire_ap_def)

end
