(* ===== verification/Stun.thy ===== *)
theory Stun
  imports Codec
begin

text \<open>
  \<^verbatim>\<open>internal/stun/stun.go\<close>: Binding requests and responses with XOR-MAPPED-ADDRESS, client and
  server side.  A run-time panic of the code is an outcome of its own, \<open>Panicked\<close>.
\<close>

section \<open>Definitions\<close>

abbreviation stun_header_len :: nat where "stun_header_len \<equiv> 20"
abbreviation magic_cookie :: u32 where "magic_cookie \<equiv> 0x2112A442"
abbreviation binding_request :: u16 where "binding_request \<equiv> 0x0001"
abbreviation binding_success :: u16 where "binding_success \<equiv> 0x0101"
abbreviation attr_xor_mapped :: u16 where "attr_xor_mapped \<equiv> 0x0020"
abbreviation attr_mapped_legacy :: u16 where "attr_mapped_legacy \<equiv> 0x0001"

datatype stun_error = NotStun | Truncated | NotSuccess | NoMapped | Panicked

definition request :: "txid \<Rightarrow> bytes" where
  "request tx = put_u16 binding_request @ [0, 0] @ put_u32 magic_cookie @ array_bytes tx"

definition is_stun :: "bytes \<Rightarrow> bool" where
  "is_stun b \<longleftrightarrow> length b \<ge> stun_header_len \<and> b ! 0 AND 0xc0 = 0 \<and> get_u32 (slice 4 8 b) = magic_cookie"

definition parse_header :: "bytes \<Rightarrow> stun_error + (u16 \<times> txid \<times> bytes)" where
  "parse_header b =
     (if \<not> is_stun b then Inl NotStun
      else let typ = get_u16 (slice 0 2 b); n = unat (get_u16 (slice 2 4 b)) in
        if stun_header_len + n > length b then Inl Truncated
        else Inr (typ, bytes_array (slice 8 20 b), slice stun_header_len (stun_header_len + n) b))"

definition xor_key :: "txid \<Rightarrow> bytes" where
  "xor_key tx = put_u32 magic_cookie @ array_bytes tx"

definition unmask :: "bool \<Rightarrow> txid \<Rightarrow> bytes \<Rightarrow> bytes" where
  "unmask is_xor tx v = (if is_xor then map2 (XOR) v (take (length v) (xor_key tx)) else v)"

text \<open>\<^verbatim>\<open>decodeAddr\<close>: \<open>None\<close> when it returns false.\<close>

definition decode_addr :: "bytes \<Rightarrow> bool \<Rightarrow> txid \<Rightarrow> addr_port option" where
  "decode_addr v is_xor tx =
     (if length v < 4 then None
      else let port = get_u16 (slice 2 4 v);
               port = (if is_xor then port XOR 0x2112 else port) in
        if v ! 1 = 1 then
          (if length v < 8 then None else Some (addr_from4 (unmask is_xor tx (slice 4 8 v)), port))
        else if v ! 1 = 2 then
          (if length v < 20 then None else Some (addr_from16 (unmask is_xor tx (slice 4 20 v)), port))
        else None)"

text \<open>The attribute loop of \<^verbatim>\<open>ParseResponse\<close>; \<open>padded n\<close> is \<^verbatim>\<open>(n+3)&^3\<close>.  Slicing past the end
  panics.\<close>

definition padded :: "nat \<Rightarrow> nat" where
  "padded n = (n + 3) div 4 * 4"

function attr_loop :: "txid \<Rightarrow> addr_port \<Rightarrow> bytes \<Rightarrow> stun_error + addr_port" where
  "attr_loop tx legacy attrs =
     (if length attrs < 4 then (if ap_valid legacy then Inr legacy else Inl NoMapped)
      else let at = get_u16 (slice 0 2 attrs); al = unat (get_u16 (slice 2 4 attrs)) in
        if 4 + al > length attrs then (if ap_valid legacy then Inr legacy else Inl NoMapped)
        else let val = slice 4 (4 + al) attrs;
                 found = (if at = attr_xor_mapped then decode_addr val True tx else None);
                 legacy' = (if at = attr_mapped_legacy
                   then (case decode_addr val False tx of Some ap \<Rightarrow> ap | None \<Rightarrow> (ZeroAddr, 0)) else legacy)
             in (case found of
                   Some ap \<Rightarrow> Inr ap
                 | None \<Rightarrow>
                     if 4 + padded al > length attrs then Inl Panicked
                     else attr_loop tx legacy' (drop (4 + padded al) attrs)))"
  by pat_completeness auto
termination
  by (relation "measure (\<lambda>(tx, legacy, attrs). length attrs)") auto

declare attr_loop.simps [simp del]

definition parse_response :: "bytes \<Rightarrow> stun_error + (txid \<times> addr_port)" where
  "parse_response b =
     (case parse_header b of
        Inl e \<Rightarrow> Inl e
      | Inr (typ, tx, attrs) \<Rightarrow>
          if typ \<noteq> binding_success then Inl NotSuccess
          else (case attr_loop tx (ZeroAddr, 0) attrs of Inl e \<Rightarrow> Inl e | Inr ap \<Rightarrow> Inr (tx, ap)))"

text \<open>\<^verbatim>\<open>Response\<close>.  The zero address leaves the four address bytes of its attribute zero.\<close>

definition response :: "txid \<Rightarrow> addr_port \<Rightarrow> bytes" where
  "response tx ap =
     (let ip = unmap (fst ap);
          (alen, family) = (if is6 ip then (20, 2) else (8, 1));
          raw = as_slice ip
      in put_u16 binding_success @ put_u16 (of_nat (4 + alen)) @ put_u32 magic_cookie @ array_bytes tx
         @ put_u16 attr_xor_mapped @ put_u16 (of_nat alen) @ [0, family]
         @ put_u16 (snd ap XOR 0x2112)
         @ write_at 0 (map2 (XOR) raw (take (length raw) (xor_key tx))) (replicate (alen - 4) 0))"

text \<open>\<^verbatim>\<open>Serve\<close> on one datagram: the reply to send back, if any.\<close>

definition serve_reply :: "bytes \<Rightarrow> addr_port \<Rightarrow> bytes option" where
  "serve_reply pkt from_addr =
     (case parse_header pkt of
        Inl _ \<Rightarrow> None
      | Inr (typ, tx, _) \<Rightarrow> if typ \<noteq> binding_request then None else Some (response tx from_addr))"

section \<open>Lemmas\<close>

lemma length_xor_key [simp]: "length (xor_key tx) = 16"
  by (simp add: xor_key_def)

lemma xor_twice: "length xs \<le> length ks \<Longrightarrow>
    map2 (XOR) (map2 (XOR) xs (take (length xs) ks)) (take (length xs) ks) = (xs :: bytes)"
  by (rule nth_equalityI) (simp_all add: xor.assoc)

lemma unmask_masked:
  "length raw \<le> 16 \<Longrightarrow> unmask True tx (map2 (XOR) raw (take (length raw) (xor_key tx))) = raw"
  using xor_twice [of raw "xor_key tx"] by (simp add: unmask_def)

lemma padded_le: "n \<le> 4 * k \<Longrightarrow> padded n \<le> 4 * k"
  unfolding padded_def by presburger

lemma attr_loop_total:
  "length attrs mod 4 = 0 \<Longrightarrow> attr_loop tx legacy attrs \<noteq> Inl Panicked"
proof (induction "length attrs" arbitrary: legacy attrs rule: less_induct)
  case less
  let ?al = "unat (get_u16 (slice 2 4 attrs))"
  show ?case
  proof (cases "length attrs < 4 \<or> 4 + ?al > length attrs")
    case True
    then show ?thesis by (subst attr_loop.simps) (auto simp: Let_def)
  next
    case False
    obtain k where k: "length attrs = 4 * k" using mod_0_imp_dvd [OF less.prems] by (elim dvdE)
    have le: "4 + padded ?al \<le> length attrs" using False k padded_le [of ?al "k - 1"] by (cases k) auto
    have smaller: "length attrs - (4 + padded ?al) < length attrs" using False by (intro diff_less) linarith+
    have "(length attrs - (4 + padded ?al)) mod 4 = 0" unfolding k padded_def by presburger
    then have "attr_loop tx l (drop (4 + padded ?al) attrs) \<noteq> Inl Panicked" for l
      using less.hyps [of "drop (4 + padded ?al) attrs" l] smaller by simp
    then show ?thesis using False le by (subst attr_loop.simps) (simp add: Let_def split: option.split)
  qed
qed

lemma parse_header_build:
  assumes "typ = 1 \<or> typ = 0x0101" "length attrs < 65536"
  shows "parse_header (put_u16 typ @ put_u16 (of_nat (length attrs)) @ put_u32 magic_cookie @ array_bytes tx @ attrs) =
    Inr (typ, tx, attrs)"
proof -
  let ?b = "put_u16 typ @ put_u16 (of_nat (length attrs)) @ put_u32 magic_cookie @ array_bytes tx @ attrs"
  have "?b ! 0 AND 0xc0 = 0" using assms(1) by (auto simp: put_u16_def nat_be_numeral)
  moreover have "slice 0 2 ?b = put_u16 typ" "slice 2 4 ?b = put_u16 (of_nat (length attrs))"
    "slice 4 8 ?b = put_u32 magic_cookie" "slice 8 20 ?b = array_bytes tx" "slice 20 (20 + length attrs) ?b = attrs"
    by (simp_all add: slice_def)
  moreover have "unat (of_nat (length attrs) :: u16) = length attrs" using assms(2) by (simp add: unat_of_nat)
  ultimately show ?thesis by (simp add: parse_header_def is_stun_def)
qed

lemma decode_masked:
  assumes "length raw = 4 \<and> family = 1 \<or> length raw = 16 \<and> family = 2"
  shows "decode_addr ([0, family] @ put_u16 (port XOR 0x2112) @ map2 (XOR) raw (take (length raw) (xor_key tx))) True tx =
    Some (addr_from_slice raw, port)"
  using assms unmask_masked [of raw tx]
  by (auto simp: decode_addr_def slice_def addr_from_slice_def xor.assoc)

lemma attr_loop_xor_mapped:
  assumes "decode_addr val True tx = Some ap" "length val < 65536"
  shows "attr_loop tx legacy (put_u16 attr_xor_mapped @ put_u16 (of_nat (length val)) @ val) = Inr ap"
proof -
  let ?a = "put_u16 attr_xor_mapped @ put_u16 (of_nat (length val)) @ val"
  have "slice 0 2 ?a = put_u16 attr_xor_mapped" "slice 2 4 ?a = put_u16 (of_nat (length val))"
    "slice 4 (4 + length val) ?a = val"
    by (simp_all add: slice_def)
  moreover have "unat (of_nat (length val) :: u16) = length val" using assms(2) by (simp add: unat_of_nat)
  ultimately show ?thesis using assms(1) by (subst attr_loop.simps) simp
qed

lemma addr_from_as_slice: "a \<noteq> ZeroAddr \<Longrightarrow> addr_from_slice (as_slice a) = without_zone a"
proof (cases a)
  case (IPv4 x)
  then show ?thesis using unat_word_bound(1) [of x] by (simp add: addr_from_slice_def addr_from4_def be_nat_nat_be)
next
  case (IPv6 x z)
  then show ?thesis using unat_word_bound(2) [of x] by (simp add: addr_from_slice_def addr_from16_def be_nat_nat_be)
qed simp

lemma response_round_trip:
  assumes "fst ap \<noteq> ZeroAddr"
  shows "parse_response (response tx ap) = Inr (tx, without_zone (unmap (fst ap)), snd ap)"
proof -
  define ip where "ip = unmap (fst ap)"
  define raw where "raw = as_slice ip"
  define family :: byte where "family = (if is6 ip then 2 else 1)"
  define val where "val = [0, family] @ put_u16 (snd ap XOR 0x2112) @ map2 (XOR) raw (take (length raw) (xor_key tx))"
  have ip: "ip \<noteq> ZeroAddr" using assms by (cases "fst ap") (auto simp: ip_def)
  have len: "length raw = 4 \<and> family = 1 \<or> length raw = 16 \<and> family = 2"
    using ip by (cases ip) (auto simp: raw_def family_def is6_def)
  then have alen: "length val = (if is6 ip then 20 else 8)"
    using ip by (cases ip) (auto simp: val_def raw_def family_def is6_def)
  define attrs where "attrs = put_u16 attr_xor_mapped @ put_u16 (of_nat (length val)) @ val"
  have "length raw = length val - 4" using len by (auto simp: val_def)
  then have eq: "response tx ap =
      put_u16 binding_success @ put_u16 (of_nat (length attrs)) @ put_u32 magic_cookie @ array_bytes tx @ attrs"
    using alen by (cases "is6 ip") (simp_all add: response_def attrs_def val_def write_at_def family_def flip: ip_def raw_def)
  have "decode_addr val True tx = Some (addr_from_slice raw, snd ap)"
    unfolding val_def by (rule decode_masked [OF len])
  then have "attr_loop tx (ZeroAddr, 0) attrs = Inr (addr_from_slice raw, snd ap)"
    unfolding attrs_def using alen by (intro attr_loop_xor_mapped) simp_all
  moreover have "length attrs < 65536" using alen by (simp add: attrs_def)
  ultimately show ?thesis
    using parse_header_build [of "0x0101" attrs tx] addr_from_as_slice [OF ip]
    by (simp add: parse_response_def eq raw_def ip_def)
qed

interpretation stun_format: message_format "\<lambda>(tx, ap). response tx ap"
  "\<lambda>b. case parse_response b of Inr r \<Rightarrow> Some r | Inl _ \<Rightarrow> None"
  "\<lambda>(tx, ap). (tx, without_zone (unmap (fst ap)), snd ap)" "\<lambda>(tx, ap). fst ap \<noteq> ZeroAddr"
  by unfold_locales (auto simp: response_round_trip)

section \<open>Properties\<close>

text \<open>STUN works end to end: a server answers a request with the address it came from, and
  the client reads back its own transaction and that address, as IPv4 if it was IPv4-mapped.\<close>

theorem stun_end_to_end:
  assumes "addr_valid (fst client)"
  shows "\<exists>reply. serve_reply (request tx) client = Some reply \<and>
    parse_response reply = Inr (tx, without_zone (unmap (fst client)), snd client)"
proof -
  have "parse_header (request tx) = Inr (1, tx, [])"
    using parse_header_build [of 1 "[]" tx] by (simp add: request_def put_u16_def nat_be_numeral)
  then show ?thesis
    using response_round_trip [of client tx] assms by (simp add: serve_reply_def addr_valid_def)
qed

theorem stun_end_to_end_witness:
  "\<exists>reply. serve_reply (request 5) (IPv4 0x01020304, 4242) = Some reply \<and>
    parse_response reply = Inr (5, IPv4 0x01020304, 4242)"
  using stun_end_to_end [of "(IPv4 0x01020304, 4242)" 5] by (simp add: addr_valid_def)

text \<open>Claim C36: \<^verbatim>\<open>ParseResponse\<close> returns on every message whose attributes fill a multiple of four bytes,
  as RFC 5389 requires, and does not otherwise: a 25-byte datagram with one odd-sized attribute
  makes it panic.\<close>

theorem parse_response_panics:
  "(\<forall>b typ tx attrs. parse_header b = Inr (typ, tx, attrs) \<longrightarrow> length attrs mod 4 = 0 \<longrightarrow> parse_response b \<noteq> Inl Panicked) \<and>
   parse_response (put_u16 binding_success @ put_u16 5 @ put_u32 magic_cookie @ array_bytes (0 :: txid) @ [0x80, 0x22, 0, 1, 0]) =
     Inl Panicked"
proof (intro conjI allI impI)
  fix b ty tx attrs assume "parse_header b = Inr (ty, tx, attrs)" "length attrs mod 4 = 0"
  then show "parse_response b \<noteq> Inl Panicked"
    using attr_loop_total [of attrs tx] by (auto simp: parse_response_def split: sum.splits)
next
  have "attr_loop 0 (ZeroAddr, 0) [0x80, 0x22, 0, 1, 0] = Inl Panicked"
    by (subst attr_loop.simps) (simp add: slice_def get_u16_def be_nat_def padded_def)
  then show "parse_response (put_u16 binding_success @ put_u16 5 @ put_u32 magic_cookie @ array_bytes (0 :: txid) @ [0x80, 0x22, 0, 1, 0]) =
     Inl Panicked"
    using parse_header_build [of "0x0101" "[0x80, 0x22, 0, 1, 0]" 0] by (simp add: parse_response_def)
qed

theorem parse_response_panics_witness:
  "parse_response (response 5 (IPv4 0x01020304, 4242)) \<noteq> Inl Panicked \<and>
   parse_response (put_u16 binding_success @ put_u16 5 @ put_u32 magic_cookie @ array_bytes (0 :: txid) @ [0x80, 0x22, 0, 1, 0]) =
     Inl Panicked"
  using parse_response_panics response_round_trip [of "(IPv4 0x01020304, 4242)" 5] by auto

end
