(* ===== verification/Mesh_State.thy ===== *)
theory Mesh_State
  imports Disco Stun Relay
begin

text \<open>
  The state of \<^verbatim>\<open>internal/meshconn\<close>, the UDP layer under WireGuard (\<^verbatim>\<open>meshconn.go\<close>, \<^verbatim>\<open>peerrelay.go\<close>),
  the functions on single peers and address lists, the replacement of the peer set, and the port
  prediction of \<^verbatim>\<open>predict.go\<close>.

  A \<^verbatim>\<open>*peer\<close> and a \<^verbatim>\<open>*relayState\<close> are shared by several maps and compared by pointer, so both live in
  a store: \<open>c_heap\<close> and \<open>c_relay_heap\<close> hold the objects, the maps hold their numbers, and
  \<open>c_next\<close> is the next free one.  What a handler does to the outside world (UDP writes, callbacks) is
  appended to \<open>c_out\<close>; the queue to WireGuard is \<open>c_recv\<close>.  The sealing functions, random numbers and
  the result of a socket write are in \<open>mesh_env\<close>; \<open>c_draws\<close> counts the random values drawn.
\<close>

section \<open>Data\<close>

abbreviation trust_duration :: duration where "trust_duration \<equiv> 6500 * millisecond"
abbreviation ping_timeout :: duration where "ping_timeout \<equiv> 5 * second"
abbreviation call_me_maybe_gap :: duration where "call_me_maybe_gap \<equiv> 5 * second"
abbreviation quiet_probe :: duration where "quiet_probe \<equiv> second"
abbreviation probe_timeout :: duration where "probe_timeout \<equiv> second"
abbreviation active_window :: duration where "active_window \<equiv> 2 * minute"
abbreviation lazy_above :: nat where "lazy_above \<equiv> 100"
abbreviation recv_queue :: nat where "recv_queue \<equiv> 1024"

abbreviation no_ap :: addr_port where "no_ap \<equiv> (ZeroAddr, 0)"

record mesh_options =
  o_disco_key :: key32
  o_node_key :: key32
  o_include_loopback :: bool
  o_disable_direct :: bool
  o_exclude :: "prefix list"
  o_redundant :: bool
  o_lazy_discovery :: bool
  o_on_endpoints :: bool
  o_on_pq :: bool
  o_pskid :: "(key32 \<Rightarrow> 64 word) option"
  o_on_peer_pskid :: bool

record peer_config =
  pc_name :: string
  pc_node_key :: key32
  pc_disco_key :: key32
  pc_endpoints :: "addr_port list"

record ping_state =
  ps_to :: addr_port
  ps_via_relay :: "nat option"
  ps_sent :: time
  ps_reply :: "nat option"

record disco_path =
  dp_udp :: addr_port
  dp_peer_relay :: "nat option"

record peer =
  p_node_key :: key32
  p_disco_key :: key32
  p_cfg :: peer_config
  p_candidates :: "addr_port list"
  p_best_addr :: addr_port
  p_best_latency :: duration
  p_last_pong :: time
  p_last_recv :: time
  p_probe_sent :: time
  p_last_cmm :: time
  p_last_spray :: time
  p_pings :: "(txid, ping_state) gomap"
  p_relay_via :: "nat option"
  p_relay_pong :: time
  p_relay_latency :: duration
  p_rx :: u64
  p_tx :: u64
  p_last_active :: time

record relay_state =
  r_name :: string
  r_node_key :: key32
  r_disco_key :: key32
  r_candidates :: "addr_port list"
  r_best_addr :: addr_port
  r_latency :: duration
  r_last_ack :: time
  r_last_hello :: time
  r_hellos :: "(txid, ping_state) gomap"

record registration =
  reg_addr :: addr_port
  reg_seen :: time

record relay_serve =
  sv_clients :: "(key32, key32) gomap"
  sv_reg :: "(key32, registration) gomap"
  sv_by_addr :: "(addr_port, key32) gomap"

record stun_req =
  sr_server :: addr_port
  sr_sent :: time

record ping_result =
  pr_via :: string
  pr_addr :: addr_port
  pr_relay :: string
  pr_latency :: duration

datatype mesh_out =
    WriteUDP bytes addr_port
  | OnEndpoints "addr_port list"
  | OnPQ key32 message
  | OnPeerPSKID key32 "64 word"
  | PingReply nat ping_result

record mesh_env =
  e_seal :: seal_fn
  e_open :: open_fn
  e_pub :: "key32 \<Rightarrow> key32"
  e_nonce :: "nat \<Rightarrow> nonce24"
  e_tx :: "nat \<Rightarrow> txid"
  e_udp_ok :: "bytes \<Rightarrow> addr_port \<Rightarrow> bool"

record mesh =
  c_opts :: mesh_options
  c_has6 :: bool
  c_port :: u16
  c_relay :: "relay_client option"
  c_stun_servers :: "addr_port list"
  c_peers :: "(key32, nat) gomap"
  c_by_disco :: "(key32, nat) gomap"
  c_by_addr :: "(addr_port, nat) gomap"
  c_stun_tx :: "(txid, stun_req) gomap"
  c_stun_results :: "(addr_port, addr_port) gomap"
  c_endpoints :: "addr_port list"
  c_mapped :: addr_port
  c_peer_relays :: "(key32, nat) gomap"
  c_relay_serve :: "relay_serve option"
  c_udp_filter :: "(addr_port \<Rightarrow> bool) option"
  c_recv :: "(bytes \<times> key32) list"
  c_heap :: "nat \<Rightarrow> peer"
  c_relay_heap :: "nat \<Rightarrow> relay_state"
  c_next :: nat
  c_draws :: nat
  c_out :: "mesh_out list"
  c_crashed :: bool

abbreviation upd_peer :: "nat \<Rightarrow> (peer \<Rightarrow> peer) \<Rightarrow> mesh \<Rightarrow> mesh" where
  "upd_peer q f c \<equiv> c\<lparr>c_heap := (c_heap c)(q := f (c_heap c q))\<rparr>"

abbreviation upd_relay :: "nat \<Rightarrow> (relay_state \<Rightarrow> relay_state) \<Rightarrow> mesh \<Rightarrow> mesh" where
  "upd_relay r f c \<equiv> c\<lparr>c_relay_heap := (c_relay_heap c)(r := f (c_relay_heap c r))\<rparr>"

abbreviation emit :: "mesh_out \<Rightarrow> mesh \<Rightarrow> mesh" where
  "emit x c \<equiv> c\<lparr>c_out := c_out c @ [x]\<rparr>"

abbreviation udp_path :: "addr_port \<Rightarrow> disco_path" where
  "udp_path a \<equiv> \<lparr>dp_udp = a, dp_peer_relay = None\<rparr>"

abbreviation relay_path :: "nat \<Rightarrow> disco_path" where
  "relay_path r \<equiv> \<lparr>dp_udp = no_ap, dp_peer_relay = Some r\<rparr>"

abbreviation server_path :: disco_path where
  "server_path \<equiv> \<lparr>dp_udp = no_ap, dp_peer_relay = None\<rparr>"

section \<open>Peers\<close>

definition new_peer :: "peer_config \<Rightarrow> peer" where
  "new_peer cfg = \<lparr>p_node_key = pc_node_key cfg, p_disco_key = pc_disco_key cfg, p_cfg = cfg, p_candidates = [],
     p_best_addr = no_ap, p_best_latency = 0, p_last_pong = zero_time, p_last_recv = zero_time,
     p_probe_sent = zero_time, p_last_cmm = zero_time, p_last_spray = zero_time, p_pings = [],
     p_relay_via = None, p_relay_pong = zero_time, p_relay_latency = 0, p_rx = 0, p_tx = 0, p_last_active = 0\<rparr>"

text \<open>\<^verbatim>\<open>lastActive\<close> holds Unix nanoseconds, so a new peer was last active in 1970.\<close>

definition touch :: "time \<Rightarrow> peer \<Rightarrow> bool \<times> peer" where
  "touch now p = (time_sub now (p_last_active p) > active_window, p\<lparr>p_last_active := now\<rparr>)"

definition active :: "time \<Rightarrow> peer \<Rightarrow> bool" where
  "active now p \<longleftrightarrow> time_sub now (p_last_active p) \<le> active_window"

definition lazy_locked :: "mesh \<Rightarrow> bool" where
  "lazy_locked c \<longleftrightarrow> o_lazy_discovery (c_opts c) \<or> length (c_peers c) > lazy_above"

definition probing :: "peer \<Rightarrow> bool" where
  "probing p \<longleftrightarrow> p_probe_sent p > p_last_pong p"

definition direct_ok :: "time \<Rightarrow> peer \<Rightarrow> bool" where
  "direct_ok now p \<longleftrightarrow>
     \<not> (\<not> ap_valid (p_best_addr p) \<or> time_sub now (p_last_pong p) \<ge> trust_duration) \<and>
     (\<not> probing p \<or> time_sub now (p_probe_sent p) \<le> probe_timeout)"

definition relay_live :: "time \<Rightarrow> relay_state \<Rightarrow> bool" where
  "relay_live now r \<longleftrightarrow> ap_valid (r_best_addr r) \<and> time_sub now (r_last_ack r) < 30 * second"

section \<open>Address lists\<close>

definition add_addr :: "addr_port \<Rightarrow> addr_port list \<Rightarrow> addr_port list" where
  "add_addr x out = (if ap_valid x \<and> x \<notin> set out then out @ [x] else out)"

definition merge_addrs :: "addr_port list \<Rightarrow> addr_port list \<Rightarrow> addr_port list" where
  "merge_addrs a b = fold add_addr b (fold add_addr a [])"

definition excluded :: "mesh_options \<Rightarrow> addr \<Rightarrow> bool" where
  "excluded opts a \<longleftrightarrow> list_ex (\<lambda>p. contains p a) (o_exclude opts)"

definition usable :: "mesh_options \<Rightarrow> addr_port list \<Rightarrow> addr_port list" where
  "usable opts eps =
     map (\<lambda>ep. (unmap (fst ep), snd ep)) (filter (\<lambda>ep. ap_valid ep \<and> \<not> excluded opts (fst ep)) eps)"

text \<open>The classes of \<^verbatim>\<open>net/netip\<close> addresses \<^verbatim>\<open>updateEndpoints\<close> and \<^verbatim>\<open>predictPorts\<close> ask for.\<close>

definition is_link_local_unicast :: "addr \<Rightarrow> bool" where
  "is_link_local_unicast a \<longleftrightarrow>
     (case unmap a of ZeroAddr \<Rightarrow> False | IPv4 x \<Rightarrow> drop_bit 16 x = 0xA9FE | IPv6 x z \<Rightarrow> drop_bit 118 x = 0x3FA)"

definition is_multicast :: "addr \<Rightarrow> bool" where
  "is_multicast a \<longleftrightarrow>
     (case unmap a of ZeroAddr \<Rightarrow> False | IPv4 x \<Rightarrow> drop_bit 28 x = 0xE | IPv6 x z \<Rightarrow> drop_bit 120 x = 0xFF)"

definition is_loopback :: "addr \<Rightarrow> bool" where
  "is_loopback a \<longleftrightarrow>
     (case unmap a of ZeroAddr \<Rightarrow> False | IPv4 x \<Rightarrow> drop_bit 24 x = 127 | IPv6 x z \<Rightarrow> x = 1)"

definition is_unspecified :: "addr \<Rightarrow> bool" where
  "is_unspecified a \<longleftrightarrow> a = IPv4 0 \<or> a = IPv6 0 []"

section \<open>Port prediction\<close>

abbreviation spray_count :: nat where "spray_count \<equiv> 16"
abbreviation spray_interval :: duration where "spray_interval \<equiv> 9 * second"
abbreviation max_spray_step :: u16 where "max_spray_step \<equiv> 32"

text \<open>The ports seen per public IPv4 address, in the order of the endpoints.\<close>

definition ports_of :: "(addr, u16 list) gomap \<Rightarrow> addr \<Rightarrow> u16 list" where
  "ports_of m ip = (case map_of m ip of None \<Rightarrow> [] | Some ps \<Rightarrow> ps)"

definition add_port :: "addr_port \<Rightarrow> (addr, u16 list) gomap \<Rightarrow> (addr, u16 list) gomap" where
  "add_port ep m =
     (let a = unmap (fst ep) in
      if \<not> is4 a \<or> is_link_local_unicast a \<or> snd ep = 0 then m
      else AList.update a (ports_of m a @ [snd ep]) m)"

definition ports_by_ip :: "addr_port list \<Rightarrow> (addr, u16 list) gomap" where
  "ports_by_ip eps = fold add_port eps []"

text \<open>The smallest gap between neighbouring ports, at most \<open>max_spray_step\<close>.\<close>

fun smallest_step :: "u16 \<Rightarrow> u16 list \<Rightarrow> u16" where
  "smallest_step step (p # q # ps) =
     (let d = q - p in smallest_step (if d > 0 \<and> d < step then d else step) (q # ps))"
| "smallest_step step _ = step"

definition predict_ip :: "addr \<Rightarrow> u16 list \<Rightarrow> addr_port list" where
  "predict_ip ip ports =
     (let ports = remdups_adj (sort ports) in
      if length ports < 2 then []
      else let step = smallest_step max_spray_step ports; nxt = unat (last ports) in
        map (\<lambda>p. (ip, of_nat p))
          (takeWhile (\<lambda>p. \<not> p > 65535) (map (\<lambda>k. nxt + unat step * k) [1..<Suc spray_count])))"

definition predict_ports :: "addr_port list \<Rightarrow> addr_port list" where
  "predict_ports eps = concat (map (\<lambda>(ip, ports). predict_ip ip ports) (ports_by_ip eps))"

section \<open>The peer set\<close>

definition forget_peer :: "nat \<Rightarrow> mesh \<Rightarrow> mesh" where
  "forget_peer q c = c\<lparr>c_by_disco := AList.delete (p_disco_key (c_heap c q)) (c_by_disco c),
     c_by_addr := filter (\<lambda>(a, r). r \<noteq> q) (c_by_addr c)\<rparr>"

text \<open>The peer object for a configuration: the one in use, or a new one when there is none or its
  disco key changed.\<close>

definition find_peer :: "peer_config \<Rightarrow> mesh \<Rightarrow> nat \<times> mesh" where
  "find_peer cfg c =
     (let make = (\<lambda>c. (c_next c, c\<lparr>c_next := Suc (c_next c),
            c_heap := (c_heap c)(c_next c := new_peer cfg),
            c_peers := AList.update (pc_node_key cfg) (c_next c) (c_peers c)\<rparr>))
      in case map_of (c_peers c) (pc_node_key cfg) of
        None \<Rightarrow> make c
      | Some q \<Rightarrow> if p_disco_key (c_heap c q) \<noteq> pc_disco_key cfg then make (forget_peer q c) else (q, c))"

definition set_peer :: "peer_config \<Rightarrow> mesh \<Rightarrow> mesh" where
  "set_peer cfg c =
     (let eps = usable (c_opts c) (pc_endpoints cfg); (q, c1) = find_peer cfg c;
          c2 = upd_peer q (\<lambda>p. p\<lparr>p_cfg := cfg\<lparr>pc_endpoints := eps\<rparr>, p_candidates := merge_addrs eps (p_candidates p)\<rparr>) c1
      in c2\<lparr>c_by_disco := AList.update (pc_disco_key cfg) q (c_by_disco c2)\<rparr>)"

definition drop_peer :: "key32 list \<Rightarrow> key32 \<times> nat \<Rightarrow> mesh \<Rightarrow> mesh" where
  "drop_peer keep kq c =
     (if fst kq \<in> set keep then c
      else let c1 = forget_peer (snd kq) c in c1\<lparr>c_peers := AList.delete (fst kq) (c_peers c1)\<rparr>)"

definition set_peers :: "peer_config list \<Rightarrow> mesh \<Rightarrow> mesh" where
  "set_peers cfgs c =
     (let c1 = fold set_peer cfgs c in fold (drop_peer (map pc_node_key cfgs)) (c_peers c1) c1)"

section \<open>Relays of other nodes\<close>

definition new_relay :: "peer_config \<Rightarrow> relay_state" where
  "new_relay cfg = \<lparr>r_name = [], r_node_key = pc_node_key cfg, r_disco_key = pc_disco_key cfg, r_candidates = [],
     r_best_addr = no_ap, r_latency = 0, r_last_ack = zero_time, r_last_hello = zero_time, r_hellos = []\<rparr>"

text \<open>\<^verbatim>\<open>SetPeerRelays\<close>; a \<^verbatim>\<open>PeerRelayConfig\<close> has the fields of a \<^verbatim>\<open>PeerConfig\<close>.\<close>

definition set_relay_config :: "peer_config \<Rightarrow> mesh \<Rightarrow> mesh" where
  "set_relay_config cfg c =
     (if pc_node_key cfg = o_node_key (c_opts c) then c
      else let make = (c_next c, c\<lparr>c_next := Suc (c_next c),
                c_relay_heap := (c_relay_heap c)(c_next c := new_relay cfg),
                c_peer_relays := AList.update (pc_node_key cfg) (c_next c) (c_peer_relays c)\<rparr>);
               (r, c1) = (case map_of (c_peer_relays c) (pc_node_key cfg) of
                   None \<Rightarrow> make
                 | Some r \<Rightarrow> if r_disco_key (c_relay_heap c r) \<noteq> pc_disco_key cfg then make else (r, c))
           in upd_relay r (\<lambda>x. x\<lparr>r_name := pc_name cfg, r_candidates := usable (c_opts c1) (pc_endpoints cfg)\<rparr>) c1)"

definition drop_relay :: "key32 list \<Rightarrow> key32 \<times> nat \<Rightarrow> mesh \<Rightarrow> mesh" where
  "drop_relay keep kr c =
     (if fst kr \<in> set keep then c
      else let c1 = c\<lparr>c_peer_relays := AList.delete (fst kr) (c_peer_relays c)\<rparr> in
        fold (\<lambda>(k, q) c. if p_relay_via (c_heap c q) = Some (snd kr)
            then upd_peer q (\<lambda>p. p\<lparr>p_relay_via := None\<rparr>) c else c) (c_peers c1) c1)"

definition set_peer_relays :: "peer_config list \<Rightarrow> mesh \<Rightarrow> mesh" where
  "set_peer_relays cfgs c =
     (let c1 = fold set_relay_config cfgs c;
          keep = filter (\<lambda>k. k \<noteq> o_node_key (c_opts c)) (map pc_node_key cfgs)
      in fold (drop_relay keep) (c_peer_relays c1) c1)"

text \<open>\<^verbatim>\<open>SetRelayClients\<close>: \<open>None\<close> for a nil map.\<close>

definition drop_registration :: "key32 list \<Rightarrow> key32 \<times> registration \<Rightarrow> relay_serve \<Rightarrow> relay_serve" where
  "drop_registration allowed kr s =
     (if fst kr \<in> set allowed then s
      else s\<lparr>sv_reg := AList.delete (fst kr) (sv_reg s),
             sv_by_addr := AList.delete (reg_addr (snd kr)) (sv_by_addr s)\<rparr>)"

definition set_relay_clients :: "(key32, key32) gomap option \<Rightarrow> mesh \<Rightarrow> mesh" where
  "set_relay_clients clients c =
     (case clients of
        None \<Rightarrow> c\<lparr>c_relay_serve := None\<rparr>
      | Some cl \<Rightarrow>
          let s = (case c_relay_serve c of None \<Rightarrow> \<lparr>sv_clients = [], sv_reg = [], sv_by_addr = []\<rparr> | Some s \<Rightarrow> s);
              s1 = s\<lparr>sv_clients := cl\<rparr>
          in c\<lparr>c_relay_serve := Some (fold (drop_registration (map snd cl)) (sv_reg s1) s1)\<rparr>)"

end
