(* ===== verification/Mesh_Ops.thy ===== *)
theory Mesh_Ops
  imports Mesh_State
begin

text \<open>
  The operations of \<^verbatim>\<open>internal/meshconn\<close>: sending, path discovery, peer relays, STUN and the handlers of
  received packets.  Each handler is a function of the state; \<open>now\<close> is the reading of the clock it
  works with, and \<open>e\<close> the environment.  A handler runs to its end before the next one starts, and a
  goroutine it starts (\<^verbatim>\<open>go c.sendPing\<close>, \<^verbatim>\<open>go c.discover\<close>) runs at that point.
\<close>

text \<open>Integer division truncates toward zero.\<close>

abbreviation half :: "duration \<Rightarrow> duration" where
  "half d \<equiv> (if d < 0 then - (- d div 2) else d div 2)"

section \<open>Sockets and the server's relay\<close>

datatype mesh_error = UnknownPeer | NoIPv6Socket | UDPFailed | RelayFailed relay_error | NoPath

definition filtered :: "mesh \<Rightarrow> addr_port \<Rightarrow> bool" where
  "filtered c a \<longleftrightarrow> (case c_udp_filter c of None \<Rightarrow> False | Some f \<Rightarrow> f a)"

definition write_udp :: "mesh_env \<Rightarrow> bytes \<Rightarrow> addr_port \<Rightarrow> mesh \<Rightarrow> mesh_error option \<times> mesh" where
  "write_udp e b dst c =
     (if filtered c dst then (None, c)
      else if is6 (fst dst) \<and> \<not> c_has6 c then (Some NoIPv6Socket, c)
      else (if e_udp_ok e b dst then None else Some UDPFailed, emit (WriteUDP b dst) c))"

definition relay_send :: "key32 \<Rightarrow> bytes \<Rightarrow> mesh \<Rightarrow> mesh_error option \<times> mesh" where
  "relay_send k b c =
     (case c_relay c of
        None \<Rightarrow> (None, c)
      | Some r \<Rightarrow> (case client_send k b r of (err, r') \<Rightarrow> (map_option RelayFailed err, c\<lparr>c_relay := Some r'\<rparr>)))"

section \<open>Frames of peer relays\<close>

definition relay_magic :: bytes where
  "relay_magic = [0x57, 0x53, 0x50, 0x52]"

abbreviation relay_header :: nat where "relay_header \<equiv> 5"
abbreviation hello_interval :: duration where "hello_interval \<equiv> 9 * second"
abbreviation reg_ttl :: duration where "reg_ttl \<equiv> 75 * second"
abbreviation frame_hello :: byte where "frame_hello \<equiv> 1"
abbreviation frame_to_relay :: byte where "frame_to_relay \<equiv> 2"
abbreviation frame_from_relay :: byte where "frame_from_relay \<equiv> 3"

definition is_relay_frame :: "bytes \<Rightarrow> bool" where
  "is_relay_frame b \<longleftrightarrow> length b > relay_header \<and> take (length relay_magic) b = relay_magic"

definition relay_frame :: "byte \<Rightarrow> key32 \<Rightarrow> bytes \<Rightarrow> bytes" where
  "relay_frame t k payload = relay_magic @ [t] @ array_bytes k @ payload"

definition hello_frame :: "bytes \<Rightarrow> bytes" where
  "hello_frame sealed = relay_magic @ [frame_hello] @ sealed"

section \<open>Sending disco messages\<close>

definition seal_to :: "mesh_env \<Rightarrow> key32 \<Rightarrow> message \<Rightarrow> mesh \<Rightarrow> bytes \<times> mesh" where
  "seal_to e dk m c =
     (seal_packet (e_seal e) (e_pub e) (o_disco_key (c_opts c)) dk (e_nonce e (c_draws c)) m,
      c\<lparr>c_draws := Suc (c_draws c)\<rparr>)"

definition new_tx :: "mesh_env \<Rightarrow> mesh \<Rightarrow> txid \<times> mesh" where
  "new_tx e c = (e_tx e (c_draws c), c\<lparr>c_draws := Suc (c_draws c)\<rparr>)"

definition send_disco :: "mesh_env \<Rightarrow> nat \<Rightarrow> bytes \<Rightarrow> disco_path \<Rightarrow> mesh \<Rightarrow> mesh" where
  "send_disco e q pkt path c =
     (if ap_valid (dp_udp path) then snd (write_udp e pkt (dp_udp path) c)
      else case dp_peer_relay path of
        Some r \<Rightarrow>
          (let a = r_best_addr (c_relay_heap c r) in
           if ap_valid a then snd (write_udp e (relay_frame frame_to_relay (p_node_key (c_heap c q)) pkt) a c) else c)
      | None \<Rightarrow> snd (relay_send (p_node_key (c_heap c q)) pkt c))"

definition send_ping :: "mesh_env \<Rightarrow> time \<Rightarrow> nat \<Rightarrow> disco_path \<Rightarrow> nat option \<Rightarrow> mesh \<Rightarrow> mesh" where
  "send_ping e now q path reply c =
     (let (tx, c1) = new_tx e c;
          c2 = upd_peer q (\<lambda>p. p\<lparr>p_pings := AList.update tx
                 \<lparr>ps_to = dp_udp path, ps_via_relay = dp_peer_relay path, ps_sent = now, ps_reply = reply\<rparr> (p_pings p)\<rparr>) c1;
          pskid = (case o_pskid (c_opts c2) of None \<Rightarrow> 0 | Some f \<Rightarrow> f (p_node_key (c_heap c2 q)));
          (pkt, c3) = seal_to e (p_disco_key (c_heap c2 q)) (Ping tx (o_node_key (c_opts c2)) pskid) c2
      in send_disco e q pkt path c3)"

definition ping_candidates :: "mesh_env \<Rightarrow> time \<Rightarrow> nat \<Rightarrow> nat option \<Rightarrow> mesh \<Rightarrow> mesh" where
  "ping_candidates e now q reply c =
     (if o_disable_direct (c_opts c) then c
      else let p = c_heap c q;
               cands = p_candidates p @
                 (if ap_valid (p_best_addr p) \<and> p_best_addr p \<notin> set (p_candidates p) then [p_best_addr p] else [])
           in fold (\<lambda>a. send_ping e now q (udp_path a) reply) cands c)"

definition probe_via_relays :: "mesh_env \<Rightarrow> time \<Rightarrow> nat \<Rightarrow> nat option \<Rightarrow> mesh \<Rightarrow> mesh" where
  "probe_via_relays e now q reply c =
     (let rs = filter (\<lambda>r. relay_live now (c_relay_heap c r) \<and> r_node_key (c_relay_heap c r) \<noteq> p_node_key (c_heap c q))
                 (map snd (c_peer_relays c))
      in fold (\<lambda>r. send_ping e now q (relay_path r) reply) rs c)"

definition spray_predicted :: "mesh_env \<Rightarrow> time \<Rightarrow> nat \<Rightarrow> mesh \<Rightarrow> mesh" where
  "spray_predicted e now q c =
     (if o_disable_direct (c_opts c) then c
      else if time_sub now (p_last_spray (c_heap c q)) < spray_interval then c
      else let targets = predict_ports (pc_endpoints (p_cfg (c_heap c q)));
               c1 = (if targets \<noteq> [] then upd_peer q (\<lambda>p. p\<lparr>p_last_spray := now\<rparr>) c else c)
           in fold (\<lambda>a. send_ping e now q (udp_path a) None) targets c1)"

definition send_call_me_maybe :: "mesh_env \<Rightarrow> nat \<Rightarrow> addr_port list \<Rightarrow> mesh \<Rightarrow> mesh" where
  "send_call_me_maybe e q eps c =
     (case seal_to e (p_disco_key (c_heap c q)) (CallMeMaybe eps) c of (pkt, c1) \<Rightarrow> send_disco e q pkt server_path c1)"

definition discover :: "mesh_env \<Rightarrow> time \<Rightarrow> nat \<Rightarrow> mesh \<Rightarrow> mesh" where
  "discover e now q c =
     (if direct_ok now (c_heap c q) then c
      else let eps = c_endpoints c;
               cmm = (time_sub now (p_last_cmm (c_heap c q)) \<ge> second);
               c1 = (if cmm then upd_peer q (\<lambda>p. p\<lparr>p_last_cmm := now\<rparr>) c else c);
               c2 = probe_via_relays e now q None (ping_candidates e now q None c1)
           in if cmm \<and> eps \<noteq> [] then send_call_me_maybe e q eps c2 else c2)"

definition send_disco_to :: "mesh_env \<Rightarrow> time \<Rightarrow> key32 \<Rightarrow> message \<Rightarrow> mesh \<Rightarrow> bool \<times> mesh" where
  "send_disco_to e now k m c =
     (case map_of (c_peers c) k of
        None \<Rightarrow> (False, c)
      | Some q \<Rightarrow>
          let p = c_heap c q;
              path = (if ap_valid (p_best_addr p) \<and> time_sub now (p_last_pong p) < trust_duration then udp_path (p_best_addr p)
                      else case p_relay_via p of
                          None \<Rightarrow> server_path
                        | Some r \<Rightarrow> if time_sub now (p_relay_pong p) < trust_duration then relay_path r else server_path);
              (pkt, c1) = seal_to e (p_disco_key p) m c
          in (True, send_disco e q pkt path c1))"

section \<open>Sending WireGuard packets\<close>

text \<open>The first part of \<^verbatim>\<open>Send\<close>, under the mutex: the direct address, the peer relay's address, and
  whether the direct path is to be probed.\<close>

definition choose_path :: "time \<Rightarrow> nat \<Rightarrow> mesh \<Rightarrow> addr_port \<times> addr_port \<times> bool" where
  "choose_path now q c =
     (let p = c_heap c q in
      if direct_ok now p then
        (let heard = (if p_last_pong p > p_last_recv p then p_last_pong p else p_last_recv p)
         in (p_best_addr p, no_ap, time_sub now heard > quiet_probe \<and> \<not> probing p))
      else case p_relay_via p of
        None \<Rightarrow> (no_ap, no_ap, False)
      | Some r \<Rightarrow>
          if time_sub now (p_relay_pong p) < trust_duration then (no_ap, r_best_addr (c_relay_heap c r), False)
          else (no_ap, no_ap, False))"

definition touch_peer :: "mesh_env \<Rightarrow> time \<Rightarrow> nat \<Rightarrow> mesh \<Rightarrow> mesh" where
  "touch_peer e now q c =
     (case touch now (c_heap c q) of (idle, p) \<Rightarrow>
        let c1 = upd_peer q (\<lambda>_. p) c in if idle then discover e now q c1 else c1)"

definition send_buf :: "mesh_env \<Rightarrow> nat \<Rightarrow> key32 \<Rightarrow> addr_port \<Rightarrow> addr_port \<Rightarrow> addr_port \<Rightarrow> bytes
    \<Rightarrow> mesh_error option \<times> mesh \<Rightarrow> mesh_error option \<times> mesh" where
  "send_buf e q k addr spare via buf = (\<lambda>(first, c).
     let (err, c1) =
       (if ap_valid addr then
          (let (err, c1) = write_udp e buf addr c in
           (err, if o_redundant (c_opts c1)
                 then (if ap_valid spare then snd (write_udp e (relay_frame frame_to_relay k buf) spare c1)
                       else snd (relay_send k buf c1))
                 else c1))
        else if ap_valid via then write_udp e (relay_frame frame_to_relay k buf) via c
        else if c_relay c \<noteq> None then relay_send k buf c
        else (Some NoPath, c))
     in case err of
          None \<Rightarrow> (first, upd_peer q (\<lambda>p. p\<lparr>p_tx := p_tx p + of_nat (length buf)\<rparr>) c1)
        | Some x \<Rightarrow> (if first = None then Some x else first, c1))"

definition mesh_send :: "mesh_env \<Rightarrow> time \<Rightarrow> bytes list \<Rightarrow> key32 \<Rightarrow> mesh \<Rightarrow> mesh_error option \<times> mesh" where
  "mesh_send e now bufs k c =
     (case map_of (c_peers c) k of
        None \<Rightarrow> (Some UnknownPeer, c)
      | Some q \<Rightarrow>
          let (addr, via, probe) = choose_path now q c;
              c1 = (if probe then send_ping e now q (udp_path addr) None (upd_peer q (\<lambda>p. p\<lparr>p_probe_sent := now\<rparr>) c) else c);
              c2 = touch_peer e now q c1;
              p = c_heap c2 q;
              spare = (if ap_valid addr \<and> o_redundant (c_opts c2)
                       then (case p_relay_via p of
                               None \<Rightarrow> no_ap
                             | Some r \<Rightarrow> if time_sub now (p_relay_pong p) < trust_duration then r_best_addr (c_relay_heap c2 r) else no_ap)
                       else no_ap)
          in fold (send_buf e q k addr spare via) bufs (None, c2))"

section \<open>Receiving\<close>

definition deliver :: "mesh_env \<Rightarrow> time \<Rightarrow> bytes \<Rightarrow> nat \<Rightarrow> mesh \<Rightarrow> mesh" where
  "deliver e now data q c =
     (let c1 = upd_peer q (\<lambda>p. p\<lparr>p_rx := p_rx p + of_nat (length data)\<rparr>) c;
          c2 = touch_peer e now q c1
      in if length (c_recv c2) < recv_queue then c2\<lparr>c_recv := c_recv c2 @ [(data, p_node_key (c_heap c2 q))]\<rparr> else c2)"

definition suspect_direct :: "mesh_env \<Rightarrow> time \<Rightarrow> nat \<Rightarrow> mesh \<Rightarrow> mesh" where
  "suspect_direct e now q c =
     (if \<not> direct_ok now (c_heap c q) \<or> probing (c_heap c q) then c
      else let c1 = upd_peer q (\<lambda>p. p\<lparr>p_probe_sent := now - probe_timeout - millisecond\<rparr>) c
           in send_ping e now q (udp_path (p_best_addr (c_heap c1 q))) None c1)"

text \<open>The branches of \<^verbatim>\<open>handleDisco\<close>.\<close>

definition handle_ping :: "mesh_env \<Rightarrow> nat \<Rightarrow> key32 \<Rightarrow> txid \<Rightarrow> key32 \<Rightarrow> 64 word \<Rightarrow> disco_path \<Rightarrow> mesh \<Rightarrow> mesh" where
  "handle_ping e q sender tx nk pskid path c =
     (if nk \<noteq> p_node_key (c_heap c q) then c
      else let c1 = (if ap_valid (dp_udp path)
                     then upd_peer q (\<lambda>p. p\<lparr>p_candidates := merge_addrs [dp_udp path] (p_candidates p)\<rparr>)
                            (c\<lparr>c_by_addr := AList.update (dp_udp path) q (c_by_addr c)\<rparr>)
                     else c);
               (pong, c2) = seal_to e sender (Pong tx (dp_udp path)) c1;
               c3 = send_disco e q pong path c2
           in if o_on_peer_pskid (c_opts c3) then emit (OnPeerPSKID (p_node_key (c_heap c3 q)) pskid) c3 else c3)"

text \<open>What a pong that answers a ping over UDP does to the direct path, and over a peer relay to that
  path.\<close>

definition pong_direct :: "time \<Rightarrow> addr_port \<Rightarrow> duration \<Rightarrow> peer \<Rightarrow> peer" where
  "pong_direct now src lat p =
     (let stale = (time_sub now (p_last_pong p) \<ge> trust_duration);
          p1 = (if \<not> ap_valid (p_best_addr p) \<or> stale \<or> src = p_best_addr p \<or> lat < half (p_best_latency p)
                then p\<lparr>p_best_addr := src, p_best_latency := lat\<rparr> else p)
      in if src = p_best_addr p1 then p1\<lparr>p_last_pong := now\<rparr> else p1)"

definition pong_relay :: "time \<Rightarrow> nat \<Rightarrow> duration \<Rightarrow> peer \<Rightarrow> peer" where
  "pong_relay now r lat p =
     (let stale = (time_sub now (p_relay_pong p) \<ge> trust_duration);
          p1 = (if (p_relay_via p \<noteq> Some r \<or> stale) \<and> (p_relay_via p = None \<or> stale \<or> lat < half (p_relay_latency p))
                then p\<lparr>p_relay_via := Some r\<rparr> else p)
      in if p_relay_via p1 = Some r then p1\<lparr>p_relay_pong := now, p_relay_latency := lat\<rparr> else p1)"

definition pong_result :: "disco_path \<Rightarrow> duration \<Rightarrow> mesh \<Rightarrow> ping_result" where
  "pong_result path lat c =
     (if ap_valid (dp_udp path) then \<lparr>pr_via = ''direct'', pr_addr = dp_udp path, pr_relay = [], pr_latency = lat\<rparr>
      else case dp_peer_relay path of
        Some r \<Rightarrow> \<lparr>pr_via = ''peer-relay'', pr_addr = no_ap, pr_relay = r_name (c_relay_heap c r), pr_latency = lat\<rparr>
      | None \<Rightarrow> \<lparr>pr_via = ''relay'', pr_addr = no_ap, pr_relay = [], pr_latency = lat\<rparr>)"

definition handle_pong :: "time \<Rightarrow> nat \<Rightarrow> txid \<Rightarrow> disco_path \<Rightarrow> mesh \<Rightarrow> mesh" where
  "handle_pong now q tx path c =
     (case map_of (p_pings (c_heap c q)) tx of
        None \<Rightarrow> c
      | Some ps \<Rightarrow>
          let lat = time_sub now (ps_sent ps);
              c1 = upd_peer q (\<lambda>p. p\<lparr>p_pings := AList.delete tx (p_pings p)\<rparr>) c;
              c2 = (if ap_valid (dp_udp path) \<and> ps_to ps = dp_udp path
                    then upd_peer q (pong_direct now (dp_udp path) lat)
                           (c1\<lparr>c_by_addr := AList.update (dp_udp path) q (c_by_addr c1)\<rparr>)
                    else c1);
              c3 = (case dp_peer_relay path of
                      None \<Rightarrow> c2
                    | Some r \<Rightarrow> if ps_via_relay ps = Some r then upd_peer q (pong_relay now r lat) c2 else c2)
          in case ps_reply ps of None \<Rightarrow> c3 | Some ch \<Rightarrow> emit (PingReply ch (pong_result path lat c3)) c3)"

definition handle_disco :: "mesh_env \<Rightarrow> time \<Rightarrow> bytes \<Rightarrow> disco_path \<Rightarrow> key32 \<Rightarrow> mesh \<Rightarrow> mesh" where
  "handle_disco e now pkt path relay_from c =
     (case open_packet (e_open e) (o_disco_key (c_opts c)) pkt of
        (sender, Inl err) \<Rightarrow> c
      | (sender, Inr msg) \<Rightarrow>
          (case map_of (c_by_disco c) sender of
             None \<Rightarrow> c
           | Some q \<Rightarrow>
               if relay_from \<noteq> 0 \<and> relay_from \<noteq> p_node_key (c_heap c q) then c
               else (case msg of
                   Ping tx nk pskid \<Rightarrow> handle_ping e q sender tx nk pskid path c
                 | Pong tx src \<Rightarrow> handle_pong now q tx path c
                 | CallMeMaybe eps \<Rightarrow>
                     ping_candidates e now q None
                       (upd_peer q (\<lambda>p. p\<lparr>p_candidates := merge_addrs (usable (c_opts c) eps) (p_candidates p)\<rparr>) c)
                 | _ \<Rightarrow> if o_on_pq (c_opts c) then emit (OnPQ (p_node_key (c_heap c q)) msg) c else c)))"

definition handle_relay_packet :: "mesh_env \<Rightarrow> time \<Rightarrow> key32 \<Rightarrow> bytes \<Rightarrow> mesh \<Rightarrow> mesh" where
  "handle_relay_packet e now src data c =
     (if is_disco data then handle_disco e now data server_path src c
      else case map_of (c_peers c) src of
        None \<Rightarrow> c
      | Some q \<Rightarrow> deliver e now data q (suspect_direct e now q c))"

section \<open>Peer relays\<close>

text \<open>\<^verbatim>\<open>helloRelays\<close>: first all registrations are decided, then the hellos are sent.\<close>

definition hello_targets :: "time \<Rightarrow> relay_state \<Rightarrow> addr_port list" where
  "hello_targets now r = (if relay_live now r then [r_best_addr r] else r_candidates r)"

definition hello_add :: "mesh_env \<Rightarrow> time \<Rightarrow> nat \<Rightarrow> addr_port
    \<Rightarrow> (nat \<times> addr_port \<times> txid) list \<times> mesh \<Rightarrow> (nat \<times> addr_port \<times> txid) list \<times> mesh" where
  "hello_add e now r a = (\<lambda>(sends, c).
     case new_tx e c of (tx, c1) \<Rightarrow>
       (sends @ [(r, a, tx)],
        upd_relay r (\<lambda>x. x\<lparr>r_hellos := AList.update tx
          \<lparr>ps_to = a, ps_via_relay = None, ps_sent = now, ps_reply = None\<rparr> (r_hellos x)\<rparr>) c1))"

definition hello_prepare :: "mesh_env \<Rightarrow> time \<Rightarrow> nat
    \<Rightarrow> (nat \<times> addr_port \<times> txid) list \<times> mesh \<Rightarrow> (nat \<times> addr_port \<times> txid) list \<times> mesh" where
  "hello_prepare e now r = (\<lambda>(sends, c).
     let c1 = upd_relay r (\<lambda>x. x\<lparr>r_hellos := filter (\<lambda>(tx, h). \<not> time_sub now (ps_sent h) > ping_timeout) (r_hellos x)\<rparr>) c;
         x = c_relay_heap c1 r
     in if time_sub now (r_last_hello x) < hello_interval \<and> relay_live now x then (sends, c1)
        else let c2 = upd_relay r (\<lambda>x. x\<lparr>r_last_hello := now\<rparr>) c1
             in fold (hello_add e now r) (hello_targets now x) (sends, c2))"

definition send_hello :: "mesh_env \<Rightarrow> nat \<times> addr_port \<times> txid \<Rightarrow> mesh \<Rightarrow> mesh" where
  "send_hello e = (\<lambda>(r, a, tx) c.
     case seal_to e (r_disco_key (c_relay_heap c r)) (Ping tx (o_node_key (c_opts c)) 0) c of
       (sealed, c1) \<Rightarrow> snd (write_udp e (hello_frame sealed) a c1))"

definition hello_relays :: "mesh_env \<Rightarrow> time \<Rightarrow> mesh \<Rightarrow> mesh" where
  "hello_relays e now c =
     (case fold (hello_prepare e now) (map snd (c_peer_relays c)) ([], c) of
        (sends, c1) \<Rightarrow> fold (send_hello e) sends c1)"

text \<open>\<^verbatim>\<open>handleHello\<close>: a ping registers its sender with this relay, a pong acknowledges a registration of
  this node with another.\<close>

definition register_client :: "time \<Rightarrow> key32 \<Rightarrow> addr_port \<Rightarrow> relay_serve \<Rightarrow> relay_serve" where
  "register_client now nk src s =
     (let by = (case map_of (sv_reg s) nk of
                  None \<Rightarrow> sv_by_addr s
                | Some old \<Rightarrow> if reg_addr old \<noteq> src then AList.delete (reg_addr old) (sv_by_addr s) else sv_by_addr s)
      in s\<lparr>sv_reg := AList.update nk \<lparr>reg_addr = src, reg_seen = now\<rparr> (sv_reg s),
           sv_by_addr := AList.update src nk by\<rparr>)"

definition hello_ack :: "time \<Rightarrow> txid \<Rightarrow> addr_port \<Rightarrow> relay_state \<Rightarrow> relay_state" where
  "hello_ack now tx src r =
     (case map_of (r_hellos r) tx of
        None \<Rightarrow> r
      | Some h \<Rightarrow>
          if ps_to h \<noteq> src then r
          else let r1 = r\<lparr>r_hellos := AList.delete tx (r_hellos r)\<rparr>;
                   lat = time_sub now (ps_sent h);
                   r2 = (if \<not> relay_live now r1 \<or> src = r_best_addr r1 \<or> lat < half (r_latency r1)
                         then r1\<lparr>r_best_addr := src, r_latency := lat\<rparr> else r1)
               in if src = r_best_addr r2 then r2\<lparr>r_last_ack := now\<rparr> else r2)"

definition handle_hello :: "mesh_env \<Rightarrow> time \<Rightarrow> bytes \<Rightarrow> addr_port \<Rightarrow> mesh \<Rightarrow> mesh" where
  "handle_hello e now sealed src c =
     (case open_packet (e_open e) (o_disco_key (c_opts c)) sealed of
        (sender, Inr (Ping tx nk pskid)) \<Rightarrow>
          (case c_relay_serve c of
             None \<Rightarrow> c
           | Some s \<Rightarrow>
               if (case map_of (sv_clients s) sender of None \<Rightarrow> 0 | Some k \<Rightarrow> k) \<noteq> nk then c
               else (case seal_to e sender (Pong tx src) (c\<lparr>c_relay_serve := Some (register_client now nk src s)\<rparr>) of
                   (pong, c1) \<Rightarrow> snd (write_udp e (hello_frame pong) src c1)))
      | (sender, Inr (Pong tx a)) \<Rightarrow>
          (case find (\<lambda>r. r_disco_key (c_relay_heap c r) = sender) (map snd (c_peer_relays c)) of
             None \<Rightarrow> c
           | Some r \<Rightarrow> upd_relay r (hello_ack now tx src) c)
      | _ \<Rightarrow> c)"

text \<open>\<^verbatim>\<open>forward\<close>: a missing registration reads as the zero value, whose time is long past.\<close>

definition forward :: "mesh_env \<Rightarrow> time \<Rightarrow> key32 \<Rightarrow> bytes \<Rightarrow> addr_port \<Rightarrow> mesh \<Rightarrow> mesh" where
  "forward e now dst payload from_addr c =
     (case c_relay_serve c of
        None \<Rightarrow> c
      | Some s \<Rightarrow>
          (case (map_of (sv_by_addr s) from_addr, map_of (sv_reg s) dst) of
             (Some src, Some dst_reg) \<Rightarrow>
               let src_reg = (case map_of (sv_reg s) src of None \<Rightarrow> \<lparr>reg_addr = no_ap, reg_seen = zero_time\<rparr> | Some r \<Rightarrow> r) in
               if reg_addr src_reg \<noteq> from_addr \<or> time_sub now (reg_seen src_reg) > reg_ttl \<or> time_sub now (reg_seen dst_reg) > reg_ttl
               then c
               else snd (write_udp e (relay_frame frame_from_relay src payload) (reg_addr dst_reg) c)
           | _ \<Rightarrow> c))"

definition from_relay :: "mesh_env \<Rightarrow> time \<Rightarrow> key32 \<Rightarrow> bytes \<Rightarrow> addr_port \<Rightarrow> mesh \<Rightarrow> mesh" where
  "from_relay e now src payload from_addr c =
     (case (find (\<lambda>r. r_best_addr (c_relay_heap c r) = from_addr) (map snd (c_peer_relays c)), map_of (c_peers c) src) of
        (Some r, Some q) \<Rightarrow>
          if is_disco payload then handle_disco e now payload (relay_path r) src c
          else deliver e now payload q (suspect_direct e now q c)
      | _ \<Rightarrow> c)"

definition handle_relay_frame :: "mesh_env \<Rightarrow> time \<Rightarrow> bytes \<Rightarrow> addr_port \<Rightarrow> mesh \<Rightarrow> mesh" where
  "handle_relay_frame e now pkt src c =
     (let body = drop relay_header pkt; t = pkt ! length relay_magic in
      if t = frame_hello then handle_hello e now body src c
      else if t = frame_to_relay then
        (if length body < 32 then c else forward e now (bytes_array (take 32 body)) (drop 32 body) src c)
      else if t = frame_from_relay then
        (if length body < 32 then c else from_relay e now (bytes_array (take 32 body)) (drop 32 body) src c)
      else c)"

section \<open>STUN and own endpoints\<close>

text \<open>The result of \<^verbatim>\<open>net.InterfaceAddrs\<close>: \<open>None\<close> for an error, and per interface address its bytes,
  \<open>None\<close> for one that is no IP network.\<close>

type_synonym interfaces = "bytes option list option"

definition local_endpoint :: "mesh \<Rightarrow> bytes option \<Rightarrow> addr_port list" where
  "local_endpoint c ia =
     (case ia of
        None \<Rightarrow> []
      | Some b \<Rightarrow>
          if addr_from_slice b = ZeroAddr then []
          else let ip = unmap (addr_from_slice b) in
            if is_link_local_unicast ip \<or> is_multicast ip \<or> is_unspecified ip \<or>
               is_loopback ip \<and> \<not> o_include_loopback (c_opts c) \<or> excluded (c_opts c) ip then []
            else if is6 ip \<and> \<not> c_has6 c then []
            else [(ip, c_port c)])"

definition update_endpoints :: "interfaces \<Rightarrow> mesh \<Rightarrow> mesh" where
  "update_endpoints ifs c =
     (let eps = map snd (c_stun_results c) @ (if ap_valid (c_mapped c) then [c_mapped c] else []) @
            (case ifs of None \<Rightarrow> [] | Some as \<Rightarrow> concat (map (local_endpoint c) as)) @
            (if o_include_loopback (c_opts c) then [(IPv4 0x7F000001, c_port c)] else []);
          eps = sort (merge_addrs eps []);
          c1 = c\<lparr>c_endpoints := eps\<rparr>
      in if eps \<noteq> c_endpoints c \<and> o_on_endpoints (c_opts c) then emit (OnEndpoints eps) c1 else c1)"

definition send_stun_to :: "mesh_env \<Rightarrow> time \<Rightarrow> addr_port \<Rightarrow> mesh \<Rightarrow> mesh" where
  "send_stun_to e now server c =
     (case new_tx e c of (tx, c1) \<Rightarrow>
        snd (write_udp e (request tx) server
          (c1\<lparr>c_stun_tx := AList.update tx \<lparr>sr_server = server, sr_sent = now\<rparr> (c_stun_tx c1)\<rparr>)))"

definition send_stun :: "mesh_env \<Rightarrow> time \<Rightarrow> mesh \<Rightarrow> mesh" where
  "send_stun e now c =
     fold (send_stun_to e now) (c_stun_servers c)
       (c\<lparr>c_stun_tx := filter (\<lambda>(tx, r). \<not> time_sub now (sr_sent r) > ping_timeout) (c_stun_tx c)\<rparr>)"

text \<open>\<^verbatim>\<open>handleSTUN\<close>; a panic of \<^verbatim>\<open>ParseResponse\<close> is not recovered anywhere and ends the process.\<close>

definition handle_stun :: "interfaces \<Rightarrow> bytes \<Rightarrow> mesh \<Rightarrow> mesh" where
  "handle_stun ifs pkt c =
     (case parse_response pkt of
        Inl Panicked \<Rightarrow> c\<lparr>c_crashed := True\<rparr>
      | Inl err \<Rightarrow> c
      | Inr (tx, mapped) \<Rightarrow>
          let c1 = c\<lparr>c_stun_tx := AList.delete tx (c_stun_tx c)\<rparr> in
          (case map_of (c_stun_tx c) tx of
             None \<Rightarrow> c1
           | Some req \<Rightarrow>
               let m = (unmap (fst mapped), snd mapped);
                   changed = (case map_of (c_stun_results c1) (sr_server req) of None \<Rightarrow> no_ap | Some x \<Rightarrow> x) \<noteq> m;
                   c2 = c1\<lparr>c_stun_results := AList.update (sr_server req) m (c_stun_results c1)\<rparr>
               in if changed then update_endpoints ifs c2 else c2))"

definition set_stun_servers :: "mesh_env \<Rightarrow> time \<Rightarrow> addr_port list \<Rightarrow> mesh \<Rightarrow> mesh" where
  "set_stun_servers e now servers c =
     (let c1 = c\<lparr>c_stun_servers := servers\<rparr> in if c_stun_servers c \<noteq> servers then send_stun e now c1 else c1)"

definition set_mapped_endpoint :: "interfaces \<Rightarrow> addr_port \<Rightarrow> mesh \<Rightarrow> mesh" where
  "set_mapped_endpoint ifs ap c = update_endpoints ifs (c\<lparr>c_mapped := ap\<rparr>)"

text \<open>The verdict of \<^verbatim>\<open>Netcheck\<close> on the mappings the STUN servers saw.\<close>

definition mapping_varies :: "mesh \<Rightarrow> bool" where
  "mapping_varies c =
     (let ms = filter (\<lambda>m. is4 (fst m)) (map snd (c_stun_results c)) in
      case ms of [] \<Rightarrow> False | m # rest \<Rightarrow> list_ex (\<lambda>x. m \<noteq> x) rest)"

section \<open>The UDP reader\<close>

definition read_udp :: "mesh_env \<Rightarrow> time \<Rightarrow> interfaces \<Rightarrow> addr_port \<Rightarrow> bytes \<Rightarrow> mesh \<Rightarrow> mesh" where
  "read_udp e now ifs src pkt c =
     (let src = (unmap (fst src), snd src) in
      if filtered c src then c
      else if is_stun pkt then handle_stun ifs pkt c
      else if is_relay_frame pkt then handle_relay_frame e now pkt src c
      else if is_disco pkt then handle_disco e now pkt (udp_path src) 0 c
      else case map_of (c_by_addr c) src of
        None \<Rightarrow> c
      | Some q \<Rightarrow>
          let c1 = (if src = p_best_addr (c_heap c q) then upd_peer q (\<lambda>p. p\<lparr>p_last_recv := now\<rparr>) c else c)
          in deliver e now pkt q c1)"

section \<open>Timers and status\<close>

definition expire_pings :: "time \<Rightarrow> nat \<Rightarrow> mesh \<Rightarrow> mesh" where
  "expire_pings now q c =
     upd_peer q (\<lambda>p. p\<lparr>p_pings := filter (\<lambda>(tx, ps). \<not> time_sub now (ps_sent ps) > ping_timeout) (p_pings p)\<rparr>) c"

definition heartbeat_peer :: "mesh_env \<Rightarrow> time \<Rightarrow> bool \<Rightarrow> addr_port list \<Rightarrow> nat \<Rightarrow> mesh \<Rightarrow> mesh" where
  "heartbeat_peer e now lazy eps q c =
     (if lazy \<and> \<not> active now (c_heap c q) then c
      else let p = c_heap c q; trusted = direct_ok now p;
               cmm = (\<not> trusted \<and> time_sub now (p_last_cmm p) \<ge> call_me_maybe_gap);
               c1 = (if cmm then upd_peer q (\<lambda>p. p\<lparr>p_last_cmm := now\<rparr>) c else c)
           in if trusted then send_ping e now q (udp_path (p_best_addr p)) None c1
              else let c2 = probe_via_relays e now q None (spray_predicted e now q (ping_candidates e now q None c1))
                   in if cmm \<and> eps \<noteq> [] then send_call_me_maybe e q eps c2 else c2)"

definition heartbeat :: "mesh_env \<Rightarrow> time \<Rightarrow> mesh \<Rightarrow> mesh" where
  "heartbeat e now c =
     (let qs = map snd (c_peers c);
          c1 = fold (expire_pings now) qs c;
          c2 = hello_relays e now c1
      in fold (heartbeat_peer e now (lazy_locked c2) (c_endpoints c1)) qs c2)"

definition network_changed :: "mesh_env \<Rightarrow> time \<Rightarrow> interfaces \<Rightarrow> mesh \<Rightarrow> mesh" where
  "network_changed e now ifs c =
     (let qs = map snd (c_peers c);
          c1 = c\<lparr>c_relay := map_option reconnect (c_relay c)\<rparr>;
          c2 = update_endpoints ifs (send_stun e now c1)
      in fold (suspect_direct e now) qs c2)"

text \<open>\<^verbatim>\<open>Ping\<close> up to its wait: \<open>ch\<close> is the channel the first pong is reported on.\<close>

definition ping_peer :: "mesh_env \<Rightarrow> time \<Rightarrow> key32 \<Rightarrow> nat \<Rightarrow> mesh \<Rightarrow> mesh_error option \<times> mesh" where
  "ping_peer e now k ch c =
     (case map_of (c_peers c) k of
        None \<Rightarrow> (Some UnknownPeer, c)
      | Some q \<Rightarrow>
          let p = c_heap c q; direct = (ap_valid (p_best_addr p) \<and> time_sub now (p_last_pong p) < trust_duration);
              c1 = (if direct then c
                    else probe_via_relays e now q (Some ch) (send_ping e now q server_path (Some ch) c))
          in (None, ping_candidates e now q (Some ch) c1))"

definition path_status :: "time \<Rightarrow> mesh \<Rightarrow> nat \<Rightarrow> string" where
  "path_status now c q =
     (let p = c_heap c q in
      if direct_ok now p then ''direct''
      else if p_relay_via p \<noteq> None \<and> time_sub now (p_relay_pong p) < trust_duration then ''peer-relay''
      else if lazy_locked c \<and> \<not> active now p then ''idle''
      else if (case c_relay c of None \<Rightarrow> False | Some r \<Rightarrow> cl_connected r) then ''relay''
      else ''none'')"

end
