(* ===== verification/Mesh_View.thy ===== *)
theory Mesh_View
  imports Mesh_Ops
begin

text \<open>
  What holds of \<^verbatim>\<open>meshconn\<close> whatever packets arrive: which addresses it sends to directly, which
  sender it names to WireGuard, and for whom it relays.

  Most operations only send and keep timers.  \<open>view\<close> is the part of the state the properties are
  about; one lemma per such operation says that it keeps the view, and the invariant is proved for
  the four operations that change it: \<open>set_peers\<close>, \<open>handle_disco\<close> on a direct path, \<open>handle_hello\<close> and
  \<open>set_relay_clients\<close>.
\<close>

section \<open>The part of the state that matters\<close>

definition path_of :: "peer \<Rightarrow> key32 \<times> key32 \<times> addr_port \<times> time" where
  "path_of p = (p_node_key p, p_disco_key p, p_best_addr p, p_last_pong p)"

definition view where
  "view c = ((\<lambda>q. path_of (c_heap c q)), c_by_addr c, c_by_disco c, c_peers c, c_relay_serve c, c_opts c, c_next c)"

lemma path_of_simps [simp]:
  "path_of (p\<lparr>p_cfg := x1\<rparr>) = path_of p" "path_of (p\<lparr>p_candidates := x2\<rparr>) = path_of p"
  "path_of (p\<lparr>p_best_latency := x3\<rparr>) = path_of p" "path_of (p\<lparr>p_last_recv := x4\<rparr>) = path_of p"
  "path_of (p\<lparr>p_probe_sent := x4\<rparr>) = path_of p" "path_of (p\<lparr>p_last_cmm := x4\<rparr>) = path_of p"
  "path_of (p\<lparr>p_last_spray := x4\<rparr>) = path_of p" "path_of (p\<lparr>p_pings := x5\<rparr>) = path_of p"
  "path_of (p\<lparr>p_relay_via := x6\<rparr>) = path_of p" "path_of (p\<lparr>p_relay_pong := x4\<rparr>) = path_of p"
  "path_of (p\<lparr>p_relay_latency := x3\<rparr>) = path_of p" "path_of (p\<lparr>p_rx := x7\<rparr>) = path_of p"
  "path_of (p\<lparr>p_tx := x7\<rparr>) = path_of p" "path_of (p\<lparr>p_last_active := x4\<rparr>) = path_of p"
  by (simp_all add: path_of_def)

lemma view_fields [simp]:
  "view (c\<lparr>c_out := x1\<rparr>) = view c" "view (c\<lparr>c_draws := x2\<rparr>) = view c" "view (c\<lparr>c_relay := x3\<rparr>) = view c"
  "view (c\<lparr>c_stun_tx := x4\<rparr>) = view c" "view (c\<lparr>c_stun_results := x5\<rparr>) = view c"
  "view (c\<lparr>c_stun_servers := x6\<rparr>) = view c" "view (c\<lparr>c_endpoints := x6\<rparr>) = view c"
  "view (c\<lparr>c_mapped := x7\<rparr>) = view c" "view (c\<lparr>c_recv := x8\<rparr>) = view c"
  "view (c\<lparr>c_relay_heap := x9\<rparr>) = view c" "view (c\<lparr>c_peer_relays := x10\<rparr>) = view c"
  "view (c\<lparr>c_udp_filter := x11\<rparr>) = view c" "view (c\<lparr>c_crashed := x12\<rparr>) = view c"
  by (simp_all add: view_def)

lemma view_upd [simp]:
  "path_of p = path_of (c_heap c q) \<Longrightarrow> view (c\<lparr>c_heap := (c_heap c)(q := p)\<rparr>) = view c"
  by (auto simp: view_def fun_eq_iff)

lemma view_fold: "(\<And>x c. view (f x c) = view c) \<Longrightarrow> view (fold f xs c) = view c"
  by (induction xs arbitrary: c) simp_all

lemma view_fold_snd: "(\<And>x s c. view (snd (f x (s, c))) = view c) \<Longrightarrow> view (snd (fold f xs (s, c))) = view c"
proof (induction xs arbitrary: s c)
  case (Cons x xs)
  show ?case using Cons.IH [of "fst (f x (s, c))" "snd (f x (s, c))"] Cons.prems by simp
qed simp

lemma view_heap: "view c' = view c \<Longrightarrow> path_of (c_heap c' q) = path_of (c_heap c q)"
  unfolding view_def prod.inject fun_eq_iff by blast

section \<open>Operations that keep it\<close>

lemma view_write [simp]: "view (snd (write_udp e b a c)) = view c"
  by (simp add: write_udp_def)

lemma view_relay_send [simp]: "view (snd (relay_send k b c)) = view c"
  by (simp add: relay_send_def split: option.splits prod.splits)

lemma view_seal_to [simp]: "view (snd (seal_to e dk m c)) = view c"
  by (simp add: seal_to_def)

lemma view_new_tx [simp]: "view (snd (new_tx e c)) = view c"
  by (simp add: new_tx_def)

lemma view_send_disco [simp]: "view (send_disco e q pkt path c) = view c"
  by (simp add: send_disco_def Let_def split: option.splits)

lemma view_send_ping [simp]: "view (send_ping e now q path reply c) = view c"
  by (simp add: send_ping_def new_tx_def seal_to_def Let_def)

lemma view_ping_candidates [simp]: "view (ping_candidates e now q reply c) = view c"
  by (simp add: ping_candidates_def Let_def view_fold)

lemma view_probe [simp]: "view (probe_via_relays e now q reply c) = view c"
  by (simp add: probe_via_relays_def Let_def view_fold)

lemma view_spray [simp]: "view (spray_predicted e now q c) = view c"
  by (simp add: spray_predicted_def Let_def view_fold)

lemma view_cmm [simp]: "view (send_call_me_maybe e q eps c) = view c"
  by (simp add: send_call_me_maybe_def seal_to_def)

lemma view_discover [simp]: "view (discover e now q c) = view c"
  by (simp add: discover_def Let_def)

lemma view_send_disco_to [simp]: "view (snd (send_disco_to e now k m c)) = view c"
  by (simp add: send_disco_to_def seal_to_def Let_def split: option.splits)

lemma view_touch [simp]: "view (touch_peer e now q c) = view c"
  by (simp add: touch_peer_def touch_def Let_def)

lemma view_send_buf: "view (snd (send_buf e q k a sp via b (first, c))) = view c"
proof -
  have w: "view c1 = view c" if "write_udp e x y c = (err, c1)" for x y err c1
    using view_write [of e x y c] that by simp
  have r: "view c1 = view c" if "relay_send x y c = (err, c1)" for x y err c1
    using view_relay_send [of x y c] that by simp
  show ?thesis by (auto simp: send_buf_def Let_def w r split: prod.splits option.splits)
qed

lemma view_mesh_send [simp]: "view (snd (mesh_send e now bufs k c)) = view c"
  by (simp add: mesh_send_def Let_def view_fold_snd view_send_buf split: option.splits prod.splits)

lemma view_deliver [simp]: "view (deliver e now data q c) = view c"
  by (simp add: deliver_def Let_def)

lemma view_suspect [simp]: "view (suspect_direct e now q c) = view c"
  by (simp add: suspect_direct_def Let_def)

lemma path_of_pong_relay [simp]: "path_of (pong_relay now r lat p) = path_of p"
  by (simp add: pong_relay_def Let_def)

lemma view_hello_add: "view (snd (hello_add e now r a (s, c))) = view c"
  by (simp add: hello_add_def new_tx_def)

lemma view_hello_prepare: "view (snd (hello_prepare e now r (s, c))) = view c"
  by (simp add: hello_prepare_def Let_def view_fold_snd view_hello_add)

lemma view_send_hello [simp]: "view (send_hello e x c) = view c"
  by (simp add: send_hello_def seal_to_def split: prod.splits)

lemma view_hello_relays [simp]: "view (hello_relays e now c) = view c"
proof -
  obtain s c1 where p: "fold (hello_prepare e now) (map snd (c_peer_relays c)) ([], c) = (s, c1)" by force
  have "view c1 = view c"
    using view_fold_snd [of "hello_prepare e now" "map snd (c_peer_relays c)" "[]" c] p
    by (simp add: view_hello_prepare)
  then show ?thesis by (simp add: hello_relays_def p view_fold)
qed

lemma view_forward [simp]: "view (forward e now dst payload a c) = view c"
  by (simp add: forward_def Let_def split: option.splits)

lemma view_update_endpoints [simp]: "view (update_endpoints ifs c) = view c"
  by (simp add: update_endpoints_def Let_def)

lemma view_send_stun [simp]: "view (send_stun e now c) = view c"
proof -
  have "view (send_stun_to e now x c) = view c" for x c by (simp add: send_stun_to_def new_tx_def)
  then show ?thesis by (simp add: send_stun_def view_fold)
qed

lemma view_handle_stun [simp]: "view (handle_stun ifs pkt c) = view c"
  by (auto simp: handle_stun_def Let_def split: sum.splits stun_error.splits option.splits prod.splits)

lemma view_set_stun [simp]: "view (set_stun_servers e now s c) = view c"
  by (simp add: set_stun_servers_def Let_def)

lemma view_set_mapped [simp]: "view (set_mapped_endpoint ifs ap c) = view c"
  by (simp add: set_mapped_endpoint_def)

lemma view_expire [simp]: "view (expire_pings now q c) = view c"
  by (simp add: expire_pings_def)

lemma view_heartbeat [simp]: "view (heartbeat e now c) = view c"
proof -
  have "view (heartbeat_peer e now lazy eps q c) = view c" for lazy eps q c
    by (simp add: heartbeat_peer_def Let_def)
  then show ?thesis by (simp add: heartbeat_def Let_def view_fold)
qed

lemma view_network_changed [simp]: "view (network_changed e now ifs c) = view c"
  by (simp add: network_changed_def Let_def view_fold)

lemma view_ping_peer [simp]: "view (snd (ping_peer e now k ch c)) = view c"
  by (simp add: ping_peer_def Let_def split: option.splits)

lemma view_handle_pong_relayed:
  "\<not> ap_valid (dp_udp path) \<Longrightarrow> view (handle_pong now q tx path c) = view c"
  by (simp add: handle_pong_def Let_def split: option.splits)

lemma view_handle_ping_relayed:
  "\<not> ap_valid (dp_udp path) \<Longrightarrow> view (handle_ping e q sender tx nk pskid path c) = view c"
  by (simp add: handle_ping_def seal_to_def Let_def)

lemma view_handle_disco_relayed:
  "\<not> ap_valid (dp_udp path) \<Longrightarrow> view (handle_disco e now pkt path k c) = view c"
  by (simp add: handle_disco_def view_handle_pong_relayed view_handle_ping_relayed
      split: prod.splits sum.splits option.splits message.splits)

lemma no_ap_invalid [simp]: "\<not> ap_valid no_ap"
  by (simp add: ap_valid_def addr_valid_def)

lemma view_from_relay [simp]: "view (from_relay e now src payload a c) = view c"
  by (simp add: from_relay_def view_handle_disco_relayed split: option.splits)

lemma view_relay_packet [simp]: "view (handle_relay_packet e now src data c) = view c"
  by (simp add: handle_relay_packet_def view_handle_disco_relayed split: option.splits)

end
