(* ===== verification/Mesh_Inv.thy ===== *)
theory Mesh_Inv
  imports Mesh_View
begin

text \<open>
  Runs of a connection (\<open>mesh_run\<close>: any sequence of datagrams, relayed packets, calls and timers), what
  a history says about addresses and keys (\<open>got\<close>, \<open>configured\<close>, \<open>listed\<close>), and the invariant \<open>mesh_inv\<close>
  that ties the tables of the connection to its history.
\<close>

section \<open>Runs\<close>

text \<open>Everything that happens to a connection: packets from the sockets and the server's relay, calls
  of the engine and of WireGuard, timers.\<close>

datatype mesh_event =
    EvUDP time interfaces addr_port bytes
  | EvRelay time key32 bytes
  | EvSend time "bytes list" key32
  | EvSendDisco time key32 message
  | EvPing time key32 nat
  | EvSetPeers "peer_config list"
  | EvSetPeerRelays "peer_config list"
  | EvSetRelayClients "(key32, key32) gomap option"
  | EvSetRelay relay_client
  | EvSetSTUN time "addr_port list"
  | EvSetMapped interfaces addr_port
  | EvSetUDPFilter "(addr_port \<Rightarrow> bool) option"
  | EvHeartbeat time
  | EvSTUNTick time interfaces
  | EvNetworkChanged time interfaces

fun mesh_step :: "mesh_env \<Rightarrow> mesh_event \<Rightarrow> mesh \<Rightarrow> mesh" where
  "mesh_step e (EvUDP now ifs src pkt) c = read_udp e now ifs src pkt c"
| "mesh_step e (EvRelay now src data) c = handle_relay_packet e now src data c"
| "mesh_step e (EvSend now bufs k) c = snd (mesh_send e now bufs k c)"
| "mesh_step e (EvSendDisco now k m) c = snd (send_disco_to e now k m c)"
| "mesh_step e (EvPing now k ch) c = snd (ping_peer e now k ch c)"
| "mesh_step e (EvSetPeers cfgs) c = set_peers cfgs c"
| "mesh_step e (EvSetPeerRelays cfgs) c = set_peer_relays cfgs c"
| "mesh_step e (EvSetRelayClients cl) c = set_relay_clients cl c"
| "mesh_step e (EvSetRelay r) c = c\<lparr>c_relay := Some r\<rparr>"
| "mesh_step e (EvSetSTUN now s) c = set_stun_servers e now s c"
| "mesh_step e (EvSetMapped ifs ap) c = set_mapped_endpoint ifs ap c"
| "mesh_step e (EvSetUDPFilter f) c = c\<lparr>c_udp_filter := f\<rparr>"
| "mesh_step e (EvHeartbeat now) c = heartbeat e now c"
| "mesh_step e (EvSTUNTick now ifs) c = update_endpoints ifs (send_stun e now c)"
| "mesh_step e (EvNetworkChanged now ifs) c = network_changed e now ifs c"

text \<open>\<^verbatim>\<open>New\<close>, before \<^verbatim>\<open>updateEndpoints\<close>: \<open>port\<close> and \<open>has6\<close> come from the sockets it opened.\<close>

definition new_mesh :: "mesh_options \<Rightarrow> bool \<Rightarrow> u16 \<Rightarrow> mesh" where
  "new_mesh opts has6 port = \<lparr>c_opts = opts, c_has6 = has6, c_port = port, c_relay = None, c_stun_servers = [],
     c_peers = [], c_by_disco = [], c_by_addr = [], c_stun_tx = [], c_stun_results = [], c_endpoints = [],
     c_mapped = no_ap, c_peer_relays = [], c_relay_serve = None, c_udp_filter = None, c_recv = [],
     c_heap = (\<lambda>_. new_peer \<lparr>pc_name = [], pc_node_key = 0, pc_disco_key = 0, pc_endpoints = []\<rparr>),
     c_relay_heap = (\<lambda>_. new_relay \<lparr>pc_name = [], pc_node_key = 0, pc_disco_key = 0, pc_endpoints = []\<rparr>),
     c_next = 0, c_draws = 0, c_out = [], c_crashed = False\<rparr>"

definition mesh_run :: "mesh_env \<Rightarrow> mesh_options \<Rightarrow> bool \<Rightarrow> u16 \<Rightarrow> interfaces \<Rightarrow> mesh_event list \<Rightarrow> mesh" where
  "mesh_run e opts has6 port ifs evs = fold (mesh_step e) evs (update_endpoints ifs (new_mesh opts has6 port))"

section \<open>What the history says\<close>

definition unmap_ap :: "addr_port \<Rightarrow> addr_port" where
  "unmap_ap ap = (unmap (fst ap), snd ap)"

text \<open>A datagram from address \<open>a\<close> at time \<open>t\<close> that opens to message \<open>m\<close> of the disco key \<open>d\<close>.\<close>

definition got :: "mesh_env \<Rightarrow> key32 \<Rightarrow> mesh_event list \<Rightarrow> time \<Rightarrow> addr_port \<Rightarrow> key32 \<Rightarrow> message \<Rightarrow> bool" where
  "got e priv evs t a d m \<longleftrightarrow>
     (\<exists>ifs src pkt. EvUDP t ifs src pkt \<in> set evs \<and> unmap_ap src = a \<and>
        open_packet (e_open e) priv pkt = (d, Inr m))"

definition got_hello :: "mesh_env \<Rightarrow> key32 \<Rightarrow> mesh_event list \<Rightarrow> time \<Rightarrow> addr_port \<Rightarrow> key32 \<Rightarrow> message \<Rightarrow> bool" where
  "got_hello e priv evs t a d m \<longleftrightarrow>
     (\<exists>ifs src pkt. EvUDP t ifs src pkt \<in> set evs \<and> unmap_ap src = a \<and>
        open_packet (e_open e) priv (drop relay_header pkt) = (d, Inr m))"

definition configured :: "mesh_event list \<Rightarrow> key32 \<Rightarrow> key32 \<Rightarrow> bool" where
  "configured evs k d \<longleftrightarrow>
     (\<exists>cfgs cfg. EvSetPeers cfgs \<in> set evs \<and> cfg \<in> set cfgs \<and> pc_node_key cfg = k \<and> pc_disco_key cfg = d)"

definition listed :: "mesh_event list \<Rightarrow> key32 \<Rightarrow> key32 \<Rightarrow> bool" where
  "listed evs d nk \<longleftrightarrow> (\<exists>cl. EvSetRelayClients (Some cl) \<in> set evs \<and> map_of cl d = Some nk)"

definition ponged :: "mesh_env \<Rightarrow> key32 \<Rightarrow> mesh_event list \<Rightarrow> time \<Rightarrow> addr_port \<Rightarrow> key32 \<Rightarrow> bool" where
  "ponged e priv evs t a d \<longleftrightarrow> (\<exists>tx x. got e priv evs t a d (Pong tx x))"

definition heard_from :: "mesh_env \<Rightarrow> key32 \<Rightarrow> mesh_event list \<Rightarrow> addr_port \<Rightarrow> key32 \<Rightarrow> bool" where
  "heard_from e priv evs a d \<longleftrightarrow>
     (\<exists>t tx nk psk x. got e priv evs t a d (Ping tx nk psk) \<or> got e priv evs t a d (Pong tx x))"

definition registered :: "mesh_env \<Rightarrow> key32 \<Rightarrow> mesh_event list \<Rightarrow> key32 \<Rightarrow> addr_port \<Rightarrow> time \<Rightarrow> bool" where
  "registered e priv evs nk a t \<longleftrightarrow>
     (\<exists>d tx psk. got_hello e priv evs t a d (Ping tx nk psk) \<and> (listed evs d nk \<or> nk = 0))"

section \<open>The invariant\<close>

fun path_ok :: "mesh_env \<Rightarrow> key32 \<Rightarrow> mesh_event list \<Rightarrow> key32 \<times> key32 \<times> addr_port \<times> time \<Rightarrow> bool" where
  "path_ok e priv evs (nk, dk, best, lp) \<longleftrightarrow>
     configured evs nk dk \<and> (ap_valid best \<longrightarrow> ponged e priv evs lp best dk)"

definition serve_ok :: "mesh_env \<Rightarrow> key32 \<Rightarrow> mesh_event list \<Rightarrow> relay_serve \<Rightarrow> bool" where
  "serve_ok e priv evs s \<longleftrightarrow>
     (\<forall>nk r. map_of (sv_reg s) nk = Some r \<longrightarrow> registered e priv evs nk (reg_addr r) (reg_seen r)) \<and>
     (\<forall>d nk. map_of (sv_clients s) d = Some nk \<longrightarrow> listed evs d nk)"

definition refs :: "mesh \<Rightarrow> nat set" where
  "refs c = snd ` set (c_peers c) \<union> snd ` set (c_by_disco c) \<union> snd ` set (c_by_addr c)"

definition mesh_inv :: "mesh_env \<Rightarrow> mesh_options \<Rightarrow> mesh_event list \<Rightarrow> mesh \<Rightarrow> bool" where
  "mesh_inv e opts evs c \<longleftrightarrow>
     c_opts c = opts \<and>
     (\<forall>q \<in> refs c. q < c_next c \<and> path_ok e (o_disco_key opts) evs (path_of (c_heap c q))) \<and>
     (\<forall>k q. (k, q) \<in> set (c_peers c) \<longrightarrow> fst (path_of (c_heap c q)) = k) \<and>
     (\<forall>d q. (d, q) \<in> set (c_by_disco c) \<longrightarrow> fst (snd (path_of (c_heap c q))) = d) \<and>
     (\<forall>a q. (a, q) \<in> set (c_by_addr c) \<longrightarrow> heard_from e (o_disco_key opts) evs a (fst (snd (path_of (c_heap c q))))) \<and>
     (\<forall>s. c_relay_serve c = Some s \<longrightarrow> serve_ok e (o_disco_key opts) evs s)"

lemma refsI:
  "(k, q) \<in> set (c_peers c) \<Longrightarrow> q \<in> refs c"
  "(k, q) \<in> set (c_by_disco c) \<Longrightarrow> q \<in> refs c"
  "(a, q) \<in> set (c_by_addr c) \<Longrightarrow> q \<in> refs c"
  unfolding refs_def by (rule UnI1, rule UnI1, force) (rule UnI1, rule UnI2, force, rule UnI2, force)

lemma refsE:
  assumes "q \<in> refs c"
  obtains k where "(k, q) \<in> set (c_peers c)" | k where "(k, q) \<in> set (c_by_disco c)" | a where "(a, q) \<in> set (c_by_addr c)"
  using assms by (auto simp: refs_def)

lemma mesh_inv_view:
  assumes "view c' = view c" and "mesh_inv e opts evs c"
  shows "mesh_inv e opts evs c'"
proof -
  have eqs: "\<And>q. path_of (c_heap c' q) = path_of (c_heap c q)" "c_by_addr c' = c_by_addr c" "c_by_disco c' = c_by_disco c"
    "c_peers c' = c_peers c" "c_relay_serve c' = c_relay_serve c" "c_opts c' = c_opts c" "c_next c' = c_next c"
    using assms(1) view_heap [OF assms(1)] by (simp_all add: view_def)
  show ?thesis using assms(2) unfolding mesh_inv_def refs_def eqs .
qed

lemma got_mono: "set evs \<subseteq> set evs' \<Longrightarrow> got e priv evs t a d m \<Longrightarrow> got e priv evs' t a d m"
  unfolding got_def by blast

lemma got_hello_mono: "set evs \<subseteq> set evs' \<Longrightarrow> got_hello e priv evs t a d m \<Longrightarrow> got_hello e priv evs' t a d m"
  unfolding got_hello_def by blast

lemma configured_mono: "set evs \<subseteq> set evs' \<Longrightarrow> configured evs k d \<Longrightarrow> configured evs' k d"
  unfolding configured_def by blast

lemma listed_mono: "set evs \<subseteq> set evs' \<Longrightarrow> listed evs k d \<Longrightarrow> listed evs' k d"
  unfolding listed_def by blast

lemma ponged_mono: "set evs \<subseteq> set evs' \<Longrightarrow> ponged e priv evs t a d \<Longrightarrow> ponged e priv evs' t a d"
  unfolding ponged_def using got_mono by blast

lemma path_ok_mono: "set evs \<subseteq> set evs' \<Longrightarrow> path_ok e priv evs p \<Longrightarrow> path_ok e priv evs' p"
  by (cases p) (auto intro: configured_mono ponged_mono)

lemma heard_from_mono: "set evs \<subseteq> set evs' \<Longrightarrow> heard_from e priv evs a d \<Longrightarrow> heard_from e priv evs' a d"
  unfolding heard_from_def using got_mono by blast

lemma registered_mono: "set evs \<subseteq> set evs' \<Longrightarrow> registered e priv evs nk a t \<Longrightarrow> registered e priv evs' nk a t"
  unfolding registered_def using got_hello_mono listed_mono by blast

lemma serve_ok_mono: "set evs \<subseteq> set evs' \<Longrightarrow> serve_ok e priv evs s \<Longrightarrow> serve_ok e priv evs' s"
  unfolding serve_ok_def by (metis registered_mono listed_mono)

lemma mesh_inv_mono:
  assumes sub: "set evs \<subseteq> set evs'" and inv: "mesh_inv e opts evs c"
  shows "mesh_inv e opts evs' c"
  using inv path_ok_mono [OF sub] heard_from_mono [OF sub] serve_ok_mono [OF sub]
  by (simp add: mesh_inv_def)

lemma mesh_inv_peer:
  assumes inv: "mesh_inv e opts evs c" and sv: "c_relay_serve c' = c_relay_serve c" and op: "c_opts c' = c_opts c"
    and nx: "c_next c \<le> c_next c'"
    and old: "\<And>q. q < c_next c \<Longrightarrow> path_ok e (o_disco_key opts) evs (path_of (c_heap c q)) \<Longrightarrow>
        path_ok e (o_disco_key opts) evs (path_of (c_heap c' q)) \<and>
        fst (path_of (c_heap c' q)) = fst (path_of (c_heap c q)) \<and>
        fst (snd (path_of (c_heap c' q))) = fst (snd (path_of (c_heap c q)))"
    and peers: "c_peers c' = c_peers c" "c_by_disco c' = c_by_disco c"
    and addr: "\<And>a q. (a, q) \<in> set (c_by_addr c') \<Longrightarrow> (a, q) \<in> set (c_by_addr c) \<or>
        q \<in> snd ` set (c_by_disco c) \<and> heard_from e (o_disco_key opts) evs a (fst (snd (path_of (c_heap c q))))"
  shows "mesh_inv e opts evs c'"
proof -
  have addr_refs: "q \<in> refs c" if "(a, q) \<in> set (c_by_addr c')" for a q
    using addr [OF that] by (auto intro: refsI)
  have refs: "q \<in> refs c" if "q \<in> refs c'" for q
    using that by (rule refsE) (auto simp: peers intro: refsI addr_refs)
  have same: "path_ok e (o_disco_key opts) evs (path_of (c_heap c' q))" "fst (path_of (c_heap c' q)) = fst (path_of (c_heap c q))"
    "fst (snd (path_of (c_heap c' q))) = fst (snd (path_of (c_heap c q)))" "q < c_next c'" if "q \<in> refs c" for q
    using inv old [of q] that nx by (auto simp: mesh_inv_def)
  have h: "heard_from e (o_disco_key opts) evs a (fst (snd (path_of (c_heap c' q))))" if "(a, q) \<in> set (c_by_addr c')" for a q
    using inv addr [OF that] same(3) [OF addr_refs [OF that]] by (auto simp: mesh_inv_def simp del: split_paired_All)
  show ?thesis
    unfolding mesh_inv_def
    using inv same refs refsI [of _ _ c] h by (auto simp: mesh_inv_def sv op peers simp del: split_paired_All)
qed

section \<open>Operations that change the view\<close>

lemma set_update_sub: "(x, y) \<in> set (AList.update k v xs) \<Longrightarrow> x = k \<and> y = v \<or> (x, y) \<in> set xs"
  by (induction xs) (auto split: if_splits)

lemma set_delete_sub: "set (AList.delete k xs) \<subseteq> set xs"
  by (auto simp: AList.delete_eq)

lemma mesh_inv_sub:
  assumes inv: "mesh_inv e opts evs c" and "c_relay_serve c' = c_relay_serve c" "c_opts c' = c_opts c"
    and nx: "c_next c \<le> c_next c'" and heap: "\<And>q. q < c_next c \<Longrightarrow> path_of (c_heap c' q) = path_of (c_heap c q)"
    and sub: "set (c_peers c') \<subseteq> set (c_peers c)" "set (c_by_disco c') \<subseteq> set (c_by_disco c)" "set (c_by_addr c') \<subseteq> set (c_by_addr c)"
  shows "mesh_inv e opts evs c'"
proof -
  have refs: "q \<in> refs c" if "q \<in> refs c'" for q
    using that sub by (auto intro: refsI elim!: refsE)
  have lt: "q < c_next c" if "q \<in> refs c" for q using inv that by (simp add: mesh_inv_def)
  have eq: "path_of (c_heap c' q) = path_of (c_heap c q)" if "q \<in> refs c'" for q
    using heap lt refs that by blast
  show ?thesis unfolding mesh_inv_def
  proof (intro conjI ballI allI impI)
    fix q assume q: "q \<in> refs c'"
    show "q < c_next c'" using lt [OF refs [OF q]] nx by simp
    show "path_ok e (o_disco_key opts) evs (path_of (c_heap c' q))"
      using inv refs [OF q] by (simp add: eq [OF q] mesh_inv_def)
  next
    fix k q assume "(k, q) \<in> set (c_peers c')"
    then show "fst (path_of (c_heap c' q)) = k" using inv sub eq [OF refsI(1)] by (auto simp: mesh_inv_def)
  next
    fix k q assume "(k, q) \<in> set (c_by_disco c')"
    then show "fst (snd (path_of (c_heap c' q))) = k" using inv sub eq [OF refsI(2)] by (auto simp: mesh_inv_def)
  next
    fix a q assume a: "(a, q) \<in> set (c_by_addr c')"
    then show "heard_from e (o_disco_key opts) evs a (fst (snd (path_of (c_heap c' q))))"
      using inv sub eq [OF refsI(3) [OF a]] by (auto simp: mesh_inv_def simp del: split_paired_All)
  qed (use inv assms in \<open>simp_all add: mesh_inv_def\<close>)
qed

lemma forget_inv: "mesh_inv e opts evs c \<Longrightarrow> mesh_inv e opts evs (forget_peer q c)"
  by (erule mesh_inv_sub) (auto simp: forget_peer_def dest: subsetD [OF set_delete_sub])

lemma drop_peer_inv:
  assumes inv: "mesh_inv e opts evs c"
  shows "mesh_inv e opts evs (drop_peer keep kq c)"
proof -
  have "mesh_inv e opts evs (c1\<lparr>c_peers := AList.delete k (c_peers c1)\<rparr>)" if "mesh_inv e opts evs c1" for c1 k
    using that by (rule mesh_inv_sub) (auto dest: subsetD [OF set_delete_sub])
  then show ?thesis using inv forget_inv [OF inv] by (simp add: drop_peer_def Let_def)
qed

lemma path_of_new [simp]: "path_of (new_peer cfg) = (pc_node_key cfg, pc_disco_key cfg, no_ap, zero_time)"
  by (simp add: path_of_def new_peer_def)

lemma alloc_inv:
  assumes inv: "mesh_inv e opts evs c" and cfg: "configured evs (pc_node_key cfg) (pc_disco_key cfg)"
  shows "mesh_inv e opts evs (c\<lparr>c_next := Suc (c_next c), c_heap := (c_heap c)(c_next c := new_peer cfg),
    c_peers := AList.update (pc_node_key cfg) (c_next c) (c_peers c)\<rparr>)" (is "mesh_inv e opts evs ?c'")
proof -
  have refs: "q = c_next c \<or> q \<in> refs c" if "q \<in> refs ?c'" for q
    using that by (rule refsE) (auto dest!: set_update_sub intro: refsI)
  have lt: "q < c_next c" if "q \<in> refs c" for q using inv that by (simp add: mesh_inv_def)
  show ?thesis unfolding mesh_inv_def
  proof (intro conjI ballI allI impI)
    fix q assume "q \<in> refs ?c'"
    from refs [OF this] show "q < c_next ?c'" "path_ok e (o_disco_key opts) evs (path_of (c_heap ?c' q))"
      using inv lt cfg by (auto simp: mesh_inv_def intro: less_SucI)
  next
    fix k q assume "(k, q) \<in> set (c_peers ?c')"
    then show "fst (path_of (c_heap ?c' q)) = k"
      using inv lt [OF refsI(1)] by (fastforce dest!: set_update_sub simp: mesh_inv_def)
  next
    fix k q assume "(k, q) \<in> set (c_by_disco ?c')"
    then have k: "(k, q) \<in> set (c_by_disco c)" by simp
    show "fst (snd (path_of (c_heap ?c' q))) = k"
      using inv lt [OF refsI(2) [OF k]] k by (simp add: mesh_inv_def)
  next
    fix a q assume "(a, q) \<in> set (c_by_addr ?c')"
    then have a: "(a, q) \<in> set (c_by_addr c)" by simp
    show "heard_from e (o_disco_key opts) evs a (fst (snd (path_of (c_heap ?c' q))))"
      using inv lt [OF refsI(3) [OF a]] a by (simp add: mesh_inv_def del: split_paired_All)
  qed (use inv in \<open>simp_all add: mesh_inv_def\<close>)
qed

lemma by_disco_inv:
  assumes inv: "mesh_inv e opts evs c" and q: "q \<in> refs c" "fst (snd (path_of (c_heap c q))) = d"
  shows "mesh_inv e opts evs (c\<lparr>c_by_disco := AList.update d q (c_by_disco c)\<rparr>)" (is "mesh_inv e opts evs ?c'")
proof -
  have refs: "r \<in> refs c" if "r \<in> refs ?c'" for r
    using that by (rule refsE) (auto dest!: set_update_sub intro: refsI q)
  show ?thesis unfolding mesh_inv_def
    using inv refs q by (auto dest!: set_update_sub simp: mesh_inv_def)
qed

lemma find_peer_inv:
  assumes inv: "mesh_inv e opts evs c" and cfg: "configured evs (pc_node_key cfg) (pc_disco_key cfg)"
    and find: "find_peer cfg c = (q, c1)"
  shows "mesh_inv e opts evs c1 \<and> q \<in> refs c1 \<and> fst (snd (path_of (c_heap c1 q))) = pc_disco_key cfg"
proof -
  let ?new = "\<lambda>c. c\<lparr>c_next := Suc (c_next c), c_heap := (c_heap c)(c_next c := new_peer cfg),
      c_peers := AList.update (pc_node_key cfg) (c_next c) (c_peers c)\<rparr>"
  have upd: "(k, v) \<in> set (AList.update k v xs)" for k :: key32 and v :: nat and xs by (induction xs) auto
  have new: "mesh_inv e opts evs (?new c') \<and> c_next c' \<in> refs (?new c') \<and>
      fst (snd (path_of (c_heap (?new c') (c_next c')))) = pc_disco_key cfg" if "mesh_inv e opts evs c'" for c'
    using alloc_inv [OF that cfg] refsI(1) [of "pc_node_key cfg" "c_next c'" "?new c'"] upd by simp
  show ?thesis
  proof (cases "map_of (c_peers c) (pc_node_key cfg)")
    case None
    then show ?thesis using find new [OF inv] by (auto simp: find_peer_def)
  next
    case (Some r)
    then show ?thesis
      using find new [OF forget_inv [OF inv], of r] inv refsI(1) [OF map_of_SomeD [OF Some]]
      by (cases "p_disco_key (c_heap c r) = pc_disco_key cfg") (auto simp: find_peer_def path_of_def)
  qed
qed

lemma set_peer_inv:
  assumes inv: "mesh_inv e opts evs c" and cfg: "configured evs (pc_node_key cfg) (pc_disco_key cfg)"
  shows "mesh_inv e opts evs (set_peer cfg c)"
proof -
  obtain q c1 where find: "find_peer cfg c = (q, c1)" by force
  let ?f = "\<lambda>p. p\<lparr>p_cfg := cfg\<lparr>pc_endpoints := usable (c_opts c) (pc_endpoints cfg)\<rparr>,
      p_candidates := merge_addrs (usable (c_opts c) (pc_endpoints cfg)) (p_candidates p)\<rparr>"
  have v: "view (upd_peer q ?f c1) = view c1" by simp
  note i = find_peer_inv [OF inv cfg find]
  have "mesh_inv e opts evs (upd_peer q ?f c1)" using mesh_inv_view [OF v] i by blast
  moreover have "q \<in> refs (upd_peer q ?f c1)" using i by (simp add: refs_def)
  moreover have "fst (snd (path_of (c_heap (upd_peer q ?f c1) q))) = pc_disco_key cfg"
    using i view_heap [OF v, of q] by simp
  ultimately have "mesh_inv e opts evs ((upd_peer q ?f c1)\<lparr>c_by_disco := AList.update (pc_disco_key cfg) q (c_by_disco (upd_peer q ?f c1))\<rparr>)"
    by (rule by_disco_inv)
  then show ?thesis unfolding set_peer_def Let_def find by simp
qed

lemma fold_inv:
  assumes "\<And>x c. x \<in> set xs \<Longrightarrow> mesh_inv e opts evs c \<Longrightarrow> mesh_inv e opts evs (f x c)" and "mesh_inv e opts evs c"
  shows "mesh_inv e opts evs (fold f xs c)"
  using assms by (induction xs arbitrary: c) auto

lemma set_peers_inv:
  assumes inv: "mesh_inv e opts evs c" and ev: "EvSetPeers cfgs \<in> set evs"
  shows "mesh_inv e opts evs (set_peers cfgs c)"
proof -
  have "configured evs (pc_node_key cfg) (pc_disco_key cfg)" if "cfg \<in> set cfgs" for cfg
    using ev that unfolding configured_def by blast
  then have "mesh_inv e opts evs (fold set_peer cfgs c)" by (intro fold_inv set_peer_inv inv) auto
  then show ?thesis unfolding set_peers_def Let_def by (rule fold_inv [rotated]) (rule drop_peer_inv)
qed

lemma pong_direct_path:
  "path_of (pong_direct now src lat p) = path_of p \<or>
   path_of (pong_direct now src lat p) = (p_node_key p, p_disco_key p, src, now)"
  by (auto simp: pong_direct_def path_of_def Let_def)

lemma heard_by_addr_inv:
  assumes inv: "mesh_inv e opts evs c" and q: "map_of (c_by_disco c) d = Some q"
    and heard: "heard_from e (o_disco_key opts) evs a d"
    and p: "path_of p = path_of (c_heap c q) \<or>
      path_of p = (p_node_key (c_heap c q), p_disco_key (c_heap c q), a, now) \<and>
        ponged e (o_disco_key opts) evs now a d"
  shows "mesh_inv e opts evs (c\<lparr>c_by_addr := AList.update a q (c_by_addr c), c_heap := (c_heap c)(q := p)\<rparr>)"
proof -
  have dq: "(d, q) \<in> set (c_by_disco c)" by (rule map_of_SomeD [OF q])
  then have d: "fst (snd (path_of (c_heap c q))) = d" using inv by (auto simp: mesh_inv_def)
  have pok: "path_ok e (o_disco_key opts) evs (path_of (c_heap c q))"
    using inv refsI(2) [OF dq] by (simp add: mesh_inv_def)
  then have new: "path_ok e (o_disco_key opts) evs (path_of p)" "fst (path_of p) = fst (path_of (c_heap c q))"
    "fst (snd (path_of p)) = fst (snd (path_of (c_heap c q)))"
    using p d by (auto simp: path_of_def)
  show ?thesis
  proof (rule mesh_inv_peer [OF inv])
    fix b r assume "(b, r) \<in> set (c_by_addr (c\<lparr>c_by_addr := AList.update a q (c_by_addr c), c_heap := (c_heap c)(q := p)\<rparr>))"
    then have "b = a \<and> r = q \<or> (b, r) \<in> set (c_by_addr c)" by (auto dest!: set_update_sub)
    then show "(b, r) \<in> set (c_by_addr c) \<or>
        r \<in> snd ` set (c_by_disco c) \<and> heard_from e (o_disco_key opts) evs b (fst (snd (path_of (c_heap c r))))"
      using heard d dq by force
  qed (use new in auto)
qed

lemma handle_disco_inv:
  assumes inv: "mesh_inv e opts evs c" and ev: "EvUDP now ifs src pkt \<in> set evs" and a: "a = unmap_ap src"
  shows "mesh_inv e opts evs (handle_disco e now pkt (udp_path a) k c)"
proof (cases "ap_valid a")
  case False
  then show ?thesis using mesh_inv_view [OF view_handle_disco_relayed inv, of "udp_path a"] by simp
next
  case valid: True
  have opts: "c_opts c = opts" using inv by (simp add: mesh_inv_def)
  obtain d r where opened: "open_packet (e_open e) (o_disco_key opts) pkt = (d, r)" by force
  have got: "got e (o_disco_key opts) evs now a d m" if "r = Inr m" for m
    using ev a opened that unfolding got_def by blast
  show ?thesis
  proof (cases r)
    case (Inl err)
    then show ?thesis using inv by (simp add: handle_disco_def opts opened)
  next
    case msg: (Inr m)
    show ?thesis
    proof (cases "map_of (c_by_disco c) d")
      case None
      then show ?thesis using inv by (simp add: handle_disco_def opts opened msg)
    next
      case q: (Some q)
      have ping: "mesh_inv e opts evs (handle_ping e q d tx nk psk (udp_path a) c)" if "m = Ping tx nk psk" for tx nk psk
      proof -
        let ?p = "(c_heap c q)\<lparr>p_candidates := merge_addrs [a] (p_candidates (c_heap c q))\<rparr>"
        have "heard_from e (o_disco_key opts) evs a d" using got msg that unfolding heard_from_def by blast
        then have "mesh_inv e opts evs (c\<lparr>c_by_addr := AList.update a q (c_by_addr c), c_heap := (c_heap c)(q := ?p)\<rparr>)"
          by (rule heard_by_addr_inv [OF inv q]) simp
        then have "mesh_inv e opts evs (handle_ping e q d tx nk psk (udp_path a) c)" if "nk = p_node_key (c_heap c q)"
          by (rule mesh_inv_view [rotated]) (use that valid in \<open>simp add: handle_ping_def seal_to_def Let_def\<close>)
        then show ?thesis using inv by (cases "nk = p_node_key (c_heap c q)") (auto simp: handle_ping_def)
      qed
      have pong: "mesh_inv e opts evs (handle_pong now q tx (udp_path a) c)" if "m = Pong tx x" for tx x
      proof (cases "map_of (p_pings (c_heap c q)) tx")
        case None
        then show ?thesis using inv by (simp add: handle_pong_def)
      next
        case (Some ps)
        let ?p = "(c_heap c q)\<lparr>p_pings := AList.delete tx (p_pings (c_heap c q))\<rparr>"
        let ?p' = "pong_direct now a (time_sub now (ps_sent ps)) ?p"
        have "heard_from e (o_disco_key opts) evs a d" using got msg that unfolding heard_from_def by blast
        moreover have "ponged e (o_disco_key opts) evs now a d" using got msg that unfolding ponged_def by blast
        moreover have "path_of ?p' = path_of (c_heap c q) \<or>
            path_of ?p' = (p_node_key (c_heap c q), p_disco_key (c_heap c q), a, now)"
          using pong_direct_path [of now a "time_sub now (ps_sent ps)" ?p] by simp
        ultimately have i: "mesh_inv e opts evs (c\<lparr>c_by_addr := AList.update a q (c_by_addr c), c_heap := (c_heap c)(q := ?p')\<rparr>)"
          by (intro heard_by_addr_inv [OF inv q]) auto
        have "view (handle_pong now q tx (udp_path a) c) = view (if ps_to ps = a
            then c\<lparr>c_by_addr := AList.update a q (c_by_addr c), c_heap := (c_heap c)(q := ?p')\<rparr> else c)"
          using Some valid by (simp add: handle_pong_def Let_def split: option.splits)
        then show ?thesis by (rule mesh_inv_view) (use i inv in simp)
      qed
      show ?thesis using ping pong inv
        by (auto simp: handle_disco_def opts opened msg q intro: mesh_inv_view [OF _ inv] split: message.splits)
    qed
  qed
qed

lemma register_ok:
  assumes ok: "serve_ok e priv evs s" and r: "registered e priv evs nk src now"
  shows "serve_ok e priv evs (register_client now nk src s)"
  using assms by (auto simp: serve_ok_def register_client_def Let_def update_conv' split: if_splits)

lemma serve_inv:
  assumes inv: "mesh_inv e opts evs c" and "\<And>s. x = Some s \<Longrightarrow> serve_ok e (o_disco_key opts) evs s"
  shows "mesh_inv e opts evs (c\<lparr>c_relay_serve := x\<rparr>)"
  using assms by (simp add: mesh_inv_def refs_def del: split_paired_All)

lemma handle_hello_inv:
  assumes inv: "mesh_inv e opts evs c" and ev: "EvUDP now ifs src pkt \<in> set evs" and a: "a = unmap_ap src"
  shows "mesh_inv e opts evs (handle_hello e now (drop relay_header pkt) a c)"
proof -
  have opts: "c_opts c = opts" using inv by (simp add: mesh_inv_def)
  obtain d r where opened: "open_packet (e_open e) (o_disco_key opts) (drop relay_header pkt) = (d, r)" by force
  have "serve_ok e (o_disco_key opts) evs (register_client now nk a s)"
    if "r = Inr (Ping tx nk psk)" "c_relay_serve c = Some s" "(case map_of (sv_clients s) d of None \<Rightarrow> 0 | Some k \<Rightarrow> k) = nk" for tx nk psk s
  proof -
    have ok: "serve_ok e (o_disco_key opts) evs s" using inv that(2) by (simp add: mesh_inv_def)
    then have "listed evs d nk \<or> nk = 0" using that(3) by (auto simp: serve_ok_def split: option.splits)
    moreover have "got_hello e (o_disco_key opts) evs now a d (Ping tx nk psk)"
      using ev a opened that(1) unfolding got_hello_def by blast
    ultimately have "registered e (o_disco_key opts) evs nk a now" unfolding registered_def by blast
    then show ?thesis by (rule register_ok [OF ok])
  qed
  then have serve: "mesh_inv e opts evs (c\<lparr>c_relay_serve := Some (register_client now nk a s)\<rparr>)"
    if "r = Inr (Ping tx nk psk)" "c_relay_serve c = Some s" "(case map_of (sv_clients s) d of None \<Rightarrow> 0 | Some k \<Rightarrow> k) = nk" for tx nk psk s
    using serve_inv [OF inv, of "Some (register_client now nk a s)"] that by simp
  have ping: "mesh_inv e opts evs (handle_hello e now (drop relay_header pkt) a c)" if r: "r = Inr (Ping tx nk psk)" for tx nk psk
  proof (cases "c_relay_serve c")
    case None
    then show ?thesis using inv by (simp add: handle_hello_def opts opened r)
  next
    case (Some s)
    show ?thesis
    proof (cases "(case map_of (sv_clients s) d of None \<Rightarrow> 0 | Some k \<Rightarrow> k) = nk")
      case True
      show ?thesis
        by (rule mesh_inv_view [OF _ serve [OF r Some True]]) (simp add: handle_hello_def opts opened r Some True seal_to_def)
    next
      case False
      then show ?thesis using inv by (simp add: handle_hello_def opts opened r Some)
    qed
  qed
  have pong: "mesh_inv e opts evs (handle_hello e now (drop relay_header pkt) a c)" if r: "r = Inr (Pong tx x)" for tx x
    by (rule mesh_inv_view [OF _ inv]) (simp add: handle_hello_def opts opened r split: option.splits)
  show ?thesis
    using ping pong inv by (cases r; cases "projr r") (auto simp: handle_hello_def opts opened)
qed

lemma set_relay_clients_inv:
  assumes inv: "mesh_inv e opts evs c" and ev: "EvSetRelayClients cl \<in> set evs"
  shows "mesh_inv e opts evs (set_relay_clients cl c)"
proof -
  have drop: "serve_ok e (o_disco_key opts) evs (fold (drop_registration al) rs s)" if "serve_ok e (o_disco_key opts) evs s" for al rs s
  proof -
    have "serve_ok e (o_disco_key opts) evs (drop_registration al kr s)" if "serve_ok e (o_disco_key opts) evs s" for kr s
      using that by (simp add: drop_registration_def serve_ok_def delete_conv')
    then show ?thesis using that by (induction rs arbitrary: s) auto
  qed
  have "serve_ok e (o_disco_key opts) evs (s\<lparr>sv_clients := l\<rparr>)"
    if "cl = Some l" "c_relay_serve c = Some s \<or> s = \<lparr>sv_clients = [], sv_reg = [], sv_by_addr = []\<rparr>" for l s
    using inv ev that by (auto simp: mesh_inv_def serve_ok_def listed_def simp del: split_paired_All)
  then show ?thesis
    unfolding set_relay_clients_def Let_def
    by (auto intro!: serve_inv [OF inv] drop split: option.splits)
qed

lemma set_peer_relays_inv:
  assumes inv: "mesh_inv e opts evs c"
  shows "mesh_inv e opts evs (set_peer_relays cfgs c)"
proof -
  have relay: "mesh_inv e opts evs (set_relay_config cfg c)" if "mesh_inv e opts evs c" for cfg c
    using that by (rule mesh_inv_sub) (auto simp: set_relay_config_def Let_def split: option.splits)
  have "view (drop_relay keep kr c) = view c" for keep kr c
    unfolding drop_relay_def Let_def by (auto intro!: trans [OF view_fold])
  then have drop: "mesh_inv e opts evs (drop_relay keep kr c)" if "mesh_inv e opts evs c" for keep kr c
    using mesh_inv_view that by blast
  show ?thesis unfolding set_peer_relays_def Let_def
    by (rule fold_inv [rotated], rule fold_inv [rotated], rule inv, erule relay, erule drop)
qed

lemma read_udp_inv:
  assumes inv: "mesh_inv e opts evs c" and ev: "EvUDP now ifs src pkt \<in> set evs"
  shows "mesh_inv e opts evs (read_udp e now ifs src pkt c)"
proof -
  note view = mesh_inv_view [OF _ inv]
  have "mesh_inv e opts evs (handle_relay_frame e now pkt (unmap_ap src) c)"
    using handle_hello_inv [OF inv ev refl] inv by (auto simp: handle_relay_frame_def Let_def intro: view)
  then show ?thesis
    using handle_disco_inv [OF inv ev refl] inv
    by (auto simp: read_udp_def Let_def unmap_ap_def [symmetric] intro: view split: option.splits)
qed

lemma mesh_step_inv:
  assumes "mesh_inv e opts evs c" and "ev \<in> set evs"
  shows "mesh_inv e opts evs (mesh_step e ev c)"
  using assms
  by (cases ev) (auto intro: read_udp_inv set_peers_inv set_peer_relays_inv set_relay_clients_inv mesh_inv_view [OF _ assms(1)])

lemma mesh_run_inv: "mesh_inv e opts evs (mesh_run e opts has6 port ifs evs)"
proof -
  have "mesh_inv e opts evs (update_endpoints ifs (new_mesh opts has6 port))"
    by (rule mesh_inv_view [OF view_update_endpoints]) (simp add: mesh_inv_def new_mesh_def refs_def)
  then show ?thesis unfolding mesh_run_def by (rule fold_inv [rotated]) (rule mesh_step_inv)
qed

end
