(* ===== verification/Mesh_Correct.thy ===== *)
theory Mesh_Correct
  imports Mesh_Inv
begin

text \<open>
  The properties of \<^verbatim>\<open>internal/meshconn\<close>, from the invariant of its runs and from its single
  operations, and a small network to try them on.
\<close>

section \<open>Other operations\<close>

lemma recv_fold: "(\<And>x c. c_recv (f x c) = c_recv c) \<Longrightarrow> c_recv (fold f xs c) = c_recv c"
  by (induction xs arbitrary: c) simp_all

lemma recv_send_disco [simp]: "c_recv (send_disco e q pkt path c) = c_recv c"
  by (simp add: send_disco_def write_udp_def relay_send_def Let_def split: option.splits prod.splits)

lemma recv_send_ping [simp]: "c_recv (send_ping e now q path reply c) = c_recv c"
  by (simp add: send_ping_def new_tx_def seal_to_def Let_def)

lemma recv_touch [simp]: "c_recv (touch_peer e now q c) = c_recv c"
  by (simp add: touch_peer_def touch_def discover_def ping_candidates_def probe_via_relays_def
      send_call_me_maybe_def seal_to_def recv_fold Let_def)

lemma touch_node_key [simp]: "p_node_key (c_heap (touch_peer e now q c) q') = p_node_key (c_heap c q')"
  using view_heap [OF view_touch, of e now q c q'] by (simp add: path_of_def)

lemma deliver_recv:
  "c_recv (deliver e now data q c) =
    (if length (c_recv c) < recv_queue then c_recv c @ [(data, p_node_key (c_heap c q))] else c_recv c)"
  by (simp add: deliver_def Let_def)

lemma time_sub_less_iff: "\<bar>d\<bar> < 2 ^ 63 - 1 \<Longrightarrow> time_sub t u < d \<longleftrightarrow> t - u < d"
  by (auto simp: time_sub_def)

lemma forward_out:
  assumes "c_out (forward e now dst payload a c) \<noteq> c_out c"
  obtains s src r b where "c_relay_serve c = Some s" "map_of (sv_reg s) src = Some r" "reg_addr r = a"
    "now - reg_seen r \<le> reg_ttl" "map_of (sv_reg s) dst = Some b" "now - reg_seen b \<le> reg_ttl"
    "c_out (forward e now dst payload a c) = c_out c @ [WriteUDP (relay_frame frame_from_relay src payload) (reg_addr b)]"
    | s src b where "c_relay_serve c = Some s" "map_of (sv_by_addr s) a = Some src" "map_of (sv_reg s) src = None" "a = no_ap"
proof -
  obtain s src b where s: "c_relay_serve c = Some s" "map_of (sv_by_addr s) a = Some src" "map_of (sv_reg s) dst = Some b"
    using assms by (auto simp: forward_def split: option.splits)
  show thesis
  proof (cases "map_of (sv_reg s) src")
    case None
    then have "a = no_ap" using assms s by (auto simp: forward_def Let_def split: if_splits)
    then show thesis using that(2) s None by blast
  next
    case (Some r)
    then have "reg_addr r = a" "time_sub now (reg_seen r) \<le> reg_ttl" "time_sub now (reg_seen b) \<le> reg_ttl"
      "c_out (forward e now dst payload a c) = c_out c @ [WriteUDP (relay_frame frame_from_relay src payload) (reg_addr b)]"
      using assms s by (auto simp: forward_def write_udp_def Let_def split: if_splits)
    then show thesis using that(1) [OF s(1) Some] s(3) by (simp add: time_sub_le_iff)
  qed
qed

lemma pong_direct_pings [simp]: "p_pings (pong_direct now a lat p) = p_pings p"
  by (simp add: pong_direct_def Let_def)

lemma pong_relay_pings [simp]: "p_pings (pong_relay now r lat p) = p_pings p"
  by (simp add: pong_relay_def Let_def)

lemma handle_ping_view:
  "view (handle_ping e q d tx nk psk path c) = view c \<or>
   view (handle_ping e q d tx nk psk path c) = view (c\<lparr>c_by_addr := AList.update (dp_udp path) q (c_by_addr c)\<rparr>)"
proof -
  have "view (c\<lparr>c_by_addr := b, c_heap := (c_heap c)(q := p)\<rparr>) = view (c\<lparr>c_by_addr := b\<rparr>)"
    if "path_of p = path_of (c_heap c q)" for b p
    using view_upd [of p "c\<lparr>c_by_addr := b\<rparr>" q] that by simp
  then show ?thesis by (auto simp: handle_ping_def seal_to_def Let_def)
qed

lemma handle_disco_cases:
  assumes "path_of (c_heap (handle_disco e now pkt path k c) q) \<noteq> path_of (c_heap c q)"
  obtains d tx x where "open_packet (e_open e) (o_disco_key (c_opts c)) pkt = (d, Inr (Pong tx x))"
    "map_of (c_by_disco c) d = Some q" "handle_disco e now pkt path k c = handle_pong now q tx path c"
proof -
  let ?c' = "handle_disco e now pkt path k c"
  have changed: "view ?c' \<noteq> view c" "view ?c' \<noteq> view (c\<lparr>c_by_addr := b\<rparr>)" for b
    using assms view_heap [of ?c' c q] view_heap [of ?c' "c\<lparr>c_by_addr := b\<rparr>" q] by auto
  obtain d m where o: "open_packet (e_open e) (o_disco_key (c_opts c)) pkt = (d, m)" by force
  obtain msg r where m: "m = Inr msg" "map_of (c_by_disco c) d = Some r"
    "\<not> (k \<noteq> 0 \<and> k \<noteq> p_node_key (c_heap c r))"
    using changed(1) by (auto simp: handle_disco_def o split: sum.splits option.splits if_splits)
  obtain tx x where pong: "msg = Pong tx x"
    using changed handle_ping_view [of e r d _ _ _ path c]
    by (cases msg) (auto simp: handle_disco_def o m split: if_splits)
  then have eq: "?c' = handle_pong now r tx path c" using m by (auto simp: handle_disco_def o)
  have "q = r"
    using assms by (auto simp: eq handle_pong_def Let_def split: option.splits if_splits)
  then show thesis using that [of d tx x] o m pong eq by simp
qed

section \<open>Properties\<close>

text \<open>Claim C5 (safety): a direct path is a proven path.  After any history of packets, calls and
  timers, when \<^verbatim>\<open>Send\<close> chooses a direct address for a peer, a pong sealed by that peer's disco key (one
  the network map gave for this node key) arrived from exactly that address less than 6.5 seconds
  ago.\<close>

theorem direct_path_proven:
  assumes c: "c = mesh_run e opts has6 port ifs evs"
    and peer: "map_of (c_peers c) k = Some q" and path: "choose_path now q c = (addr, via, probe)" "ap_valid addr"
  shows "\<exists>t d tx x. configured evs k d \<and> got e (o_disco_key opts) evs t addr d (Pong tx x) \<and> now - t < trust_duration"
proof -
  let ?p = "c_heap c q"
  have ok: "direct_ok now ?p" "addr = p_best_addr ?p"
    using path by (auto simp: choose_path_def Let_def split: if_splits option.splits)
  have inv: "mesh_inv e opts evs c" unfolding c by (rule mesh_run_inv)
  then have "path_ok e (o_disco_key opts) evs (path_of ?p)" "p_node_key ?p = k"
    using map_of_SomeD [OF peer] refsI(1) [OF map_of_SomeD [OF peer]] by (auto simp: mesh_inv_def path_of_def)
  then have "configured evs k (p_disco_key ?p)" "ponged e (o_disco_key opts) evs (p_last_pong ?p) addr (p_disco_key ?p)"
    using ok path(2) by (auto simp: path_of_def)
  moreover have "now - p_last_pong ?p < trust_duration" using ok(1) by (simp add: direct_ok_def time_sub_less_iff not_le)
  ultimately show ?thesis unfolding ponged_def by blast
qed

text \<open>Claim C18 (safety): no datagram is given to WireGuard under a false name.  A packet read from the
  UDP socket that is no control message and is queued as coming from node \<open>k\<close> came from an address at
  which a sealed ping or pong of \<open>k\<close>'s disco key was received before.\<close>

theorem delivered_from_verified:
  assumes c: "c = mesh_run e opts has6 port ifs evs"
    and data: "\<not> is_stun pkt" "\<not> is_relay_frame pkt" "\<not> is_disco pkt"
    and recv: "c_recv (read_udp e now ifs' src pkt c) = c_recv c @ [(pkt, k)]"
  shows "\<exists>d. configured evs k d \<and> heard_from e (o_disco_key opts) evs (unmap_ap src) d"
proof -
  have inv: "mesh_inv e opts evs c" unfolding c by (rule mesh_run_inv)
  obtain q where q: "map_of (c_by_addr c) (unmap_ap src) = Some q"
    using recv data by (auto simp: read_udp_def unmap_ap_def Let_def split: option.splits if_splits)
  have k: "p_node_key (c_heap c q) = k"
    using recv data q by (auto simp: read_udp_def unmap_ap_def [symmetric] Let_def deliver_recv split: if_splits)
  have "path_ok e (o_disco_key opts) evs (path_of (c_heap c q))"
    using inv refsI(3) [OF map_of_SomeD [OF q]] by (simp add: mesh_inv_def)
  moreover have "heard_from e (o_disco_key opts) evs (unmap_ap src) (p_disco_key (c_heap c q))"
    using inv map_of_SomeD [OF q] by (auto simp: mesh_inv_def path_of_def simp del: split_paired_All)
  ultimately show ?thesis using k by (auto simp: path_of_def)
qed

text \<open>Claim C26 (safety): a direct path is never taken over by a message nobody asked for.  A disco message
  changes a peer's direct path only if it is a pong of that peer's disco key that answers a ping still
  waiting, sent to the very address the pong came from; and the ping is then used up, so the same
  pong does nothing a second time.\<close>

theorem pong_needs_ping:
  assumes "path_of (c_heap (handle_disco e now pkt path k c) q) \<noteq> path_of (c_heap c q)"
  shows "\<exists>d tx x ps. open_packet (e_open e) (o_disco_key (c_opts c)) pkt = (d, Inr (Pong tx x)) \<and>
    map_of (c_by_disco c) d = Some q \<and> map_of (p_pings (c_heap c q)) tx = Some ps \<and>
    ap_valid (dp_udp path) \<and> ps_to ps = dp_udp path \<and>
    map_of (p_pings (c_heap (handle_disco e now pkt path k c) q)) tx = None"
  using assms
proof (rule handle_disco_cases)
  fix d tx x
  assume o: "open_packet (e_open e) (o_disco_key (c_opts c)) pkt = (d, Inr (Pong tx x))"
    and d: "map_of (c_by_disco c) d = Some q" and eq: "handle_disco e now pkt path k c = handle_pong now q tx path c"
  obtain ps where ps: "map_of (p_pings (c_heap c q)) tx = Some ps" "ap_valid (dp_udp path)" "ps_to ps = dp_udp path"
    using assms by (auto simp: eq handle_pong_def Let_def split: option.splits if_splits)
  then have "map_of (p_pings (c_heap (handle_pong now q tx path c) q)) tx = None"
    by (simp add: handle_pong_def Let_def delete_conv' split: option.splits)
  then show ?thesis using o d ps eq by auto
qed

text \<open>A peer relay forwards only for registered nodes.  After any history, a frame
  that \<^verbatim>\<open>forward\<close> passes on carries as its source the node key a sealed hello registered from the very
  address the frame came from, at most 75 seconds ago, and goes to the address the destination
  registered in the same way; a registration is for a node the control server listed, or for the
  zero key.\<close>

theorem relay_forwards_registered:
  assumes c: "c = mesh_run e opts has6 port ifs evs" and a: "ap_valid a"
    and out: "c_out (forward e now dst payload a c) \<noteq> c_out c"
  shows "\<exists>src b t u. c_out (forward e now dst payload a c) = c_out c @ [WriteUDP (relay_frame frame_from_relay src payload) b] \<and>
    registered e (o_disco_key opts) evs src a t \<and> now - t \<le> reg_ttl \<and>
    registered e (o_disco_key opts) evs dst b u \<and> now - u \<le> reg_ttl"
proof -
  have inv: "mesh_inv e opts evs c" unfolding c by (rule mesh_run_inv)
  show ?thesis using out
  proof (rule forward_out)
    fix s src r b
    assume s: "c_relay_serve c = Some s" "map_of (sv_reg s) src = Some r" "reg_addr r = a" "now - reg_seen r \<le> reg_ttl"
      "map_of (sv_reg s) dst = Some b" "now - reg_seen b \<le> reg_ttl"
      "c_out (forward e now dst payload a c) = c_out c @ [WriteUDP (relay_frame frame_from_relay src payload) (reg_addr b)]"
    then have "serve_ok e (o_disco_key opts) evs s" using inv by (simp add: mesh_inv_def)
    then have "registered e (o_disco_key opts) evs src a (reg_seen r)" "registered e (o_disco_key opts) evs dst (reg_addr b) (reg_seen b)"
      using s unfolding serve_ok_def by blast+
    then show ?thesis using s by blast
  next
    assume "a = no_ap"
    then show ?thesis using a by simp
  qed
qed

lemma recv_handle_stun [simp]: "c_recv (handle_stun ifs pkt c) = c_recv c"
  by (auto simp: handle_stun_def update_endpoints_def Let_def split: sum.splits stun_error.splits option.splits prod.splits)

lemma disco_not_control: "is_disco pkt \<Longrightarrow> \<not> is_stun pkt \<and> \<not> is_relay_frame pkt"
proof -
  assume d: "is_disco pkt"
  then obtain rest where "pkt = magic @ rest" unfolding is_disco_def by (metis append_take_drop_id)
  then show ?thesis by (auto simp: magic_def is_stun_def is_relay_frame_def relay_magic_def)
qed

definition wg_packet :: "bytes \<Rightarrow> bool" where
  "wg_packet pkt \<longleftrightarrow> (\<exists>t rest. pkt = t # 0 # 0 # 0 # rest \<and> t \<in> {1, 2, 3, 4})"

lemma wg_not_control:
  assumes "wg_packet pkt"
  shows "\<not> is_relay_frame pkt" "\<not> is_disco pkt"
    "is_stun pkt \<longleftrightarrow> 20 \<le> length pkt \<and> get_u32 (slice 4 8 pkt) = magic_cookie"
  using assms by (auto simp: wg_packet_def is_relay_frame_def relay_magic_def is_disco_def magic_def is_stun_def)

lemma smallest_step_bounds: "0 < s \<Longrightarrow> 0 < smallest_step s ps \<and> smallest_step s ps \<le> s"
  by (induction s ps rule: smallest_step.induct) (auto simp: Let_def intro: order.trans less_imp_le)

lemma predict_ip_bounds:
  assumes "(ip', port) \<in> set (predict_ip ip ports)"
  shows "ip' = ip \<and> (\<forall>p \<in> set ports. p < port) \<and> (\<exists>p \<in> set ports. \<exists>r \<in> set ports. p \<noteq> r)"
proof -
  let ?s = "remdups_adj (sort ports)"
  let ?step = "unat (smallest_step max_spray_step ?s)"
  have len: "\<not> length ?s < 2" using assms by (auto simp: predict_ip_def)
  obtain k where k: "ip' = ip" "1 \<le> k" "port = of_nat (unat (last ?s) + ?step * k)" "unat (last ?s) + ?step * k \<le> 65535"
    using assms len by (auto simp: predict_ip_def Let_def dest!: set_takeWhileD)
  have "0 < smallest_step max_spray_step ?s" using smallest_step_bounds [of max_spray_step ?s] by simp
  then have "0 < ?step" by (simp add: word_less_nat_alt)
  then have "0 < ?step * k" using k(2) by simp
  moreover have "unat (of_nat n :: u16) = n" if "n \<le> 65535" for n using that by (simp add: unat_of_nat)
  then have "unat port = unat (last ?s) + ?step * k" using k(3,4) by blast
  ultimately have last: "last ?s < port" by (simp add: word_less_nat_alt)
  have ne: "?s \<noteq> []" and srt: "sorted ?s" and st: "set ?s = set ports" using len by (auto intro: sorted_remdups_adj)
  have "p \<le> last ?s" if "p \<in> set ports" for p
    using that srt st ne by (metis last_conv_nth in_set_conv_nth sorted_nth_mono length_pos_if_in_set diff_less less_Suc_eq_le Suc_pred' zero_less_one)
  then have "\<forall>p \<in> set ports. p < port" using last by (auto intro: le_less_trans)
  moreover have "\<exists>p \<in> set ports. \<exists>r \<in> set ports. p \<noteq> r"
  proof -
    obtain x y zs where xy: "?s = x # y # zs" using len by (cases ?s; cases "tl ?s") auto
    then have "x \<noteq> y" by (metis distinct_adj_Cons_Cons distinct_adj_remdups_adj)
    then show ?thesis using st xy by auto
  qed
  ultimately show ?thesis using k(1) by blast
qed

lemma predict_ip_length: "length (predict_ip ip ports) \<le> spray_count"
  by (auto simp: predict_ip_def Let_def intro: order.trans [OF length_takeWhile_le])

definition seen_ports :: "addr_port list \<Rightarrow> addr \<Rightarrow> u16 set" where
  "seen_ports eps ip = {p. p \<noteq> 0 \<and> (\<exists>a. (a, p) \<in> set eps \<and> unmap a = ip)}"

definition ports_ok :: "addr_port list \<Rightarrow> (addr, u16 list) gomap \<Rightarrow> bool" where
  "ports_ok eps m \<longleftrightarrow> distinct (map fst m) \<and>
     (\<forall>ip. is4 ip \<and> \<not> is_link_local_unicast ip \<longrightarrow> set (ports_of m ip) = seen_ports eps ip) \<and>
     (\<forall>ip \<in> fst ` set m. is4 ip \<and> \<not> is_link_local_unicast ip)"

lemma ports_of_update [simp]: "ports_of (AList.update a ps m) ip = (if ip = a then ps else ports_of m ip)"
  by (simp add: ports_of_def update_conv')

lemma ports_ok_step:
  assumes "ports_ok eps m"
  shows "ports_ok (eps @ [ep]) (add_port ep m)"
proof -
  have seen: "seen_ports (eps @ [ep]) ip = seen_ports eps ip \<union> (if snd ep \<noteq> 0 \<and> unmap (fst ep) = ip then {snd ep} else {})" for ip
    by (cases ep) (auto simp: seen_ports_def)
  show ?thesis using assms
    by (auto simp: ports_ok_def add_port_def seen Let_def distinct_update dest!: set_update_sub)
qed

lemma ports_by_ip_ok: "ports_ok eps (ports_by_ip eps)"
proof -
  have "ports_ok (h @ eps) (fold add_port eps m)" if "ports_ok h m" for h m
    using that
  proof (induction eps arbitrary: h m)
    case (Cons ep eps)
    show ?case using Cons.IH [OF ports_ok_step [OF Cons.prems, of ep]] by simp
  qed simp
  moreover have "ports_ok [] []" by (simp add: ports_ok_def seen_ports_def ports_of_def)
  ultimately have "ports_ok ([] @ eps) (fold add_port eps [])" by blast
  then show ?thesis by (simp add: ports_by_ip_def)
qed

lemma predict_ports_ip:
  assumes "(ip, port) \<in> set (predict_ports eps)"
  shows "is4 ip \<and> \<not> is_link_local_unicast ip \<and> (\<forall>p \<in> seen_ports eps ip. p < port) \<and>
    (\<exists>p \<in> seen_ports eps ip. \<exists>r \<in> seen_ports eps ip. p \<noteq> r)"
proof -
  obtain a ps where e: "(a, ps) \<in> set (ports_by_ip eps)" "(ip, port) \<in> set (predict_ip a ps)"
    using assms by (auto simp: predict_ports_def)
  note b = predict_ip_bounds [OF e(2)]
  have ok: "ports_ok eps (ports_by_ip eps)" by (rule ports_by_ip_ok)
  then have "map_of (ports_by_ip eps) a = Some ps" "is4 a" "\<not> is_link_local_unicast a"
    using e(1) by (force simp: ports_ok_def)+
  moreover from this have "ports_of (ports_by_ip eps) a = ps" by (simp add: ports_of_def)
  ultimately have "set ps = seen_ports eps a" using ok by (auto simp: ports_ok_def)
  then show ?thesis using b \<open>is4 a\<close> \<open>\<not> is_link_local_unicast a\<close> by simp
qed

lemma predict_ports_few: "length (filter (\<lambda>x. fst x = ip) (predict_ports eps)) \<le> spray_count"
proof -
  have one: "fst x = a" if "x \<in> set (predict_ip a ps)" for x a ps
    using predict_ip_bounds [of "fst x" "snd x" a ps] that by simp
  have "length (filter (\<lambda>x. fst x = ip) (concat (map (\<lambda>(a, ps). predict_ip a ps) m))) \<le> spray_count \<and>
      (ip \<notin> fst ` set m \<longrightarrow> filter (\<lambda>x. fst x = ip) (concat (map (\<lambda>(a, ps). predict_ip a ps) m)) = [])"
    if "distinct (map fst m)" for m
    using that
  proof (induction m)
    case (Cons x m)
    obtain a ps where x: "x = (a, ps)" by force
    have "filter (\<lambda>x. fst x = ip) (predict_ip a ps) = (if a = ip then predict_ip a ps else [])"
      using one [of _ a ps] by (auto simp: filter_id_conv filter_empty_conv)
    then show ?case using Cons predict_ip_length [of a ps] by (auto simp: x)
  qed simp
  then show ?thesis using ports_by_ip_ok [of eps] by (simp add: predict_ports_def ports_ok_def)
qed

text \<open>Port prediction guesses only what its comment says.  Every predicted endpoint is
  a public IPv4 address that was seen with at least two different ports, with a port above every
  port seen there (the 16-bit port never wraps), and at most 16 are predicted per address.\<close>

theorem predict_ports_bounds:
  "(\<forall>(ip, port) \<in> set (predict_ports eps).
      is4 ip \<and> \<not> is_link_local_unicast ip \<and> (\<forall>p \<in> seen_ports eps ip. p < port) \<and>
      (\<exists>p \<in> seen_ports eps ip. \<exists>r \<in> seen_ports eps ip. p \<noteq> r)) \<and>
   length (filter (\<lambda>x. fst x = ip) (predict_ports eps)) \<le> spray_count"
  using predict_ports_ip predict_ports_few by blast

text \<open>WireGuard's packets reach WireGuard.  A packet with a WireGuard header from a
  verified address is queued for WireGuard under its peer's key, whatever it contains, unless the
  32 bits after the message type are the STUN magic cookie: then it is taken for STUN and lost.\<close>

theorem wireguard_demux:
  assumes "wg_packet pkt" and "\<not> filtered c (unmap_ap src)" and "map_of (c_by_addr c) (unmap_ap src) = Some q"
    and "length (c_recv c) < recv_queue"
  shows "c_recv (read_udp e now ifs src pkt c) =
    (if 20 \<le> length pkt \<and> get_u32 (slice 4 8 pkt) = magic_cookie then c_recv c
     else c_recv c @ [(pkt, p_node_key (c_heap c q))])"
proof -
  note [simp] = wg_not_control [OF assms(1)]
  show ?thesis using assms(2-) by (auto simp: read_udp_def Let_def unmap_ap_def [symmetric] deliver_recv)
qed

text \<open>A relay serves nodes nobody listed.  The sender of a sealed hello that names the zero
  node key is registered although the control server lists no client with its disco key, and the
  relay then forwards its frames to every registered client.\<close>

theorem relay_admits_unlisted:
  assumes serve: "c_relay_serve c = Some s" and unlisted: "map_of (sv_clients s) d = None"
    and hello: "open_packet (e_open e) (o_disco_key (c_opts c)) sealed = (d, Inr (Ping tx 0 psk))"
    and dst: "map_of (sv_reg s) dst = Some r" "dst \<noteq> 0" "now - reg_seen r \<le> reg_ttl"
    and socket: "\<not> filtered c (reg_addr r)" "is6 (fst (reg_addr r)) \<longrightarrow> c_has6 c"
  shows "WriteUDP (relay_frame frame_from_relay 0 payload) (reg_addr r)
    \<in> set (c_out (forward e now dst payload a (handle_hello e now sealed a c)))"
proof -
  let ?c = "handle_hello e now sealed a c"
  have c': "c_relay_serve ?c = Some (register_client now 0 a s)" "c_udp_filter ?c = c_udp_filter c" "c_has6 ?c = c_has6 c"
    using serve unlisted hello by (simp_all add: handle_hello_def seal_to_def write_udp_def)
  have "map_of (sv_by_addr (register_client now 0 a s)) a = Some 0"
    "map_of (sv_reg (register_client now 0 a s)) 0 = Some \<lparr>reg_addr = a, reg_seen = now\<rparr>"
    "map_of (sv_reg (register_client now 0 a s)) dst = Some r"
    using dst by (simp_all add: register_client_def Let_def update_conv')
  moreover have "\<not> time_sub now (reg_seen r) > reg_ttl" using dst(3) by (simp add: time_sub_le_iff not_less)
  ultimately show ?thesis
    using c' dst(1,2) socket by (auto simp: forward_def write_udp_def filtered_def)
qed

text \<open>Claim C40 (error): a node that changes its WireGuard key and keeps its disco key stops being heard.
  When a peer set replaces the old entry by one with the same disco key and a new node key, the new
  peer is installed, but the disco key is left unknown, so that every disco message of it is
  dropped.\<close>

theorem set_peers_loses_rekeyed:
  assumes peers: "c_peers c = [(k, q)]" and old: "p_disco_key (c_heap c q) = pc_disco_key cfg"
    and new: "pc_node_key cfg \<noteq> k" and fresh: "q < c_next c"
  defines "c' \<equiv> set_peers [cfg] c"
  shows "(\<exists>r. map_of (c_peers c') (pc_node_key cfg) = Some r \<and> p_disco_key (c_heap c' r) = pc_disco_key cfg) \<and>
    map_of (c_by_disco c') (pc_disco_key cfg) = None \<and>
    (open_packet (e_open e) (o_disco_key (c_opts c')) pkt = (pc_disco_key cfg, Inr m) \<longrightarrow> handle_disco e now pkt path rf c' = c')"
proof -
  have c': "map_of (c_peers c') (pc_node_key cfg) = Some (c_next c)" "p_disco_key (c_heap c' (c_next c)) = pc_disco_key cfg"
    "map_of (c_by_disco c') (pc_disco_key cfg) = None"
    using assms by (auto simp: set_peers_def set_peer_def find_peer_def drop_peer_def forget_peer_def new_peer_def
        Let_def delete_conv')
  then show ?thesis by (auto simp: handle_disco_def)
qed

lemma contains_other_family: "is4 (pfx_addr p) \<Longrightarrow> is6 a \<Longrightarrow> \<not> contains p a"
  by (cases "(p, a)" rule: contains.cases) (auto simp: is4_def is6_def)

text \<open>The exclusion of the mesh's own ranges has a hole.  An endpoint given as an
  IPv4-mapped IPv6 address passes the check whatever IPv4 ranges are excluded, and comes out as
  the IPv4 address.\<close>

theorem usable_admits_mapped:
  assumes "\<forall>p \<in> set (o_exclude opts). is4 (pfx_addr p)" and "drop_bit 32 m = 0xFFFF"
  shows "usable opts [(IPv6 m [], port)] = [(IPv4 (ucast m), port)]"
  using assms contains_other_family [of _ "IPv6 m []"]
  by (auto simp: usable_def excluded_def list_ex_iff ap_valid_def addr_valid_def is6_def)

subsection \<open>Witnesses\<close>

text \<open>A node with disco key 1 and a peer with node key 12 and disco key 2, which answers a ping.\<close>

definition demo_env :: mesh_env where
  "demo_env = \<lparr>e_seal = demo_seal, e_open = demo_open, e_pub = id, e_nonce = (\<lambda>_. 0), e_tx = of_nat, e_udp_ok = (\<lambda>_ _. True)\<rparr>"

definition demo_opts :: mesh_options where
  "demo_opts = \<lparr>o_disco_key = 1, o_node_key = 11, o_include_loopback = False, o_disable_direct = False, o_exclude = [],
     o_redundant = False, o_lazy_discovery = False, o_on_endpoints = False, o_on_pq = False, o_pskid = None, o_on_peer_pskid = False\<rparr>"

abbreviation demo_ap :: addr_port where "demo_ap \<equiv> (IPv4 0x01020304, 41641)"

definition demo_cfg :: peer_config where
  "demo_cfg = \<lparr>pc_name = ''b'', pc_node_key = 12, pc_disco_key = 2, pc_endpoints = [demo_ap]\<rparr>"

definition demo_pong :: bytes where
  "demo_pong = seal_packet demo_seal id 2 1 0 (Pong 2 demo_ap)"

definition demo_events :: "mesh_event list" where
  "demo_events = [EvSetPeers [demo_cfg], EvPing (100 * second) 12 0, EvUDP (101 * second) None demo_ap demo_pong]"

definition demo_mesh :: mesh where
  "demo_mesh = mesh_run demo_env demo_opts False 41641 None demo_events"

lemma demo_pong_open: "open_packet demo_open 1 demo_pong = (2, Inr (Pong 2 demo_ap))"
  using open_seal_packet [OF demo_box, of "Pong 2 demo_ap" 1 2 0] by (simp add: demo_pong_def wire_ap_def)

lemma demo_pong_disco: "is_disco demo_pong"
  using demo_pong_open by (auto simp: open_packet_def split: if_splits)

lemmas mesh_eval = demo_env_def demo_opts_def demo_cfg_def new_mesh_def update_endpoints_def set_peers_def set_peer_def
  find_peer_def drop_peer_def usable_def excluded_def merge_addrs_def add_addr_def ap_valid_def addr_valid_def new_peer_def
  ping_peer_def send_ping_def new_tx_def seal_to_def send_disco_def relay_send_def probe_via_relays_def ping_candidates_def
  write_udp_def filtered_def is6_def Let_def

definition demo_pinged :: mesh where
  "demo_pinged = mesh_step demo_env (EvPing (100 * second) 12 0)
     (mesh_step demo_env (EvSetPeers [demo_cfg]) (update_endpoints None (new_mesh demo_opts False 41641)))"

lemma demo_pinged_state:
  "c_peers demo_pinged = [(12, 0)]" "c_by_disco demo_pinged = [(2, 0)]" "c_opts demo_pinged = demo_opts"
  "c_udp_filter demo_pinged = None" "c_recv demo_pinged = []"
  "p_node_key (c_heap demo_pinged 0) = 12" "p_best_addr (c_heap demo_pinged 0) = no_ap" "p_probe_sent (c_heap demo_pinged 0) = zero_time"
  "p_last_pong (c_heap demo_pinged 0) = zero_time" "p_last_recv (c_heap demo_pinged 0) = zero_time"
  "map_of (p_pings (c_heap demo_pinged 0)) 2 =
     Some \<lparr>ps_to = demo_ap, ps_via_relay = None, ps_sent = 100 * second, ps_reply = Some 0\<rparr>"
  by (simp_all add: demo_pinged_def mesh_eval)

lemma demo_mesh_eq: "demo_mesh = handle_pong (101 * second) 0 2 (udp_path demo_ap) demo_pinged"
proof -
  have "demo_mesh = read_udp demo_env (101 * second) None demo_ap demo_pong demo_pinged"
    by (simp add: demo_mesh_def demo_pinged_def mesh_run_def demo_events_def)
  also have "\<dots> = handle_disco demo_env (101 * second) demo_pong (udp_path demo_ap) 0 demo_pinged"
    using disco_not_control [OF demo_pong_disco] demo_pong_disco by (simp add: read_udp_def filtered_def demo_pinged_state)
  also have "\<dots> = handle_pong (101 * second) 0 2 (udp_path demo_ap) demo_pinged"
    using demo_pong_open by (simp add: handle_disco_def demo_pinged_state demo_opts_def demo_env_def)
  finally show ?thesis .
qed

lemma demo_mesh_state:
  "map_of (c_peers demo_mesh) 12 = Some 0" "choose_path (102 * second) 0 demo_mesh = (demo_ap, no_ap, False)"
  "map_of (c_by_addr demo_mesh) demo_ap = Some 0" "c_udp_filter demo_mesh = None" "c_recv demo_mesh = []"
  "p_node_key (c_heap demo_mesh 0) = 12"
  by (simp_all add: demo_mesh_eq handle_pong_def demo_pinged_state pong_direct_def choose_path_def direct_ok_def probing_def
      ap_valid_def addr_valid_def time_sub_def zero_time_def Let_def update_conv')

theorem direct_path_proven_witness:
  "\<exists>t d tx x. configured demo_events 12 d \<and> got demo_env 1 demo_events t demo_ap d (Pong tx x) \<and>
    102 * second - t < trust_duration"
  using direct_path_proven [of demo_mesh demo_env demo_opts False 41641 None demo_events 12 0 "102 * second" demo_ap no_ap False]
    demo_mesh_state by (simp add: demo_mesh_def ap_valid_def addr_valid_def demo_opts_def)

theorem delivered_from_verified_witness:
  "\<exists>d. configured demo_events 12 d \<and> heard_from demo_env 1 demo_events demo_ap d"
proof -
  have wg: "wg_packet [4, 0, 0, 0]" by (auto simp: wg_packet_def)
  have "c_recv (read_udp demo_env (102 * second) None demo_ap [4, 0, 0, 0] demo_mesh) = c_recv demo_mesh @ [([4, 0, 0, 0], 12)]"
    using wg_not_control [OF wg] demo_mesh_state by (simp add: read_udp_def filtered_def deliver_recv)
  moreover have "\<not> is_stun [4, 0, 0, 0]" by (simp add: is_stun_def)
  ultimately have "\<exists>d. configured demo_events 12 d \<and> heard_from demo_env (o_disco_key demo_opts) demo_events (unmap_ap demo_ap) d"
    by (intro delivered_from_verified [OF demo_mesh_def _ wg_not_control(1,2) [OF wg]])
  then show ?thesis by (simp add: demo_opts_def unmap_ap_def)
qed

theorem pong_needs_ping_witness:
  "\<exists>d tx x ps. open_packet demo_open 1 demo_pong = (d, Inr (Pong tx x)) \<and>
    map_of (p_pings (c_heap demo_pinged 0)) tx = Some ps \<and> ps_to ps = demo_ap"
proof -
  have eq: "handle_disco demo_env (101 * second) demo_pong (udp_path demo_ap) 0 demo_pinged = demo_mesh"
    using demo_pong_open by (simp add: demo_mesh_eq handle_disco_def demo_pinged_state demo_opts_def demo_env_def)
  have "p_best_addr (c_heap demo_mesh 0) = demo_ap"
    using demo_mesh_state(2) by (auto simp: choose_path_def Let_def split: if_splits option.splits)
  then have "path_of (c_heap (handle_disco demo_env (101 * second) demo_pong (udp_path demo_ap) 0 demo_pinged) 0) \<noteq>
      path_of (c_heap demo_pinged 0)"
    unfolding eq by (simp add: path_of_def demo_pinged_state)
  from pong_needs_ping [OF this] show ?thesis by (auto simp: demo_pinged_state demo_env_def demo_opts_def)
qed

theorem wireguard_demux_witness:
  "c_recv (read_udp demo_env (102 * second) None demo_ap [4, 0, 0, 0] demo_mesh) = [([4, 0, 0, 0], 12)]"
  using wireguard_demux [of "[4, 0, 0, 0]" demo_mesh demo_ap 0 demo_env "102 * second" None]
  by (simp add: demo_mesh_state wg_packet_def filtered_def unmap_ap_def)

theorem set_peers_loses_rekeyed_witness:
  "map_of (c_by_disco (set_peers [demo_cfg\<lparr>pc_node_key := 14\<rparr>] demo_pinged)) 2 = None"
proof -
  have "p_disco_key (c_heap demo_pinged 0) = 2" "0 < c_next demo_pinged" by (simp_all add: demo_pinged_def mesh_eval)
  then show ?thesis
    using set_peers_loses_rekeyed [of demo_pinged 12 0 "demo_cfg\<lparr>pc_node_key := 14\<rparr>"]
    by (simp add: demo_pinged_state demo_cfg_def)
qed

theorem usable_admits_mapped_witness:
  "usable (demo_opts\<lparr>o_exclude := [Prefix (IPv4 0x64400000) 10]\<rparr>) [(IPv6 0xFFFF64400001 [], 1)] = [(IPv4 0x64400001, 1)]"
  using usable_admits_mapped [of "demo_opts\<lparr>o_exclude := [Prefix (IPv4 0x64400000) 10]\<rparr>" "0xFFFF64400001" 1]
  by (simp add: is4_def)

theorem predict_ports_bounds_witness:
  "length (filter (\<lambda>x. fst x = IPv4 1) (predict_ports [(IPv4 1, 100), (IPv4 1, 102)])) \<le> spray_count"
  using predict_ports_bounds [of "[(IPv4 1, 100), (IPv4 1, 102)]" "IPv4 1"] by blast

text \<open>A relay with two clients that said hello.\<close>

abbreviation demo_ap2 :: addr_port where "demo_ap2 \<equiv> (IPv4 0x05060708, 41641)"

definition demo_hello :: "key32 \<Rightarrow> key32 \<Rightarrow> bytes" where
  "demo_hello d nk = seal_packet demo_seal id d 1 0 (Ping 5 nk 0)"

definition demo_serve_events :: "mesh_event list" where
  "demo_serve_events = [EvSetRelayClients (Some [(2, 12), (3, 13)]), EvUDP 0 None demo_ap (hello_frame (demo_hello 2 12)),
     EvUDP 0 None demo_ap2 (hello_frame (demo_hello 3 13))]"

definition demo_serve :: mesh where
  "demo_serve = mesh_run demo_env demo_opts False 41641 None demo_serve_events"

lemma demo_hello_open: "open_packet demo_open 1 (demo_hello d nk) = (d, Inr (Ping 5 nk 0))"
  using open_seal_packet [OF demo_box, of "Ping 5 nk 0" 1 d 0] by (simp add: demo_hello_def)

lemma hello_frame_read:
  "handle_relay_frame e now (hello_frame b) a c = handle_hello e now b a c"
  "\<not> is_stun (hello_frame b)" "is_relay_frame (hello_frame b) \<longleftrightarrow> b \<noteq> []"
  by (simp_all add: handle_relay_frame_def hello_frame_def relay_magic_def is_stun_def is_relay_frame_def)

lemma demo_hello_nonempty [simp]: "demo_hello d nk \<noteq> []"
  by (simp add: demo_hello_def seal_packet_def magic_def)

lemma demo_serve_state:
  "c_relay_serve demo_serve = Some \<lparr>sv_clients = [(2, 12), (3, 13)],
     sv_reg = [(12, \<lparr>reg_addr = demo_ap, reg_seen = 0\<rparr>), (13, \<lparr>reg_addr = demo_ap2, reg_seen = 0\<rparr>)],
     sv_by_addr = [(demo_ap, 12), (demo_ap2, 13)]\<rparr>"
  "c_udp_filter demo_serve = None" "c_has6 demo_serve = False" "c_opts demo_serve = demo_opts"
  by (simp_all add: demo_serve_def demo_serve_events_def mesh_run_def read_udp_def hello_frame_read handle_hello_def
      demo_hello_open set_relay_clients_def register_client_def mesh_eval)

theorem relay_forwards_registered_witness:
  "\<exists>src t. registered demo_env 1 demo_serve_events src demo_ap t \<and> second - t \<le> reg_ttl"
proof -
  have "c_out (forward demo_env second 13 [9] demo_ap demo_serve) \<noteq> c_out demo_serve"
    by (simp add: forward_def demo_serve_state write_udp_def filtered_def is6_def time_sub_def)
  from relay_forwards_registered [OF demo_serve_def _ this] show ?thesis
    by (auto simp: ap_valid_def addr_valid_def demo_opts_def)
qed

theorem relay_admits_unlisted_witness:
  "WriteUDP (relay_frame frame_from_relay 0 [9]) demo_ap2
    \<in> set (c_out (forward demo_env second 13 [9] (IPv4 1, 1) (handle_hello demo_env second (demo_hello 7 0) (IPv4 1, 1) demo_serve)))"
  using relay_admits_unlisted [OF demo_serve_state(1), of 7 demo_env "demo_hello 7 0" 5 0 13 "\<lparr>reg_addr = demo_ap2, reg_seen = 0\<rparr>" second "[9]" "(IPv4 1, 1)"]
  by (simp add: demo_hello_open demo_serve_state demo_opts_def demo_env_def filtered_def is6_def)

end
