(* ===== verification/Pq.thy ===== *)
theory Pq
  imports Disco
begin

text \<open>
  \<^verbatim>\<open>internal/pq/pq.go\<close>: the exchange of post-quantum pre-shared keys.  The manager's operations are
  functions of its state and return, with the new state, the effects they decided on (messages to send
  and keys to apply), in order; \<^verbatim>\<open>run\<close> performs effects in that order.  ML-KEM, HKDF and SHA-256
  (\<^verbatim>\<open>crypto/mlkem\<close>, \<^verbatim>\<open>crypto/hkdf\<close>, \<^verbatim>\<open>crypto/sha256\<close>) are the parameters in \<open>kem\<close>, with a decapsulation key as
  its bytes; \<open>m_draws\<close> counts random draws.  A pre-shared key is a 256-bit word, zero for none.
\<close>

section \<open>Data\<close>

type_synonym psk = "256 word"

record kem =
  k_generate :: "nat \<Rightarrow> bytes option"
  k_encap_key :: "bytes \<Rightarrow> bytes"
  k_encapsulate :: "bytes \<Rightarrow> nat \<Rightarrow> (bytes \<times> bytes) option"
  k_decapsulate :: "bytes \<Rightarrow> bytes \<Rightarrow> bytes option"
  k_hkdf :: "bytes \<Rightarrow> bytes \<Rightarrow> bytes \<Rightarrow> bytes"
  k_sha256 :: "bytes \<Rightarrow> bytes"
  k_tx :: "nat \<Rightarrow> txid"

record timing =
  t_rotate :: duration
  t_retry :: duration
  t_grace :: duration
  t_tries :: int

record outgoing =
  og_tx :: txid
  og_dk :: bytes
  og_psk :: psk
  og_commit :: bool
  og_tries :: int
  og_last_sent :: time

record incoming =
  ic_tx :: txid
  ic_ct :: bytes
  ic_psk :: psk
  ic_applied :: bool

record peer_state =
  pq_psk :: psk
  pq_since :: time
  pq_out :: "outgoing option"
  pq_next_rotate :: time
  pq_in :: "incoming option"
  pq_mismatch_since :: time

record manager =
  m_self :: key32
  m_timing :: timing
  m_enabled :: bool
  m_peers :: "(key32, peer_state) gomap"
  m_draws :: nat

datatype pq_effect = PqSend key32 message | PqApply key32 psk

definition default_timing :: timing where
  "default_timing = \<lparr>t_rotate = 2 * minute, t_retry = second, t_grace = 6 * second, t_tries = 10\<rparr>"

definition new_manager :: "key32 \<Rightarrow> manager" where
  "new_manager self = \<lparr>m_self = self, m_timing = default_timing, m_enabled = False, m_peers = [], m_draws = 0\<rparr>"

definition new_peer_state :: "time \<Rightarrow> peer_state" where
  "new_peer_state now = \<lparr>pq_psk = 0, pq_since = zero_time, pq_out = None, pq_next_rotate = now, pq_in = None,
     pq_mismatch_since = zero_time\<rparr>"

section \<open>Operations\<close>

text \<open>\<^verbatim>\<open>bytes.Compare\<close> of two keys is the order of the big-endian numbers.\<close>

definition initiator :: "key32 \<Rightarrow> key32 \<Rightarrow> bool" where
  "initiator self peer \<longleftrightarrow> self < peer"

definition derive :: "kem \<Rightarrow> bytes \<Rightarrow> key32 \<Rightarrow> key32 \<Rightarrow> txid \<Rightarrow> psk" where
  "derive k shared init resp tx =
     bytes_array (k_hkdf k shared (ascii ''whalescale pq psk v1'') (array_bytes init @ array_bytes resp @ array_bytes tx))"

definition fingerprint :: "kem \<Rightarrow> psk \<Rightarrow> 64 word" where
  "fingerprint k psk =
     (if psk = 0 then 0
      else bytes_array (take 8 (k_sha256 k (ascii ''whalescale pq psk id'' @ [0] @ array_bytes psk))))"

definition pskid :: "kem \<Rightarrow> manager \<Rightarrow> key32 \<Rightarrow> 64 word" where
  "pskid k m peer = (case map_of (m_peers m) peer of None \<Rightarrow> 0 | Some ps \<Rightarrow> fingerprint k (pq_psk ps))"

definition pq_active :: "manager \<Rightarrow> key32 \<Rightarrow> bool \<times> time" where
  "pq_active m peer =
     (case map_of (m_peers m) peer of
        None \<Rightarrow> (False, zero_time)
      | Some ps \<Rightarrow> if pq_since ps \<noteq> zero_time then (True, pq_since ps) else (False, zero_time))"

definition set_psk :: "time \<Rightarrow> psk \<Rightarrow> peer_state \<Rightarrow> peer_state" where
  "set_psk now psk ps =
     ps\<lparr>pq_psk := psk, pq_mismatch_since := zero_time, pq_since := (if psk \<noteq> 0 then now else zero_time)\<rparr>"

text \<open>The branches of \<^verbatim>\<open>Handle\<close>, on the state of one peer.\<close>

definition answer_init :: "kem \<Rightarrow> nat \<Rightarrow> key32 \<Rightarrow> key32 \<Rightarrow> txid \<Rightarrow> bytes \<Rightarrow> peer_state \<Rightarrow> pq_effect list \<times> peer_state" where
  "answer_init k n self peer tx ek ps =
     (case k_encapsulate k ek n of
        None \<Rightarrow> ([], ps)
      | Some (shared, ct) \<Rightarrow>
          ([PqSend peer (PQReply tx ct)],
           ps\<lparr>pq_in := Some \<lparr>ic_tx = tx, ic_ct = ct, ic_psk = derive k shared peer self tx, ic_applied = False\<rparr>\<rparr>))"

definition handle_init :: "kem \<Rightarrow> nat \<Rightarrow> key32 \<Rightarrow> key32 \<Rightarrow> txid \<Rightarrow> bytes \<Rightarrow> peer_state \<Rightarrow> pq_effect list \<times> peer_state" where
  "handle_init k n self peer tx ek ps =
     (if initiator self peer then ([], ps)
      else case pq_in ps of
        Some i \<Rightarrow>
          if ic_tx i = tx then ([PqSend peer (PQReply tx (ic_ct i))], ps)
          else answer_init k n self peer tx ek ps
      | None \<Rightarrow> answer_init k n self peer tx ek ps)"

definition handle_reply :: "kem \<Rightarrow> time \<Rightarrow> key32 \<Rightarrow> key32 \<Rightarrow> txid \<Rightarrow> bytes \<Rightarrow> peer_state \<Rightarrow> pq_effect list \<times> peer_state" where
  "handle_reply k now self peer tx ct ps =
     (case pq_out ps of
        None \<Rightarrow> ([], ps)
      | Some g \<Rightarrow>
          if og_tx g \<noteq> tx then ([], ps)
          else let commit = (\<lambda>g. ([PqSend peer (PQCommit (og_tx g))],
                   ps\<lparr>pq_out := Some (g\<lparr>og_tries := og_tries g + 1, og_last_sent := now\<rparr>)\<rparr>))
               in if og_commit g then commit g
                  else (case k_decapsulate k (og_dk g) ct of
                      None \<Rightarrow> ([], ps)
                    | Some shared \<Rightarrow>
                        commit (g\<lparr>og_psk := derive k shared self peer (og_tx g), og_commit := True, og_tries := 0\<rparr>)))"

definition handle_commit :: "time \<Rightarrow> key32 \<Rightarrow> txid \<Rightarrow> peer_state \<Rightarrow> pq_effect list \<times> peer_state" where
  "handle_commit now peer tx ps =
     (case pq_in ps of
        None \<Rightarrow> ([], ps)
      | Some i \<Rightarrow>
          if ic_tx i \<noteq> tx then ([], ps)
          else if ic_applied i then ([PqSend peer (PQDone tx)], ps)
          else ([PqApply peer (ic_psk i), PqSend peer (PQDone tx)],
                set_psk now (ic_psk i) (ps\<lparr>pq_in := Some (i\<lparr>ic_applied := True\<rparr>)\<rparr>)))"

definition handle_done :: "timing \<Rightarrow> time \<Rightarrow> key32 \<Rightarrow> txid \<Rightarrow> peer_state \<Rightarrow> pq_effect list \<times> peer_state" where
  "handle_done tm now peer tx ps =
     (case pq_out ps of
        None \<Rightarrow> ([], ps)
      | Some g \<Rightarrow>
          if og_tx g \<noteq> tx \<or> \<not> og_commit g then ([], ps)
          else ([PqApply peer (og_psk g)],
                (set_psk now (og_psk g) ps)\<lparr>pq_out := None, pq_next_rotate := now + t_rotate tm\<rparr>))"

fun handle_peer :: "kem \<Rightarrow> timing \<Rightarrow> nat \<Rightarrow> time \<Rightarrow> key32 \<Rightarrow> key32 \<Rightarrow> message \<Rightarrow> peer_state \<Rightarrow> pq_effect list \<times> peer_state" where
  "handle_peer k tm n now self peer (PQInit tx ek) ps = handle_init k n self peer tx ek ps"
| "handle_peer k tm n now self peer (PQReply tx ct) ps = handle_reply k now self peer tx ct ps"
| "handle_peer k tm n now self peer (PQCommit tx) ps = handle_commit now peer tx ps"
| "handle_peer k tm n now self peer (PQDone tx) ps = handle_done tm now peer tx ps"
| "handle_peer k tm n now self peer _ ps = ([], ps)"

definition handle_msg :: "kem \<Rightarrow> time \<Rightarrow> key32 \<Rightarrow> message \<Rightarrow> manager \<Rightarrow> pq_effect list \<times> manager" where
  "handle_msg k now peer msg m =
     (case map_of (m_peers m) peer of
        None \<Rightarrow> ([], m)
      | Some ps \<Rightarrow>
          if \<not> m_enabled m then ([], m)
          else (case handle_peer k (m_timing m) (m_draws m) now (m_self m) peer msg ps of
              (fx, ps') \<Rightarrow> (fx, m\<lparr>m_peers := AList.update peer ps' (m_peers m), m_draws := Suc (m_draws m)\<rparr>)))"

definition observe_peer :: "kem \<Rightarrow> timing \<Rightarrow> time \<Rightarrow> key32 \<Rightarrow> 64 word \<Rightarrow> peer_state \<Rightarrow> pq_effect list \<times> peer_state" where
  "observe_peer k tm now peer theirs ps =
     (if theirs = fingerprint k (pq_psk ps) then ([], ps\<lparr>pq_mismatch_since := zero_time\<rparr>)
      else if pq_mismatch_since ps = zero_time then ([], ps\<lparr>pq_mismatch_since := now\<rparr>)
      else if time_sub now (pq_mismatch_since ps) \<ge> t_grace tm then
        (let (fx, ps1) = (if pq_psk ps \<noteq> 0 then ([PqApply peer 0], set_psk now 0 ps) else ([], ps))
         in (fx, ps1\<lparr>pq_mismatch_since := zero_time, pq_out := None, pq_in := None, pq_next_rotate := now\<rparr>))
      else ([], ps))"

definition observe :: "kem \<Rightarrow> time \<Rightarrow> key32 \<Rightarrow> 64 word \<Rightarrow> manager \<Rightarrow> pq_effect list \<times> manager" where
  "observe k now peer theirs m =
     (case map_of (m_peers m) peer of
        None \<Rightarrow> ([], m)
      | Some ps \<Rightarrow>
          if \<not> m_enabled m then ([], m)
          else (case observe_peer k (m_timing m) now peer theirs ps of
              (fx, ps') \<Rightarrow> (fx, m\<lparr>m_peers := AList.update peer ps' (m_peers m)\<rparr>)))"

text \<open>One peer's turn of \<^verbatim>\<open>tick\<close>; \<open>n\<close> numbers the random draws.\<close>

definition tick_send :: "kem \<Rightarrow> time \<Rightarrow> key32 \<Rightarrow> outgoing \<Rightarrow> peer_state \<Rightarrow> pq_effect list \<times> peer_state" where
  "tick_send k now peer g ps =
     ([PqSend peer (if og_commit g then PQCommit (og_tx g) else PQInit (og_tx g) (k_encap_key k (og_dk g)))],
      ps\<lparr>pq_out := Some (g\<lparr>og_tries := og_tries g + 1, og_last_sent := now\<rparr>)\<rparr>)"

definition tick_peer :: "kem \<Rightarrow> timing \<Rightarrow> nat \<Rightarrow> time \<Rightarrow> key32 \<Rightarrow> key32 \<Rightarrow> peer_state \<Rightarrow> pq_effect list \<times> peer_state" where
  "tick_peer k tm n now self peer ps =
     (if \<not> initiator self peer then ([], ps)
      else case pq_out ps of
        None \<Rightarrow>
          if \<not> now < pq_next_rotate ps then
            (case k_generate k n of
               None \<Rightarrow> ([], ps)
             | Some dk \<Rightarrow> tick_send k now peer
                 \<lparr>og_tx = k_tx k n, og_dk = dk, og_psk = 0, og_commit = False, og_tries = 0, og_last_sent = zero_time\<rparr> ps)
          else ([], ps)
      | Some g \<Rightarrow>
          if time_sub now (og_last_sent g) < t_retry tm then ([], ps)
          else if og_tries g \<ge> t_tries tm then ([], ps\<lparr>pq_out := None, pq_next_rotate := now + t_rotate tm\<rparr>)
          else tick_send k now peer g ps)"

fun tick_peers :: "kem \<Rightarrow> timing \<Rightarrow> nat \<Rightarrow> time \<Rightarrow> key32 \<Rightarrow> (key32, peer_state) gomap \<Rightarrow> pq_effect list \<times> (key32, peer_state) gomap" where
  "tick_peers k tm n now self [] = ([], [])"
| "tick_peers k tm n now self ((peer, ps) # rest) =
     (let (fx, ps') = tick_peer k tm n now self peer ps; (fxs, rest') = tick_peers k tm (Suc n) now self rest
      in (fx @ fxs, (peer, ps') # rest'))"

definition tick :: "kem \<Rightarrow> time \<Rightarrow> manager \<Rightarrow> pq_effect list \<times> manager" where
  "tick k now m =
     (if \<not> m_enabled m then ([], m)
      else (case tick_peers k (m_timing m) (m_draws m) now (m_self m) (m_peers m) of
          (fx, ps) \<Rightarrow> (fx, m\<lparr>m_peers := ps, m_draws := m_draws m + length (m_peers m)\<rparr>)))"

definition pq_set_peers :: "time \<Rightarrow> bool \<Rightarrow> key32 list \<Rightarrow> manager \<Rightarrow> pq_effect list \<times> manager" where
  "pq_set_peers now on peers m =
     (let want = (if on then remdups peers else []);
          gone = filter (\<lambda>(p, ps). p \<notin> set want) (m_peers m);
          kept = filter (\<lambda>(p, ps). p \<in> set want) (m_peers m);
          added = filter (\<lambda>p. map_of kept p = None) want
      in (map (\<lambda>(p, ps). PqApply p 0) (filter (\<lambda>(p, ps). pq_since ps \<noteq> zero_time) gone),
          m\<lparr>m_enabled := on, m_peers := kept @ map (\<lambda>p. (p, new_peer_state now)) added\<rparr>))"

end
