(* ===== verification/Pq_Correct.thy ===== *)
theory Pq_Correct
  imports Pq
begin

text \<open>
  The key exchange between two peers over an unreliable network, as an inductive step relation on
  the operations of \<open>Pq\<close>, with its invariant and its properties.
\<close>

section \<open>Two peers and the network between them\<close>

text \<open>
  The exchange as a state machine: the initiator's and the responder's state for each other, every
  message either ever sent (the network may lose, repeat and reorder them, so a sent message can
  be delivered at any later time, any number of times), and a history: the exchanges the initiator
  started, the replies the responder made with the key it derived, the keys the initiator committed
  to, and the keys each applied, with the exchange of the message that made it do so (none for the
  fallback of \<^verbatim>\<open>Observe\<close>).  Restarts (a peer removed and added again) and disagreeing
  fingerprints may happen at any time.
\<close>

record pair =
  x_init :: peer_state
  x_resp :: peer_state
  x_to_resp :: "message list"
  x_to_init :: "message list"
  x_started :: "(txid \<times> bytes) list"
  x_replied :: "(txid \<times> bytes \<times> psk) list"
  x_committed :: "(txid \<times> psk) list"
  x_init_applied :: "(txid option \<times> psk) list"
  x_resp_applied :: "(txid option \<times> psk) list"

definition sent_by :: "pq_effect list \<Rightarrow> message list" where
  "sent_by fx = List.map_filter (\<lambda>x. case x of PqSend p m \<Rightarrow> Some m | PqApply p s \<Rightarrow> None) fx"

definition applied_by :: "pq_effect list \<Rightarrow> psk list" where
  "applied_by fx = List.map_filter (\<lambda>x. case x of PqSend p m \<Rightarrow> None | PqApply p s \<Rightarrow> Some s) fx"

fun exchange_of :: "message \<Rightarrow> txid option" where
  "exchange_of (PQInit tx ek) = Some tx"
| "exchange_of (PQReply tx ct) = Some tx"
| "exchange_of (PQCommit tx) = Some tx"
| "exchange_of (PQDone tx) = Some tx"
| "exchange_of _ = None"

text \<open>What a step of the initiator or of the responder adds to the history.\<close>

definition started_by :: "peer_state \<Rightarrow> peer_state \<Rightarrow> (txid \<times> bytes) list" where
  "started_by ps ps' =
     (case pq_out ps' of
        None \<Rightarrow> []
      | Some g \<Rightarrow> if pq_out ps = None then [(og_tx g, og_dk g)] else [])"

definition committed_by :: "peer_state \<Rightarrow> peer_state \<Rightarrow> (txid \<times> psk) list" where
  "committed_by ps ps' =
     (case pq_out ps' of
        None \<Rightarrow> []
      | Some g \<Rightarrow> if og_commit g \<and> map_option og_commit (pq_out ps) \<noteq> Some True then [(og_tx g, og_psk g)] else [])"

definition replied_by :: "peer_state \<Rightarrow> peer_state \<Rightarrow> (txid \<times> bytes \<times> psk) list" where
  "replied_by ps ps' =
     (case pq_in ps' of
        None \<Rightarrow> []
      | Some i \<Rightarrow> if map_option ic_tx (pq_in ps) \<noteq> Some (ic_tx i) then [(ic_tx i, ic_ct i, ic_psk i)] else [])"

definition step_init :: "txid option \<Rightarrow> pq_effect list \<times> peer_state \<Rightarrow> pair \<Rightarrow> pair" where
  "step_init l r x = x\<lparr>x_init := snd r, x_to_resp := x_to_resp x @ sent_by (fst r),
     x_started := x_started x @ started_by (x_init x) (snd r), x_committed := x_committed x @ committed_by (x_init x) (snd r),
     x_init_applied := x_init_applied x @ map (Pair l) (applied_by (fst r))\<rparr>"

definition step_resp :: "txid option \<Rightarrow> pq_effect list \<times> peer_state \<Rightarrow> pair \<Rightarrow> pair" where
  "step_resp l r x = x\<lparr>x_resp := snd r, x_to_init := x_to_init x @ sent_by (fst r),
     x_replied := x_replied x @ replied_by (x_resp x) (snd r),
     x_resp_applied := x_resp_applied x @ map (Pair l) (applied_by (fst r))\<rparr>"

definition new_pair :: "time \<Rightarrow> time \<Rightarrow> pair" where
  "new_pair t u = \<lparr>x_init = new_peer_state t, x_resp = new_peer_state u, x_to_resp = [], x_to_init = [],
     x_started = [], x_replied = [], x_committed = [], x_init_applied = [], x_resp_applied = []\<rparr>"

inductive exchange :: "kem \<Rightarrow> timing \<Rightarrow> key32 \<Rightarrow> key32 \<Rightarrow> pair \<Rightarrow> bool" for k tm a b where
  start: "exchange k tm a b (new_pair t u)"
| tick: "exchange k tm a b x \<Longrightarrow> exchange k tm a b (step_init None (tick_peer k tm n now a b (x_init x)) x)"
| at_init: "exchange k tm a b x \<Longrightarrow> m \<in> set (x_to_init x) \<Longrightarrow>
    exchange k tm a b (step_init (exchange_of m) (handle_peer k tm n now a b m (x_init x)) x)"
| at_resp: "exchange k tm a b x \<Longrightarrow> m \<in> set (x_to_resp x) \<Longrightarrow>
    exchange k tm a b (step_resp (exchange_of m) (handle_peer k tm n now b a m (x_resp x)) x)"
| observe_init: "exchange k tm a b x \<Longrightarrow> exchange k tm a b (step_init None (observe_peer k tm now b f (x_init x)) x)"
| observe_resp: "exchange k tm a b x \<Longrightarrow> exchange k tm a b (step_resp None (observe_peer k tm now a f (x_resp x)) x)"
| restart_init: "exchange k tm a b x \<Longrightarrow> exchange k tm a b (step_init None ([], new_peer_state t) x)"
| restart_resp: "exchange k tm a b x \<Longrightarrow> exchange k tm a b (step_resp None ([], new_peer_state t) x)"

text \<open>What the exchange relies on: a ciphertext opens under the key it was made for, and the random
  identifiers of the exchanges differ.\<close>

definition kem_laws :: "kem \<Rightarrow> bool" where
  "kem_laws k \<longleftrightarrow>
     (\<forall>dk n shared ct. k_encapsulate k (k_encap_key k dk) n = Some (shared, ct) \<longrightarrow> k_decapsulate k dk ct = Some shared)"

definition fresh_exchanges :: "pair \<Rightarrow> bool" where
  "fresh_exchanges x \<longleftrightarrow> distinct (map fst (x_started x))"

text \<open>The keys the responder answered an exchange with (more than one if its \<^verbatim>\<open>PQInit\<close> is delivered again
  after the responder took up another exchange or lost its state), the keys each side applied for it, and
  the keys the initiator committed to.\<close>

definition answers :: "pair \<Rightarrow> txid \<Rightarrow> psk set" where
  "answers x tx = {psk. \<exists>ct. (tx, ct, psk) \<in> set (x_replied x)}"

definition init_keys :: "pair \<Rightarrow> txid \<Rightarrow> psk set" where
  "init_keys x tx = {psk. (Some tx, psk) \<in> set (x_init_applied x)}"

definition resp_keys :: "pair \<Rightarrow> txid \<Rightarrow> psk set" where
  "resp_keys x tx = {psk. (Some tx, psk) \<in> set (x_resp_applied x)}"

definition committed :: "pair \<Rightarrow> txid \<Rightarrow> psk set" where
  "committed x tx = {psk. (tx, psk) \<in> set (x_committed x)}"

lemmas key_sets = answers_def init_keys_def resp_keys_def committed_def

definition init_inv :: "kem \<Rightarrow> pair \<Rightarrow> bool" where
  "init_inv k x \<longleftrightarrow> pq_in (x_init x) = None \<and>
     (\<forall>g. pq_out (x_init x) = Some g \<longrightarrow> (og_tx g, og_dk g) \<in> set (x_started x) \<and>
        (og_commit g \<longrightarrow> og_psk g \<in> committed x (og_tx g))) \<and>
     (\<forall>tx ek. PQInit tx ek \<in> set (x_to_resp x) \<longrightarrow> (\<exists>dk. (tx, dk) \<in> set (x_started x) \<and> ek = k_encap_key k dk)) \<and>
     (\<forall>tx. PQCommit tx \<in> set (x_to_resp x) \<longrightarrow> committed x tx \<noteq> {}) \<and>
     (\<forall>tx. committed x tx \<subseteq> answers x tx) \<and>
     (\<forall>tx. init_keys x tx \<subseteq> committed x tx \<and> (init_keys x tx \<noteq> {} \<longrightarrow> resp_keys x tx \<noteq> {})) \<and>
     (\<forall>psk. (None, psk) \<in> set (x_init_applied x) \<longrightarrow> psk = 0)"

definition resp_inv :: "kem \<Rightarrow> key32 \<Rightarrow> key32 \<Rightarrow> pair \<Rightarrow> bool" where
  "resp_inv k a b x \<longleftrightarrow> pq_out (x_resp x) = None \<and>
     (\<forall>i. pq_in (x_resp x) = Some i \<longrightarrow> (ic_tx i, ic_ct i, ic_psk i) \<in> set (x_replied x) \<and>
        (ic_applied i \<longrightarrow> ic_psk i \<in> resp_keys x (ic_tx i))) \<and>
     (\<forall>tx ct. PQReply tx ct \<in> set (x_to_init x) \<longrightarrow> (\<exists>psk. (tx, ct, psk) \<in> set (x_replied x))) \<and>
     (\<forall>tx. PQDone tx \<in> set (x_to_init x) \<longrightarrow> resp_keys x tx \<noteq> {}) \<and>
     (\<forall>tx ct psk. (tx, ct, psk) \<in> set (x_replied x) \<longrightarrow>
        (\<exists>dk n shared. (tx, dk) \<in> set (x_started x) \<and> k_encapsulate k (k_encap_key k dk) n = Some (shared, ct) \<and>
           psk = derive k shared a b tx)) \<and>
     (\<forall>tx. resp_keys x tx \<subseteq> answers x tx \<and> (resp_keys x tx \<noteq> {} \<longrightarrow> committed x tx \<noteq> {})) \<and>
     (\<forall>psk. (None, psk) \<in> set (x_resp_applied x) \<longrightarrow> psk = 0)"

lemma effects_simps [simp]:
  "sent_by [] = []" "sent_by (PqSend p m # fx) = m # sent_by fx" "sent_by (PqApply p s # fx) = sent_by fx"
  "applied_by [] = []" "applied_by (PqSend p m # fx) = applied_by fx" "applied_by (PqApply p s # fx) = s # applied_by fx"
  by (simp_all add: sent_by_def applied_by_def List.map_filter_def)

lemma fresh_step:
  "fresh_exchanges (step_init l r x) \<Longrightarrow> fresh_exchanges x" "fresh_exchanges (step_resp l r x) = fresh_exchanges x"
  by (auto simp: fresh_exchanges_def step_init_def step_resp_def)

lemma set_psk_fields [simp]: "pq_out (set_psk now s ps) = pq_out ps" "pq_in (set_psk now s ps) = pq_in ps"
  by (simp_all add: set_psk_def)

lemma step_init_simps [simp]:
  "x_init (step_init l r x) = snd r" "x_resp (step_init l r x) = x_resp x" "x_to_init (step_init l r x) = x_to_init x"
  "x_to_resp (step_init l r x) = x_to_resp x @ sent_by (fst r)"
  "x_started (step_init l r x) = x_started x @ started_by (x_init x) (snd r)" "x_replied (step_init l r x) = x_replied x"
  "answers (step_init l r x) tx = answers x tx" "resp_keys (step_init l r x) tx = resp_keys x tx"
  "committed (step_init l r x) tx = committed x tx \<union> {psk. (tx, psk) \<in> set (committed_by (x_init x) (snd r))}"
  "init_keys (step_init l r x) tx = init_keys x tx \<union> {psk. l = Some tx \<and> psk \<in> set (applied_by (fst r))}"
  "x_resp_applied (step_init l r x) = x_resp_applied x"
  "x_init_applied (step_init l r x) = x_init_applied x @ map (Pair l) (applied_by (fst r))"
  by (auto simp: step_init_def key_sets)

lemma step_resp_simps [simp]:
  "x_resp (step_resp l r x) = snd r" "x_init (step_resp l r x) = x_init x" "x_to_resp (step_resp l r x) = x_to_resp x"
  "x_to_init (step_resp l r x) = x_to_init x @ sent_by (fst r)"
  "x_started (step_resp l r x) = x_started x" "x_replied (step_resp l r x) = x_replied x @ replied_by (x_resp x) (snd r)"
  "answers (step_resp l r x) tx = answers x tx \<union> {psk. \<exists>ct. (tx, ct, psk) \<in> set (replied_by (x_resp x) (snd r))}"
  "committed (step_resp l r x) tx = committed x tx" "init_keys (step_resp l r x) tx = init_keys x tx"
  "resp_keys (step_resp l r x) tx = resp_keys x tx \<union> {psk. l = Some tx \<and> psk \<in> set (applied_by (fst r))}"
  "x_init_applied (step_resp l r x) = x_init_applied x"
  "x_resp_applied (step_resp l r x) = x_resp_applied x @ map (Pair l) (applied_by (fst r))"
  by (auto simp: step_resp_def key_sets)

text \<open>A step of the initiator keeps the responder's part of the invariant, and its own if its exchange is
  one that was started, if it commits to keys the responder derived, if what it sends is the start of a
  started exchange or the commit of one it has a key for, and if it applies no key or the one it committed
  to once the responder has applied one.\<close>

lemma init_step_resp_inv: "resp_inv k a b x \<Longrightarrow> resp_inv k a b (step_init l r x)"
  unfolding resp_inv_def by (simp, blast)

lemma resp_step_init_inv: "init_inv k x \<Longrightarrow> init_inv k (step_resp l r x)"
  unfolding init_inv_def by (simp, blast)

lemma init_step_inv:
  assumes inv: "init_inv k x"
    and out: "\<And>g. pq_out (snd r) = Some g \<Longrightarrow> (og_tx g, og_dk g) \<in> set (x_started x @ started_by (x_init x) (snd r)) \<and>
      (og_commit g \<longrightarrow> og_psk g \<in> committed x (og_tx g) \<or> (og_tx g, og_psk g) \<in> set (committed_by (x_init x) (snd r)))"
    and no_in: "pq_in (snd r) = None"
    and new: "\<And>tx psk. (tx, psk) \<in> set (committed_by (x_init x) (snd r)) \<Longrightarrow> psk \<in> answers x tx"
    and sends: "\<And>tx ek. PQInit tx ek \<in> set (sent_by (fst r)) \<Longrightarrow>
        \<exists>dk. (tx, dk) \<in> set (x_started x @ started_by (x_init x) (snd r)) \<and> ek = k_encap_key k dk"
      "\<And>tx. PQCommit tx \<in> set (sent_by (fst r)) \<Longrightarrow>
        committed x tx \<noteq> {} \<or> (\<exists>psk. (tx, psk) \<in> set (committed_by (x_init x) (snd r)))"
    and app: "\<And>s. s \<in> set (applied_by (fst r)) \<Longrightarrow>
      (case l of None \<Rightarrow> s = 0 | Some tx \<Rightarrow> s \<in> committed x tx \<and> resp_keys x tx \<noteq> {})"
  shows "init_inv k (step_init l r x)"
  unfolding init_inv_def
proof (intro conjI allI impI)
  fix tx ek assume "PQInit tx ek \<in> set (x_to_resp (step_init l r x))"
  moreover have "PQInit tx ek \<in> set (x_to_resp x) \<Longrightarrow> \<exists>dk. (tx, dk) \<in> set (x_started x) \<and> ek = k_encap_key k dk"
    using inv unfolding init_inv_def by blast
  ultimately show "\<exists>dk. (tx, dk) \<in> set (x_started (step_init l r x)) \<and> ek = k_encap_key k dk"
    using sends(1) by auto
next
  fix tx assume "PQCommit tx \<in> set (x_to_resp (step_init l r x))"
  moreover have "PQCommit tx \<in> set (x_to_resp x) \<Longrightarrow> committed x tx \<noteq> {}" using inv unfolding init_inv_def by blast
  ultimately show "committed (step_init l r x) tx \<noteq> {}" using sends(2) by auto
next
  fix tx show "committed (step_init l r x) tx \<subseteq> answers (step_init l r x) tx" using inv new unfolding init_inv_def by auto
next
  fix tx show "init_keys (step_init l r x) tx \<subseteq> committed (step_init l r x) tx"
    using inv app unfolding init_inv_def by fastforce
next
  fix tx assume "init_keys (step_init l r x) tx \<noteq> {}"
  then show "resp_keys (step_init l r x) tx \<noteq> {}" using inv app unfolding init_inv_def by fastforce
next
  fix psk assume "(None, psk) \<in> set (x_init_applied (step_init l r x))"
  then show "psk = 0" using inv app unfolding init_inv_def by auto
qed (use no_in out in auto)

lemma resp_step_inv:
  assumes inv: "resp_inv k a b x"
    and inc: "\<And>i. pq_in (snd r) = Some i \<Longrightarrow> (ic_tx i, ic_ct i, ic_psk i) \<in> set (x_replied x @ replied_by (x_resp x) (snd r)) \<and>
      (ic_applied i \<longrightarrow> ic_psk i \<in> resp_keys x (ic_tx i) \<or> l = Some (ic_tx i) \<and> ic_psk i \<in> set (applied_by (fst r)))"
    and no_out: "pq_out (snd r) = None"
    and sends: "\<And>tx ct. PQReply tx ct \<in> set (sent_by (fst r)) \<Longrightarrow>
        \<exists>psk. (tx, ct, psk) \<in> set (x_replied x @ replied_by (x_resp x) (snd r))"
      "\<And>tx. PQDone tx \<in> set (sent_by (fst r)) \<Longrightarrow> resp_keys x tx \<noteq> {} \<or> l = Some tx \<and> applied_by (fst r) \<noteq> []"
    and new: "\<And>tx ct psk. (tx, ct, psk) \<in> set (replied_by (x_resp x) (snd r)) \<Longrightarrow>
      \<exists>dk n shared. (tx, dk) \<in> set (x_started x) \<and> k_encapsulate k (k_encap_key k dk) n = Some (shared, ct) \<and> psk = derive k shared a b tx"
    and app: "\<And>s. s \<in> set (applied_by (fst r)) \<Longrightarrow>
      (case l of None \<Rightarrow> s = 0 | Some tx \<Rightarrow> s \<in> answers x tx \<and> committed x tx \<noteq> {})"
  shows "resp_inv k a b (step_resp l r x)"
  unfolding resp_inv_def
proof (intro conjI allI impI)
  fix tx ct assume "PQReply tx ct \<in> set (x_to_init (step_resp l r x))"
  moreover have "PQReply tx ct \<in> set (x_to_init x) \<Longrightarrow> \<exists>psk. (tx, ct, psk) \<in> set (x_replied x)"
    using inv unfolding resp_inv_def by blast
  ultimately show "\<exists>psk. (tx, ct, psk) \<in> set (x_replied (step_resp l r x))" using sends(1) by auto
next
  fix tx assume "PQDone tx \<in> set (x_to_init (step_resp l r x))"
  then consider "PQDone tx \<in> set (x_to_init x)" | "PQDone tx \<in> set (sent_by (fst r))" by auto
  then show "resp_keys (step_resp l r x) tx \<noteq> {}"
  proof cases
    case 1
    then show ?thesis using inv unfolding resp_inv_def by simp
  next
    case 2
    then show ?thesis using sends(2) by (cases "applied_by (fst r)") auto
  qed
next
  fix tx ct psk assume "(tx, ct, psk) \<in> set (x_replied (step_resp l r x))"
  then have "(tx, ct, psk) \<in> set (x_replied x) \<or> (tx, ct, psk) \<in> set (replied_by (x_resp x) (snd r))" by simp
  moreover have "(tx, ct, psk) \<in> set (x_replied x) \<Longrightarrow> \<exists>dk n shared. (tx, dk) \<in> set (x_started x) \<and>
      k_encapsulate k (k_encap_key k dk) n = Some (shared, ct) \<and> psk = derive k shared a b tx"
    using inv by (simp add: resp_inv_def)
  ultimately show "\<exists>dk n shared. (tx, dk) \<in> set (x_started (step_resp l r x)) \<and>
      k_encapsulate k (k_encap_key k dk) n = Some (shared, ct) \<and> psk = derive k shared a b tx"
    unfolding step_resp_simps using new by blast
next
  fix tx show "resp_keys (step_resp l r x) tx \<subseteq> answers (step_resp l r x) tx"
    using inv app unfolding resp_inv_def by fastforce
next
  fix tx assume "resp_keys (step_resp l r x) tx \<noteq> {}"
  then show "committed (step_resp l r x) tx \<noteq> {}" using inv app unfolding resp_inv_def by fastforce
next
  fix psk assume "(None, psk) \<in> set (x_resp_applied (step_resp l r x))"
  then show "psk = 0" using inv app unfolding resp_inv_def by auto
qed (use no_out inc in auto)

lemma init_inv_out:
  assumes "init_inv k x"
  shows "pq_out (x_init x) = Some g \<Longrightarrow> (og_tx g, og_dk g) \<in> set (x_started x)"
    "pq_out (x_init x) = Some g \<Longrightarrow> og_commit g \<Longrightarrow> og_psk g \<in> committed x (og_tx g)"
    "pq_in (x_init x) = None"
  using assms by (simp_all add: init_inv_def)

lemma resp_inv_in:
  assumes "resp_inv k a b x"
  shows "pq_in (x_resp x) = Some i \<Longrightarrow> (ic_tx i, ic_ct i, ic_psk i) \<in> set (x_replied x)"
    "pq_in (x_resp x) = Some i \<Longrightarrow> ic_psk i \<in> answers x (ic_tx i)"
    "pq_in (x_resp x) = Some i \<Longrightarrow> ic_applied i \<Longrightarrow> ic_psk i \<in> resp_keys x (ic_tx i)"
    "pq_out (x_resp x) = None"
  using assms by (auto simp: resp_inv_def answers_def)

lemma replied_by_simps [simp]:
  "pq_in ps' = pq_in ps \<Longrightarrow> replied_by ps ps' = []"
  "pq_in ps' = None \<Longrightarrow> replied_by ps ps' = []"
  "pq_in ps = Some i \<Longrightarrow> pq_in ps' = Some (i\<lparr>ic_applied := b\<rparr>) \<Longrightarrow> replied_by ps ps' = []"
  "pq_in ps = None \<Longrightarrow> pq_in ps' = Some j \<Longrightarrow> replied_by ps ps' = [(ic_tx j, ic_ct j, ic_psk j)]"
  "pq_in ps = Some i \<Longrightarrow> pq_in ps' = Some j \<Longrightarrow> ic_tx i \<noteq> ic_tx j \<Longrightarrow> replied_by ps ps' = [(ic_tx j, ic_ct j, ic_psk j)]"
  by (auto simp: replied_by_def split: option.splits)

lemma started_by_simps [simp]:
  "pq_out ps' = None \<Longrightarrow> started_by ps ps' = []"
  "pq_out ps = Some g \<Longrightarrow> started_by ps ps' = []"
  "pq_out ps = None \<Longrightarrow> pq_out ps' = Some h \<Longrightarrow> started_by ps ps' = [(og_tx h, og_dk h)]"
  by (auto simp: started_by_def split: option.splits)

lemma committed_by_simps [simp]:
  "pq_out ps' = None \<Longrightarrow> committed_by ps ps' = []"
  "pq_out ps' = pq_out ps \<Longrightarrow> committed_by ps ps' = []"
  "pq_out ps' = Some h \<Longrightarrow> \<not> og_commit h \<Longrightarrow> committed_by ps ps' = []"
  "pq_out ps = Some g \<Longrightarrow> og_commit g \<Longrightarrow> committed_by ps ps' = []"
  "pq_out ps = Some g \<Longrightarrow> pq_out ps' = Some h \<Longrightarrow> og_commit h = og_commit g \<Longrightarrow> committed_by ps ps' = []"
  "pq_out ps = Some g \<Longrightarrow> \<not> og_commit g \<Longrightarrow> pq_out ps' = Some h \<Longrightarrow> og_commit h \<Longrightarrow> committed_by ps ps' = [(og_tx h, og_psk h)]"
  by (auto simp: committed_by_def split: option.splits)

lemma tick_inv:
  assumes inv: "init_inv k x"
  shows "init_inv k (step_init None (tick_peer k tm n now a b (x_init x)) x)"
  by (rule init_step_inv [OF inv])
    (use init_inv_out [OF inv] in \<open>auto simp: tick_peer_def tick_send_def split: option.splits if_splits\<close>)

lemma observe_init_inv:
  assumes inv: "init_inv k x"
  shows "init_inv k (step_init None (observe_peer k tm now b f (x_init x)) x)"
  by (rule init_step_inv [OF inv])
    (use init_inv_out [OF inv] in \<open>auto simp: observe_peer_def split: option.splits if_splits\<close>)

lemma observe_resp_inv:
  assumes inv: "resp_inv k a b x"
  shows "resp_inv k a b (step_resp None (observe_peer k tm now a f (x_resp x)) x)"
  by (rule resp_step_inv [OF inv])
    (use resp_inv_in [OF inv] in \<open>auto simp: observe_peer_def split: option.splits if_splits\<close>)

lemma reply_key:
  assumes inv: "init_inv k x" "resp_inv k a b x" and m: "PQReply tx ct \<in> set (x_to_init x)" and laws: "kem_laws k"
    and fresh: "fresh_exchanges x" and g: "pq_out (x_init x) = Some g" "og_tx g = tx" "k_decapsulate k (og_dk g) ct = Some shared"
  shows "derive k shared a b tx \<in> answers x tx"
proof -
  obtain psk where psk: "(tx, ct, psk) \<in> set (x_replied x)" using inv(2) m unfolding resp_inv_def by blast
  then obtain dk n sh where dk: "(tx, dk) \<in> set (x_started x)" "k_encapsulate k (k_encap_key k dk) n = Some (sh, ct)"
    "psk = derive k sh a b tx" using inv(2) unfolding resp_inv_def by blast
  have "og_dk g = dk" using init_inv_out(1) [OF inv(1) g(1)] dk(1) fresh g(2)
    unfolding fresh_exchanges_def by (metis eq_key_imp_eq_value)
  then have "shared = sh" using laws dk(2) g(3) unfolding kem_laws_def by force
  then show ?thesis using psk dk(3) unfolding answers_def by blast
qed

lemma init_reply_inv:
  assumes inv: "init_inv k x" "resp_inv k a b x" and m: "PQReply tx ct \<in> set (x_to_init x)" and laws: "kem_laws k" and fresh: "fresh_exchanges x"
  shows "init_inv k (step_init (Some tx) (handle_reply k now a b tx ct (x_init x)) x)"
  by (rule init_step_inv [OF inv(1)])
    (use init_inv_out [OF inv(1)] reply_key [OF inv m laws fresh] in
      \<open>auto simp: handle_reply_def Let_def split: option.splits if_splits\<close>)

lemma init_done_inv:
  assumes inv: "init_inv k x" "resp_inv k a b x" and m: "PQDone tx \<in> set (x_to_init x)"
  shows "init_inv k (step_init (Some tx) (handle_done tm now b tx (x_init x)) x)"
proof -
  have "resp_keys x tx \<noteq> {}" using inv(2) m unfolding resp_inv_def by blast
  then show ?thesis
    by (intro init_step_inv [OF inv(1)])
      (use init_inv_out [OF inv(1)] in \<open>auto simp: handle_done_def split: option.splits if_splits\<close>)
qed

lemma resp_init_inv:
  assumes inv: "init_inv k x" "resp_inv k a b x" and m: "PQInit tx ek \<in> set (x_to_resp x)" and ab: "a < b"
  shows "resp_inv k a b (step_resp (Some tx) (handle_init k n b a tx ek (x_resp x)) x)"
proof -
  obtain dk where dk: "(tx, dk) \<in> set (x_started x)" "ek = k_encap_key k dk" using inv(1) m unfolding init_inv_def by blast
  have enc: "\<exists>dk. (tx, dk) \<in> set (x_started x) \<and> (\<exists>n shared. k_encapsulate k (k_encap_key k dk) n = Some (shared, ct) \<and>
      derive k sh a b tx = derive k shared a b tx)" if "k_encapsulate k ek n = Some (sh, ct)" for sh ct
    using dk that by blast
  show ?thesis
    by (rule resp_step_inv [OF inv(2)])
      (use resp_inv_in [OF inv(2)] enc ab in \<open>auto simp: handle_init_def answer_init_def initiator_def split: option.splits if_splits\<close>)
qed

lemma resp_commit_inv:
  assumes inv: "init_inv k x" "resp_inv k a b x" and m: "PQCommit tx \<in> set (x_to_resp x)"
  shows "resp_inv k a b (step_resp (Some tx) (handle_commit now a tx (x_resp x)) x)"
proof -
  have "committed x tx \<noteq> {}" using inv(1) m unfolding init_inv_def by blast
  then show ?thesis
    by (intro resp_step_inv [OF inv(2)])
      (use resp_inv_in [OF inv(2)] in \<open>auto simp: handle_commit_def split: option.splits if_splits\<close>)
qed

lemma at_init_inv:
  assumes inv: "init_inv k x" "resp_inv k a b x" and m: "m \<in> set (x_to_init x)" and laws: "kem_laws k" and fresh: "fresh_exchanges x" and ab: "a < b"
  shows "init_inv k (step_init (exchange_of m) (handle_peer k tm n now a b m (x_init x)) x)"
proof -
  have idle: "init_inv k (step_init l ([], x_init x) x)" for l
    by (rule init_step_inv [OF inv(1)]) (use init_inv_out [OF inv(1)] in auto)
  have none: "handle_commit now b tx (x_init x) = ([], x_init x)" for tx
    using init_inv_out(3) [OF inv(1)] by (simp add: handle_commit_def)
  show ?thesis
    by (cases m) (use m idle ab in \<open>auto intro: init_reply_inv [OF inv _ laws fresh] init_done_inv [OF inv]
        simp: none handle_init_def initiator_def\<close>)
qed

lemma at_resp_inv:
  assumes inv: "init_inv k x" "resp_inv k a b x" and m: "m \<in> set (x_to_resp x)" and ab: "a < b"
  shows "resp_inv k a b (step_resp (exchange_of m) (handle_peer k tm n now b a m (x_resp x)) x)"
proof -
  have idle: "resp_inv k a b (step_resp l ([], x_resp x) x)" for l
    by (rule resp_step_inv [OF inv(2)]) (use resp_inv_in [OF inv(2)] in auto)
  have none: "handle_reply k now b a tx ct (x_resp x) = ([], x_resp x)" "handle_done tm now a tx (x_resp x) = ([], x_resp x)" for tx ct
    using resp_inv_in(4) [OF inv(2)] by (simp_all add: handle_reply_def handle_done_def)
  show ?thesis
    by (cases m) (use m idle ab in \<open>auto intro: resp_init_inv [OF inv] resp_commit_inv [OF inv] simp: none\<close>)
qed

lemma exchange_inv:
  assumes ex: "exchange k tm a b x" and laws: "kem_laws k" and ab: "a < b"
  shows "fresh_exchanges x \<Longrightarrow> init_inv k x \<and> resp_inv k a b x"
  using ex
proof (induction rule: exchange.induct)
  case (start t u)
  then show ?case by (simp add: init_inv_def resp_inv_def new_pair_def new_peer_state_def key_sets)
next
  case (tick x n now)
  then show ?case using fresh_step(1) tick_inv init_step_resp_inv by blast
next
  case (at_init x m n now)
  then show ?case using fresh_step(1) at_init_inv [OF _ _ _ laws _ ab] init_step_resp_inv by blast
next
  case (at_resp x m n now)
  then show ?case using fresh_step(2) at_resp_inv [OF _ _ _ ab] resp_step_init_inv by blast
next
  case (observe_init x now f)
  then show ?case using fresh_step(1) observe_init_inv init_step_resp_inv by blast
next
  case (observe_resp x now f)
  then show ?case using fresh_step(2) observe_resp_inv resp_step_init_inv by blast
next
  case (restart_init x t)
  then have inv: "init_inv k x" "resp_inv k a b x" using fresh_step(1) by blast+
  have "init_inv k (step_init None ([], new_peer_state t) x)"
    by (rule init_step_inv [OF inv(1)]) (auto simp: new_peer_state_def)
  then show ?case using init_step_resp_inv [OF inv(2)] by blast
next
  case (restart_resp x t)
  then have inv: "init_inv k x" "resp_inv k a b x" using fresh_step(2) by blast+
  have "resp_inv k a b (step_resp None ([], new_peer_state t) x)"
    by (rule resp_step_inv [OF inv(2)]) (auto simp: new_peer_state_def)
  then show ?case using resp_step_init_inv [OF inv(1)] by blast
qed

section \<open>Exchanges that complete\<close>

text \<open>The pair left alone: ticks of the initiator and deliveries of sent messages, at times that do not
  go back.  No restart and no fallback.\<close>

inductive runs :: "kem \<Rightarrow> timing \<Rightarrow> key32 \<Rightarrow> key32 \<Rightarrow> time \<times> pair \<Rightarrow> time \<times> pair \<Rightarrow> bool" for k tm a b where
  run_tick: "t \<le> now \<Longrightarrow> runs k tm a b (t, x) (now, step_init None (tick_peer k tm n now a b (x_init x)) x)"
| run_init: "t \<le> now \<Longrightarrow> m \<in> set (x_to_init x) \<Longrightarrow>
    runs k tm a b (t, x) (now, step_init (exchange_of m) (handle_peer k tm n now a b m (x_init x)) x)"
| run_resp: "t \<le> now \<Longrightarrow> m \<in> set (x_to_resp x) \<Longrightarrow>
    runs k tm a b (t, x) (now, step_resp (exchange_of m) (handle_peer k tm n now b a m (x_resp x)) x)"

lemma runs_exchange: "runs k tm a b c d \<Longrightarrow> exchange k tm a b (snd c) \<Longrightarrow> exchange k tm a b (snd d)"
  by (induction rule: runs.induct) (auto intro: exchange.intros)

lemma runs_closed: "(runs k tm a b)\<^sup>*\<^sup>* c d \<Longrightarrow> exchange k tm a b (snd c) \<Longrightarrow> exchange k tm a b (snd d)"
  by (induction rule: rtranclp_induct) (auto intro: runs_exchange)

lemma retry_due: "t_retry tm < 2 ^ 63 \<Longrightarrow> sent + t_retry tm \<le> now \<Longrightarrow> \<not> time_sub now sent < t_retry tm"
  by (auto simp: time_sub_def)

text \<open>An exchange whose messages get no answer is given up after its tries.\<close>

lemma gives_up:
  assumes ab: "a < b" and tm: "t_retry tm < 2 ^ 63"
  shows "pq_out (x_init x) = Some g \<Longrightarrow>
    \<exists>t' x'. (runs k tm a b)\<^sup>*\<^sup>* (t, x) (t', x') \<and> pq_out (x_init x') = None \<and> x_resp x' = x_resp x \<and> x_started x' = x_started x"
proof (induction "nat (t_tries tm - og_tries g)" arbitrary: t x g)
  case 0
  let ?now = "max t (og_last_sent g + t_retry tm)" and ?n = 0
  let ?x = "step_init None (tick_peer k tm ?n ?now a b (x_init x)) x"
  have "tick_peer k tm ?n ?now a b (x_init x) = ([], (x_init x)\<lparr>pq_out := None, pq_next_rotate := ?now + t_rotate tm\<rparr>)"
    using 0 ab retry_due [OF tm] by (simp add: tick_peer_def initiator_def)
  then have "pq_out (x_init ?x) = None" "x_resp ?x = x_resp x" "x_started ?x = x_started x" by simp_all
  moreover have "runs k tm a b (t, x) (?now, ?x)" by (rule run_tick) simp
  ultimately show ?case by blast
next
  case (Suc d)
  let ?now = "max t (og_last_sent g + t_retry tm)" and ?n = 0
  let ?x = "step_init None (tick_peer k tm ?n ?now a b (x_init x)) x"
  let ?g = "g\<lparr>og_tries := og_tries g + 1, og_last_sent := ?now\<rparr>"
  have left: "\<not> t_tries tm \<le> og_tries g" using Suc(2) by simp
  have tick: "tick_peer k tm ?n ?now a b (x_init x) = tick_send k ?now b g (x_init x)"
    using Suc(3) ab retry_due [OF tm] left by (simp add: tick_peer_def initiator_def)
  then have "pq_out (x_init ?x) = Some ?g" "x_resp ?x = x_resp x" "x_started ?x = x_started x"
    using Suc(3) by (simp_all add: tick_send_def)
  moreover have "d = nat (t_tries tm - og_tries ?g)" using Suc(2) by simp
  ultimately obtain t' x' where "(runs k tm a b)\<^sup>*\<^sup>* (?now, ?x) (t', x')" "pq_out (x_init x') = None" "x_resp x' = x_resp x"
    "x_started x' = x_started x" using Suc(1) by metis
  moreover have "runs k tm a b (t, x) (?now, ?x)" by (rule run_tick) simp
  ultimately show ?case by (meson converse_rtranclp_into_rtranclp)
qed

lemma falls_idle:
  assumes "a < b" and "t_retry tm < 2 ^ 63"
  shows "\<exists>t' x'. (runs k tm a b)\<^sup>*\<^sup>* (t, x) (t', x') \<and> pq_out (x_init x') = None \<and> x_resp x' = x_resp x \<and> x_started x' = x_started x"
  using gives_up [OF assms] by (cases "pq_out (x_init x)") blast+

text \<open>The four messages of a new exchange, each delivered as it is sent.\<close>

lemma four_messages:
  assumes ab: "a < b" and laws: "kem_laws k" and idle: "pq_out (x_init x) = None" "pq_next_rotate (x_init x) \<le> now"
    and other: "\<And>i. pq_in (x_resp x) = Some i \<Longrightarrow> ic_tx i \<noteq> k_tx k n"
    and gen: "k_generate k n = Some dk" and enc: "k_encapsulate k (k_encap_key k dk) n' = Some (shared, ct)"
    and t: "t \<le> now"
  defines "tx \<equiv> k_tx k n" and "psk \<equiv> derive k shared a b (k_tx k n)"
  shows "\<exists>x'. (runs k tm a b)\<^sup>*\<^sup>* (t, x) (now, x') \<and> pq_psk (x_init x') = psk \<and> pq_psk (x_resp x') = psk \<and>
    psk \<in> init_keys x' tx \<and> psk \<in> resp_keys x' tx \<and> pq_out (x_init x') = None \<and> pq_next_rotate (x_init x') = now + t_rotate tm"
proof -
  have dec: "k_decapsulate k dk ct = Some shared" using laws enc unfolding kem_laws_def by blast
  define x1 where "x1 = step_init None (tick_peer k tm n now a b (x_init x)) x"
  define x2 where "x2 = step_resp (Some tx) (handle_peer k tm n' now b a (PQInit tx (k_encap_key k dk)) (x_resp x1)) x1"
  define x3 where "x3 = step_init (Some tx) (handle_peer k tm n now a b (PQReply tx ct) (x_init x2)) x2"
  define x4 where "x4 = step_resp (Some tx) (handle_peer k tm n now b a (PQCommit tx) (x_resp x3)) x3"
  define x5 where "x5 = step_init (Some tx) (handle_peer k tm n now a b (PQDone tx) (x_init x4)) x4"
  have tick: "tick_peer k tm n now a b (x_init x) = ([PqSend b (PQInit tx (k_encap_key k dk))], (x_init x)\<lparr>pq_out := Some
      \<lparr>og_tx = tx, og_dk = dk, og_psk = 0, og_commit = False, og_tries = 1, og_last_sent = now\<rparr>\<rparr>)"
    using ab idle gen by (simp add: tick_peer_def tick_send_def initiator_def tx_def)
  have ini: "handle_peer k tm n' now b a (PQInit tx (k_encap_key k dk)) (x_resp x) = ([PqSend a (PQReply tx ct)],
      (x_resp x)\<lparr>pq_in := Some \<lparr>ic_tx = tx, ic_ct = ct, ic_psk = psk, ic_applied = False\<rparr>\<rparr>)"
    using ab enc other by (auto simp: handle_init_def answer_init_def initiator_def tx_def psk_def split: option.splits)
  have key: "derive k shared a b tx = psk" by (simp add: tx_def psk_def)
  note ops = handle_reply_def handle_commit_def handle_done_def set_psk_def Let_def
  have x5: "pq_psk (x_init x5) = psk \<and> pq_psk (x_resp x5) = psk \<and> psk \<in> init_keys x5 tx \<and> psk \<in> resp_keys x5 tx \<and>
      pq_out (x_init x5) = None \<and> pq_next_rotate (x_init x5) = now + t_rotate tm"
    using dec by (simp add: x5_def x4_def x3_def x2_def x1_def tick ini [simplified] ops key)
  have "runs k tm a b (t, x) (now, x1)" unfolding x1_def using t by (rule run_tick)
  moreover have "runs k tm a b (now, x1) (now, x2)"
    using run_resp [of now now "PQInit tx (k_encap_key k dk)" x1 k tm a b n'] by (simp add: x2_def x1_def tick)
  moreover have "runs k tm a b (now, x2) (now, x3)"
    using run_init [of now now "PQReply tx ct" x2 k tm a b n] by (simp add: x3_def x2_def x1_def tick ini [simplified])
  moreover have "runs k tm a b (now, x3) (now, x4)"
    using run_resp [of now now "PQCommit tx" x3 k tm a b n] dec
    by (simp add: x4_def x3_def x2_def x1_def tick ini [simplified] ops)
  moreover have "runs k tm a b (now, x4) (now, x5)"
    using run_init [of now now "PQDone tx" x4 k tm a b n] dec
    by (simp add: x5_def x4_def x3_def x2_def x1_def tick ini [simplified] ops)
  ultimately have "(runs k tm a b)\<^sup>*\<^sup>* (t, x) (now, x5)" by (meson converse_rtranclp_into_rtranclp r_into_rtranclp)
  then show ?thesis using x5 by blast
qed

section \<open>Properties\<close>

lemma init_inv_keys:
  assumes "init_inv k x"
  shows "committed x tx \<subseteq> answers x tx" "init_keys x tx \<subseteq> committed x tx" "init_keys x tx \<noteq> {} \<longrightarrow> resp_keys x tx \<noteq> {}"
  using assms by (simp_all add: init_inv_def)

lemma resp_inv_keys:
  assumes "resp_inv k a b x"
  shows "resp_keys x tx \<subseteq> answers x tx" "resp_keys x tx \<noteq> {} \<longrightarrow> committed x tx \<noteq> {}"
  using assms by (simp_all add: resp_inv_def)

lemma resp_inv_replied:
  assumes "resp_inv k a b x" and "(tx, ct, psk) \<in> set (x_replied x)"
  shows "\<exists>dk n shared. (tx, dk) \<in> set (x_started x) \<and> k_encapsulate k (k_encap_key k dk) n = Some (shared, ct) \<and>
    psk = derive k shared a b tx"
  using assms by (simp add: resp_inv_def)

text \<open>Claim C7 (safety): what the two sides use belongs to the exchange both took part in.  Over a network that
  loses, repeats and reorders messages at will, with restarts and fallbacks at any time: the initiator
  applies a key for an exchange only after the responder applied one for it, and the responder only after
  the initiator committed to one; every key either commits to or applies for an exchange is one the
  responder answered it with, derived from a secret encapsulated to the key the initiator started the exchange
  with; a key applied for any other reason is no key.  So when the responder answered the exchange with one
  key, that key is the one both apply.  The hypothesis on the run is that the random identifiers of the started
  exchanges differ; an answer to a repeated \<^verbatim>\<open>PQInit\<close> may be a second key, and \<open>psk_replay_splits\<close> shows what
  follows then.\<close>

theorem psk_agreement:
  assumes "exchange k tm a b x" and "kem_laws k" and "a < b" and "fresh_exchanges x"
  shows "(init_keys x tx \<noteq> {} \<longrightarrow> resp_keys x tx \<noteq> {}) \<and> (resp_keys x tx \<noteq> {} \<longrightarrow> committed x tx \<noteq> {}) \<and>
    init_keys x tx \<union> resp_keys x tx \<union> committed x tx \<subseteq> answers x tx \<and>
    (\<forall>psk \<in> answers x tx. \<exists>dk n shared ct. (tx, dk) \<in> set (x_started x) \<and>
       k_encapsulate k (k_encap_key k dk) n = Some (shared, ct) \<and> psk = derive k shared a b tx) \<and>
    (\<forall>psk. answers x tx = {psk} \<and> init_keys x tx \<noteq> {} \<longrightarrow> init_keys x tx = {psk} \<and> resp_keys x tx = {psk}) \<and>
    (\<forall>psk. (None, psk) \<in> set (x_init_applied x @ x_resp_applied x) \<longrightarrow> psk = 0)"
proof -
  have inv: "init_inv k x" "resp_inv k a b x" using exchange_inv [OF assms(1-3) assms(4)] by blast+
  have order: "init_keys x tx \<noteq> {} \<longrightarrow> resp_keys x tx \<noteq> {}" "resp_keys x tx \<noteq> {} \<longrightarrow> committed x tx \<noteq> {}"
    and sub: "init_keys x tx \<subseteq> answers x tx" "resp_keys x tx \<subseteq> answers x tx" "committed x tx \<subseteq> answers x tx"
    using init_inv_keys [OF inv(1)] resp_inv_keys [OF inv(2)] by (blast, blast, blast, blast, blast)
  have all: "init_keys x tx \<union> resp_keys x tx \<union> committed x tx \<subseteq> answers x tx" using sub by blast
  have made: "\<forall>psk \<in> answers x tx. \<exists>dk n shared ct. (tx, dk) \<in> set (x_started x) \<and>
      k_encapsulate k (k_encap_key k dk) n = Some (shared, ct) \<and> psk = derive k shared a b tx"
    using resp_inv_replied [OF inv(2)] unfolding answers_def by blast
  have none: "\<forall>psk. (None, psk) \<in> set (x_init_applied x @ x_resp_applied x) \<longrightarrow> psk = 0"
    using inv unfolding init_inv_def resp_inv_def by auto
  have one: "\<forall>psk. answers x tx = {psk} \<and> init_keys x tx \<noteq> {} \<longrightarrow> init_keys x tx = {psk} \<and> resp_keys x tx = {psk}"
    using order(1) sub(1,2) by (auto simp: subset_singleton_iff)
  show ?thesis by (intro conjI order all made one none)
qed

text \<open>Claim C30 (liveness): an exchange can always be completed.  From every reachable state of the pair, whatever
  was lost, repeated or reordered, with exchanges of either side left unfinished and the responder still holding
  an earlier one, ticks of the initiator and deliveries of sent messages lead to a state in which both use
  the key of a new exchange: the initiator gives the unanswered one up after its tries, starts the next at its
  rotation time, and the responder takes it up in place of the earlier one.  A random draw that gives a key and
  an identifier of no earlier exchange is assumed.\<close>

theorem exchange_completes:
  assumes ex: "exchange k tm a b x" and ab: "a < b" and laws: "kem_laws k" and fresh: "fresh_exchanges x"
    and tm: "t_retry tm < 2 ^ 63" and new: "k_tx k n \<notin> fst ` set (x_started x)"
    and gen: "k_generate k n = Some dk" and enc: "k_encapsulate k (k_encap_key k dk) n' = Some (shared, ct)"
  shows "\<exists>t' x'. (runs k tm a b)\<^sup>*\<^sup>* (t, x) (t', x') \<and> exchange k tm a b x' \<and>
    pq_psk (x_init x') = derive k shared a b (k_tx k n) \<and> pq_psk (x_resp x') = derive k shared a b (k_tx k n) \<and>
    derive k shared a b (k_tx k n) \<in> init_keys x' (k_tx k n) \<inter> resp_keys x' (k_tx k n) \<and>
    pq_out (x_init x') = None \<and> pq_next_rotate (x_init x') = t' + t_rotate tm"
proof -
  obtain t1 x1 where x1: "(runs k tm a b)\<^sup>*\<^sup>* (t, x) (t1, x1)" "pq_out (x_init x1) = None" "x_resp x1 = x_resp x"
    using falls_idle [OF ab tm] by blast
  have inv: "resp_inv k a b x" using exchange_inv [OF ex laws ab fresh] by blast
  have other: "ic_tx i \<noteq> k_tx k n" if "pq_in (x_resp x1) = Some i" for i
  proof -
    have "(ic_tx i, ic_ct i, ic_psk i) \<in> set (x_replied x)" using resp_inv_in(1) [OF inv] that x1(3) by simp
    then obtain dk' where "(ic_tx i, dk') \<in> set (x_started x)" using inv unfolding resp_inv_def by blast
    then show ?thesis using new by force
  qed
  let ?now = "max t1 (pq_next_rotate (x_init x1))"
  obtain x' where x': "(runs k tm a b)\<^sup>*\<^sup>* (t1, x1) (?now, x')" "pq_psk (x_init x') = derive k shared a b (k_tx k n)"
    "pq_psk (x_resp x') = derive k shared a b (k_tx k n)" "derive k shared a b (k_tx k n) \<in> init_keys x' (k_tx k n)"
    "derive k shared a b (k_tx k n) \<in> resp_keys x' (k_tx k n)" "pq_out (x_init x') = None" "pq_next_rotate (x_init x') = ?now + t_rotate tm"
    using four_messages [OF ab laws x1(2) max.cobounded2 other gen enc max.cobounded1, of tm] by blast
  have run: "(runs k tm a b)\<^sup>*\<^sup>* (t, x) (?now, x')" using x1(1) x'(1) by (rule rtranclp_trans)
  then have "exchange k tm a b x'" using runs_closed ex by fastforce
  then show ?thesis using run x'(2-7) by blast
qed

text \<open>Claim C22 (error): a repeated \<^verbatim>\<open>PQInit\<close> can leave the two sides with different keys.  The responder remembers
  one exchange only, so when the start of an earlier exchange arrives late, between two copies of the current
  one's, it answers the second copy with a new secret.  The initiator commits to the first answer, the
  responder applies the last, and its \<^verbatim>\<open>PQDone\<close> makes the initiator apply the other: the \<^verbatim>\<open>PQCommit\<close> and
  \<^verbatim>\<open>PQDone\<close> messages name the exchange and not the answer.\<close>

theorem psk_replay_splits:
  assumes ab: "a < b" and laws: "kem_laws k" and gen: "k_generate k n1 = Some d1" "k_generate k n2 = Some d2"
    and enc: "k_encapsulate k (k_encap_key k d1) e1 = Some (s1, c1)" "k_encapsulate k (k_encap_key k d2) e2 = Some (s2, c2)"
      "k_encapsulate k (k_encap_key k d2) e3 = Some (s3, c3)"
    and differ: "k_tx k n1 \<noteq> k_tx k n2" "derive k s2 a b (k_tx k n2) \<noteq> derive k s3 a b (k_tx k n2)"
  shows "\<exists>x. exchange k tm a b x \<and> fresh_exchanges x \<and>
    init_keys x (k_tx k n2) = {derive k s2 a b (k_tx k n2)} \<and> resp_keys x (k_tx k n2) = {derive k s3 a b (k_tx k n2)} \<and>
    pq_psk (x_init x) = derive k s2 a b (k_tx k n2) \<and> pq_psk (x_resp x) = derive k s3 a b (k_tx k n2) \<and>
    pq_psk (x_init x) \<noteq> pq_psk (x_resp x)"
proof -
  let ?t1 = "k_tx k n1" and ?t2 = "k_tx k n2" and ?e1 = "k_encap_key k d1" and ?e2 = "k_encap_key k d2"
  have dec: "k_decapsulate k d2 c2 = Some s2" using laws enc(2) unfolding kem_laws_def by blast
  have nab: "\<not> b < a" using ab by simp
  note ops = tick_peer_def tick_send_def initiator_def handle_init_def answer_init_def handle_reply_def handle_commit_def
    handle_done_def set_psk_def new_peer_state_def Let_def
  define x0 where "x0 = new_pair 0 0"
  define x1 where "x1 = step_init None (tick_peer k tm n1 0 a b (x_init x0)) x0"
  define x2 where "x2 = step_init None ([], new_peer_state 0) x1"
  define x3 where "x3 = step_init None (tick_peer k tm n2 0 a b (x_init x2)) x2"
  define x4 where "x4 = step_resp (Some ?t2) (handle_peer k tm e2 0 b a (PQInit ?t2 ?e2) (x_resp x3)) x3"
  define x5 where "x5 = step_resp (Some ?t1) (handle_peer k tm e1 0 b a (PQInit ?t1 ?e1) (x_resp x4)) x4"
  define x6 where "x6 = step_resp (Some ?t2) (handle_peer k tm e3 0 b a (PQInit ?t2 ?e2) (x_resp x5)) x5"
  define x7 where "x7 = step_init (Some ?t2) (handle_peer k tm 0 0 a b (PQReply ?t2 c2) (x_init x6)) x6"
  define x8 where "x8 = step_resp (Some ?t2) (handle_peer k tm 0 0 b a (PQCommit ?t2) (x_resp x7)) x7"
  define x9 where "x9 = step_init (Some ?t2) (handle_peer k tm 0 0 a b (PQDone ?t2) (x_init x8)) x8"
  have i0: "x_init x0 = new_peer_state 0" "x_resp x0 = new_peer_state 0" by (simp_all add: x0_def new_pair_def)
  have i3: "x_resp x3 = new_peer_state 0" "pq_out (x_init x3) = Some \<lparr>og_tx = ?t2, og_dk = d2, og_psk = 0, og_commit = False, og_tries = 1, og_last_sent = 0\<rparr>"
    "PQInit ?t1 ?e1 \<in> set (x_to_resp x3)" "PQInit ?t2 ?e2 \<in> set (x_to_resp x3)"
    "map fst (x_started x3) = [?t1, ?t2]" "init_keys x3 ?t2 = {}" "resp_keys x3 ?t2 = {}"
    using ab gen i0 by (simp_all add: x3_def x2_def x1_def ops) (simp_all add: x0_def new_pair_def key_sets)
  have i6: "pq_in (x_resp x6) = Some \<lparr>ic_tx = ?t2, ic_ct = c3, ic_psk = derive k s3 a b ?t2, ic_applied = False\<rparr>"
    "x_init x6 = x_init x3" "PQReply ?t2 c2 \<in> set (x_to_init x6)" "x_started x6 = x_started x3"
    "init_keys x6 ?t2 = {}" "resp_keys x6 ?t2 = {}"
    using nab enc differ(1) i3 by (simp_all add: x6_def x5_def x4_def ops)
  have i9: "init_keys x9 ?t2 = {derive k s2 a b ?t2}" "resp_keys x9 ?t2 = {derive k s3 a b ?t2}"
    "pq_psk (x_init x9) = derive k s2 a b ?t2" "pq_psk (x_resp x9) = derive k s3 a b ?t2" "map fst (x_started x9) = [?t1, ?t2]"
    "PQCommit ?t2 \<in> set (x_to_resp x7)" "PQDone ?t2 \<in> set (x_to_init x8)"
    using dec i3 i6 by (simp_all add: x9_def x8_def x7_def ops)
  have "exchange k tm a b x3" unfolding x3_def x2_def x1_def x0_def by (intro exchange.intros)
  then have "exchange k tm a b x4" unfolding x4_def using exchange.at_resp [of k tm a b x3 "PQInit ?t2 ?e2" e2 0] i3(4) by simp
  then have "exchange k tm a b x5" unfolding x5_def using exchange.at_resp [of k tm a b x4 "PQInit ?t1 ?e1" e1 0] i3(3) by (simp add: x4_def)
  then have "exchange k tm a b x6" unfolding x6_def using exchange.at_resp [of k tm a b x5 "PQInit ?t2 ?e2" e3 0] i3(4) by (simp add: x5_def x4_def)
  then have "exchange k tm a b x7" unfolding x7_def using exchange.at_init [of k tm a b x6 "PQReply ?t2 c2" 0 0] i6(3) by simp
  then have "exchange k tm a b x8" unfolding x8_def using exchange.at_resp [of k tm a b x7 "PQCommit ?t2" 0 0] i9(6) by simp
  then have "exchange k tm a b x9" unfolding x9_def using exchange.at_init [of k tm a b x8 "PQDone ?t2" 0 0] i9(7) by simp
  then show ?thesis using i9 differ by (intro exI [of _ x9]) (simp add: fresh_exchanges_def)
qed

text \<open>A disagreement does not last.  When a peer's pings have named another key for the
  grace period, the next one makes this side drop its key and start over.\<close>

theorem mismatch_falls_back:
  assumes "theirs \<noteq> fingerprint k (pq_psk ps)" and "pq_mismatch_since ps = zero_time" and "now \<noteq> zero_time"
    and "t_grace tm \<le> later - now" and "\<bar>t_grace tm\<bar> < 2 ^ 63 - 1" and "0 < t_grace tm"
  shows "\<exists>ps1 fx ps2. observe_peer k tm now peer theirs ps = ([], ps1) \<and>
    observe_peer k tm later peer theirs ps1 = (fx, ps2) \<and>
    pq_psk ps2 = 0 \<and> pq_out ps2 = None \<and> pq_in ps2 = None \<and> pq_next_rotate ps2 = later \<and>
    (pq_psk ps \<noteq> 0 \<longrightarrow> fx = [PqApply peer 0])"
proof -
  have "t_grace tm \<le> time_sub later now" using assms(4-6) by (auto simp: time_sub_def)
  then show ?thesis using assms(1-3) by (auto simp: observe_peer_def set_psk_def)
qed


subsection \<open>Witnesses\<close>

definition demo_kem :: kem where
  "demo_kem = \<lparr>k_generate = (\<lambda>n. Some [of_nat n]), k_encap_key = id, k_encapsulate = (\<lambda>ek n. Some ([of_nat n], ek @ [of_nat n])),
     k_decapsulate = (\<lambda>dk ct. Some (drop (length dk) ct)), k_hkdf = (\<lambda>s salt info. s), k_sha256 = id, k_tx = of_nat\<rparr>"

lemma demo_kem_laws: "kem_laws demo_kem"
  by (simp add: kem_laws_def demo_kem_def)

definition demo_x2 :: pair where
  "demo_x2 = (let x0 = new_pair 0 0; x1 = step_init None (tick_peer demo_kem default_timing 3 0 1 2 (x_init x0)) x0
     in step_resp (Some 3) (handle_peer demo_kem default_timing 5 0 2 1 (PQInit 3 [3]) (x_resp x1)) x1)"

definition demo_x4 :: pair where
  "demo_x4 = (let x3 = step_init (Some 3) (handle_peer demo_kem default_timing 0 0 1 2 (PQReply 3 [3, 5]) (x_init demo_x2)) demo_x2
     in step_resp (Some 3) (handle_peer demo_kem default_timing 0 0 2 1 (PQCommit 3) (x_resp x3)) x3)"

definition demo_exchange :: pair where
  "demo_exchange = step_init (Some 3) (handle_peer demo_kem default_timing 0 0 1 2 (PQDone 3) (x_init demo_x4)) demo_x4"

lemmas pq_eval = demo_exchange_def demo_x4_def demo_x2_def new_pair_def demo_kem_def Let_def step_init_def step_resp_def
  tick_peer_def tick_send_def initiator_def handle_init_def answer_init_def handle_reply_def handle_commit_def
  handle_done_def set_psk_def new_peer_state_def derive_def bytes_array_def be_nat_def started_by_def replied_by_def committed_by_def

lemma demo_x2_reached: "exchange demo_kem default_timing 1 2 demo_x2"
proof -
  have m: "PQInit 3 [3] \<in> set (x_to_resp (step_init None (tick_peer demo_kem default_timing 3 0 1 2 (x_init (new_pair 0 0))) (new_pair 0 0)))"
    by (simp add: pq_eval)
  show ?thesis
    using exchange.at_resp [OF exchange.tick [OF exchange.start] m, of 5 0] unfolding demo_x2_def Let_def by simp
qed

lemma demo_exchange_reached: "exchange demo_kem default_timing 1 2 demo_exchange"
proof -
  have r: "PQReply 3 [3, 5] \<in> set (x_to_init demo_x2)" by (simp add: pq_eval)
  have c: "PQCommit 3 \<in> set (x_to_resp (step_init (Some 3) (handle_peer demo_kem default_timing 0 0 1 2 (PQReply 3 [3, 5]) (x_init demo_x2)) demo_x2))"
    by (simp add: pq_eval)
  have "exchange demo_kem default_timing 1 2 demo_x4"
    using exchange.at_resp [of demo_kem default_timing 1 2 _ "PQCommit 3" 0 0, OF _ c] exchange.at_init [OF demo_x2_reached r, of 0 0]
    unfolding demo_x4_def Let_def by simp
  then show ?thesis
    using exchange.at_init [of demo_kem default_timing 1 2 demo_x4 "PQDone 3" 0 0] unfolding demo_exchange_def by (simp add: pq_eval)
qed

lemma demo_exchange_result:
  "init_keys demo_exchange 3 = {5}" "answers demo_exchange 3 = {5}" "fresh_exchanges demo_exchange" "x_started demo_exchange = [(3, [3])]"
  by (auto simp: pq_eval fresh_exchanges_def key_sets)

theorem psk_agreement_witness: "init_keys demo_exchange 3 = {5} \<and> resp_keys demo_exchange 3 = {5} \<and> committed demo_exchange 3 \<noteq> {}"
  using psk_agreement [OF demo_exchange_reached demo_kem_laws, of 3] by (simp add: demo_exchange_result)

theorem exchange_completes_witness:
  "\<exists>t' x'. (runs demo_kem default_timing 1 2)\<^sup>*\<^sup>* (second, demo_exchange) (t', x') \<and> pq_psk (x_init x') = 6 \<and> pq_psk (x_resp x') = 6"
proof -
  have "derive demo_kem [6] 1 2 (k_tx demo_kem 4) = 6" by (simp add: demo_kem_def derive_def bytes_array_def be_nat_def)
  moreover have "k_tx demo_kem 4 \<notin> fst ` set (x_started demo_exchange)" by (simp add: demo_exchange_result demo_kem_def)
  moreover have "t_retry default_timing < 2 ^ 63" by (simp add: default_timing_def)
  moreover have "k_generate demo_kem 4 = Some [4]" "k_encapsulate demo_kem (k_encap_key demo_kem [4]) 6 = Some ([6], [4, 6])"
    by (simp_all add: demo_kem_def)
  ultimately show ?thesis
    using exchange_completes [OF demo_exchange_reached _ demo_kem_laws demo_exchange_result(3), of 4 "[4]" 6 "[6]" "[4, 6]" second] by auto
qed

theorem psk_replay_splits_witness:
  "\<exists>x. exchange demo_kem default_timing 1 2 x \<and> fresh_exchanges x \<and> init_keys x 4 = {5} \<and> resp_keys x 4 = {7} \<and>
    pq_psk (x_init x) = 5 \<and> pq_psk (x_resp x) = 7"
proof -
  have d: "derive demo_kem [5] 1 2 4 = 5" "derive demo_kem [7] 1 2 4 = 7"
    by (simp_all add: demo_kem_def derive_def bytes_array_def be_nat_def)
  have "k_tx demo_kem 3 = 3" "k_tx demo_kem 4 = 4" by (simp_all add: demo_kem_def)
  then show ?thesis
    using psk_replay_splits [of 1 2 demo_kem 3 "[3]" 4 "[4]" 6 "[6]" "[3, 6]" 5 "[5]" "[4, 5]" 7 "[7]" "[4, 7]" default_timing] demo_kem_laws d
    by (auto simp: demo_kem_def)
qed

theorem mismatch_falls_back_witness:
  "\<exists>ps1 fx ps2. observe_peer demo_kem default_timing second 2 7 (new_peer_state 0) = ([], ps1) \<and>
    observe_peer demo_kem default_timing (8 * second) 2 7 ps1 = (fx, ps2) \<and> pq_psk ps2 = 0 \<and> pq_next_rotate ps2 = 8 * second"
  using mismatch_falls_back [of 7 demo_kem "new_peer_state 0" second default_timing "8 * second" 2]
  by (auto simp: fingerprint_def new_peer_state_def default_timing_def zero_time_def)

end
