(* ===== verification/Net_Lock.thy ===== *)
theory Net_Lock
  imports Encodings
begin

text \<open>
  \<^verbatim>\<open>internal/netlock/netlock.go\<close>: the network lock, a chain of signed key lists.  Ed25519 is a
  parameter: \<open>verify k m s\<close> stands for \<^verbatim>\<open>ed25519.Verify\<close>, \<open>sign\<close> and \<open>pub\<close> for the signing side, and
  \<open>sign_laws\<close> for their contract.  The \<^verbatim>\<open>LockState\<close> and \<^verbatim>\<open>NodeSignature\<close> protocol messages are records of
  the fields the schema declares.  \<^verbatim>\<open>proto.Equal\<close> is equality of these records: messages that differ only in unknown fields,
  which \<^verbatim>\<open>proto.Equal\<close> tells apart and no signature covers, are one here.
\<close>

section \<open>Definitions\<close>

record lock_state =
  ls_version :: u64
  ls_keys :: "bytes list"
  ls_disabled :: bool
  ls_signer :: bytes
  ls_signature :: bytes

record node_signature =
  ns_signer :: bytes
  ns_signature :: bytes

type_synonym verify_fn = "bytes \<Rightarrow> bytes \<Rightarrow> bytes \<Rightarrow> bool"

definition pub_prefix :: string where "pub_prefix = ''wslock:''"

definition encode_public :: "bytes \<Rightarrow> string" where
  "encode_public k = pub_prefix @ raw_url_encode k"

definition trim_prefix :: "string \<Rightarrow> string \<Rightarrow> string" where
  "trim_prefix p s = (if has_prefix p s then drop (length p) s else s)"

definition parse_lock_public :: "string \<Rightarrow> bytes option" where
  "parse_lock_public s =
     (case raw_url_decode (trim_prefix pub_prefix (trim_space s)) of
        None \<Rightarrow> None
      | Some b \<Rightarrow> if \<not> has_prefix pub_prefix (trim_space s) \<or> length b \<noteq> 32 then None else Some b)"

definition state_digest :: "lock_state \<Rightarrow> bytes" where
  "state_digest st =
     ascii ''whalescale lock state v1'' @ [0] @ put_u64 (ls_version st) @ [if ls_disabled st then 1 else 0]
     @ put_u32 (of_nat (length (ls_keys st))) @ concat (ls_keys st)"

definition sign_state :: "(bytes \<Rightarrow> bytes) \<Rightarrow> (bytes \<Rightarrow> bytes \<Rightarrow> bytes) \<Rightarrow> lock_state \<Rightarrow> bytes \<Rightarrow> lock_state" where
  "sign_state pub sign st priv =
     (let st = st\<lparr>ls_signer := pub priv\<rparr> in st\<lparr>ls_signature := sign priv (state_digest st)\<rparr>)"

definition trusts :: "lock_state \<Rightarrow> bytes \<Rightarrow> bool" where
  "trusts st k \<longleftrightarrow> list_ex (\<lambda>t. t = k) (ls_keys st)"

datatype lock_error = TrustsNoKeys u64 | MalformedKey u64 | WrongVersion u64 u64 | NotSigned u64
  | NotPinned | HistoryLacks u64

definition check_keys :: "lock_state \<Rightarrow> lock_error option" where
  "check_keys st =
     (if ls_keys st = [] then Some (TrustsNoKeys (ls_version st))
      else if list_ex (\<lambda>k. length k \<noteq> 32) (ls_keys st) then Some (MalformedKey (ls_version st))
      else None)"

text \<open>\<^verbatim>\<open>Next\<close>: \<open>None\<close> when \<open>nxt\<close> may follow \<open>prev\<close>.\<close>

definition next_error :: "verify_fn \<Rightarrow> lock_state option \<Rightarrow> lock_state \<Rightarrow> lock_error option" where
  "next_error verify prev nxt =
     (case check_keys nxt of
        Some e \<Rightarrow> Some e
      | None \<Rightarrow>
          let (signers, want) = (case prev of Some p \<Rightarrow> (p, ls_version p + 1) | None \<Rightarrow> (nxt, 1)) in
          if ls_version nxt \<noteq> want then Some (WrongVersion (ls_version nxt) want)
          else if \<not> trusts signers (ls_signer nxt) \<or> \<not> verify (ls_signer nxt) (state_digest nxt) (ls_signature nxt)
          then Some (NotSigned (ls_version nxt)) else None)"

fun verify_chain :: "verify_fn \<Rightarrow> lock_state option \<Rightarrow> lock_state list \<Rightarrow> lock_error option" where
  "verify_chain verify prev [] = None"
| "verify_chain verify prev (st # sts) =
     (case next_error verify prev st of Some e \<Rightarrow> Some e | None \<Rightarrow> verify_chain verify (Some st) sts)"

text \<open>The loop of \<^verbatim>\<open>Advance\<close> after the state already trusted.\<close>

fun follow :: "verify_fn \<Rightarrow> lock_state \<Rightarrow> lock_state list \<Rightarrow> lock_state \<times> lock_error option" where
  "follow verify head [] = (head, None)"
| "follow verify head (st # sts) =
     (case next_error verify (Some head) st of
        Some e \<Rightarrow> (head, Some e)
      | None \<Rightarrow> follow verify st sts)"

text \<open>The last position of \<open>version\<close> in the chain, as the search loop leaves it.\<close>

definition find_version :: "u64 \<Rightarrow> lock_state list \<Rightarrow> nat option" where
  "find_version v chain =
     foldl (\<lambda>start (i, st). if ls_version st = v then Some i else start) None (enumerate 0 chain)"

definition advance ::
  "verify_fn \<Rightarrow> lock_state option \<Rightarrow> lock_state list \<Rightarrow> bytes list \<Rightarrow> lock_state option \<times> lock_error option"
where
  "advance verify local chain pinned =
     (case local of
        None \<Rightarrow>
          if chain = [] then (None, None)
          else (case verify_chain verify None chain of
              Some e \<Rightarrow> (None, Some e)
            | None \<Rightarrow>
                if pinned \<noteq> [] \<and> ls_signer (hd chain) \<notin> set pinned then (None, Some NotPinned)
                else (Some (last chain), None))
      | Some l \<Rightarrow>
          (case find_version (ls_version l) chain of
             None \<Rightarrow> (Some l, Some (HistoryLacks (ls_version l)))
           | Some i \<Rightarrow>
               if chain ! i \<noteq> l then (Some l, Some (HistoryLacks (ls_version l)))
               else (case follow verify l (drop (i + 1) chain) of (h, e) \<Rightarrow> (Some h, e))))"

definition node_digest :: "bytes \<Rightarrow> bytes" where
  "node_digest k = ascii ''whalescale lock node v1'' @ [0] @ k"

definition sign_node :: "(bytes \<Rightarrow> bytes) \<Rightarrow> (bytes \<Rightarrow> bytes \<Rightarrow> bytes) \<Rightarrow> bytes \<Rightarrow> bytes \<Rightarrow> node_signature" where
  "sign_node pub sign priv k = \<lparr>ns_signer = pub priv, ns_signature = sign priv (node_digest k)\<rparr>"

definition node_signed :: "verify_fn \<Rightarrow> lock_state \<Rightarrow> bytes \<Rightarrow> node_signature option \<Rightarrow> bool" where
  "node_signed verify head k sig =
     (case sig of
        None \<Rightarrow> False
      | Some s \<Rightarrow> length k = 32 \<and> trusts head (ns_signer s) \<and> length (ns_signer s) = 32 \<and>
          verify (ns_signer s) (node_digest k) (ns_signature s))"

definition enforced :: "lock_state option \<Rightarrow> bool" where
  "enforced head = (case head of None \<Rightarrow> False | Some h \<Rightarrow> \<not> ls_disabled h)"

text \<open>Ed25519 accepts what it signed.\<close>

definition sign_laws :: "(bytes \<Rightarrow> bytes) \<Rightarrow> (bytes \<Rightarrow> bytes \<Rightarrow> bytes) \<Rightarrow> verify_fn \<Rightarrow> bool" where
  "sign_laws pub sign verify \<longleftrightarrow> (\<forall>priv m. length (pub priv) = 32 \<and> verify (pub priv) m (sign priv m))"

section \<open>Specification\<close>

text \<open>One step of the lock, and the states that follow from a given one.\<close>

definition signed_step :: "verify_fn \<Rightarrow> lock_state \<Rightarrow> lock_state \<Rightarrow> bool" where
  "signed_step verify s t \<longleftrightarrow>
     ls_version t = ls_version s + 1 \<and> ls_keys t \<noteq> [] \<and> (\<forall>k \<in> set (ls_keys t). length k = 32) \<and>
     ls_signer t \<in> set (ls_keys s) \<and> verify (ls_signer t) (state_digest t) (ls_signature t)"

inductive follows :: "verify_fn \<Rightarrow> lock_state \<Rightarrow> lock_state \<Rightarrow> bool" for verify where
  follows_refl: "follows verify s s"
| follows_step: "follows verify s t \<Longrightarrow> signed_step verify t u \<Longrightarrow> follows verify s u"

inductive_cases follows_cases: "follows verify s t"

definition first_state :: "verify_fn \<Rightarrow> lock_state \<Rightarrow> bool" where
  "first_state verify s \<longleftrightarrow>
     ls_version s = 1 \<and> (\<forall>k \<in> set (ls_keys s). length k = 32) \<and> ls_signer s \<in> set (ls_keys s) \<and>
     verify (ls_signer s) (state_digest s) (ls_signature s)"

section \<open>Lemmas\<close>

lemma check_keys_None: "check_keys st = None \<longleftrightarrow> ls_keys st \<noteq> [] \<and> (\<forall>k \<in> set (ls_keys st). length k = 32)"
  by (auto simp: check_keys_def list_ex_iff)

lemma next_error_Some: "next_error verify (Some s) t = None \<longleftrightarrow> signed_step verify s t"
  using check_keys_None [of t]
  by (cases "check_keys t") (auto simp: next_error_def signed_step_def trusts_def list_ex_iff)

lemma next_error_first: "next_error verify None t = None \<longleftrightarrow> first_state verify t"
  using check_keys_None [of t]
  by (cases "check_keys t") (auto simp: next_error_def first_state_def trusts_def list_ex_iff)

lemma follows_trans: "follows verify t u \<Longrightarrow> follows verify s t \<Longrightarrow> follows verify s u"
  by (induction rule: follows.induct) (auto intro: follows_step)

lemma follow_follows: "follow verify h sts = (h', e) \<Longrightarrow> follows verify h h'"
proof (induction sts arbitrary: h)
  case Nil
  then show ?case by (simp add: follows_refl)
next
  case (Cons st sts)
  then show ?case
    by (auto simp: next_error_Some [symmetric] split: option.splits
        intro: follows_refl follows_trans [OF _ follows_step [OF follows_refl]] dest!: next_error_Some [THEN iffD1])
qed

lemma verify_chain_follows:
  "verify_chain verify (Some s) sts = None \<Longrightarrow> follows verify s (last (s # sts))"
proof (induction sts arbitrary: s)
  case (Cons t sts)
  then have "signed_step verify s t" "follows verify t (last (t # sts))"
    by (auto simp: next_error_Some split: option.splits)
  then show ?case using follows_trans [OF _ follows_step [OF follows_refl]] by simp
qed (simp add: follows_refl)

lemma follow_all: "verify_chain verify (Some h) sts = None \<Longrightarrow> follow verify h sts = (last (h # sts), None)"
  by (induction sts arbitrary: h) (auto split: option.splits)

lemma find_version_app:
  "foldl (\<lambda>start (i, st). if ls_version st = v then Some i else start) a (enumerate n sts) =
     (if \<forall>st \<in> set sts. ls_version st \<noteq> v then a
      else foldl (\<lambda>start (i, st). if ls_version st = v then Some i else start) None (enumerate n sts))"
proof (induction sts arbitrary: a n)
  case (Cons st sts)
  show ?case
  proof (cases "ls_version st = v")
    case False
    then show ?thesis using Cons.IH [of a "Suc n"] Cons.IH [of None "Suc n"] by simp
  qed simp
qed simp

lemma find_version_at:
  assumes "\<forall>st \<in> set rest. ls_version st \<noteq> ls_version l"
  shows "find_version (ls_version l) (pre @ l # rest) = Some (length pre)"
  using assms find_version_app [of "ls_version l" "Some (length pre)" "Suc (length pre)" rest]
  by (simp add: find_version_def enumerate_append_eq)

lemma put_u64_inj: "put_u64 v = put_u64 w \<longleftrightarrow> v = w"
proof -
  have "array_bytes u = put_u64 u" for u :: u64 by (simp add: array_bytes_def put_u64_def)
  moreover have "bytes_array (array_bytes u) = u" for u :: u64 by simp
  ultimately show ?thesis by metis
qed

lemma advance_trusted:
  "\<exists>h. fst (advance verify (Some l) chain pinned) = Some h \<and> follows verify l h"
  using follow_follows [of verify l] by (auto simp: advance_def follows_refl split: option.splits prod.splits)

lemma advance_whole:
  assumes "verify_chain verify (Some l) rest = None" "\<forall>st \<in> set rest. ls_version st \<noteq> ls_version l"
  shows "advance verify (Some l) (pre @ l # rest) pinned = (Some (last (l # rest)), None)"
  using find_version_at [OF assms(2), of pre] follow_all [OF assms(1)] by (simp add: advance_def)

section \<open>Properties\<close>

text \<open>The server can delay lock changes but never undo or forge them: whatever chain it sends,
  the state a node ends up with follows from the one it trusted by steps each signed with a key
  the state before trusts; on first use it follows from a version 1 signed by one of its own
  keys, a pinned one if any key was pinned, and otherwise nothing is trusted.\<close>

theorem advance_never_forges:
  "case local of
     Some l \<Rightarrow> \<exists>h. fst (advance verify local chain pinned) = Some h \<and> follows verify l h
   | None \<Rightarrow> (case fst (advance verify local chain pinned) of
        None \<Rightarrow> True
      | Some h \<Rightarrow> \<exists>s. first_state verify s \<and> follows verify s h \<and> (pinned = [] \<or> ls_signer s \<in> set pinned))"
proof (cases local)
  case None
  show ?thesis
  proof (cases chain)
    case (Cons s sts)
    then show ?thesis
      using None verify_chain_follows [of verify s sts]
      by (auto simp: advance_def next_error_first split: option.splits)
  qed (simp add: None advance_def)
next
  case (Some l)
  then show ?thesis using advance_trusted by simp
qed

text \<open>An honest chain is accepted: when the chain holds the trusted state and what comes after
  it verifies, the node moves to the newest state without an error.\<close>

theorem advance_accepts:
  assumes "verify_chain verify (Some l) rest = None" "\<forall>st \<in> set rest. ls_version st \<noteq> ls_version l"
  shows "advance verify (Some l) (pre @ l # rest) pinned = (Some (last (l # rest)), None)"
  by (rule advance_whole [OF assms])

text \<open>A signature over a lock state binds its version, its keys and whether it is disabled, and
  cannot be passed off as one over a node key.\<close>

theorem state_digest_binds:
  assumes "\<forall>k \<in> set (ls_keys s) \<union> set (ls_keys t). length k = 32"
  shows "(state_digest s = state_digest t \<longleftrightarrow>
      ls_version s = ls_version t \<and> ls_disabled s = ls_disabled t \<and> ls_keys s = ls_keys t) \<and>
    state_digest s \<noteq> node_digest k"
proof -
  have len: "length (concat ks) = 32 * length ks" if "\<forall>k \<in> set ks. length k = 32" for ks :: "bytes list"
    using that by (induction ks) auto
  have inj: "concat xs = concat ys \<Longrightarrow> \<forall>k \<in> set xs \<union> set ys. length k = 32 \<Longrightarrow> xs = ys" for xs ys :: "bytes list"
    using len [of xs] len [of ys] by (intro concat_injective) (auto, metis UnI1 UnI2 set_zip_leftD set_zip_rightD)
  have "ls_keys s = ls_keys t" if "concat (ls_keys s) = concat (ls_keys t)" using inj [OF that] assms by blast
  moreover have "state_digest s \<noteq> node_digest k"
    by (simp add: state_digest_def node_digest_def ascii_def)
  ultimately show ?thesis by (auto simp: state_digest_def put_u64_inj split: if_splits)
qed

text \<open>What the lock's tools sign is accepted: a state one version later signed by a trusted key
  may follow, and a node key signed by a trusted key is a signed node.\<close>

theorem signed_is_accepted:
  assumes "sign_laws pub sign verify" "pub priv \<in> set (ls_keys s)" "ls_version t = ls_version s + 1"
    and "ls_keys t \<noteq> []" "\<forall>k \<in> set (ls_keys t). length k = 32" "length nk = 32"
  shows "next_error verify (Some s) (sign_state pub sign t priv) = None \<and>
    node_signed verify s nk (Some (sign_node pub sign priv nk))"
proof -
  have "state_digest (t\<lparr>ls_signer := pub priv, ls_signature := x\<rparr>) = state_digest (t\<lparr>ls_signer := pub priv\<rparr>)" for x
    by (simp add: state_digest_def)
  then have "signed_step verify s (sign_state pub sign t priv)"
    using assms by (simp add: signed_step_def sign_state_def Let_def sign_laws_def)
  then show ?thesis
    using assms by (auto simp: next_error_Some node_signed_def sign_node_def trusts_def list_ex_iff sign_laws_def)
qed

text \<open>A signature scheme to run the model on: the signature is the message.\<close>

definition demo_verify :: verify_fn where
  "demo_verify k m s \<longleftrightarrow> m = s"

definition demo_key :: bytes where
  "demo_key = replicate 32 7"

definition demo_state :: "u64 \<Rightarrow> lock_state" where
  "demo_state v = sign_state (\<lambda>_. demo_key) (\<lambda>_ m. m)
     \<lparr>ls_version = v, ls_keys = [demo_key], ls_disabled = False, ls_signer = [], ls_signature = []\<rparr> []"

lemma demo_sign: "sign_laws (\<lambda>_. demo_key) (\<lambda>_ m. m) demo_verify"
  by (simp add: sign_laws_def demo_verify_def demo_key_def)

lemma demo_step: "verify_chain demo_verify (Some (demo_state 1)) [demo_state 2] = None"
proof -
  have "signed_step demo_verify (demo_state 1) (demo_state 2)"
    by (simp add: signed_step_def demo_state_def sign_state_def demo_verify_def demo_key_def state_digest_def)
  then show ?thesis by (simp flip: next_error_Some)
qed

theorem advance_accepts_witness:
  "advance demo_verify (Some (demo_state 1)) [demo_state 1, demo_state 2] [] = (Some (demo_state 2), None)"
  using advance_accepts [OF demo_step, of "[]" "[]"] by (simp add: demo_state_def sign_state_def)

theorem state_digest_binds_witness: "state_digest (demo_state 1) \<noteq> state_digest (demo_state 2)"
  using state_digest_binds [of "demo_state 1" "demo_state 2"] by (simp add: demo_state_def sign_state_def demo_key_def)

theorem signed_is_accepted_witness:
  "node_signed demo_verify (demo_state 1) demo_key (Some (sign_node (\<lambda>_. demo_key) (\<lambda>_ m. m) [] demo_key))"
  using signed_is_accepted [OF demo_sign, where priv = "[]" and s = "demo_state 1" and t = "demo_state 2" and nk = demo_key]
  by (simp add: demo_state_def sign_state_def demo_key_def)

end
