(* ===== verification/Net_Map.thy ===== *)
theory Net_Map
  imports Net_Lock
begin

text \<open>
  The network map a node is sent (the messages of \<^verbatim>\<open>proto/whalescale/v1/control.proto\<close> it is made of) and
  \<^verbatim>\<open>internal/netmap/netmap.go\<close>, which applies incremental updates to it on the client.  A message field
  that may be absent is an option; a nil and an empty list are the same to every reader of a map.
  Messages are values here: the sources share them between maps and never change a shared one.
\<close>

section \<open>Messages\<close>

record wire_node =
  w_id :: u64
  w_name :: string
  w_user :: string
  w_machine_key :: string
  w_addresses :: "string list"
  w_os :: string
  w_created_at :: "time option"
  w_last_seen :: "time option"
  w_ephemeral :: bool
  w_node_key :: string
  w_disco_key :: string
  w_endpoints :: "string list"
  w_online :: bool
  w_fqdn :: string
  w_routes :: "string list"
  w_advertised_routes :: "string list"
  w_exit_node :: bool
  w_ssh_host_key :: string
  w_lock_signature :: "node_signature option"
  w_os_version :: string
  w_client_version :: string

record wire_rule =
  wr_src :: "string list"
  wr_ports :: "(u32 \<times> u32) list"
  wr_dst :: "string list"

record wire_ssh =
  ws_src :: "string list"
  ws_users :: "string list"
  ws_record :: bool

record peer_relay =
  wp_name :: string
  wp_node_key :: string
  wp_disco_key :: string
  wp_endpoints :: "string list"

record wire_client =
  wc_node_key :: string
  wc_disco_key :: string

record exposure =
  x_name :: string
  x_port :: u32
  x_approved :: bool
  x_url :: string
  x_problem :: string

record network_map =
  nm_self :: "wire_node option"
  nm_peers :: "wire_node list"
  nm_dns :: "string option"
  nm_relays :: "string list"
  nm_stun :: "string list"
  nm_packet_filter :: "wire_rule list"
  nm_version :: u64
  nm_exposures :: "exposure list"
  nm_gateway_url :: string
  nm_peer_relays :: "peer_relay list"
  nm_relay_clients :: "wire_client list"
  nm_relay_offered :: bool
  nm_relay_approved :: bool
  nm_ssh_rules :: "wire_ssh list"
  nm_flow_logs :: bool
  nm_quic_relay :: string
  nm_quic_relay_cert :: string
  nm_lock_chain :: "lock_state list"
  nm_control_urls :: "string list"
  nm_post_quantum :: bool
  nm_server_key :: string

record map_delta =
  d_version :: u64
  d_self :: "wire_node option"
  d_peers_changed :: "wire_node list"
  d_peers_removed :: "u64 list"
  d_packet_filter :: "wire_rule list option"
  d_settings :: "network_map option"

section \<open>Applying an update\<close>

datatype map_error = DeltaBeforeMap

definition shallow_copy :: "network_map \<Rightarrow> network_map" where
  "shallow_copy m =
     \<lparr>nm_self = None, nm_peers = [], nm_dns = nm_dns m, nm_relays = nm_relays m, nm_stun = nm_stun m,
      nm_packet_filter = [], nm_version = 0, nm_exposures = nm_exposures m, nm_gateway_url = nm_gateway_url m,
      nm_peer_relays = nm_peer_relays m, nm_relay_clients = nm_relay_clients m, nm_relay_offered = nm_relay_offered m,
      nm_relay_approved = nm_relay_approved m, nm_ssh_rules = nm_ssh_rules m, nm_flow_logs = nm_flow_logs m,
      nm_quic_relay = nm_quic_relay m, nm_quic_relay_cert = nm_quic_relay_cert m, nm_lock_chain = nm_lock_chain m,
      nm_control_urls = nm_control_urls m, nm_post_quantum = nm_post_quantum m, nm_server_key = nm_server_key m\<rparr>"

definition with_peers :: "network_map \<Rightarrow> wire_node list \<Rightarrow> network_map" where
  "with_peers m ps = (shallow_copy m)\<lparr>nm_self := nm_self m, nm_packet_filter := nm_packet_filter m,
     nm_version := nm_version m, nm_peers := ps\<rparr>"

definition put_node :: "wire_node \<Rightarrow> (u64, wire_node) gomap \<Rightarrow> (u64, wire_node) gomap" where
  "put_node p m = AList.update (w_id p) p m"

text \<open>The new peer list; the peers leave the Go map in any order and are sorted by their ids.\<close>

definition apply_peers :: "wire_node list \<Rightarrow> wire_node list \<Rightarrow> u64 list \<Rightarrow> wire_node list" where
  "apply_peers cur changed removed =
     (if changed \<noteq> [] \<or> removed \<noteq> [] then
        let m0 = fold put_node cur []; m1 = fold AList.delete removed m0; m2 = fold put_node changed m1
        in sort_key w_id (map snd m2)
      else cur)"

definition apply_delta :: "network_map option \<Rightarrow> map_delta \<Rightarrow> map_error + network_map" where
  "apply_delta cur d =
     (case cur of
        None \<Rightarrow> Inl DeltaBeforeMap
      | Some m \<Rightarrow>
          let nxt = (case d_settings d of Some s \<Rightarrow> s | None \<Rightarrow> shallow_copy m);
              nxt = nxt\<lparr>nm_self := nm_self m, nm_packet_filter := nm_packet_filter m, nm_version := d_version d\<rparr>;
              nxt = (case d_self d of Some s \<Rightarrow> nxt\<lparr>nm_self := Some s\<rparr> | None \<Rightarrow> nxt);
              nxt = (case d_packet_filter d of Some rs \<Rightarrow> nxt\<lparr>nm_packet_filter := rs\<rparr> | None \<Rightarrow> nxt)
          in Inr (nxt\<lparr>nm_peers := apply_peers (nm_peers m) (d_peers_changed d) (d_peers_removed d)\<rparr>))"

section \<open>Lemmas\<close>

text \<open>A peer list as the map from ids it stands for.\<close>

definition node_map :: "wire_node list \<Rightarrow> u64 \<rightharpoonup> wire_node" where
  "node_map ps = map_of (map (\<lambda>p. (w_id p, p)) ps)"

lemma sorted_map_unique:
  assumes "sorted_wrt (<) (map w_id xs)" and "sorted_wrt (<) (map w_id ys)" and "node_map xs = node_map ys"
  shows "xs = ys"
proof -
  have set: "set zs = ran (node_map zs)" if "sorted_wrt (<) (map w_id zs)" for zs
  proof -
    have "distinct (map fst (map (\<lambda>p. (w_id p, p)) zs))" using that by (simp add: comp_def strict_sorted_iff)
    from ran_distinct [OF this] show ?thesis by (simp add: node_map_def image_image)
  qed
  have "sorted (map w_id xs)" "distinct (map w_id xs)" "sorted (map w_id ys)" "distinct (map w_id ys)"
    using assms(1,2) by (simp_all add: strict_sorted_iff)
  moreover have "set xs = set ys" using set [OF assms(1)] set [OF assms(2)] assms(3) by simp
  moreover from this have "inj_on w_id (set xs \<union> set ys)" using calculation(2) by (simp add: distinct_map)
  ultimately show ?thesis by (metis map_sorted_distinct_set_unique)
qed

lemma map_of_put [simp]: "map_of (put_node p m) = (map_of m)(w_id p \<mapsto> p)"
  by (simp add: put_node_def update_conv')

lemma put_nodes: "map_of (fold put_node ps m) = (\<lambda>i. case node_map (rev ps) i of None \<Rightarrow> map_of m i | Some p \<Rightarrow> Some p)"
proof (induction ps arbitrary: m)
  case (Cons p ps)
  have "node_map (rev ps @ [p]) i = (case node_map (rev ps) i of None \<Rightarrow> (if i = w_id p then Some p else None) | Some q \<Rightarrow> Some q)" for i
    by (simp add: node_map_def map_add_def split: option.splits)
  then show ?case by (auto simp: Cons.IH fun_eq_iff split: option.splits)
qed (simp add: node_map_def)

lemma delete_nodes: "map_of (fold AList.delete ks m) = (\<lambda>i. if i \<in> set ks then None else map_of m i)"
  by (induction ks arbitrary: m) (auto simp: delete_conv' fun_eq_iff)

lemma put_nodes_ids: "(\<forall>(i, p) \<in> set m. w_id p = i) \<and> distinct (map fst m) \<Longrightarrow>
    (\<forall>(i, p) \<in> set (fold put_node ps m). w_id p = i) \<and> distinct (map fst (fold put_node ps m))"
proof (induction ps arbitrary: m)
  case (Cons p ps)
  have "(i, q) \<in> set (put_node p m) \<Longrightarrow> (i, q) = (w_id p, p) \<or> (i, q) \<in> set m" for i q
    unfolding put_node_def by (induction m) (auto split: if_splits)
  then have "(\<forall>(i, q) \<in> set (put_node p m). w_id q = i) \<and> distinct (map fst (put_node p m))"
    using Cons.prems by (force simp: put_node_def distinct_update)
  from Cons.IH [OF this] show ?case by simp
qed simp

lemma delete_nodes_ids: "(\<forall>(i, p) \<in> set m. w_id p = i) \<and> distinct (map fst m) \<Longrightarrow>
    (\<forall>(i, p) \<in> set (fold AList.delete ks m). w_id p = i) \<and> distinct (map fst (fold AList.delete ks m))"
proof (induction ks arbitrary: m)
  case (Cons k ks)
  have "(\<forall>(i, p) \<in> set (AList.delete k m). w_id p = i) \<and> distinct (map fst (AList.delete k m))"
    using Cons.prems by (auto simp: AList.delete_eq intro: distinct_map_filter)
  from Cons.IH [OF this] show ?case by simp
qed simp

lemma apply_peers_spec:
  assumes "changed \<noteq> [] \<or> removed \<noteq> []"
  shows "node_map (apply_peers cur changed removed) = (\<lambda>i. case node_map (rev changed) i of
      Some p \<Rightarrow> Some p | None \<Rightarrow> if i \<in> set removed then None else node_map (rev cur) i)"
    and "sorted_wrt (<) (map w_id (apply_peers cur changed removed))"
proof -
  define m where "m = fold put_node changed (fold AList.delete removed (fold put_node cur []))"
  have ids: "(\<forall>(i, p) \<in> set m. w_id p = i) \<and> distinct (map fst m)"
    unfolding m_def by (intro put_nodes_ids delete_nodes_ids) simp
  then have map_ids: "map w_id (map snd m) = map fst m" by (auto intro: map_idI)
  have ap: "apply_peers cur changed removed = sort_key w_id (map snd m)"
    using assms by (simp add: apply_peers_def m_def Let_def)
  have dist: "distinct (map w_id (sort_key w_id (map snd m)))"
    using ids map_ids by (metis distinct_map inj_on_cong set_sort distinct_sort)
  then show "sorted_wrt (<) (map w_id (apply_peers cur changed removed))"
    by (simp add: ap strict_sorted_iff)
  have mem: "p \<in> snd ` set m \<longleftrightarrow> map_of m (w_id p) = Some p" for p
    using ids by force
  have "node_map (sort_key w_id (map snd m)) = map_of m"
  proof (rule ext)
    fix i
    have "node_map (sort_key w_id (map snd m)) i = Some p \<longleftrightarrow> map_of m i = Some p" for p
    proof -
      have "distinct (map fst (map (\<lambda>p. (w_id p, p)) (sort_key w_id (map snd m))))" using dist by (simp add: comp_def)
      then have "node_map (sort_key w_id (map snd m)) i = Some p \<longleftrightarrow> p \<in> snd ` set m \<and> w_id p = i"
        by (auto simp: node_map_def)
      then show ?thesis using mem ids by (force dest: map_of_SomeD)
    qed
    then show "node_map (sort_key w_id (map snd m)) i = map_of m i" by (metis option.exhaust)
  qed
  then show "node_map (apply_peers cur changed removed) = (\<lambda>i. case node_map (rev changed) i of
      Some p \<Rightarrow> Some p | None \<Rightarrow> if i \<in> set removed then None else node_map (rev cur) i)"
    by (auto simp: ap m_def put_nodes delete_nodes fun_eq_iff split: option.splits)
qed

end
