(* ===== verification/Lock_Engine.thy ===== *)
theory Lock_Engine
  imports Net_Map
begin

text \<open>
  The network lock in use: \<^verbatim>\<open>internal/engine/lock.go\<close>, which filters the map a node is sent by the lock
  state it trusts, and \<^verbatim>\<open>internal/control/lock.go\<close> with \<^verbatim>\<open>internal/store/lock.go\<close>, where the server
  keeps the lock's history and the signatures of nodes.  The protobuf encoding of lock states and
  signatures is a parameter (\<open>lock_codec\<close>); writing the state file and the audit log is left out, and
  the server's operations are those of an administrator already authenticated.
\<close>

section \<open>On the node\<close>

record lock_codec =
  lc_state :: "lock_state \<Rightarrow> bytes"
  lc_parse_state :: "bytes \<Rightarrow> lock_state option"
  lc_sig :: "node_signature \<Rightarrow> bytes"
  lc_parse_sig :: "bytes \<Rightarrow> node_signature option"

record lock_status =
  lk_enabled :: bool
  lk_version :: u64
  lk_trusted_keys :: "string list"
  lk_self_signed :: bool
  lk_locked_out :: "string list"
  lk_error :: "lock_error option"

record lock_engine =
  le_head :: "lock_state option"
  le_saved :: string
  le_trust :: "string list"
  le_status :: lock_status

definition load_lock_head :: "lock_codec \<Rightarrow> string \<Rightarrow> lock_state option" where
  "load_lock_head cd saved =
     (case std_decode saved of
        None \<Rightarrow> None
      | Some b \<Rightarrow> if b = [] then None else lc_parse_state cd b)"

definition pinned_keys :: "string list \<Rightarrow> bytes list" where
  "pinned_keys ss = List.map_filter parse_lock_public ss"

definition wire_signed :: "verify_fn \<Rightarrow> lock_state \<Rightarrow> wire_node \<Rightarrow> bool" where
  "wire_signed verify head n =
     (case std_decode (w_node_key n) of
        None \<Rightarrow> False
      | Some k \<Rightarrow> node_signed verify head k (w_lock_signature n))"

text \<open>The map without the peers, peer relays and relay clients no trusted key signed.\<close>

definition filter_map :: "verify_fn \<Rightarrow> lock_state \<Rightarrow> network_map \<Rightarrow> network_map" where
  "filter_map verify head nm =
     (let ps = filter (wire_signed verify head) (nm_peers nm); keys = map w_node_key ps
      in (with_peers nm ps)\<lparr>nm_peer_relays := filter (\<lambda>r. wp_node_key r \<in> set keys) (nm_peer_relays nm),
            nm_relay_clients := filter (\<lambda>c. wc_node_key c \<in> set keys) (nm_relay_clients nm)\<rparr>)"

definition enforce_lock :: "lock_codec \<Rightarrow> verify_fn \<Rightarrow> network_map \<Rightarrow> lock_engine \<Rightarrow> network_map \<times> lock_engine" where
  "enforce_lock cd verify nm le =
     (let (head, err) = advance verify (le_head le) (nm_lock_chain nm) (pinned_keys (le_trust le));
          le1 = (case head of
                   None \<Rightarrow> le
                 | Some h \<Rightarrow>
                     if (case le_head le of None \<Rightarrow> True | Some l \<Rightarrow> ls_version h \<noteq> ls_version l)
                     then le\<lparr>le_head := Some h, le_saved := std_encode (lc_state cd h)\<rparr> else le);
          ls = \<lparr>lk_enabled = False, lk_version = 0, lk_trusted_keys = [], lk_self_signed = False, lk_locked_out = [], lk_error = err\<rparr>
      in case head of
           None \<Rightarrow> (nm, le1\<lparr>le_status := ls\<rparr>)
         | Some h \<Rightarrow>
             if \<not> enforced (Some h) then (nm, le1\<lparr>le_status := ls\<rparr>)
             else (filter_map verify h nm,
                   le1\<lparr>le_status := ls\<lparr>lk_enabled := True, lk_version := ls_version h,
                     lk_trusted_keys := map encode_public (ls_keys h),
                     lk_self_signed := (case nm_self nm of None \<Rightarrow> False | Some n \<Rightarrow> wire_signed verify h n),
                     lk_locked_out := map w_name (filter (\<lambda>p. \<not> wire_signed verify h p) (nm_peers nm))\<rparr>\<rparr>))"

section \<open>On the server\<close>

record lock_store =
  st_chain :: "(u64, bytes) gomap"
  st_sigs :: "(string, bytes) gomap"

datatype lock_admin_error = LockInternal | StateRequired | BadState lock_error | LockConflict | LockNotSetUp | BadNodeSignature string

fun parse_all :: "('a \<Rightarrow> 'b option) \<Rightarrow> 'a list \<Rightarrow> 'b list option" where
  "parse_all f [] = Some []"
| "parse_all f (x # xs) =
     (case f x of None \<Rightarrow> None | Some y \<Rightarrow> map_option (\<lambda>ys. y # ys) (parse_all f xs))"

text \<open>The table is read in the order of the versions.\<close>

definition server_chain :: "lock_codec \<Rightarrow> lock_store \<Rightarrow> lock_state list option" where
  "server_chain cd st = parse_all (lc_parse_state cd) (map snd (sort_key fst (st_chain st)))"

definition lock_signature :: "lock_codec \<Rightarrow> bytes \<Rightarrow> node_signature option" where
  "lock_signature cd b = (if b = [] then None else lc_parse_sig cd b)"

definition append_lock_state :: "u64 \<Rightarrow> bytes \<Rightarrow> lock_store \<Rightarrow> lock_store option" where
  "append_lock_state v b st =
     (if map_of (st_chain st) v \<noteq> None then None else Some (st\<lparr>st_chain := st_chain st @ [(v, b)]\<rparr>))"

definition set_lock_signature :: "string \<Rightarrow> bytes \<Rightarrow> lock_store \<Rightarrow> lock_store" where
  "set_lock_signature k b st = st\<lparr>st_sigs := AList.update k b (st_sigs st)\<rparr>"

definition update_lock :: "lock_codec \<Rightarrow> verify_fn \<Rightarrow> lock_state option \<Rightarrow> lock_store \<Rightarrow> lock_admin_error + lock_store" where
  "update_lock cd verify req st =
     (case req of
        None \<Rightarrow> Inl StateRequired
      | Some s \<Rightarrow>
          (case server_chain cd st of
             None \<Rightarrow> Inl LockInternal
           | Some chain \<Rightarrow>
               (case next_error verify (if chain = [] then None else Some (last chain)) s of
                  Some e \<Rightarrow> Inl (BadState e)
                | None \<Rightarrow>
                    (case append_lock_state (ls_version s) (lc_state cd s) st of
                       None \<Rightarrow> Inl LockConflict
                     | Some st' \<Rightarrow> Inr st'))))"

fun check_signatures :: "verify_fn \<Rightarrow> lock_state \<Rightarrow> (string \<times> node_signature option) list \<Rightarrow> string option" where
  "check_signatures verify head [] = None"
| "check_signatures verify head ((k, s) # sigs) =
     (case std_decode k of
        None \<Rightarrow> Some k
      | Some b \<Rightarrow> if node_signed verify head b s then check_signatures verify head sigs else Some k)"

definition sign_nodes :: "lock_codec \<Rightarrow> verify_fn \<Rightarrow> (string \<times> node_signature option) list \<Rightarrow> lock_store \<Rightarrow> lock_admin_error + lock_store" where
  "sign_nodes cd verify sigs st =
     (case server_chain cd st of
        None \<Rightarrow> Inl LockInternal
      | Some chain \<Rightarrow>
          if chain = [] then Inl LockNotSetUp
          else (case check_signatures verify (last chain) sigs of
              Some k \<Rightarrow> Inl (BadNodeSignature k)
            | None \<Rightarrow> Inr (fold (\<lambda>(k, s). set_lock_signature k (case s of None \<Rightarrow> [] | Some x \<Rightarrow> lc_sig cd x)) sigs st)))"

section \<open>Lemmas\<close>

definition lock_run :: "lock_codec \<Rightarrow> verify_fn \<Rightarrow> network_map list \<Rightarrow> lock_engine \<Rightarrow> lock_engine" where
  "lock_run cd verify nms le = fold (\<lambda>nm le. snd (enforce_lock cd verify nm le)) nms le"

text \<open>The peers of a map that a lock state lets through.\<close>

definition locked_map :: "verify_fn \<Rightarrow> lock_state \<Rightarrow> network_map \<Rightarrow> bool" where
  "locked_map verify h nm \<longleftrightarrow>
     (\<forall>p \<in> set (nm_peers nm). wire_signed verify h p) \<and>
     (\<forall>r \<in> set (nm_peer_relays nm). \<exists>p \<in> set (nm_peers nm). w_node_key p = wp_node_key r) \<and>
     (\<forall>c \<in> set (nm_relay_clients nm). \<exists>p \<in> set (nm_peers nm). w_node_key p = wc_node_key c)"

lemma filter_map_locked: "locked_map verify h (filter_map verify h nm)"
  by (auto simp: locked_map_def filter_map_def with_peers_def Let_def)

lemma enforce_lock_trusted:
  assumes "le_head le = Some l" and "enforce_lock cd verify nm le = (out, le')"
  shows "\<exists>h. follows verify l h \<and> (le_head le' = Some h \<or> le_head le' = Some l) \<and>
    (ls_disabled h \<and> out = nm \<or> locked_map verify h out)"
proof -
  obtain h err where adv: "advance verify (Some l) (nm_lock_chain nm) (pinned_keys (le_trust le)) = (Some h, err)"
    and f: "follows verify l h"
    using advance_trusted [of verify l "nm_lock_chain nm" "pinned_keys (le_trust le)"] by (metis prod.collapse)
  show ?thesis
    using assms adv f filter_map_locked by (auto simp: enforce_lock_def enforced_def Let_def split: if_splits)
qed

lemma lock_run_trusted:
  assumes "le_head le = Some l"
  shows "\<exists>h. le_head (lock_run cd verify nms le) = Some h \<and> follows verify l h"
  using assms
proof (induction nms arbitrary: le l)
  case Nil
  then show ?case by (auto simp: lock_run_def intro: follows_refl)
next
  case (Cons nm nms)
  obtain out le' where e: "enforce_lock cd verify nm le = (out, le')" by force
  obtain h where h: "le_head le' = Some h" "follows verify l h"
    using enforce_lock_trusted [OF Cons.prems e] follows_refl by blast
  obtain g where "le_head (lock_run cd verify nms le') = Some g" "follows verify h g" using Cons.IH [OF h(1)] by blast
  then show ?case using h(2) e by (auto simp: lock_run_def intro: follows_trans)
qed

text \<open>The encoding of the lock states \<open>S\<close> can be read back.\<close>

definition codec_laws :: "lock_codec \<Rightarrow> lock_state set \<Rightarrow> bool" where
  "codec_laws cd S \<longleftrightarrow> (\<forall>s \<in> S. lc_parse_state cd (lc_state cd s) = Some s)"

definition server_run :: "lock_codec \<Rightarrow> verify_fn \<Rightarrow> lock_state list \<Rightarrow> lock_store" where
  "server_run cd verify reqs =
     fold (\<lambda>s st. case update_lock cd verify (Some s) st of Inl e \<Rightarrow> st | Inr st' \<Rightarrow> st') reqs \<lparr>st_chain = [], st_sigs = []\<rparr>"

definition holds_chain :: "lock_codec \<Rightarrow> verify_fn \<Rightarrow> lock_store \<Rightarrow> lock_state list \<Rightarrow> bool" where
  "holds_chain cd verify st chain \<longleftrightarrow>
     st_chain st = map (\<lambda>s. (ls_version s, lc_state cd s)) chain \<and> verify_chain verify None chain = None"

lemma verify_chain_snoc:
  "verify_chain verify prev (chain @ [s]) = None \<longleftrightarrow>
     verify_chain verify prev chain = None \<and> next_error verify (if chain = [] then prev else Some (last chain)) s = None"
  by (induction chain arbitrary: prev) (auto split: option.splits)

lemma next_error_version: "next_error verify prev s = None \<Longrightarrow> ls_version s = (case prev of None \<Rightarrow> 1 | Some p \<Rightarrow> ls_version p + 1)"
  by (auto simp: next_error_def Let_def split: option.splits if_splits)

lemma chain_versions: "verify_chain verify None chain = None \<Longrightarrow> map ls_version chain = map (\<lambda>i. of_nat (Suc i)) [0..<length chain]"
proof (induction chain rule: rev_induct)
  case (snoc s chain)
  have c: "verify_chain verify None chain = None" and n: "next_error verify (if chain = [] then None else Some (last chain)) s = None"
    using snoc.prems by (auto simp: verify_chain_snoc)
  have "ls_version s = of_nat (Suc (length chain))"
  proof (cases "chain = []")
    case False
    then have "ls_version (last chain) = last (map ls_version chain)" by (simp add: last_map)
    also have "\<dots> = of_nat (length chain)" using snoc.IH [OF c] False by (cases chain rule: rev_cases) (simp_all add: add.commute)
    finally have v: "ls_version (last chain) = of_nat (length chain)" .
    show ?thesis using next_error_version [OF n] False by (simp add: v add.commute)
  qed (use next_error_version [OF n] in simp)
  then show ?case using snoc.IH [OF c] by simp
qed simp

lemma chain_sorted:
  assumes "verify_chain verify None chain = None" and "length chain < 2 ^ 64"
  shows "sorted_wrt (<) (map ls_version chain)"
proof -
  have "(of_nat (Suc i) :: u64) < of_nat (Suc j)" if "i < j" "j < length chain" for i j
    using that assms(2) by (simp only: word_less_nat_alt unat_of_nat) simp
  then show ?thesis unfolding chain_versions [OF assms(1)] by (auto simp: sorted_wrt_iff_nth_less)
qed

lemma holds_chain_read:
  assumes laws: "codec_laws cd (set chain)" and h: "holds_chain cd verify st chain" and len: "length chain < 2 ^ 64"
  shows "server_chain cd st = Some chain"
proof -
  have "sorted_wrt (<) (map ls_version chain)" using chain_sorted len h by (auto simp: holds_chain_def)
  then have "sort_key fst (st_chain st) = st_chain st"
    using h by (intro sort_key_id_if_sorted) (simp add: holds_chain_def comp_def strict_sorted_iff)
  moreover have "parse_all (lc_parse_state cd) (map (lc_state cd) chain) = Some chain"
    using laws by (induction chain) (auto simp: codec_laws_def)
  ultimately show ?thesis using h by (simp add: server_chain_def holds_chain_def comp_def)
qed

lemma update_lock_holds:
  assumes laws: "codec_laws cd (set chain)" and h: "holds_chain cd verify st chain" and len: "length chain < 2 ^ 64"
    and up: "update_lock cd verify (Some s) st = Inr st'"
  shows "holds_chain cd verify st' (chain @ [s])"
  using up h by (auto simp: update_lock_def holds_chain_read [OF laws h len] append_lock_state_def holds_chain_def
      verify_chain_snoc split: option.splits if_splits)

lemma server_run_holds:
  assumes laws: "codec_laws cd (set reqs)" and len: "length reqs < 2 ^ 64"
  shows "\<exists>chain. holds_chain cd verify (server_run cd verify reqs) chain \<and> length chain \<le> length reqs \<and> set chain \<subseteq> set reqs"
  using laws len
proof (induction reqs rule: rev_induct)
  case Nil
  then show ?case by (auto simp: server_run_def holds_chain_def)
next
  case (snoc s reqs)
  then obtain chain where c: "holds_chain cd verify (server_run cd verify reqs) chain" "length chain \<le> length reqs"
    and sub: "set chain \<subseteq> set reqs" by (auto simp: codec_laws_def)
  have laws: "codec_laws cd (set chain)" using snoc.prems(1) sub by (auto simp: codec_laws_def)
  show ?case
  proof (cases "update_lock cd verify (Some s) (server_run cd verify reqs)")
    case (Inl e)
    then show ?thesis using c sub by (auto simp: server_run_def)
  next
    case (Inr st')
    then have "holds_chain cd verify st' (chain @ [s])" using update_lock_holds [OF laws c(1)] c(2) snoc.prems by simp
    moreover have "server_run cd verify (reqs @ [s]) = st'" using Inr by (simp add: server_run_def)
    ultimately show ?thesis using c(2) sub by (intro exI [of _ "chain @ [s]"]) auto
  qed
qed

lemma verify_chain_append: "verify_chain verify prev (pre @ l # rest) = None \<Longrightarrow> verify_chain verify (Some l) rest = None"
  by (induction pre arbitrary: prev) (auto split: option.splits)

section \<open>Properties\<close>

text \<open>Claim C6 (safety): a locked node stays locked, whatever the server sends.  From a node that trusts
  the lock state \<open>l\<close>, after any sequence of maps, the state it trusts is reached from \<open>l\<close> by signed
  steps; and of the next map it lets through only peers, peer relays and relay clients whose node keys
  are signed by a key of such a state, unless a signed state switched the lock off.\<close>

theorem lock_survives_server:
  assumes "le_head le = Some l" and "enforce_lock cd verify nm (lock_run cd verify nms le) = (out, le')"
  shows "\<exists>h. follows verify l h \<and> (ls_disabled h \<and> out = nm \<or> locked_map verify h out) \<and>
    (\<exists>g. le_head le' = Some g \<and> follows verify l g)"
proof -
  obtain g where g: "le_head (lock_run cd verify nms le) = Some g" "follows verify l g"
    using lock_run_trusted [OF assms(1)] by blast
  from enforce_lock_trusted [OF g(1) assms(2)] g(2) show ?thesis by (metis follows_trans)
qed

text \<open>Claim C39 (error): pinning a lock key does not protect a node that has no lock state yet.  When the
  server shows no lock history, or one that was not set up with a pinned key, the node lets the
  whole map through.\<close>

theorem lock_trust_fails_open:
  assumes "le_head le = None" and "pinned_keys (le_trust le) \<noteq> []"
    and "nm_lock_chain nm = [] \<or> ls_signer (hd (nm_lock_chain nm)) \<notin> set (pinned_keys (le_trust le))"
  shows "fst (enforce_lock cd verify nm le) = nm \<and> le_head (snd (enforce_lock cd verify nm le)) = None"
  using assms by (auto simp: enforce_lock_def advance_def Let_def split: option.splits)

text \<open>Claim C25 (invariant): the server only ever holds a valid lock history.  After any sequence of lock
  updates, accepted or refused, the stored history reads back, verifies from its first version, and a
  node that trusts any state of it moves to the newest one without an error.\<close>

theorem server_lock_history_valid:
  assumes laws: "codec_laws cd (set reqs)" and len: "length reqs < 2 ^ 64"
  shows "\<exists>chain. server_chain cd (server_run cd verify reqs) = Some chain \<and> verify_chain verify None chain = None \<and>
    (\<forall>l \<in> set chain. \<forall>pinned. advance verify (Some l) chain pinned = (Some (last chain), None))"
proof -
  obtain chain where c: "holds_chain cd verify (server_run cd verify reqs) chain" "length chain \<le> length reqs"
    and sub: "set chain \<subseteq> set reqs" using server_run_holds [OF assms] by blast
  have laws: "codec_laws cd (set chain)" using laws sub by (auto simp: codec_laws_def)
  from c have v: "verify_chain verify None chain = None" and short: "length chain < 2 ^ 64" using len by (auto simp: holds_chain_def)
  have "advance verify (Some l) chain pinned = (Some (last chain), None)" if mem: "l \<in> set chain" for l pinned
  proof -
    obtain pre rest where sp: "chain = pre @ l # rest" using split_list [OF mem] by blast
    have "distinct (map ls_version chain)" using chain_sorted [OF v short] by (simp add: strict_sorted_iff)
    then have "\<forall>st \<in> set rest. ls_version st \<noteq> ls_version l" unfolding sp by (force simp: image_iff)
    then show ?thesis using advance_whole [of verify l rest pre pinned] verify_chain_append [of verify None pre l rest] v
      by (simp add: sp)
  qed
  then show ?thesis using v holds_chain_read [OF laws c(1) short] by blast
qed

section \<open>Witnesses\<close>

definition demo_codec :: lock_codec where
  "demo_codec = \<lparr>lc_state = (\<lambda>s. put_u64 (ls_version s)),
     lc_parse_state = (\<lambda>b. if b = put_u64 1 then Some (demo_state 1) else if b = put_u64 2 then Some (demo_state 2) else None),
     lc_sig = ns_signature, lc_parse_sig = (\<lambda>b. Some \<lparr>ns_signer = demo_key, ns_signature = b\<rparr>)\<rparr>"

definition demo_wire :: "string \<Rightarrow> node_signature option \<Rightarrow> wire_node" where
  "demo_wire k sig = \<lparr>w_id = 1, w_name = ''a'', w_user = [], w_machine_key = [], w_addresses = [], w_os = [], w_created_at = None,
     w_last_seen = None, w_ephemeral = False, w_node_key = k, w_disco_key = [], w_endpoints = [], w_online = True, w_fqdn = [],
     w_routes = [], w_advertised_routes = [], w_exit_node = False, w_ssh_host_key = [], w_lock_signature = sig,
     w_os_version = [], w_client_version = []\<rparr>"

definition demo_map :: "wire_node list \<Rightarrow> lock_state list \<Rightarrow> network_map" where
  "demo_map ps chain = \<lparr>nm_self = None, nm_peers = ps, nm_dns = None, nm_relays = [], nm_stun = [], nm_packet_filter = [],
     nm_version = 1, nm_exposures = [], nm_gateway_url = [], nm_peer_relays = [], nm_relay_clients = [], nm_relay_offered = False,
     nm_relay_approved = False, nm_ssh_rules = [], nm_flow_logs = False, nm_quic_relay = [], nm_quic_relay_cert = [],
     nm_lock_chain = chain, nm_control_urls = [], nm_post_quantum = False, nm_server_key = []\<rparr>"

definition demo_engine :: "lock_state option \<Rightarrow> string list \<Rightarrow> lock_engine" where
  "demo_engine h pins = \<lparr>le_head = h, le_saved = [], le_trust = pins, le_status = \<lparr>lk_enabled = False, lk_version = 0,
     lk_trusted_keys = [], lk_self_signed = False, lk_locked_out = [], lk_error = None\<rparr>\<rparr>"

text \<open>A server that drops the history and adds a peer nobody signed.\<close>

theorem lock_survives_server_witness:
  "\<exists>h. follows demo_verify (demo_state 1) h \<and>
     (ls_disabled h \<and> fst (enforce_lock demo_codec demo_verify (demo_map [demo_wire [] None] [])
        (lock_run demo_codec demo_verify [demo_map [] [demo_state 1, demo_state 2]] (demo_engine (Some (demo_state 1)) [])))
        = demo_map [demo_wire [] None] [] \<or>
      locked_map demo_verify h (fst (enforce_lock demo_codec demo_verify (demo_map [demo_wire [] None] [])
        (lock_run demo_codec demo_verify [demo_map [] [demo_state 1, demo_state 2]] (demo_engine (Some (demo_state 1)) [])))))"
  using lock_survives_server [of "demo_engine (Some (demo_state 1)) []" "demo_state 1" demo_codec demo_verify
      "demo_map [demo_wire [] None] []" "[demo_map [] [demo_state 1, demo_state 2]]", OF _ surjective_pairing]
  by (auto simp: demo_engine_def)

lemma demo_pinned: "pinned_keys [encode_public demo_key] = [demo_key]"
  by code_simp

theorem lock_trust_fails_open_witness:
  "fst (enforce_lock demo_codec demo_verify (demo_map [demo_wire [] None] []) (demo_engine None [encode_public demo_key]))
     = demo_map [demo_wire [] None] []"
  using lock_trust_fails_open [of "demo_engine None [encode_public demo_key]" "demo_map [demo_wire [] None] []" demo_codec demo_verify]
    demo_pinned by (simp add: demo_engine_def demo_map_def)

lemma demo_codec_laws: "codec_laws demo_codec {demo_state 1, demo_state 2}"
  by (simp add: codec_laws_def demo_codec_def demo_state_def sign_state_def put_u64_inj)

theorem server_lock_history_valid_witness:
  "\<exists>chain. server_chain demo_codec (server_run demo_codec demo_verify [demo_state 1, demo_state 2]) = Some chain \<and>
     verify_chain demo_verify None chain = None"
  using server_lock_history_valid [of demo_codec "[demo_state 1, demo_state 2]" demo_verify] demo_codec_laws by auto

end
