(* ===== verification/Addr_Text.thy ===== *)
theory Addr_Text
  imports Netip
begin

text \<open>
  How Go prints numbers, addresses and prefixes: \<^verbatim>\<open>%d\<close>, \<^verbatim>\<open>netip.Addr.String\<close> and \<^verbatim>\<open>netip.Prefix.String\<close>.
\<close>

section \<open>Definitions\<close>

text \<open>\<^verbatim>\<open>%d\<close> of a number that is not negative.\<close>

fun dec_string :: "nat \<Rightarrow> string" where
  "dec_string n = (if n < 10 then [char_of (48 + n)] else dec_string (n div 10) @ [char_of (48 + n mod 10)])"

declare dec_string.simps [simp del]

definition hex_digit :: "nat \<Rightarrow> char" where
  "hex_digit n = ''0123456789abcdef'' ! n"

fun hex_string :: "nat \<Rightarrow> string" where
  "hex_string n = (if n < 16 then [hex_digit n] else hex_string (n div 16) @ [hex_digit (n mod 16)])"

declare hex_string.simps [simp del]

definition string4 :: "u32 \<Rightarrow> string" where
  "string4 x = join_with ''.'' (map (\<lambda>b. dec_string (unat b)) (nat_be 4 (unat x)))"

text \<open>An IPv6 address in eight groups of four hexadecimal digits, and its longest run of at least two zero
  groups, the first one of that length.\<close>

definition hextets :: "128 word \<Rightarrow> nat list" where
  "hextets x = map (\<lambda>i. unat x div 2 ^ (16 * (7 - i)) mod 65536) [0..<8]"

definition zero_span :: "nat list \<Rightarrow> nat \<times> nat" where
  "zero_span hs =
     foldl (\<lambda>(s, e) i. let l = length (takeWhile (\<lambda>h. h = 0) (drop i hs)) in if l \<ge> 2 \<and> l > e - s then (i, i + l) else (s, e))
       (255, 255) [0..<8]"

definition string6 :: "128 word \<Rightarrow> string" where
  "string6 x =
     (let hs = hextets x; (s, e) = zero_span hs; part = (\<lambda>hs. join_with '':'' (map hex_string hs))
      in if s = 255 then part hs else part (take s hs) @ ''::'' @ part (drop e hs))"

fun addr_string :: "addr \<Rightarrow> string" where
  "addr_string ZeroAddr = ''invalid IP''"
| "addr_string (IPv4 x) = string4 x"
| "addr_string (IPv6 x z) =
     (if drop_bit 32 x = 0xFFFF then ''::ffff:'' @ string4 (ucast x) else string6 x) @ (if z = [] then [] else ''%'' @ z)"

definition prefix_string :: "prefix \<Rightarrow> string" where
  "prefix_string p = (if \<not> pfx_valid p then ''invalid Prefix'' else addr_string (pfx_addr p) @ ''/'' @ dec_string (pfx_bits p))"

section \<open>Lemmas\<close>

lemma dec_val_snoc: "dec_val (s @ [c]) = dec_val s * 10 + digit_val c"
  by (simp add: dec_val_def)

lemma dec_val_dec_string [simp]: "dec_val (dec_string n) = n"
proof (induction n rule: dec_string.induct)
  case (1 n)
  then show ?case
    by (subst dec_string.simps) (auto simp: dec_val_snoc dec_val_def digit_val_def)
qed

lemma dec_string_inj [simp]: "dec_string m = dec_string n \<longleftrightarrow> m = n"
  by (metis dec_val_dec_string)

lemma dec_string_not_Nil [simp]: "dec_string n \<noteq> []"
  by (subst dec_string.simps) simp


end
