(* ===== verification/Node_Names.thy ===== *)
theory Node_Names
  imports Addr_Text
begin

text \<open>
  Names of machines (\<^verbatim>\<open>sanitizeHostname\<close>, \<^verbatim>\<open>uniqueNodeName\<close> and \<^verbatim>\<open>nameRe\<close> of \<^verbatim>\<open>internal/store/store.go\<close>):
  what a host name becomes, and that the search for a free name ends.
\<close>

section \<open>Definitions\<close>

text \<open>\<^verbatim>\<open>strings.ToLower\<close>, up to bytes that are not ASCII: two runes outside ASCII, the capital I with a dot and
  the Kelvin sign, have an ASCII lower case; every other rune outside ASCII stays outside it, and is
  left as it is here because the callers replace such bytes next.\<close>

definition lower_char :: "char \<Rightarrow> char" where
  "lower_char c = (let n = of_char c :: nat in if 65 \<le> n \<and> n \<le> 90 then char_of (n + 32) else c)"

fun to_lower :: "string \<Rightarrow> string" where
  "to_lower [] = []"
| "to_lower [c] = [lower_char c]"
| "to_lower [c, d] =
     (if of_char c = (0xC4 :: nat) \<and> of_char d = (0xB0 :: nat) then ''i'' else [lower_char c, lower_char d])"
| "to_lower (c # d # e # s) =
     (if of_char c = (0xC4 :: nat) \<and> of_char d = (0xB0 :: nat) then CHR ''i'' # to_lower (e # s)
      else if of_char c = (0xE2 :: nat) \<and> of_char d = (0x84 :: nat) \<and> of_char e = (0xAA :: nat) then CHR ''k'' # to_lower s
      else lower_char c # to_lower (d # e # s))"

definition label_char :: "char \<Rightarrow> bool" where
  "label_char c \<longleftrightarrow> (let n = of_char c :: nat in 97 \<le> n \<and> n \<le> 122 \<or> 48 \<le> n \<and> n \<le> 57)"

definition name_char :: "char \<Rightarrow> bool" where
  "name_char c \<longleftrightarrow> label_char c \<or> c = CHR ''-''"

text \<open>\<^verbatim>\<open>nameRe\<close>: a DNS label.\<close>

definition name_ok :: "string \<Rightarrow> bool" where
  "name_ok s \<longleftrightarrow> s \<noteq> [] \<and> length s \<le> 63 \<and> label_char (hd s) \<and> label_char (last s) \<and> list_all name_char s"

text \<open>\<^verbatim>\<open>hostnameStrip.ReplaceAllString(h, "-")\<close>: each run of other characters becomes one dash.\<close>

fun strip_host :: "bool \<Rightarrow> string \<Rightarrow> string" where
  "strip_host run [] = []"
| "strip_host run (c # s) =
     (if name_char c then c # strip_host False s
      else if run then strip_host True s else CHR ''-'' # strip_host True s)"

definition trim_dashes_right :: "string \<Rightarrow> string" where
  "trim_dashes_right s = rev (dropWhile (\<lambda>c. c = CHR ''-'') (rev s))"

definition trim_dashes :: "string \<Rightarrow> string" where
  "trim_dashes s = trim_dashes_right (dropWhile (\<lambda>c. c = CHR ''-'') s)"

definition sanitize_hostname :: "string \<Rightarrow> string" where
  "sanitize_hostname h =
     (let h = to_lower (trim_space h);
          h = (case cut_char CHR ''.'' h of (host, _, found) \<Rightarrow> if found \<and> host \<noteq> [] then host else h);
          h = trim_dashes (strip_host False h);
          h = (if length h > 50 then trim_dashes_right (take 50 h) else h)
      in if h = [] then ''node'' else h)"

text \<open>The \<open>i\<close>-th name \<^verbatim>\<open>uniqueNodeName\<close> tries, and the loop: \<open>names\<close> are the names taken.\<close>

definition name_try :: "string \<Rightarrow> nat \<Rightarrow> string" where
  "name_try base i = (if i = 0 then base else base @ ''-'' @ dec_string i)"

lemma name_try_inj: "inj (name_try base)"
  by (rule injI) (auto simp: name_try_def split: if_splits)

lemma finite_tries: "finite {j. i \<le> j \<and> name_try base j \<in> set names}"
  by (rule finite_subset [OF _ finite_vimageI [OF _ name_try_inj [of base]], of _ "set names"]) auto

function unique_from :: "string list \<Rightarrow> string \<Rightarrow> nat \<Rightarrow> string" where
  "unique_from names base i =
     (if name_try base i \<in> set names then unique_from names base (Suc i) else name_try base i)"
  by pat_completeness auto
termination
proof (relation "measure (\<lambda>(names, base, i). card {j. i \<le> j \<and> name_try base j \<in> set names})")
  fix names base i
  assume t: "name_try base i \<in> set names"
  let ?S = "\<lambda>i. {j. i \<le> j \<and> name_try base j \<in> set names}"
  have "?S i = insert i (?S (Suc i))" using t by (auto simp: Suc_le_eq le_less)
  moreover have "i \<notin> ?S (Suc i)" by simp
  ultimately have "card (?S i) = Suc (card (?S (Suc i)))" using finite_tries by simp
  then show "((names, base, Suc i), (names, base, i)) \<in> measure (\<lambda>(names, base, i). card {j. i \<le> j \<and> name_try base j \<in> set names})"
    by simp
qed simp

declare unique_from.simps [simp del]

definition unique_node_name :: "string list \<Rightarrow> string \<Rightarrow> string" where
  "unique_node_name names base = unique_from names base 0"

section \<open>Lemmas\<close>

lemma unique_from_spec:
  "\<exists>k \<ge> i. unique_from names base i = name_try base k \<and> name_try base k \<notin> set names \<and>
     (\<forall>j. i \<le> j \<and> j < k \<longrightarrow> name_try base j \<in> set names)"
proof (induction names base i rule: unique_from.induct)
  case (1 names base i)
  show ?case
  proof (cases "name_try base i \<in> set names")
    case True
    then obtain k where k: "k \<ge> Suc i" "unique_from names base (Suc i) = name_try base k" "name_try base k \<notin> set names"
      "\<forall>j. Suc i \<le> j \<and> j < k \<longrightarrow> name_try base j \<in> set names" using 1 by blast
    have "name_try base j \<in> set names" if "i \<le> j" "j < k" for j
      using that k(4) True by (cases "j = i") auto
    then show ?thesis using True k by (subst unique_from.simps) (auto intro!: exI [of _ k])
  next
    case False
    then show ?thesis by (subst unique_from.simps) (auto intro!: exI [of _ i])
  qed
qed

lemma tries_bound:
  assumes "\<forall>j < k. name_try base j \<in> set names"
  shows "k \<le> length names"
proof -
  have "name_try base ` {..<k} \<subseteq> set names" using assms by auto
  then have "card (name_try base ` {..<k}) \<le> length names" by (meson card_mono card_length finite_set le_trans)
  then show ?thesis by (simp add: card_image inj_on_subset [OF name_try_inj])
qed

lemma strip_host_chars: "list_all name_char (strip_host b s)"
  by (induction b s rule: strip_host.induct) (auto simp: name_char_def)

lemma trim_right_chars: "list_all P s \<Longrightarrow> list_all P (trim_dashes_right s)"
  unfolding trim_dashes_right_def list_all_iff by (auto dest: set_dropWhileD)

lemma trim_right_last: "trim_dashes_right s \<noteq> [] \<Longrightarrow> last (trim_dashes_right s) \<noteq> CHR ''-''"
  using hd_dropWhile [of "\<lambda>c. c = CHR ''-''" "rev s"] unfolding trim_dashes_right_def by (simp add: last_rev)

lemma trim_right_hd: "trim_dashes_right s \<noteq> [] \<Longrightarrow> hd (trim_dashes_right s) = hd s"
proof -
  assume ne: "trim_dashes_right s \<noteq> []"
  have "rev s = takeWhile (\<lambda>c. c = CHR ''-'') (rev s) @ dropWhile (\<lambda>c. c = CHR ''-'') (rev s)" by simp
  then have "rev (rev s) = rev (takeWhile (\<lambda>c. c = CHR ''-'') (rev s) @ dropWhile (\<lambda>c. c = CHR ''-'') (rev s))" by simp
  then have eq: "s = trim_dashes_right s @ rev (takeWhile (\<lambda>c. c = CHR ''-'') (rev s))"
    unfolding trim_dashes_right_def rev_append by simp
  from ne show ?thesis by (subst (2) eq) simp
qed

lemma trim_right_length: "length (trim_dashes_right s) \<le> length s"
  unfolding trim_dashes_right_def using length_dropWhile_le [of "\<lambda>c. c = CHR ''-''" "rev s"] by simp

lemma sanitize_hostname_ok: "name_ok (sanitize_hostname h) \<and> length (sanitize_hostname h) \<le> 50"
proof -
  define g where "g = (case cut_char CHR ''.'' (to_lower (trim_space h)) of (host, _, found) \<Rightarrow>
     if found \<and> host \<noteq> [] then host else to_lower (trim_space h))"
  define t where "t = trim_dashes (strip_host False g)"
  define r where "r = (if length t > 50 then trim_dashes_right (take 50 t) else t)"
  have res: "sanitize_hostname h = (if r = [] then ''node'' else r)"
    by (simp add: sanitize_hostname_def g_def t_def r_def Let_def)
  let ?d = "dropWhile (\<lambda>c. c = CHR ''-'') (strip_host False g)"
  have d: "list_all name_char ?d"
    using strip_host_chars [of False g] by (auto simp: list_all_iff dest: set_dropWhileD)
  have t_chars: "list_all name_char t" using d by (simp add: t_def trim_dashes_def trim_right_chars)
  have t_ends: "hd t \<noteq> CHR ''-'' \<and> last t \<noteq> CHR ''-''" if ne: "t \<noteq> []"
  proof -
    have td: "trim_dashes_right ?d \<noteq> []" using ne unfolding t_def trim_dashes_def .
    then have "?d \<noteq> []" using trim_right_length [of ?d] by (metis le_zero_eq length_0_conv)
    then have "hd ?d \<noteq> CHR ''-''" using hd_dropWhile [of "\<lambda>c. c = CHR ''-''" "strip_host False g"] by simp
    then show ?thesis using trim_right_hd [OF td] trim_right_last [OF td] by (simp add: t_def trim_dashes_def)
  qed
  have "list_all name_char (take 50 t)" using t_chars by (auto simp: list_all_iff dest: in_set_takeD)
  then have r_chars: "list_all name_char r" using t_chars by (simp add: r_def trim_right_chars)
  have r_ends: "hd r \<noteq> CHR ''-'' \<and> last r \<noteq> CHR ''-''" if "r \<noteq> []"
  proof (cases "length t > 50")
    case True
    then have ne: "trim_dashes_right (take 50 t) \<noteq> []" "t \<noteq> []" using that by (auto simp: r_def)
    then show ?thesis using True trim_right_hd [OF ne(1)] trim_right_last [OF ne(1)] t_ends by (simp add: r_def)
  next
    case False
    then show ?thesis using that t_ends by (simp add: r_def)
  qed
  have len: "length r \<le> 50" using trim_right_length [of "take 50 t"] by (auto simp: r_def)
  have "label_char (hd r) \<and> label_char (last r)" if "r \<noteq> []"
    using r_ends [OF that] r_chars that by (auto simp: list_all_iff name_char_def dest: hd_in_set last_in_set)
  then have "r \<noteq> [] \<Longrightarrow> name_ok r" using len r_chars by (simp add: name_ok_def)
  then show ?thesis unfolding res using len
    by (simp add: name_ok_def label_char_def name_char_def)
qed

end
