(* ===== verification/Node_Store.thy ===== *)
theory Node_Store
  imports Node_Names Lock_Engine Policy_Base
begin

text \<open>
  The machines, users and keys of \<^verbatim>\<open>internal/store\<close> (\<^verbatim>\<open>store.go\<close>, the user, route and relay parts of
  \<^verbatim>\<open>admin.go\<close>, \<^verbatim>\<open>gateway.go\<close>).  A table is the list of its rows in the order of insertion; the statements of
  the sources are functions on it, with the UNIQUE constraints, foreign keys and AUTOINCREMENT counters
  of the schema (\<^verbatim>\<open>migrations/*.sql\<close>) written out.  Address, prefix and endpoint columns hold text in the
  database and their values here.  A call is one step, and an error leaves the database as it was.
  That is exact for calls that are one statement or one transaction on SQLite (\<^verbatim>\<open>BEGIN IMMEDIATE\<close>); \<^verbatim>\<open>RegisterNode\<close> on PostgreSQL reads the
  key before its transaction takes the lock, so overlapping registrations are not covered there, and \<^verbatim>\<open>IPv6Prefix\<close>, which stores
  the prefix on first use, runs before the transaction and is not undone by its error (the prefix is there from \<^verbatim>\<open>open_db\<close> on).
  \<^verbatim>\<open>UpdateNodeInfo\<close>, two statements in no transaction, is split.
  SHA-256 is the parameter \<open>sha\<close>; random draws and clock readings are arguments.
\<close>

section \<open>Tables\<close>

type_synonym sha_fn = "string \<Rightarrow> bytes"

definition unix :: "time \<Rightarrow> int" where
  "unix t = t div second"

record user_row =
  us_id :: u64
  us_name :: string
  us_email :: string
  us_subject :: "string option"

record preauth_row =
  pk_id :: u64
  pk_user :: u64
  pk_prefix :: string
  pk_hash :: bytes
  pk_reusable :: bool
  pk_ephemeral :: bool
  pk_used :: bool
  pk_expires :: int

record node_row =
  nr_id :: u64
  nr_user :: u64
  nr_name :: string
  nr_machine_key :: string
  nr_ipv4 :: addr
  nr_ipv6 :: addr
  nr_os :: string
  nr_token_hash :: bytes
  nr_ephemeral :: bool
  nr_preauth :: "u64 option"
  nr_created :: int
  nr_last_seen :: int
  nr_node_key :: string
  nr_disco_key :: string
  nr_endpoints :: "string list"
  nr_relay_offered :: bool
  nr_relay_approved :: bool
  nr_ssh_host_key :: string
  nr_os_version :: string
  nr_client_version :: string
  nr_signed_auth :: bool

record route_row =
  rt_node :: u64
  rt_prefix :: prefix
  rt_advertised :: bool
  rt_approved :: bool

record exposure_row =
  ex_node :: u64
  ex_name :: string
  ex_port :: u16
  ex_advertised :: bool
  ex_approved :: bool

datatype access_status = AccessPending | AccessApproved | AccessDenied | AccessRevoked | AccessExpired

record access_row =
  aq_id :: u64
  aq_node :: u64
  aq_dst :: string
  aq_duration :: int
  aq_reason :: string
  aq_status :: access_status
  aq_requested :: int
  aq_by :: string
  aq_decided :: int
  aq_expires :: int

record store_db =
  db_ipv6 :: "prefix option"
  db_users :: "user_row list"
  db_keys :: "preauth_row list"
  db_nodes :: "node_row list"
  db_routes :: "route_row list"
  db_exposures :: "exposure_row list"
  db_access :: "access_row list"
  db_lock :: lock_store
  db_next_user :: u64
  db_next_key :: u64
  db_next_node :: u64
  db_next_access :: u64

definition empty_db :: store_db where
  "empty_db = \<lparr>db_ipv6 = None, db_users = [], db_keys = [], db_nodes = [], db_routes = [], db_exposures = [], db_access = [],
     db_lock = \<lparr>st_chain = [], st_sigs = []\<rparr>, db_next_user = 1, db_next_key = 1, db_next_node = 1, db_next_access = 1\<rparr>"

text \<open>The machine as \<^verbatim>\<open>store.Node\<close> has it.\<close>

record store_node =
  sn_id :: u64
  sn_user_id :: u64
  sn_user :: string
  sn_name :: string
  sn_machine_key :: string
  sn_ipv4 :: addr
  sn_ipv6 :: addr
  sn_os :: string
  sn_ephemeral :: bool
  sn_created :: int
  sn_last_seen :: int
  sn_node_key :: string
  sn_disco_key :: string
  sn_endpoints :: "string list"
  sn_advertised :: "prefix list"
  sn_routes :: "prefix list"
  sn_relay_offered :: bool
  sn_relay_approved :: bool
  sn_lock_signature :: bytes
  sn_os_version :: string
  sn_client_version :: string
  sn_ssh_host_key :: string
  sn_signed_auth :: bool

datatype store_error = NotFound | AlreadyExists | InvalidKey | PoolExhausted | DeviceLimitError string int int
  | InvalidName | UserHasNodes | NoUniqueName | Constraint | NotPending | NotActive

text \<open>The last identifier AUTOINCREMENT gives out.\<close>

definition max_id :: u64 where
  "max_id = 0x7fffffffffffffff"

section \<open>Users and keys\<close>

definition user_id :: "string \<Rightarrow> store_db \<Rightarrow> u64 option" where
  "user_id name db = map_option us_id (find (\<lambda>u. us_name u = name) (db_users db))"

definition insert_user :: "string \<Rightarrow> string \<Rightarrow> string option \<Rightarrow> store_db \<Rightarrow> store_error + u64 \<times> store_db" where
  "insert_user name email subject db =
     (if list_ex (\<lambda>u. us_name u = name \<or> subject \<noteq> None \<and> us_subject u = subject) (db_users db) then Inl AlreadyExists
      else if db_next_user db \<ge> max_id then Inl Constraint
      else Inr (db_next_user db,
        db\<lparr>db_users := db_users db @ [\<lparr>us_id = db_next_user db, us_name = name, us_email = email, us_subject = subject\<rparr>],
           db_next_user := db_next_user db + 1\<rparr>))"

definition create_user :: "string \<Rightarrow> store_db \<Rightarrow> store_error + u64 \<times> store_db" where
  "create_user name db = (if \<not> name_ok name then Inl InvalidName else insert_user name [] None db)"

text \<open>Deleting a user deletes its keys; a user with machines is not deleted.\<close>

definition delete_user :: "string \<Rightarrow> store_db \<Rightarrow> store_error + store_db" where
  "delete_user name db =
     (case user_id name db of
        None \<Rightarrow> Inl NotFound
      | Some uid \<Rightarrow>
          if list_ex (\<lambda>n. nr_user n = uid) (db_nodes db) then Inl UserHasNodes
          else Inr (db\<lparr>db_users := filter (\<lambda>u. us_id u \<noteq> uid) (db_users db),
                       db_keys := filter (\<lambda>k. pk_user k \<noteq> uid) (db_keys db)\<rparr>))"

text \<open>The loop of \<^verbatim>\<open>UserForOIDC\<close>: \<open>fuel\<close> names are left to try.\<close>

fun oidc_loop :: "nat \<Rightarrow> nat \<Rightarrow> string \<Rightarrow> string \<Rightarrow> string \<Rightarrow> store_db \<Rightarrow> store_error + u64 \<times> store_db" where
  "oidc_loop 0 i base email subject db = Inl NoUniqueName"
| "oidc_loop (Suc fuel) i base email subject db =
     (case insert_user (name_try base i) email (Some subject) db of
        Inl e \<Rightarrow> if e = AlreadyExists then oidc_loop fuel (Suc i) base email subject db else Inl e
      | Inr r \<Rightarrow> Inr r)"

definition user_for_oidc :: "string \<Rightarrow> string \<Rightarrow> store_db \<Rightarrow> store_error + u64 \<times> store_db" where
  "user_for_oidc subject email db =
     (case find (\<lambda>u. us_subject u = Some subject) (db_users db) of
        Some u \<Rightarrow> Inr (us_id u, db\<lparr>db_users := map (\<lambda>v. if us_id v = us_id u then v\<lparr>us_email := email\<rparr> else v) (db_users db)\<rparr>)
      | None \<Rightarrow>
          let local = fst (cut_char CHR ''@'' email); base = sanitize_hostname local;
              base = (if base = ''node'' \<and> local = [] then ''user'' else base)
          in oidc_loop 100 0 base email subject db)"

definition create_preauth_key ::
  "sha_fn \<Rightarrow> time \<Rightarrow> string \<Rightarrow> string \<Rightarrow> string \<Rightarrow> bool \<Rightarrow> bool \<Rightarrow> duration \<Rightarrow> store_db \<Rightarrow> store_error + string \<times> store_db"
where
  "create_preauth_key sha now pre secret user reusable ephemeral ttl db =
     (case user_id user db of
        None \<Rightarrow> Inl NotFound
      | Some uid \<Rightarrow>
          let plain = ''wskey-'' @ pre @ ''-'' @ secret in
          if list_ex (\<lambda>k. pk_hash k = sha plain) (db_keys db) \<or> db_next_key db \<ge> max_id then Inl Constraint
          else Inr (plain, db\<lparr>db_keys := db_keys db @ [\<lparr>pk_id = db_next_key db, pk_user = uid, pk_prefix = pre, pk_hash = sha plain,
                 pk_reusable = reusable, pk_ephemeral = ephemeral, pk_used = False, pk_expires = unix (now + ttl)\<rparr>],
               db_next_key := db_next_key db + 1\<rparr>))"

definition expire_preauth_key :: "time \<Rightarrow> string \<Rightarrow> store_db \<Rightarrow> store_error + store_db" where
  "expire_preauth_key now pre db =
     (if \<not> list_ex (\<lambda>k. pk_prefix k = pre) (db_keys db) then Inl NotFound
      else Inr (db\<lparr>db_keys := map (\<lambda>k. if pk_prefix k = pre then k\<lparr>pk_expires := unix now\<rparr> else k) (db_keys db)\<rparr>))"

section \<open>Registration\<close>

definition ipv4_pool :: prefix where
  "ipv4_pool = Prefix (IPv4 0x64400000) 10"

definition reserved_ipv4 :: addr where
  "reserved_ipv4 = IPv4 0x64646464"

text \<open>\<^verbatim>\<open>IPv6Prefix\<close>: the deployment's prefix, made from five random bytes on first use.\<close>

definition ipv6_prefix :: "bytes \<Rightarrow> store_db \<Rightarrow> prefix \<times> store_db" where
  "ipv6_prefix rnd db =
     (case db_ipv6 db of
        Some p \<Rightarrow> (p, db)
      | None \<Rightarrow> let p = prefix_from (addr_from16 (0xfd # take 5 rnd @ replicate 10 0)) 48 in (p, db\<lparr>db_ipv6 := Some p\<rparr>))"

text \<open>The loop of \<^verbatim>\<open>allocateIPv4\<close> from the address \<open>a\<close>.\<close>

lemma in_pool: "contains ipv4_pool a \<longleftrightarrow> (\<exists>x. a = IPv4 x \<and> 0x64400000 \<le> unat x \<and> unat x < 0x64800000)"
proof -
  have d: "n div 4194304 = 401 \<longleftrightarrow> 1681915904 \<le> n \<and> n < 1686110208" for n :: nat
    by linarith
  have "pfx_valid ipv4_pool" by (simp add: ipv4_pool_def)
  from contains_iff [OF this, of a] show ?thesis
    by (cases a) (simp_all add: ipv4_pool_def host_bits_def d)
qed

lemma next_in_pool: "contains ipv4_pool (addr_next a) \<Longrightarrow> addr_val (addr_next a) = Suc (addr_val a) \<and> addr_val a < 0x64800000"
  using unatSuc [of "case a of IPv4 x \<Rightarrow> x"] by (cases a) (auto simp: in_pool add.commute split: if_splits)

function allocate_from :: "addr list \<Rightarrow> addr \<Rightarrow> addr option" where
  "allocate_from used a =
     (if \<not> contains ipv4_pool (addr_next a) then None
      else if a \<noteq> reserved_ipv4 \<and> a \<notin> set used then Some a
      else allocate_from used (addr_next a))"
  by pat_completeness auto
termination
  by (relation "measure (\<lambda>(used, a). 0x64800000 - addr_val a)") (auto dest!: next_in_pool)

declare allocate_from.simps [simp del]

definition allocate_ipv4 :: "store_db \<Rightarrow> addr option" where
  "allocate_ipv4 db = allocate_from (map nr_ipv4 (db_nodes db)) (addr_next (pfx_addr ipv4_pool))"

definition ipv6_for :: "prefix \<Rightarrow> addr \<Rightarrow> addr" where
  "ipv6_for p v4 = addr_from16 (take 12 (as16 (pfx_addr p)) @ as_slice v4)"

record register_params =
  rp_auth_key :: string
  rp_machine_key :: string
  rp_hostname :: string
  rp_os :: string
  rp_limit :: "(string \<Rightarrow> int option) option"

definition new_row :: "time \<Rightarrow> u64 \<Rightarrow> u64 \<Rightarrow> string \<Rightarrow> addr \<Rightarrow> addr \<Rightarrow> bytes \<Rightarrow> bool \<Rightarrow> u64 option \<Rightarrow> register_params \<Rightarrow> node_row" where
  "new_row now i uid name v4 v6 th ephemeral preauth p =
     \<lparr>nr_id = i, nr_user = uid, nr_name = name, nr_machine_key = rp_machine_key p, nr_ipv4 = v4, nr_ipv6 = v6,
      nr_os = rp_os p, nr_token_hash = th, nr_ephemeral = ephemeral, nr_preauth = preauth, nr_created = unix now,
      nr_last_seen = unix now, nr_node_key = [], nr_disco_key = [], nr_endpoints = [], nr_relay_offered = False,
      nr_relay_approved = False, nr_ssh_host_key = [], nr_os_version = [], nr_client_version = [], nr_signed_auth = False\<rparr>"

text \<open>The UNIQUE constraints of the table \<^verbatim>\<open>nodes\<close>.\<close>

definition clashes :: "node_row \<Rightarrow> node_row \<Rightarrow> bool" where
  "clashes n m \<longleftrightarrow> nr_name n = nr_name m \<or> nr_machine_key n = nr_machine_key m \<or> nr_ipv4 n = nr_ipv4 m \<or>
     nr_ipv6 n = nr_ipv6 m \<or> nr_token_hash n = nr_token_hash m"

definition over_limit :: "register_params \<Rightarrow> string \<Rightarrow> u64 \<Rightarrow> store_db \<Rightarrow> store_error option" where
  "over_limit p user uid db =
     (case rp_limit p of
        None \<Rightarrow> None
      | Some f \<Rightarrow>
          (case f user of
             None \<Rightarrow> None
           | Some limit \<Rightarrow>
               let count = int (length (filter (\<lambda>n. nr_user n = uid) (db_nodes db))) in
               if count \<ge> limit then Some (DeviceLimitError user limit count) else None))"

definition insert_node ::
  "sha_fn \<Rightarrow> time \<Rightarrow> string \<Rightarrow> prefix \<Rightarrow> u64 \<Rightarrow> string \<Rightarrow> u64 option \<Rightarrow> bool \<Rightarrow> register_params \<Rightarrow> store_db \<Rightarrow>
     store_error + node_row \<times> string \<times> store_db"
where
  "insert_node sha now rnd pfx6 uid user preauth ephemeral p db =
     (if list_ex (\<lambda>n. nr_machine_key n = rp_machine_key p) (db_nodes db) then Inl AlreadyExists
      else case over_limit p user uid db of
        Some e \<Rightarrow> Inl e
      | None \<Rightarrow>
          let name = unique_node_name (map nr_name (db_nodes db)) (sanitize_hostname (rp_hostname p)) in
          (case allocate_ipv4 db of
             None \<Rightarrow> Inl PoolExhausted
           | Some v4 \<Rightarrow>
               let token = ''wsnode-'' @ rnd;
                   n = new_row now (db_next_node db) uid name v4 (ipv6_for pfx6 v4) (sha token) ephemeral preauth p
               in if list_ex (clashes n) (db_nodes db) \<or> db_next_node db \<ge> max_id then Inl Constraint
                  else Inr (n, token, db\<lparr>db_nodes := db_nodes db @ [n], db_next_node := db_next_node db + 1\<rparr>)))"

definition register_node ::
  "sha_fn \<Rightarrow> time \<Rightarrow> bytes \<Rightarrow> string \<Rightarrow> register_params \<Rightarrow> store_db \<Rightarrow> store_error + node_row \<times> string \<times> store_db"
where
  "register_node sha now rnd6 rnd p db0 =
     (let (pfx6, db) = ipv6_prefix rnd6 db0 in
      case find (\<lambda>k. pk_hash k = sha (rp_auth_key p)) (db_keys db) of
        None \<Rightarrow> Inl InvalidKey
      | Some k \<Rightarrow>
          (case find (\<lambda>u. us_id u = pk_user k) (db_users db) of
             None \<Rightarrow> Inl InvalidKey
           | Some u \<Rightarrow>
               if unix now \<ge> pk_expires k \<or> pk_used k \<and> \<not> pk_reusable k then Inl InvalidKey
               else (case insert_node sha now rnd pfx6 (us_id u) (us_name u) (Some (pk_id k)) (pk_ephemeral k) p db of
                   Inl e \<Rightarrow> Inl e
                 | Inr (n, token, db') \<Rightarrow>
                     Inr (n, token, db'\<lparr>db_keys := map (\<lambda>k'. if pk_id k' = pk_id k then k'\<lparr>pk_used := True\<rparr> else k') (db_keys db')\<rparr>))))"

definition register_node_for_user ::
  "sha_fn \<Rightarrow> time \<Rightarrow> bytes \<Rightarrow> string \<Rightarrow> u64 \<Rightarrow> register_params \<Rightarrow> store_db \<Rightarrow> store_error + node_row \<times> string \<times> store_db"
where
  "register_node_for_user sha now rnd6 rnd uid p db0 =
     (let (pfx6, db) = ipv6_prefix rnd6 db0 in
      case find (\<lambda>u. us_id u = uid) (db_users db) of
        None \<Rightarrow> Inl NotFound
      | Some u \<Rightarrow> insert_node sha now rnd pfx6 uid (us_name u) None False p db)"

section \<open>Machines\<close>

definition update_row :: "u64 \<Rightarrow> (node_row \<Rightarrow> node_row) \<Rightarrow> store_db \<Rightarrow> store_db" where
  "update_row i f db = db\<lparr>db_nodes := map (\<lambda>n. if nr_id n = i then f n else n) (db_nodes db)\<rparr>"

text \<open>\<^verbatim>\<open>scanNode\<close>, with the routes \<^verbatim>\<open>attachRoutes\<close> and the signature \<^verbatim>\<open>attachLockSignatures\<close> fill in later.\<close>

definition scan_node :: "string \<Rightarrow> node_row \<Rightarrow> store_node" where
  "scan_node user n =
     \<lparr>sn_id = nr_id n, sn_user_id = nr_user n, sn_user = user, sn_name = nr_name n, sn_machine_key = nr_machine_key n,
      sn_ipv4 = nr_ipv4 n, sn_ipv6 = nr_ipv6 n, sn_os = nr_os n, sn_ephemeral = nr_ephemeral n, sn_created = nr_created n,
      sn_last_seen = nr_last_seen n, sn_node_key = nr_node_key n, sn_disco_key = nr_disco_key n, sn_endpoints = nr_endpoints n,
      sn_advertised = [], sn_routes = [], sn_relay_offered = nr_relay_offered n, sn_relay_approved = nr_relay_approved n,
      sn_lock_signature = [], sn_os_version = nr_os_version n, sn_client_version = nr_client_version n,
      sn_ssh_host_key = nr_ssh_host_key n, sn_signed_auth = nr_signed_auth n\<rparr>"

text \<open>\<^verbatim>\<open>ListRoutes\<close>: the routes of machines, in the order of machine name and prefix text.\<close>

definition node_name_of :: "store_db \<Rightarrow> u64 \<Rightarrow> string option" where
  "node_name_of db i = map_option nr_name (find (\<lambda>n. nr_id n = i) (db_nodes db))"

definition list_routes :: "store_db \<Rightarrow> route_row list" where
  "list_routes db =
     sort_key (\<lambda>r. (the (node_name_of db (rt_node r)), prefix_string (rt_prefix r)))
       (filter (\<lambda>r. node_name_of db (rt_node r) \<noteq> None) (db_routes db))"

definition attach_routes :: "store_db \<Rightarrow> store_node \<Rightarrow> store_node" where
  "attach_routes db n =
     (let rs = filter (\<lambda>r. rt_node r = sn_id n \<and> rt_advertised r) (list_routes db)
      in n\<lparr>sn_advertised := map rt_prefix rs, sn_routes := map rt_prefix (filter rt_approved rs)\<rparr>)"

definition attach_lock_signature :: "store_db \<Rightarrow> store_node \<Rightarrow> store_node" where
  "attach_lock_signature db n =
     (if sn_node_key n = [] then n
      else n\<lparr>sn_lock_signature := (case map_of (st_sigs (db_lock db)) (sn_node_key n) of None \<Rightarrow> [] | Some b \<Rightarrow> b)\<rparr>)"

text \<open>The join of machines and users, by machine identifier.\<close>

definition joined :: "store_db \<Rightarrow> store_node list" where
  "joined db =
     List.map_filter (\<lambda>n. map_option (\<lambda>u. scan_node (us_name u) n) (find (\<lambda>u. us_id u = nr_user n) (db_users db)))
       (sort_key nr_id (db_nodes db))"

definition list_nodes :: "string \<Rightarrow> store_db \<Rightarrow> store_node list" where
  "list_nodes user db =
     map (\<lambda>n. attach_lock_signature db (attach_routes db n)) (filter (\<lambda>n. user = [] \<or> sn_user n = user) (joined db))"

definition node_where :: "time \<Rightarrow> (node_row \<Rightarrow> bool) \<Rightarrow> store_db \<Rightarrow> store_error + store_node \<times> store_db" where
  "node_where now cond db =
     (case find cond (db_nodes db) of
        None \<Rightarrow> Inl NotFound
      | Some r \<Rightarrow>
          (case find (\<lambda>u. us_id u = nr_user r) (db_users db) of
             None \<Rightarrow> Inl NotFound
           | Some u \<Rightarrow>
               let db' = update_row (nr_id r) (\<lambda>n. n\<lparr>nr_last_seen := unix now\<rparr>) db
               in Inr (attach_routes db' ((scan_node (us_name u) r)\<lparr>sn_last_seen := unix now\<rparr>), db')))"

definition node_by_machine_key :: "time \<Rightarrow> string \<Rightarrow> store_db \<Rightarrow> store_error + store_node \<times> store_db" where
  "node_by_machine_key now mk db = node_where now (\<lambda>n. nr_machine_key n = mk) db"

definition node_by_token :: "sha_fn \<Rightarrow> time \<Rightarrow> string \<Rightarrow> store_db \<Rightarrow> store_error + store_node \<times> store_db" where
  "node_by_token sha now token db = node_where now (\<lambda>n. nr_token_hash n = sha token) db"

definition mark_signed_auth :: "u64 \<Rightarrow> store_db \<Rightarrow> store_db" where
  "mark_signed_auth i db = update_row i (\<lambda>n. n\<lparr>nr_signed_auth := True\<rparr>) db"

record node_info =
  ni_node_key :: string
  ni_disco_key :: string
  ni_endpoints :: "string list"
  ni_os :: string
  ni_ssh_host_key :: string
  ni_os_version :: string
  ni_client_version :: string

definition info_row :: "node_info \<Rightarrow> node_row \<Rightarrow> node_row" where
  "info_row info n = n\<lparr>nr_node_key := ni_node_key info, nr_disco_key := ni_disco_key info, nr_endpoints := ni_endpoints info,
     nr_os := ni_os info, nr_ssh_host_key := ni_ssh_host_key info, nr_os_version := ni_os_version info,
     nr_client_version := ni_client_version info\<rparr>"

text \<open>\<^verbatim>\<open>UpdateNodeInfo\<close> is two statements outside any transaction: the query for another machine with the key, then
  the update.  \<open>update_node_info\<close> runs them on one database, as a call with nothing in between does; the
  step relation of \<open>Store_Inv\<close> lets the update run whatever the query saw.\<close>

definition node_key_taken :: "u64 \<Rightarrow> string \<Rightarrow> store_db \<Rightarrow> bool" where
  "node_key_taken i k db \<longleftrightarrow> k \<noteq> [] \<and> list_ex (\<lambda>n. nr_node_key n = k \<and> nr_id n \<noteq> i) (db_nodes db)"

definition write_node_info :: "time \<Rightarrow> u64 \<Rightarrow> node_info \<Rightarrow> store_db \<Rightarrow> bool \<times> store_db" where
  "write_node_info now i info db =
     (list_ex (\<lambda>n. nr_id n = i \<and> info_row info n \<noteq> n) (db_nodes db),
      update_row i (\<lambda>n. if info_row info n \<noteq> n then (info_row info n)\<lparr>nr_last_seen := unix now\<rparr> else n) db)"

definition update_node_info :: "time \<Rightarrow> u64 \<Rightarrow> node_info \<Rightarrow> store_db \<Rightarrow> store_error + bool \<times> store_db" where
  "update_node_info now i info db =
     (if node_key_taken i (ni_node_key info) db then Inl AlreadyExists else Inr (write_node_info now i info db))"

text \<open>Deleting a machine deletes its routes, exposures and access requests.\<close>

definition delete_node :: "u64 \<Rightarrow> store_db \<Rightarrow> store_error + store_db" where
  "delete_node i db =
     (if \<not> list_ex (\<lambda>n. nr_id n = i) (db_nodes db) then Inl NotFound
      else Inr (db\<lparr>db_nodes := filter (\<lambda>n. nr_id n \<noteq> i) (db_nodes db), db_routes := filter (\<lambda>r. rt_node r \<noteq> i) (db_routes db),
                   db_exposures := filter (\<lambda>e. ex_node e \<noteq> i) (db_exposures db),
                   db_access := filter (\<lambda>a. aq_node a \<noteq> i) (db_access db)\<rparr>))"

definition stale_ephemeral_nodes :: "time \<Rightarrow> store_db \<Rightarrow> store_node list" where
  "stale_ephemeral_nodes cutoff db = filter (\<lambda>n. sn_ephemeral n \<and> sn_last_seen n < unix cutoff) (joined db)"

section \<open>Routes and relays\<close>

definition put_route :: "u64 \<Rightarrow> prefix \<Rightarrow> route_row list \<Rightarrow> route_row list" where
  "put_route i p rs =
     (if list_ex (\<lambda>r. rt_node r = i \<and> rt_prefix r = p) rs
      then map (\<lambda>r. if rt_node r = i \<and> rt_prefix r = p then r\<lparr>rt_advertised := True\<rparr> else r) rs
      else rs @ [\<lparr>rt_node = i, rt_prefix = p, rt_advertised = True, rt_approved = False\<rparr>])"

text \<open>A row may only name a machine that exists.\<close>

definition node_exists :: "u64 \<Rightarrow> store_db \<Rightarrow> bool" where
  "node_exists i db \<longleftrightarrow> list_ex (\<lambda>n. nr_id n = i) (db_nodes db)"

definition set_advertised_routes :: "u64 \<Rightarrow> prefix list \<Rightarrow> store_db \<Rightarrow> store_error + bool \<times> store_db" where
  "set_advertised_routes i ps db =
     (let was = remdups (map rt_prefix (filter (\<lambda>r. rt_node r = i \<and> rt_advertised r) (db_routes db)));
          now = remdups (map masked ps)
      in if \<not> (length was \<noteq> length now \<or> list_ex (\<lambda>p. p \<notin> set was) now) then Inr (False, db)
         else if now \<noteq> [] \<and> \<not> node_exists i db then Inl Constraint
         else Inr (True, db\<lparr>db_routes := fold (put_route i) now
                (map (\<lambda>r. if rt_node r = i then r\<lparr>rt_advertised := False\<rparr> else r) (db_routes db))\<rparr>))"

definition set_route_approved :: "u64 \<Rightarrow> prefix \<Rightarrow> bool \<Rightarrow> store_db \<Rightarrow> store_error + store_db" where
  "set_route_approved i p approved db =
     (if \<not> list_ex (\<lambda>r. rt_node r = i \<and> rt_prefix r = masked p) (db_routes db) then Inl NotFound
      else Inr (db\<lparr>db_routes :=
             map (\<lambda>r. if rt_node r = i \<and> rt_prefix r = masked p then r\<lparr>rt_approved := approved\<rparr> else r) (db_routes db)\<rparr>))"

definition set_relay_offered :: "u64 \<Rightarrow> bool \<Rightarrow> store_db \<Rightarrow> bool \<times> store_db" where
  "set_relay_offered i offered db =
     (list_ex (\<lambda>n. nr_id n = i \<and> nr_relay_offered n \<noteq> offered) (db_nodes db),
      update_row i (\<lambda>n. n\<lparr>nr_relay_offered := offered\<rparr>) db)"

definition set_relay_approved :: "u64 \<Rightarrow> bool \<Rightarrow> store_db \<Rightarrow> store_error + store_db" where
  "set_relay_approved i approved db =
     (if \<not> node_exists i db then Inl NotFound else Inr (update_row i (\<lambda>n. n\<lparr>nr_relay_approved := approved\<rparr>) db))"

section \<open>Exposures\<close>

record exposure_state =
  xs_rows :: "exposure_row list"
  xs_wanted :: "string list"
  xs_changed :: bool
  xs_taken :: "string list"

text \<open>One request of \<^verbatim>\<open>SetExposures\<close>; \<open>was\<close> are the node's rows before the call.\<close>

definition expose :: "u64 \<Rightarrow> exposure_row list \<Rightarrow> string \<times> u16 \<Rightarrow> exposure_state \<Rightarrow> exposure_state" where
  "expose i was r st =
     (let (name, port) = r in
      if \<not> name_ok name \<or> port = 0 \<or> name \<in> set (xs_wanted st) then st
      else let st = st\<lparr>xs_wanted := name # xs_wanted st\<rparr> in
        case find (\<lambda>e. ex_name e = name) was of
          Some old \<Rightarrow>
            let f = (\<lambda>e. if ex_node e = i \<and> ex_name e = name
                     then (if ex_port old = port then e\<lparr>ex_advertised := True\<rparr>
                           else e\<lparr>ex_advertised := True, ex_port := port, ex_approved := False\<rparr>) else e)
            in st\<lparr>xs_rows := map f (xs_rows st), xs_changed := xs_changed st \<or> ex_port old \<noteq> port \<or> \<not> ex_advertised old\<rparr>
        | None \<Rightarrow>
            if list_ex (\<lambda>e. ex_name e = name) (xs_rows st) then st\<lparr>xs_taken := xs_taken st @ [name]\<rparr>
            else st\<lparr>xs_rows := xs_rows st @ [\<lparr>ex_node = i, ex_name = name, ex_port = port, ex_advertised = True, ex_approved = False\<rparr>],
                    xs_changed := True\<rparr>)"

definition set_exposures :: "u64 \<Rightarrow> (string \<times> u16) list \<Rightarrow> store_db \<Rightarrow> store_error + (bool \<times> string list) \<times> store_db" where
  "set_exposures i reqs db =
     (let was = filter (\<lambda>e. ex_node e = i) (db_exposures db);
          st = fold (expose i was) reqs
            \<lparr>xs_rows = map (\<lambda>e. if ex_node e = i then e\<lparr>ex_advertised := False\<rparr> else e) (db_exposures db),
             xs_wanted = [], xs_changed = False, xs_taken = []\<rparr>;
          changed = xs_changed st \<or> list_ex (\<lambda>e. ex_advertised e \<and> ex_name e \<notin> set (xs_wanted st)) was
      in if length (xs_rows st) > length (db_exposures db) \<and> \<not> node_exists i db then Inl Constraint
         else Inr ((changed, sort (xs_taken st)), db\<lparr>db_exposures := xs_rows st\<rparr>))"

definition exposure_live :: "exposure_row \<Rightarrow> bool" where
  "exposure_live e \<longleftrightarrow> ex_advertised e \<and> ex_approved e"

definition list_exposures :: "store_db \<Rightarrow> exposure_row list" where
  "list_exposures db = sort_key ex_name (filter (\<lambda>e. node_exists (ex_node e) db) (db_exposures db))"

definition exposure_by_name :: "string \<Rightarrow> store_db \<Rightarrow> store_error + exposure_row" where
  "exposure_by_name name db =
     (case find (\<lambda>e. ex_name e = name \<and> node_exists (ex_node e) db) (db_exposures db) of None \<Rightarrow> Inl NotFound | Some e \<Rightarrow> Inr e)"

definition set_exposure_approved :: "u64 \<Rightarrow> string \<Rightarrow> bool \<Rightarrow> store_db \<Rightarrow> store_error + store_db" where
  "set_exposure_approved i name approved db =
     (if \<not> list_ex (\<lambda>e. ex_node e = i \<and> ex_name e = name) (db_exposures db) then Inl NotFound
      else Inr (db\<lparr>db_exposures :=
             map (\<lambda>e. if ex_node e = i \<and> ex_name e = name then e\<lparr>ex_approved := approved\<rparr> else e) (db_exposures db)\<rparr>))"

end
