(* ===== verification/Store_Inv.thy ===== *)
theory Store_Inv
  imports Node_Store
begin

text \<open>
  What the database keeps true: every operation of \<open>Node_Store\<close> preserves \<open>store_inv\<close>, so every database a
  sequence of them reaches has it.  Machines have distinct identifiers, names that are DNS labels,
  distinct machine keys, node keys and addresses of the pool, and belong to users that exist.
\<close>

section \<open>Allocation\<close>

text \<open>The addresses a machine may get: those of the pool but the first, the last and the resolver's.\<close>

definition host_addr :: "addr \<Rightarrow> bool" where
  "host_addr a \<longleftrightarrow> (\<exists>x. a = IPv4 x \<and> 0x64400000 < unat x \<and> unat x < 0x647fffff) \<and> a \<noteq> reserved_ipv4"

lemma unat_Suc_next: "unat x < 4294967295 \<Longrightarrow> unat (x + 1 :: u32) = Suc (unat x) \<and> x + 1 \<noteq> 0"
proof -
  assume "unat x < 4294967295"
  then have "unat (x + 1) = Suc (unat x)" by (simp add: unat_word_ariths)
  then show ?thesis by auto
qed

lemma allocate_from_spec:
  assumes "a = IPv4 x" and "0x64400000 < unat x" and "unat x \<le> 0x647fffff"
  shows "(case allocate_from used a of
      None \<Rightarrow> (\<forall>y. host_addr (IPv4 y) \<and> unat x \<le> unat y \<longrightarrow> IPv4 y \<in> set used)
    | Some b \<Rightarrow> host_addr b \<and> b \<notin> set used \<and> (\<exists>z. b = IPv4 z \<and> unat x \<le> unat z \<and>
        (\<forall>y. host_addr (IPv4 y) \<and> unat x \<le> unat y \<and> unat y < unat z \<longrightarrow> IPv4 y \<in> set used)))"
  using assms
proof (induction used a arbitrary: x rule: allocate_from.induct)
  case (1 used a)
  note a = \<open>a = IPv4 x\<close>
  have nx: "addr_next a = IPv4 (x + 1)" and ux: "unat (x + 1) = Suc (unat x)"
    using 1(3,4) unat_Suc_next [of x] by (auto simp: a)
  have more: "contains ipv4_pool (addr_next a) \<longleftrightarrow> unat x < 0x647fffff" using 1(3) by (auto simp: in_pool nx ux)
  show ?case
  proof (cases "unat x < 0x647fffff")
    case False
    then have "allocate_from used a = None" using more by (subst allocate_from.simps) simp
    moreover have "\<forall>y. host_addr (IPv4 y) \<and> unat x \<le> unat y \<longrightarrow> IPv4 y \<in> set used" using False by (auto simp: host_addr_def)
    ultimately show ?thesis by simp
  next
    case True
    note T = True
    show ?thesis
    proof (cases "a \<noteq> reserved_ipv4 \<and> a \<notin> set used")
      case True
      then have "allocate_from used a = Some a" using T more by (subst allocate_from.simps) simp
      moreover have "host_addr a" using True T 1(3) by (auto simp: host_addr_def a)
      ultimately show ?thesis using True by (auto simp: a)
    next
      case False
      then have eq: "allocate_from used a = allocate_from used (IPv4 (x + 1))"
        using T more nx by (subst allocate_from.simps) auto
      have skip: "\<forall>y. host_addr (IPv4 y) \<and> unat x \<le> unat y \<longrightarrow> IPv4 y \<in> set used \<or> unat (x + 1) \<le> unat y"
        using False by (auto simp: a ux host_addr_def le_less Suc_le_eq)
      have "case allocate_from used (IPv4 (x + 1)) of
          None \<Rightarrow> (\<forall>y. host_addr (IPv4 y) \<and> unat (x + 1) \<le> unat y \<longrightarrow> IPv4 y \<in> set used)
        | Some b \<Rightarrow> host_addr b \<and> b \<notin> set used \<and> (\<exists>z. b = IPv4 z \<and> unat (x + 1) \<le> unat z \<and>
            (\<forall>y. host_addr (IPv4 y) \<and> unat (x + 1) \<le> unat y \<and> unat y < unat z \<longrightarrow> IPv4 y \<in> set used))"
        using 1(1) [OF _ False, of "x + 1"] T more nx ux 1(3) by simp
      then show ?thesis unfolding eq using skip ux by (auto split: option.splits) (metis Suc_leD)+
    qed
  qed
qed

lemma allocate_ipv4_spec:
  "case allocate_ipv4 db of
     None \<Rightarrow> (\<forall>a. host_addr a \<longrightarrow> a \<in> nr_ipv4 ` set (db_nodes db))
   | Some b \<Rightarrow> host_addr b \<and> b \<notin> nr_ipv4 ` set (db_nodes db) \<and>
       (\<forall>a. host_addr a \<and> addr_val a < addr_val b \<longrightarrow> a \<in> nr_ipv4 ` set (db_nodes db))"
proof -
  have first: "addr_next (pfx_addr ipv4_pool) = IPv4 0x64400001" by (simp add: ipv4_pool_def)
  have low: "unat (0x64400001 :: u32) \<le> unat y" if "host_addr (IPv4 y)" for y using that by (auto simp: host_addr_def)
  have v4: "\<exists>y. a = IPv4 y" if "host_addr a" for a using that by (auto simp: host_addr_def)
  note sp = allocate_from_spec [of "IPv4 0x64400001" "0x64400001" "map nr_ipv4 (db_nodes db)", simplified]
  show ?thesis
  proof (cases "allocate_ipv4 db")
    case None
    then have "\<forall>y. host_addr (IPv4 y) \<longrightarrow> IPv4 y \<in> nr_ipv4 ` set (db_nodes db)"
      using sp low unfolding allocate_ipv4_def first by simp
    then have "a \<in> nr_ipv4 ` set (db_nodes db)" if "host_addr a" for a using that v4 [OF that] by blast
    then show ?thesis using None by simp
  next
    case (Some b)
    then obtain z where z: "host_addr b" "b \<notin> nr_ipv4 ` set (db_nodes db)" "b = IPv4 z"
      "\<forall>y. host_addr (IPv4 y) \<and> unat y < unat z \<longrightarrow> IPv4 y \<in> nr_ipv4 ` set (db_nodes db)"
      using sp low unfolding allocate_ipv4_def first by auto
    have "a \<in> nr_ipv4 ` set (db_nodes db)" if h: "host_addr a \<and> addr_val a < addr_val b" for a
    proof -
      obtain y where "a = IPv4 y" using h v4 by blast
      then show ?thesis using h z(3,4) by simp
    qed
    then show ?thesis using Some z(1,2) by simp
  qed
qed

section \<open>The invariant\<close>

definition row_ok :: "prefix \<Rightarrow> u64 \<Rightarrow> u64 set \<Rightarrow> node_row \<Rightarrow> bool" where
  "row_ok p6 nxt us n \<longleftrightarrow> nr_id n < nxt \<and> name_ok (nr_name n) \<and> host_addr (nr_ipv4 n) \<and>
     nr_ipv6 n = ipv6_for p6 (nr_ipv4 n) \<and> nr_user n \<in> us"

definition rows_ok :: "prefix \<Rightarrow> u64 \<Rightarrow> u64 set \<Rightarrow> node_row list \<Rightarrow> bool" where
  "rows_ok p6 nxt us ns \<longleftrightarrow> sorted_wrt (<) (map nr_id ns) \<and> distinct (map nr_name ns) \<and> distinct (map nr_machine_key ns) \<and>
     distinct (map nr_ipv4 ns) \<and> distinct (map nr_token_hash ns) \<and> list_all (row_ok p6 nxt us) ns"

definition users_ok :: "u64 \<Rightarrow> user_row list \<Rightarrow> bool" where
  "users_ok nxt us \<longleftrightarrow> distinct (map us_id us) \<and> distinct (map us_name us) \<and> list_all (\<lambda>u. us_id u < nxt) us"

definition preauth_ok :: "u64 \<Rightarrow> u64 set \<Rightarrow> preauth_row list \<Rightarrow> bool" where
  "preauth_ok nxt us ks \<longleftrightarrow> distinct (map pk_id ks) \<and> distinct (map pk_hash ks) \<and> list_all (\<lambda>k. pk_id k < nxt \<and> pk_user k \<in> us) ks"

definition routes_ok :: "u64 set \<Rightarrow> route_row list \<Rightarrow> bool" where
  "routes_ok ids rs \<longleftrightarrow> distinct (map (\<lambda>r. (rt_node r, rt_prefix r)) rs) \<and> list_all (\<lambda>r. rt_node r \<in> ids) rs"

definition exposures_ok :: "u64 set \<Rightarrow> exposure_row list \<Rightarrow> bool" where
  "exposures_ok ids es \<longleftrightarrow> distinct (map ex_name es) \<and> list_all (\<lambda>e. ex_node e \<in> ids) es"

definition store_inv :: "store_db \<Rightarrow> bool" where
  "store_inv db \<longleftrightarrow>
     (\<exists>x. db_ipv6 db = Some (Prefix (IPv6 x []) 48) \<and>
        rows_ok (Prefix (IPv6 x []) 48) (db_next_node db) (us_id ` set (db_users db)) (db_nodes db)) \<and>
     users_ok (db_next_user db) (db_users db) \<and>
     preauth_ok (db_next_key db) (us_id ` set (db_users db)) (db_keys db) \<and>
     routes_ok (nr_id ` set (db_nodes db)) (db_routes db) \<and> exposures_ok (nr_id ` set (db_nodes db)) (db_exposures db)"

section \<open>The parts\<close>

lemma rows_ok_map:
  assumes "rows_ok p6 nxt us ns"
    and "\<And>n. n \<in> set ns \<Longrightarrow> nr_id (f n) = nr_id n \<and> nr_name (f n) = nr_name n \<and> nr_machine_key (f n) = nr_machine_key n \<and>
      nr_ipv4 (f n) = nr_ipv4 n \<and> nr_ipv6 (f n) = nr_ipv6 n \<and> nr_token_hash (f n) = nr_token_hash n \<and> nr_user (f n) = nr_user n"
  shows "rows_ok p6 nxt us (map f ns)"
proof -
  have "map nr_id (map f ns) = map nr_id ns" "map nr_name (map f ns) = map nr_name ns" "map nr_ipv4 (map f ns) = map nr_ipv4 ns"
    "map nr_machine_key (map f ns) = map nr_machine_key ns" "map nr_token_hash (map f ns) = map nr_token_hash ns"
    using assms(2) by simp_all
  moreover have "list_all (row_ok p6 nxt us) (map f ns)"
    using assms by (auto simp: rows_ok_def list_all_iff row_ok_def)
  ultimately show ?thesis using assms(1) unfolding rows_ok_def by metis
qed

lemma rows_ok_filter: "rows_ok p6 nxt us ns \<Longrightarrow> rows_ok p6 nxt us (filter P ns)"
  by (auto simp: rows_ok_def list_all_iff distinct_map_filter strict_sorted_iff sorted_filter)

lemma rows_ok_users: "rows_ok p6 nxt us ns \<Longrightarrow> (\<And>n. n \<in> set ns \<Longrightarrow> nr_user n \<in> us') \<Longrightarrow> rows_ok p6 nxt us' ns"
  by (auto simp: rows_ok_def list_all_iff row_ok_def)

lemma rows_ok_count:
  assumes "rows_ok p6 nxt us ns"
  shows "length ns < 10 ^ 7"
proof -
  have d: "distinct (map nr_ipv4 ns)" and h: "\<forall>n \<in> set ns. host_addr (nr_ipv4 n)"
    using assms by (auto simp: rows_ok_def list_all_iff row_ok_def)
  have "a = b" if "host_addr a" "host_addr b" "addr_val a = addr_val b" for a b using that by (auto simp: host_addr_def)
  then have "inj_on addr_val (nr_ipv4 ` set ns)" using h unfolding inj_on_def by blast
  then have dv: "distinct (map (addr_val \<circ> nr_ipv4) ns)" using d by (simp add: distinct_map comp_inj_on)
  have "set (map (addr_val \<circ> nr_ipv4) ns) \<subseteq> {0x64400000..<0x64800000}" using h by (auto simp: host_addr_def dest!: bspec)
  then have "card (set (map (addr_val \<circ> nr_ipv4) ns)) \<le> card {0x64400000..<0x64800000 :: nat}" by (intro card_mono) auto
  then show ?thesis using distinct_card [OF dv] by simp
qed

lemma dec_string_digits: "list_all (\<lambda>c. label_char c) (dec_string n)"
proof (induction n rule: dec_string.induct)
  case (1 n)
  have "label_char (char_of (48 + m))" if "m < 10" for m :: nat using that by (simp add: label_char_def)
  then show ?case using 1 by (subst dec_string.simps) auto
qed

lemma dec_string_length: "n < 10 ^ k \<Longrightarrow> 0 < k \<Longrightarrow> length (dec_string n) \<le> k"
proof (induction k arbitrary: n)
  case (Suc k)
  show ?case
  proof (cases "n < 10")
    case False
    then have "n div 10 < 10 ^ k" "0 < k" using Suc.prems by (auto simp: div_less_iff_less_mult mult.commute intro!: Suc_leI gr0I)
    then show ?thesis using Suc.IH [of "n div 10"] False by (subst dec_string.simps) simp
  qed (subst dec_string.simps, simp)
qed simp

lemma name_try_ok:
  assumes "name_ok base" and "length base \<le> 50" and "i < 10 ^ 7"
  shows "name_ok (name_try base i)"
proof (cases "i = 0")
  case False
  have "length (dec_string i) \<le> 7" using assms(3) by (intro dec_string_length) auto
  moreover have "label_char (last (dec_string i))" using dec_string_digits [of i] by (simp add: list_all_iff)
  moreover have "list_all name_char (dec_string i)" using dec_string_digits [of i] by (auto simp: list_all_iff name_char_def)
  ultimately show ?thesis using assms False by (simp add: name_try_def name_ok_def name_char_def)
qed (simp add: name_try_def assms)

lemma unique_node_name_ok:
  assumes "length names < 10 ^ 7"
  shows "unique_node_name names (sanitize_hostname h) \<notin> set names \<and> name_ok (unique_node_name names (sanitize_hostname h))"
proof -
  obtain k where k: "unique_node_name names (sanitize_hostname h) = name_try (sanitize_hostname h) k"
    "name_try (sanitize_hostname h) k \<notin> set names" "\<forall>j < k. name_try (sanitize_hostname h) j \<in> set names"
    using unique_from_spec [of 0 names "sanitize_hostname h"] by (auto simp: unique_node_name_def)
  have "k < 10 ^ 7" using tries_bound [OF k(3)] assms by simp
  then show ?thesis using k name_try_ok sanitize_hostname_ok by auto
qed

lemma id_step: "\<not> max_id \<le> i \<Longrightarrow> j \<le> i \<Longrightarrow> j < i + 1" for i :: u64
proof -
  assume "\<not> max_id \<le> i" and "j \<le> i"
  then have "unat i < 0x7fffffffffffffff" and "unat j \<le> unat i" by (simp_all add: max_id_def word_less_nat_alt word_le_nat_alt)
  then show ?thesis by (simp add: word_less_nat_alt unat_word_ariths)
qed

lemma ipv6_for_inj:
  assumes "host_addr a" and "host_addr b" and "ipv6_for (Prefix (IPv6 x []) 48) a = ipv6_for (Prefix (IPv6 x []) 48) b"
  shows "a = b"
proof -
  obtain y z where [simp]: "a = IPv4 y" "b = IPv4 z" using assms by (auto simp: host_addr_def)
  let ?p = "take 12 (nat_be 16 (unat x))"
  have len: "length (?p @ nat_be 4 v) = 16" for v by simp
  have read: "nat_be 16 (unat (of_nat (be_nat bs) :: 128 word)) = bs" if l: "length bs = 16" for bs
    using be_nat_less [of bs] nat_be_be_nat [of bs] by (simp add: l unat_of_nat)
  have "(of_nat (be_nat (?p @ nat_be 4 (unat y))) :: 128 word) = of_nat (be_nat (?p @ nat_be 4 (unat z)))"
    using assms(3) by (simp add: ipv6_for_def addr_from16_def)
  then have "?p @ nat_be 4 (unat y) = ?p @ nat_be 4 (unat z)" using len read by metis
  then have "be_nat (nat_be 4 (unat y)) = be_nat (nat_be 4 (unat z))" by simp
  moreover have "unat w mod 256 ^ 4 = unat w" for w :: u32 using unat_bound [of w] by simp
  ultimately show ?thesis unfolding be_nat_nat_be by simp
qed

text \<open>A new row.\<close>

lemma insert_node_inv:
  assumes inv: "store_inv db" and ins: "insert_node sha now rnd pfx6 uid user pre eph p db = Inr (n, token, db')"
    and u: "uid \<in> us_id ` set (db_users db)" and p6: "db_ipv6 db = Some pfx6"
  shows "store_inv db'"
proof -
  obtain x where x: "pfx6 = Prefix (IPv6 x []) 48" and rows: "rows_ok pfx6 (db_next_node db) (us_id ` set (db_users db)) (db_nodes db)"
    using inv p6 by (auto simp: store_inv_def)
  obtain v4 where v4: "allocate_ipv4 db = Some v4"
    and n: "n = new_row now (db_next_node db) uid (unique_node_name (map nr_name (db_nodes db)) (sanitize_hostname (rp_hostname p)))
       v4 (ipv6_for pfx6 v4) (sha (''wsnode-'' @ rnd)) eph pre p"
    and fresh: "\<not> list_ex (clashes n) (db_nodes db)" and room: "\<not> max_id \<le> db_next_node db"
    and db': "db' = db\<lparr>db_nodes := db_nodes db @ [n], db_next_node := db_next_node db + 1\<rparr>"
    using ins by (auto simp: insert_node_def Let_def split: if_splits option.splits)
  have host: "host_addr v4" using allocate_ipv4_spec [of db] by (simp add: v4)
  have name: "name_ok (nr_name n)" using unique_node_name_ok rows_ok_count [OF rows] by (simp add: n new_row_def)
  have ids: "nr_id m < db_next_node db" if "m \<in> set (db_nodes db)" for m using rows that by (auto simp: rows_ok_def list_all_iff row_ok_def)
  have "rows_ok pfx6 (db_next_node db + 1) (us_id ` set (db_users db)) (db_nodes db @ [n])"
    unfolding rows_ok_def
  proof (intro conjI)
    show "sorted_wrt (<) (map nr_id (db_nodes db @ [n]))"
      using rows ids by (auto simp: rows_ok_def sorted_wrt_append n new_row_def)
    show "list_all (row_ok pfx6 (db_next_node db + 1) (us_id ` set (db_users db))) (db_nodes db @ [n])"
      using rows ids id_step [OF room] name host u
      by (auto simp: rows_ok_def list_all_iff row_ok_def n new_row_def order.strict_implies_order)
  qed (use rows fresh in \<open>auto simp: rows_ok_def clashes_def list_ex_iff\<close>)
  moreover have "routes_ok (nr_id ` set (db_nodes db @ [n])) (db_routes db)" "exposures_ok (nr_id ` set (db_nodes db @ [n])) (db_exposures db)"
    using inv by (auto simp: store_inv_def routes_ok_def exposures_ok_def list_all_iff)
  ultimately show ?thesis using inv p6 x by (auto simp: store_inv_def db')
qed

section \<open>Every operation keeps it\<close>

lemma register_node_cases:
  assumes reg: "register_node sha now rnd6 rnd p db = Inr (n, token, db')" and p6: "db_ipv6 db = Some p6"
  obtains k u db1 where "find (\<lambda>k. pk_hash k = sha (rp_auth_key p)) (db_keys db) = Some k"
    and "find (\<lambda>u. us_id u = pk_user k) (db_users db) = Some u" and "unix now < pk_expires k" and "pk_used k \<Longrightarrow> pk_reusable k"
    and "insert_node sha now rnd p6 (us_id u) (us_name u) (Some (pk_id k)) (pk_ephemeral k) p db = Inr (n, token, db1)"
    and "db' = db1\<lparr>db_keys := map (\<lambda>k'. if pk_id k' = pk_id k then k'\<lparr>pk_used := True\<rparr> else k') (db_keys db1)\<rparr>"
proof -
  obtain k where k: "find (\<lambda>k. pk_hash k = sha (rp_auth_key p)) (db_keys db) = Some k"
    using reg p6 by (auto simp: register_node_def ipv6_prefix_def split: option.splits)
  obtain u where u: "find (\<lambda>u. us_id u = pk_user k) (db_users db) = Some u"
    using reg p6 k by (auto simp: register_node_def ipv6_prefix_def split: option.splits)
  have ok: "unix now < pk_expires k" "pk_used k \<Longrightarrow> pk_reusable k"
    using reg p6 k u by (auto simp: register_node_def ipv6_prefix_def split: if_splits)
  obtain n' t' db1 where ins: "insert_node sha now rnd p6 (us_id u) (us_name u) (Some (pk_id k)) (pk_ephemeral k) p db = Inr (n', t', db1)"
    using reg p6 k u by (auto simp: register_node_def ipv6_prefix_def split: if_splits sum.splits)
  show thesis using that [OF k u ok] reg p6 k u ins by (auto simp: register_node_def ipv6_prefix_def split: if_splits)
qed

lemma register_node_inv:
  assumes inv: "store_inv db" and reg: "register_node sha now rnd6 rnd p db = Inr (n, token, db')"
  shows "store_inv db'"
proof -
  obtain x where x: "db_ipv6 db = Some (Prefix (IPv6 x []) 48)" using inv by (auto simp: store_inv_def)
  show ?thesis
  proof (rule register_node_cases [OF reg x])
    fix k u db1
    assume u: "find (\<lambda>u. us_id u = pk_user k) (db_users db) = Some u"
      and ins: "insert_node sha now rnd (Prefix (IPv6 x []) 48) (us_id u) (us_name u) (Some (pk_id k)) (pk_ephemeral k) p db = Inr (n, token, db1)"
      and db': "db' = db1\<lparr>db_keys := map (\<lambda>k'. if pk_id k' = pk_id k then k'\<lparr>pk_used := True\<rparr> else k') (db_keys db1)\<rparr>"
  have "us_id u \<in> us_id ` set (db_users db)" using u by (auto simp: find_Some_iff)
  then have inv1: "store_inv db1" using insert_node_inv [OF inv ins] x by simp
  have eq: "map pk_id (map (\<lambda>k'. if pk_id k' = pk_id k then k'\<lparr>pk_used := True\<rparr> else k') ks) = map pk_id ks"
    "map pk_hash (map (\<lambda>k'. if pk_id k' = pk_id k then k'\<lparr>pk_used := True\<rparr> else k') ks) = map pk_hash ks" for ks
    by simp_all
  have "preauth_ok nxt us ks \<Longrightarrow> preauth_ok nxt us (map (\<lambda>k'. if pk_id k' = pk_id k then k'\<lparr>pk_used := True\<rparr> else k') ks)" for nxt us ks
    unfolding preauth_ok_def eq by (auto simp: list_all_iff)
  then show ?thesis using inv1 by (auto simp: store_inv_def db')
  qed
qed

lemma register_node_for_user_inv:
  assumes inv: "store_inv db" and reg: "register_node_for_user sha now rnd6 rnd uid p db = Inr (n, token, db')"
  shows "store_inv db'"
proof -
  obtain x where x: "db_ipv6 db = Some (Prefix (IPv6 x []) 48)" using inv by (auto simp: store_inv_def)
  obtain u where u: "find (\<lambda>u. us_id u = uid) (db_users db) = Some u"
    and ins: "insert_node sha now rnd (Prefix (IPv6 x []) 48) uid (us_name u) None False p db = Inr (n, token, db')"
    using reg x by (auto simp: register_node_for_user_def ipv6_prefix_def Let_def split: option.splits)
  have "uid \<in> us_id ` set (db_users db)" using u by (auto simp: find_Some_iff)
  then show ?thesis using insert_node_inv [OF inv ins] x by simp
qed

lemma insert_user_inv:
  assumes "store_inv db" and "insert_user name email subject db = Inr (i, db')"
  shows "store_inv db'"
proof -
  have room: "\<not> max_id \<le> db_next_user db" and new: "\<forall>u \<in> set (db_users db). us_name u \<noteq> name"
    and db': "db' = db\<lparr>db_users := db_users db @ [\<lparr>us_id = db_next_user db, us_name = name, us_email = email, us_subject = subject\<rparr>],
       db_next_user := db_next_user db + 1\<rparr>"
    using assms(2) by (auto simp: insert_user_def list_ex_iff split: if_splits)
  have old: "us_id u < db_next_user db" if "u \<in> set (db_users db)" for u
    using assms(1) that by (auto simp: store_inv_def users_ok_def list_all_iff)
  then have "users_ok (db_next_user db + 1) (db_users db @ [\<lparr>us_id = db_next_user db, us_name = name, us_email = email, us_subject = subject\<rparr>])"
    using assms(1) new id_step [OF room] by (force simp: store_inv_def users_ok_def list_all_iff order.strict_implies_order)
  then show ?thesis using assms(1) unfolding store_inv_def db'
    by (auto simp: preauth_ok_def list_all_iff intro: rows_ok_users [where us = "us_id ` set (db_users db)"] simp: rows_ok_def row_ok_def)
qed

lemma create_user_inv: "store_inv db \<Longrightarrow> create_user name db = Inr (i, db') \<Longrightarrow> store_inv db'"
  by (auto simp: create_user_def split: if_splits intro: insert_user_inv)

lemma oidc_loop_inv: "store_inv db \<Longrightarrow> oidc_loop fuel i base email subject db = Inr (j, db') \<Longrightarrow> store_inv db'"
  by (induction fuel i base email subject db rule: oidc_loop.induct) (auto split: sum.splits if_splits intro: insert_user_inv)

lemma user_for_oidc_inv:
  assumes "store_inv db" and "user_for_oidc subject email db = Inr (i, db')"
  shows "store_inv db'"
proof (cases "find (\<lambda>u. us_subject u = Some subject) (db_users db)")
  case None
  then show ?thesis using assms oidc_loop_inv by (fastforce simp: user_for_oidc_def Let_def split: if_splits)
next
  case (Some u)
  define f :: "user_row \<Rightarrow> user_row" where "f = (\<lambda>v. if us_id v = us_id u then v\<lparr>us_email := email\<rparr> else v)"
  have keep: "us_id (f v) = us_id v" "us_name (f v) = us_name v" for v by (simp_all add: f_def)
  have db': "db' = db\<lparr>db_users := map f (db_users db)\<rparr>" using assms Some by (auto simp: user_for_oidc_def f_def)
  show ?thesis using assms(1) unfolding store_inv_def db' by (simp add: users_ok_def list_all_iff image_image comp_def keep)
qed

lemma delete_user_inv:
  assumes "store_inv db" and "delete_user name db = Inr db'"
  shows "store_inv db'"
proof -
  obtain uid where none: "\<forall>n \<in> set (db_nodes db). nr_user n \<noteq> uid"
    and db': "db' = db\<lparr>db_users := filter (\<lambda>u. us_id u \<noteq> uid) (db_users db), db_keys := filter (\<lambda>k. pk_user k \<noteq> uid) (db_keys db)\<rparr>"
    using assms(2) by (auto simp: delete_user_def list_ex_iff split: option.splits if_splits)
  have rows: "rows_ok p6 nxt (us_id ` {u \<in> set (db_users db). us_id u \<noteq> uid}) (db_nodes db)"
    if "rows_ok p6 nxt (us_id ` set (db_users db)) (db_nodes db)" for p6 nxt
    using that none by (intro rows_ok_users [OF that]) (auto simp: rows_ok_def list_all_iff row_ok_def)
  show ?thesis using assms(1) rows unfolding store_inv_def db'
    by (auto simp: users_ok_def preauth_ok_def list_all_iff distinct_map_filter image_iff)
qed

lemma create_preauth_key_inv:
  assumes "store_inv db" and "create_preauth_key sha now pre secret user reusable eph ttl db = Inr (plain, db')"
  shows "store_inv db'"
proof -
  obtain uid where uid: "user_id user db = Some uid" using assms(2) by (auto simp: create_preauth_key_def split: option.splits)
  define k where "k = \<lparr>pk_id = db_next_key db, pk_user = uid, pk_prefix = pre, pk_hash = sha (''wskey-'' @ pre @ ''-'' @ secret),
     pk_reusable = reusable, pk_ephemeral = eph, pk_used = False, pk_expires = unix (now + ttl)\<rparr>"
  have k: "pk_id k = db_next_key db" "pk_user k = uid" by (simp_all add: k_def)
  have room: "\<not> max_id \<le> db_next_key db" and new: "\<forall>k' \<in> set (db_keys db). pk_hash k' \<noteq> pk_hash k"
    and db': "db' = db\<lparr>db_keys := db_keys db @ [k], db_next_key := db_next_key db + 1\<rparr>"
    using assms(2) uid by (auto simp: create_preauth_key_def k_def list_ex_iff Let_def split: if_splits)
  have "uid \<in> us_id ` set (db_users db)" using uid by (auto simp: user_id_def find_Some_iff)
  moreover have "pk_id k' < db_next_key db" if "k' \<in> set (db_keys db)" for k'
    using assms(1) that by (auto simp: store_inv_def preauth_ok_def list_all_iff)
  ultimately have "preauth_ok (db_next_key db + 1) (us_id ` set (db_users db)) (db_keys db @ [k])"
    using assms(1) new id_step [OF room] k by (force simp: store_inv_def preauth_ok_def list_all_iff order.strict_implies_order)
  then show ?thesis using assms(1) by (auto simp: store_inv_def db')
qed

lemma expire_preauth_key_inv:
  assumes "store_inv db" and "expire_preauth_key now pre db = Inr db'"
  shows "store_inv db'"
proof -
  let ?f = "\<lambda>k. if pk_prefix k = pre then k\<lparr>pk_expires := unix now\<rparr> else k"
  have eq: "map pk_id (map ?f ks) = map pk_id ks" "map pk_hash (map ?f ks) = map pk_hash ks" for ks by simp_all
  have "preauth_ok nxt us ks \<Longrightarrow> preauth_ok nxt us (map ?f ks)" for nxt us ks
    unfolding preauth_ok_def eq by (auto simp: list_all_iff)
  then show ?thesis using assms by (auto simp: expire_preauth_key_def store_inv_def split: if_splits)
qed

definition keeps_core :: "(node_row \<Rightarrow> node_row) \<Rightarrow> bool" where
  "keeps_core f \<longleftrightarrow> (\<forall>n. nr_id (f n) = nr_id n \<and> nr_name (f n) = nr_name n \<and> nr_machine_key (f n) = nr_machine_key n \<and>
      nr_ipv4 (f n) = nr_ipv4 n \<and> nr_ipv6 (f n) = nr_ipv6 n \<and> nr_token_hash (f n) = nr_token_hash n \<and> nr_user (f n) = nr_user n)"

lemma update_row_inv:
  assumes "store_inv db" and "keeps_core f"
  shows "store_inv (update_row i f db)"
proof -
  define g where "g = (\<lambda>n. if nr_id n = i then f n else n)"
  have "nr_id (g n) = nr_id n" for n using assms(2) by (simp add: g_def keeps_core_def)
  then have ids: "nr_id ` g ` S = nr_id ` S" for S by (simp add: image_image)
  have up: "update_row i f db = db\<lparr>db_nodes := map g (db_nodes db)\<rparr>" by (simp add: update_row_def g_def)
  have rows: "rows_ok p6 nxt us (map g ns)" if "rows_ok p6 nxt us ns" for p6 nxt us ns
    using that assms(2) by (intro rows_ok_map) (auto simp: g_def keeps_core_def)
  show ?thesis using assms(1) rows unfolding store_inv_def up by (auto simp: ids)
qed

lemma node_where_inv: "store_inv db \<Longrightarrow> node_where now cond db = Inr (n, db') \<Longrightarrow> store_inv db'"
  by (auto simp: node_where_def Let_def keeps_core_def split: option.splits intro!: update_row_inv)

lemma mark_signed_auth_inv: "store_inv db \<Longrightarrow> store_inv (mark_signed_auth i db)"
  by (auto simp: mark_signed_auth_def keeps_core_def intro!: update_row_inv)

lemma set_relay_offered_inv: "store_inv db \<Longrightarrow> store_inv (snd (set_relay_offered i b db))"
  by (auto simp: set_relay_offered_def keeps_core_def intro!: update_row_inv)

lemma set_relay_approved_inv: "store_inv db \<Longrightarrow> set_relay_approved i b db = Inr db' \<Longrightarrow> store_inv db'"
  by (auto simp: set_relay_approved_def keeps_core_def split: if_splits intro!: update_row_inv)

lemma inv_ids: "store_inv db \<Longrightarrow> distinct (map nr_id (db_nodes db))"
  by (auto simp: store_inv_def rows_ok_def strict_sorted_iff)

lemma write_node_info_inv: "store_inv db \<Longrightarrow> store_inv (snd (write_node_info now i info db))"
  by (auto simp: write_node_info_def keeps_core_def info_row_def intro!: update_row_inv)

lemma delete_node_inv:
  assumes "store_inv db" and "delete_node i db = Inr db'"
  shows "store_inv db'"
proof -
  have db': "db' = db\<lparr>db_nodes := filter (\<lambda>n. nr_id n \<noteq> i) (db_nodes db), db_routes := filter (\<lambda>r. rt_node r \<noteq> i) (db_routes db),
      db_exposures := filter (\<lambda>e. ex_node e \<noteq> i) (db_exposures db), db_access := filter (\<lambda>a. aq_node a \<noteq> i) (db_access db)\<rparr>"
    using assms(2) by (auto simp: delete_node_def split: if_splits)
  show ?thesis using assms(1) unfolding store_inv_def db'
    by (auto simp: rows_ok_filter routes_ok_def exposures_ok_def list_all_iff distinct_map_filter image_iff)
qed

lemma routes_ok_map: "routes_ok ids rs \<Longrightarrow> (\<And>r. rt_node (f r) = rt_node r \<and> rt_prefix (f r) = rt_prefix r) \<Longrightarrow> routes_ok ids (map f rs)"
  by (simp add: routes_ok_def list_all_iff comp_def)

lemma put_route_ok: "routes_ok ids rs \<Longrightarrow> i \<in> ids \<Longrightarrow> routes_ok ids (put_route i p rs)"
  by (auto simp: put_route_def list_ex_iff split: if_splits intro!: routes_ok_map) (auto simp: routes_ok_def list_all_iff)

lemma put_routes_ok: "routes_ok ids rs \<Longrightarrow> i \<in> ids \<Longrightarrow> routes_ok ids (fold (put_route i) ps rs)"
  by (induction ps arbitrary: rs) (auto intro: put_route_ok)

lemma set_advertised_routes_inv:
  assumes "store_inv db" and "set_advertised_routes i ps db = Inr (ch, db')"
  shows "store_inv db'"
proof (cases "db' = db")
  case False
  let ?w = "map (\<lambda>r. if rt_node r = i then r\<lparr>rt_advertised := False\<rparr> else r) (db_routes db)"
  have db': "db' = db\<lparr>db_routes := fold (put_route i) (remdups (map masked ps)) ?w\<rparr>"
    and ex: "remdups (map masked ps) = [] \<or> i \<in> nr_id ` set (db_nodes db)"
    using assms(2) False by (auto simp: set_advertised_routes_def node_exists_def list_ex_iff Let_def split: if_splits)
  have "routes_ok (nr_id ` set (db_nodes db)) ?w" using assms(1) by (intro routes_ok_map) (auto simp: store_inv_def)
  then have "routes_ok (nr_id ` set (db_nodes db)) (fold (put_route i) (remdups (map masked ps)) ?w)"
    using ex put_routes_ok by fastforce
  then show ?thesis using assms(1) by (auto simp: store_inv_def db')
qed (use assms in simp)

lemma set_route_approved_inv:
  assumes "store_inv db" and "set_route_approved i p b db = Inr db'"
  shows "store_inv db'"
  using assms by (auto simp: store_inv_def set_route_approved_def split: if_splits intro!: routes_ok_map)

abbreviation ex_key :: "exposure_row \<Rightarrow> u64 \<times> string" where
  "ex_key e \<equiv> (ex_node e, ex_name e)"

lemma expose_keys:
  assumes "distinct (map ex_name (xs_rows st))"
  shows "\<exists>new. map ex_key (xs_rows (expose i was r st)) = map ex_key (xs_rows st) @ new \<and> (\<forall>k \<in> set new. fst k = i) \<and>
    distinct (map ex_name (xs_rows (expose i was r st)))"
proof -
  obtain name port where r: "r = (name, port)" by force
  show ?thesis
  proof (cases "\<not> name_ok name \<or> port = 0 \<or> name \<in> set (xs_wanted st)")
    case True
    then show ?thesis using assms by (auto simp: expose_def r)
  next
    case False
    show ?thesis
    proof (cases "find (\<lambda>e. ex_name e = name) was")
      case None
      then show ?thesis using False assms by (auto simp: expose_def r Let_def list_ex_iff)
    next
      case (Some old)
      define f :: "exposure_row \<Rightarrow> exposure_row" where "f = (\<lambda>e. if ex_node e = i \<and> ex_name e = name
           then (if ex_port old = port then e\<lparr>ex_advertised := True\<rparr>
                 else e\<lparr>ex_advertised := True, ex_port := port, ex_approved := False\<rparr>) else e)"
      have "ex_node (f e) = ex_node e" "ex_name (f e) = ex_name e" for e by (simp_all add: f_def)
      moreover have "xs_rows (expose i was r st) = map f (xs_rows st)"
        using False Some by (simp add: expose_def r Let_def f_def)
      ultimately show ?thesis using assms by (simp add: comp_def)
    qed
  qed
qed

lemma exposes_keys:
  assumes "distinct (map ex_name (xs_rows st))"
  shows "\<exists>new. map ex_key (xs_rows (fold (expose i was) rs st)) = map ex_key (xs_rows st) @ new \<and> (\<forall>k \<in> set new. fst k = i) \<and>
    distinct (map ex_name (xs_rows (fold (expose i was) rs st)))"
  using assms
proof (induction rs arbitrary: st)
  case (Cons r rs)
  obtain a where a: "map ex_key (xs_rows (expose i was r st)) = map ex_key (xs_rows st) @ a" "\<forall>k \<in> set a. fst k = i"
    "distinct (map ex_name (xs_rows (expose i was r st)))" using expose_keys [OF Cons.prems] by blast
  obtain b where b: "map ex_key (xs_rows (fold (expose i was) rs (expose i was r st))) = map ex_key (xs_rows (expose i was r st)) @ b"
    "\<forall>k \<in> set b. fst k = i" "distinct (map ex_name (xs_rows (fold (expose i was) rs (expose i was r st))))"
    using Cons.IH [OF a(3)] by blast
  show ?case using a b by (intro exI [of _ "a @ b"]) auto
qed simp

lemma set_exposures_inv:
  assumes "store_inv db" and "set_exposures i rs db = Inr (res, db')"
  shows "store_inv db'"
proof -
  define old where "old = map (\<lambda>e. if ex_node e = i then e\<lparr>ex_advertised := False\<rparr> else e) (db_exposures db)"
  let ?st = "fold (expose i (filter (\<lambda>e. ex_node e = i) (db_exposures db))) rs \<lparr>xs_rows = old, xs_wanted = [], xs_changed = False, xs_taken = []\<rparr>"
  have keys: "map ex_key old = map ex_key (db_exposures db)" and names: "map ex_name old = map ex_name (db_exposures db)"
    by (simp_all add: old_def comp_def)
  have ok: "exposures_ok (nr_id ` set (db_nodes db)) (db_exposures db)" using assms(1) by (simp add: store_inv_def)
  obtain new where new: "map ex_key (xs_rows ?st) = map ex_key (db_exposures db) @ new" "\<forall>k \<in> set new. fst k = i"
    "distinct (map ex_name (xs_rows ?st))"
    using exposes_keys [of "\<lparr>xs_rows = old, xs_wanted = [], xs_changed = False, xs_taken = []\<rparr>" i
        "filter (\<lambda>e. ex_node e = i) (db_exposures db)" rs] ok names keys
    by (auto simp: exposures_ok_def)
  have db': "db' = db\<lparr>db_exposures := xs_rows ?st\<rparr>"
    and room: "length (db_exposures db) < length (xs_rows ?st) \<longrightarrow> i \<in> nr_id ` set (db_nodes db)"
    using assms(2) by (auto simp: set_exposures_def old_def Let_def node_exists_def list_ex_iff split: if_splits)
  have "ex_node e \<in> nr_id ` set (db_nodes db)" if e: "e \<in> set (xs_rows ?st)" for e
  proof -
    have "ex_key e \<in> set (map ex_key (xs_rows ?st))" using e by auto
    then consider "ex_key e \<in> set (map ex_key (db_exposures db))" | "ex_key e \<in> set new" unfolding new(1) by auto
    then show ?thesis
    proof cases
      case 1
      then show ?thesis using ok by (auto simp: exposures_ok_def list_all_iff)
    next
      case 2
      then have "length (map ex_key (db_exposures db)) < length (map ex_key (xs_rows ?st))" unfolding new(1) by (cases new) auto
      then show ?thesis using 2 new(2) room by auto
    qed
  qed
  then have "exposures_ok (nr_id ` set (db_nodes db)) (xs_rows ?st)" using new(3) by (auto simp: exposures_ok_def list_all_iff)
  then show ?thesis using assms(1) by (auto simp: store_inv_def db')
qed

lemma set_exposure_approved_inv:
  assumes "store_inv db" and "set_exposure_approved i name b db = Inr db'"
  shows "store_inv db'"
proof -
  define f :: "exposure_row \<Rightarrow> exposure_row" where "f = (\<lambda>e. if ex_node e = i \<and> ex_name e = name then e\<lparr>ex_approved := b\<rparr> else e)"
  have "ex_node (f e) = ex_node e" "ex_name (f e) = ex_name e" for e by (simp_all add: f_def)
  moreover have "db' = db\<lparr>db_exposures := map f (db_exposures db)\<rparr>"
    using assms(2) by (auto simp: set_exposure_approved_def f_def split: if_splits)
  ultimately show ?thesis using assms(1) by (simp add: store_inv_def exposures_ok_def list_all_iff comp_def)
qed

section \<open>Reachable databases\<close>

definition open_db :: "bytes \<Rightarrow> store_db" where
  "open_db rnd = snd (ipv6_prefix rnd empty_db)"

inductive store_step :: "sha_fn \<Rightarrow> store_db \<Rightarrow> store_db \<Rightarrow> bool" for sha where
  step_create_user: "create_user name db = Inr (i, db') \<Longrightarrow> store_step sha db db'"
| step_oidc: "user_for_oidc subject email db = Inr (i, db') \<Longrightarrow> store_step sha db db'"
| step_delete_user: "delete_user name db = Inr db' \<Longrightarrow> store_step sha db db'"
| step_create_key: "create_preauth_key sha now pre secret user reusable eph ttl db = Inr (plain, db') \<Longrightarrow> store_step sha db db'"
| step_expire_key: "expire_preauth_key now pre db = Inr db' \<Longrightarrow> store_step sha db db'"
| step_register: "register_node sha now rnd6 rnd p db = Inr (n, token, db') \<Longrightarrow> store_step sha db db'"
| step_register_user: "register_node_for_user sha now rnd6 rnd uid p db = Inr (n, token, db') \<Longrightarrow> store_step sha db db'"
| step_seen: "node_where now cond db = Inr (sn, db') \<Longrightarrow> store_step sha db db'"
| step_signed: "store_step sha db (mark_signed_auth i db)"
| step_info: "store_step sha db (snd (write_node_info now i info db))"
| step_delete: "delete_node i db = Inr db' \<Longrightarrow> store_step sha db db'"
| step_routes: "set_advertised_routes i ps db = Inr (ch, db') \<Longrightarrow> store_step sha db db'"
| step_approve_route: "set_route_approved i p b db = Inr db' \<Longrightarrow> store_step sha db db'"
| step_offer: "store_step sha db (snd (set_relay_offered i b db))"
| step_approve_relay: "set_relay_approved i b db = Inr db' \<Longrightarrow> store_step sha db db'"
| step_expose: "set_exposures i rs db = Inr (res, db') \<Longrightarrow> store_step sha db db'"
| step_approve_exposure: "set_exposure_approved i name b db = Inr db' \<Longrightarrow> store_step sha db db'"

lemma step_update_info: "update_node_info now i info db = Inr (ch, db') \<Longrightarrow> store_step sha db db'"
  using step_info [of sha db now i info] by (auto simp: update_node_info_def split: if_splits)

inductive_cases store_stepE: "store_step sha db db'"

definition store_reaches :: "sha_fn \<Rightarrow> store_db \<Rightarrow> store_db \<Rightarrow> bool" where
  "store_reaches sha = (store_step sha)\<^sup>*\<^sup>*"

lemma store_step_inv: "store_step sha db db' \<Longrightarrow> store_inv db \<Longrightarrow> store_inv db'"
proof (induction rule: store_step.induct)
qed (blast intro: create_user_inv user_for_oidc_inv delete_user_inv create_preauth_key_inv expire_preauth_key_inv register_node_inv
      register_node_for_user_inv node_where_inv mark_signed_auth_inv write_node_info_inv delete_node_inv set_advertised_routes_inv
      set_route_approved_inv set_relay_offered_inv set_relay_approved_inv set_exposures_inv set_exposure_approved_inv)+

lemma open_db_inv: "store_inv (open_db rnd)"
proof -
  have "\<exists>x. prefix_from (addr_from16 (0xfd # take 5 rnd @ replicate 10 0)) 48 = Prefix (IPv6 x []) 48"
    by (simp add: prefix_from_def addr_from16_def)
  then show ?thesis
    by (auto simp: open_db_def ipv6_prefix_def empty_db_def store_inv_def rows_ok_def users_ok_def preauth_ok_def
        routes_ok_def exposures_ok_def Let_def)
qed

lemma store_reaches_inv: "store_reaches sha db db' \<Longrightarrow> store_inv db \<Longrightarrow> store_inv db'"
  unfolding store_reaches_def by (induction rule: rtranclp_induct) (auto intro: store_step_inv)

section \<open>Keys that are used up\<close>

definition spent :: "u64 \<Rightarrow> store_db \<Rightarrow> bool" where
  "spent i db \<longleftrightarrow> i < db_next_key db \<and> (\<forall>k \<in> set (db_keys db). pk_id k = i \<longrightarrow> pk_used k \<and> \<not> pk_reusable k)"

lemma spent_frame: "db_keys db' = db_keys db \<Longrightarrow> db_next_key db' = db_next_key db \<Longrightarrow> spent i db \<Longrightarrow> spent i db'"
  by (simp add: spent_def)

lemma insert_user_keys: "insert_user name email subject db = Inr (i, db') \<Longrightarrow> db_keys db' = db_keys db \<and> db_next_key db' = db_next_key db"
  by (auto simp: insert_user_def split: if_splits)

lemma oidc_loop_keys: "oidc_loop fuel i base email subject db = Inr (j, db') \<Longrightarrow> db_keys db' = db_keys db \<and> db_next_key db' = db_next_key db"
  by (induction fuel i base email subject db rule: oidc_loop.induct) (auto split: sum.splits if_splits dest: insert_user_keys)

lemma user_for_oidc_keys: "user_for_oidc subject email db = Inr (i, db') \<Longrightarrow> db_keys db' = db_keys db \<and> db_next_key db' = db_next_key db"
  by (auto simp: user_for_oidc_def Let_def split: option.splits if_splits dest: oidc_loop_keys)

lemma insert_node_keys: "insert_node sha now rnd p6 uid user pre eph p db = Inr (n, t, db') \<Longrightarrow>
    db_keys db' = db_keys db \<and> db_next_key db' = db_next_key db \<and> nr_preauth n = pre"
  by (auto simp: insert_node_def Let_def new_row_def split: option.splits if_splits)

lemma update_row_frame [simp]: "db_keys (update_row i f db) = db_keys db" "db_next_key (update_row i f db) = db_next_key db"
  by (simp_all add: update_row_def)

lemma spent_create_key:
  assumes "spent i db" and "create_preauth_key sha now pre secret user reusable eph ttl db = Inr (plain, db')"
  shows "spent i db'"
proof -
  have room: "\<not> max_id \<le> db_next_key db" using assms(2) by (auto simp: create_preauth_key_def Let_def split: option.splits if_splits)
  have "i < db_next_key db + 1" using assms(1) id_step [OF room, of i] by (simp add: spent_def less_imp_le)
  then show ?thesis using assms by (auto simp: spent_def create_preauth_key_def Let_def split: option.splits if_splits)
qed

lemma spent_register:
  assumes "spent i db" and reg: "register_node sha now rnd6 rnd p db = Inr (n, t, db')" and p6: "db_ipv6 db = Some p6"
  shows "spent i db'"
proof (rule register_node_cases [OF reg p6])
  fix k u db1
  assume "insert_node sha now rnd p6 (us_id u) (us_name u) (Some (pk_id k)) (pk_ephemeral k) p db = Inr (n, t, db1)"
    and "db' = db1\<lparr>db_keys := map (\<lambda>k'. if pk_id k' = pk_id k then k'\<lparr>pk_used := True\<rparr> else k') (db_keys db1)\<rparr>"
  then show "spent i db'" using assms(1) by (auto simp: spent_def dest!: insert_node_keys)
qed

lemma spent_step:
  assumes "store_step sha db db'" and "store_inv db" and "spent i db"
  shows "spent i db'"
proof -
  obtain p6 where p6: "db_ipv6 db = Some p6" using assms(2) by (auto simp: store_inv_def)
  note s = spent_frame [OF _ _ assms(3)]
  show ?thesis using assms(1)
  proof cases
    case (step_create_user name j)
    then have "insert_user name [] None db = Inr (j, db')" by (simp add: create_user_def split: if_splits)
    from insert_user_keys [OF this] show ?thesis by (simp add: s)
  next
    case step_oidc
    from user_for_oidc_keys [OF this] show ?thesis by (simp add: s)
  next
    case step_delete_user
    then show ?thesis using assms(3) by (auto simp: spent_def delete_user_def split: option.splits if_splits)
  next
    case step_create_key
    with assms(3) show ?thesis by (rule spent_create_key)
  next
    case step_expire_key
    then show ?thesis using assms(3) by (auto simp: spent_def expire_preauth_key_def split: if_splits)
  next
    case step_register
    from spent_register [OF assms(3) this p6] show ?thesis .
  next
    case step_register_user
    then show ?thesis using p6
      by (auto simp: register_node_for_user_def ipv6_prefix_def split: option.splits dest!: insert_node_keys intro!: s)
  qed (auto simp: node_where_def mark_signed_auth_def write_node_info_def delete_node_def set_advertised_routes_def set_route_approved_def
      set_relay_offered_def set_relay_approved_def set_exposures_def set_exposure_approved_def Let_def
      split: option.splits if_splits intro!: s)
qed

lemma spent_reaches:
  assumes "store_reaches sha db db'" and "store_inv db" and "spent i db"
  shows "spent i db' \<and> store_inv db'"
  using assms unfolding store_reaches_def by (induction rule: rtranclp_induct) (auto intro: spent_step store_step_inv)

section \<open>Properties\<close>

text \<open>Claim C8 (invariant): whatever sequence of operations led to a database, its machines have distinct
  identifiers, distinct names that are DNS labels, distinct machine keys and distinct token hashes (so no token
  is two machines'), each has its own IPv4 address out of the pool (never the network, broadcast or
  resolver address) and the IPv6 address that embeds it, and each belongs to a user that exists.  Node keys
  are not among them: \<open>node_key_race\<close>.\<close>

theorem store_machines_distinct:
  assumes "store_reaches sha (open_db rnd) db"
  shows "sorted_wrt (<) (map nr_id (db_nodes db)) \<and> distinct (map nr_name (db_nodes db)) \<and>
    distinct (map nr_machine_key (db_nodes db)) \<and> distinct (map nr_token_hash (db_nodes db)) \<and>
    distinct (map nr_ipv4 (db_nodes db)) \<and> distinct (map nr_ipv6 (db_nodes db)) \<and>
    (\<forall>n \<in> set (db_nodes db). name_ok (nr_name n) \<and> host_addr (nr_ipv4 n) \<and>
       nr_user n \<in> us_id ` set (db_users db) \<and> (\<exists>p6. db_ipv6 db = Some p6 \<and> nr_ipv6 n = ipv6_for p6 (nr_ipv4 n)))"
proof -
  have inv: "store_inv db" using store_reaches_inv [OF assms open_db_inv] .
  then obtain x where x: "db_ipv6 db = Some (Prefix (IPv6 x []) 48)"
    and rows: "rows_ok (Prefix (IPv6 x []) 48) (db_next_node db) (us_id ` set (db_users db)) (db_nodes db)"
    by (auto simp: store_inv_def)
  have six: "nr_ipv6 n = ipv6_for (Prefix (IPv6 x []) 48) (nr_ipv4 n) \<and> host_addr (nr_ipv4 n)" if "n \<in> set (db_nodes db)" for n
    using rows that by (auto simp: rows_ok_def list_all_iff row_ok_def)
  have "inj_on (ipv6_for (Prefix (IPv6 x []) 48)) (nr_ipv4 ` set (db_nodes db))"
    using six ipv6_for_inj unfolding inj_on_def by blast
  then have "distinct (map (ipv6_for (Prefix (IPv6 x []) 48) \<circ> nr_ipv4) (db_nodes db))"
    using rows by (simp add: rows_ok_def distinct_map comp_inj_on)
  also have "map (ipv6_for (Prefix (IPv6 x []) 48) \<circ> nr_ipv4) (db_nodes db) = map nr_ipv6 (db_nodes db)" using six by simp
  finally show ?thesis using rows x by (auto simp: rows_ok_def list_all_iff row_ok_def)
qed

text \<open>Two calls of \<^verbatim>\<open>UpdateNodeInfo\<close> for different machines, each querying before either writes, give both machines
  the same node key: both queries find the key free, and the table has no constraint on it.\<close>

theorem node_key_race:
  assumes "i \<noteq> j" and "\<not> node_key_taken i k db" and "\<not> node_key_taken j k db" and "ni_node_key info = k" and "ni_node_key info' = k"
    and "m \<in> set (db_nodes db)" and "nr_id m = i" and "n \<in> set (db_nodes db)" and "nr_id n = j"
  shows "\<exists>m' n'. {m', n'} \<subseteq> set (db_nodes (snd (write_node_info now j info' (snd (write_node_info now i info db))))) \<and>
    nr_id m' = i \<and> nr_id n' = j \<and> nr_node_key m' = k \<and> nr_node_key n' = k"
proof -
  define f g where "f = (\<lambda>n. if info_row info n \<noteq> n then (info_row info n)\<lparr>nr_last_seen := unix now\<rparr> else n)"
    and "g = (\<lambda>n. if info_row info' n \<noteq> n then (info_row info' n)\<lparr>nr_last_seen := unix now\<rparr> else n)"
  have key: "nr_node_key (info_row info m) = k" "nr_node_key (info_row info' n) = k" using assms(4,5) by (simp_all add: info_row_def)
  have fg: "nr_node_key (f m) = k" "nr_node_key (g n) = k" unfolding f_def g_def using key by (auto split: if_splits)
  have ids: "nr_id (f m) = i" "nr_id (g n) = j" using assms(7,9) by (simp_all add: f_def g_def info_row_def)
  have rows: "db_nodes (snd (write_node_info now j info' (snd (write_node_info now i info db)))) =
      map (\<lambda>n. if nr_id n = j then g n else n) (map (\<lambda>n. if nr_id n = i then f n else n) (db_nodes db))"
    by (simp add: write_node_info_def update_row_def f_def g_def)
  have "f m \<in> set (map (\<lambda>n. if nr_id n = j then g n else n) (map (\<lambda>n. if nr_id n = i then f n else n) (db_nodes db)))"
    using assms(1,6,7) ids(1) by (force simp: image_iff)
  moreover have "g n \<in> set (map (\<lambda>n. if nr_id n = j then g n else n) (map (\<lambda>n. if nr_id n = i then f n else n) (db_nodes db)))"
    using assms(1,8,9) by (force simp: image_iff)
  ultimately show ?thesis using fg ids unfolding rows by blast
qed

text \<open>\<^verbatim>\<open>allocateIPv4\<close> gives the lowest free address of the pool that a machine may have, and
  fails only when every one of them is in use.\<close>

theorem allocate_ipv4_lowest:
  "allocate_ipv4 db = (if Collect host_addr \<subseteq> nr_ipv4 ` set (db_nodes db) then None
     else Some (IPv4 (LEAST x. host_addr (IPv4 x) \<and> IPv4 x \<notin> nr_ipv4 ` set (db_nodes db))))"
proof (cases "allocate_ipv4 db")
  case None
  then show ?thesis using allocate_ipv4_spec [of db] by auto
next
  case (Some b)
  then have b: "host_addr b" "b \<notin> nr_ipv4 ` set (db_nodes db)"
    "\<forall>a. host_addr a \<and> addr_val a < addr_val b \<longrightarrow> a \<in> nr_ipv4 ` set (db_nodes db)"
    using allocate_ipv4_spec [of db] by auto
  obtain z where z: "b = IPv4 z" using b(1) by (auto simp: host_addr_def)
  have "(LEAST x. host_addr (IPv4 x) \<and> IPv4 x \<notin> nr_ipv4 ` set (db_nodes db)) = z"
  proof (rule Least_equality)
    show "host_addr (IPv4 z) \<and> IPv4 z \<notin> nr_ipv4 ` set (db_nodes db)" using b z by simp
  next
    fix y assume "host_addr (IPv4 y) \<and> IPv4 y \<notin> nr_ipv4 ` set (db_nodes db)"
    then have "\<not> addr_val (IPv4 y) < addr_val b" using b(3) by blast
    then show "z \<le> y" by (simp add: z word_le_nat_alt)
  qed
  then show ?thesis using Some b z by auto
qed

text \<open>Claim C23 (safety): a pre-auth key that is not reusable registers one machine, ever.  Once it registered
  one, no registration in any later database uses that key, whatever happened in between.\<close>

theorem preauth_key_once:
  assumes reach: "store_reaches sha (open_db rnd) db"
    and reg: "register_node sha now rnd6 tok p db = Inr (n, token, db1)"
    and key: "nr_preauth n = Some i" and one: "\<forall>k \<in> set (db_keys db). pk_id k = i \<longrightarrow> \<not> pk_reusable k"
    and later: "store_reaches sha db1 db2" and again: "register_node sha now' rnd6' tok' p' db2 = Inr (n', token', db3)"
  shows "nr_preauth n' \<noteq> Some i"
proof -
  have inv: "store_inv db" using store_reaches_inv [OF reach open_db_inv] .
  obtain p6 where p6: "db_ipv6 db = Some p6" using inv by (auto simp: store_inv_def)
  have "spent i db1"
  proof (rule register_node_cases [OF reg p6])
    fix k u db0
    assume f: "find (\<lambda>k. pk_hash k = sha (rp_auth_key p)) (db_keys db) = Some k"
      and "insert_node sha now tok p6 (us_id u) (us_name u) (Some (pk_id k)) (pk_ephemeral k) p db = Inr (n, token, db0)"
      and db1: "db1 = db0\<lparr>db_keys := map (\<lambda>k'. if pk_id k' = pk_id k then k'\<lparr>pk_used := True\<rparr> else k') (db_keys db0)\<rparr>"
    then have eq: "pk_id k = i" "db_keys db0 = db_keys db" "db_next_key db0 = db_next_key db" using key by (auto dest!: insert_node_keys)
    have "k \<in> set (db_keys db)" using f by (auto simp: find_Some_iff)
    then show ?thesis using inv eq one by (auto simp: spent_def db1 store_inv_def preauth_ok_def list_all_iff)
  qed
  then have sp: "spent i db2" and inv2: "store_inv db2"
    using spent_reaches [OF later] register_node_inv [OF inv reg] by auto
  obtain q6 where q6: "db_ipv6 db2 = Some q6" using inv2 by (auto simp: store_inv_def)
  show ?thesis
  proof (rule register_node_cases [OF again q6])
    fix k u db0
    assume f: "find (\<lambda>k. pk_hash k = sha (rp_auth_key p')) (db_keys db2) = Some k" and used: "pk_used k \<Longrightarrow> pk_reusable k"
      and ins: "insert_node sha now' tok' q6 (us_id u) (us_name u) (Some (pk_id k)) (pk_ephemeral k) p' db2 = Inr (n', token', db0)"
    have "k \<in> set (db_keys db2)" using f by (auto simp: find_Some_iff)
    then show ?thesis using insert_node_keys [OF ins] used sp by (auto simp: spent_def)
  qed
qed

text \<open>Claim C34 (termination): the search of \<^verbatim>\<open>uniqueNodeName\<close> ends within one try more than there are names,
  at the first of the names \<open>base\<close>, \<open>base-1\<close>, \<open>base-2\<close>, \<dots> that is free.\<close>

theorem unique_node_name_ends:
  "\<exists>k \<le> length names. unique_node_name names base = name_try base k \<and> name_try base k \<notin> set names \<and>
     list_all (\<lambda>j. name_try base j \<in> set names) [0..<k]"
proof -
  obtain k where k: "unique_node_name names base = name_try base k" "name_try base k \<notin> set names"
    "\<forall>j < k. name_try base j \<in> set names" using unique_from_spec [of 0 names base] by (auto simp: unique_node_name_def)
  then show ?thesis using tries_bound [OF k(3)] by (auto simp: list_all_iff)
qed

text \<open>Claim C35 (type): whatever host name a machine reports, \<^verbatim>\<open>sanitizeHostname\<close> makes a DNS label of at most
  fifty bytes of it.\<close>

theorem sanitize_hostname_label: "name_ok (sanitize_hostname h) \<and> length (sanitize_hostname h) \<le> 50"
  by (rule sanitize_hostname_ok)

text \<open>A registration under a device limit leaves its user with at most that many machines.\<close>

theorem registration_within_limit:
  assumes "insert_node sha now rnd p6 uid user pre eph p db = Inr (n, token, db')" and "rp_limit p = Some f" and "f user = Some limit"
  shows "int (length (filter (\<lambda>m. nr_user m = uid) (db_nodes db'))) \<le> limit \<and> n \<in> set (db_nodes db') \<and> nr_user n = uid"
  using assms by (auto simp: insert_node_def over_limit_def new_row_def Let_def split: if_splits option.splits)

section \<open>Witnesses\<close>

text \<open>Registration succeeds when nothing stands against it.\<close>

lemma insert_node_succeeds:
  assumes inv: "store_inv db" and p6: "db_ipv6 db = Some p6" and mk: "rp_machine_key p \<notin> nr_machine_key ` set (db_nodes db)"
    and lim: "over_limit p user uid db = None" and free: "host_addr a" "a \<notin> nr_ipv4 ` set (db_nodes db)"
    and tok: "sha (''wsnode-'' @ rnd) \<notin> nr_token_hash ` set (db_nodes db)" and room: "db_next_node db < max_id"
  shows "\<exists>n db'. insert_node sha now rnd p6 uid user pre eph p db = Inr (n, ''wsnode-'' @ rnd, db') \<and> nr_preauth n = pre"
proof -
  obtain v4 where v4: "allocate_ipv4 db = Some v4" and host: "host_addr v4" "v4 \<notin> nr_ipv4 ` set (db_nodes db)"
    using allocate_ipv4_spec [of db] free by (auto split: option.splits)
  obtain x where x: "p6 = Prefix (IPv6 x []) 48" and rows: "rows_ok p6 (db_next_node db) (us_id ` set (db_users db)) (db_nodes db)"
    using inv p6 by (auto simp: store_inv_def)
  let ?name = "unique_node_name (map nr_name (db_nodes db)) (sanitize_hostname (rp_hostname p))"
  let ?n = "new_row now (db_next_node db) uid ?name v4 (ipv6_for p6 v4) (sha (''wsnode-'' @ rnd)) eph pre p"
  have name: "?name \<notin> nr_name ` set (db_nodes db)" 
    using unique_node_name_ok [of "map nr_name (db_nodes db)" "rp_hostname p"] rows_ok_count [OF rows] by simp
  have six: "ipv6_for p6 v4 \<noteq> nr_ipv6 m" if "m \<in> set (db_nodes db)" for m
    using rows that ipv6_for_inj [of v4 "nr_ipv4 m" x] host by (auto simp: rows_ok_def list_all_iff row_ok_def x)
  have "\<not> clashes ?n m" if "m \<in> set (db_nodes db)" for m
    using that name six mk tok host(2) by (auto simp: clashes_def new_row_def)
  then have c: "\<not> list_ex (clashes ?n) (db_nodes db)" by (simp add: list_ex_iff)
  have m: "\<not> list_ex (\<lambda>n. nr_machine_key n = rp_machine_key p) (db_nodes db)" using mk by (force simp: list_ex_iff image_iff)
  have "insert_node sha now rnd p6 uid user pre eph p db =
      Inr (?n, ''wsnode-'' @ rnd, db\<lparr>db_nodes := db_nodes db @ [?n], db_next_node := db_next_node db + 1\<rparr>)"
    using c m lim v4 room by (simp add: insert_node_def Let_def)
  then show ?thesis by (auto simp: new_row_def)
qed

definition demo_sha :: sha_fn where
  "demo_sha s = map of_char s"

definition demo_params :: "string \<Rightarrow> string \<Rightarrow> register_params" where
  "demo_params key mk = \<lparr>rp_auth_key = key, rp_machine_key = mk, rp_hostname = ''Laptop'', rp_os = ''linux'', rp_limit = None\<rparr>"

definition demo_db :: store_db where
  "demo_db = (open_db [])\<lparr>db_users := [\<lparr>us_id = 1, us_name = ''ann'', us_email = [], us_subject = None\<rparr>],
     db_next_user := 2, db_next_key := 3,
     db_keys := [\<lparr>pk_id = 1, pk_user = 1, pk_prefix = ''p'', pk_hash = demo_sha ''wskey-p-s'', pk_reusable = False, pk_ephemeral = False,
          pk_used = False, pk_expires = 60\<rparr>,
        \<lparr>pk_id = 2, pk_user = 1, pk_prefix = ''q'', pk_hash = demo_sha ''wskey-q-s'', pk_reusable = False, pk_ephemeral = False,
          pk_used = False, pk_expires = 60\<rparr>]\<rparr>"

lemma demo_reach: "store_reaches demo_sha (open_db []) demo_db"
proof -
  define d1 where "d1 = (open_db [])\<lparr>db_users := [\<lparr>us_id = 1, us_name = ''ann'', us_email = [], us_subject = None\<rparr>], db_next_user := 2\<rparr>"
  define d2 where "d2 = d1\<lparr>db_keys := [\<lparr>pk_id = 1, pk_user = 1, pk_prefix = ''p'', pk_hash = demo_sha ''wskey-p-s'', pk_reusable = False,
     pk_ephemeral = False, pk_used = False, pk_expires = 60\<rparr>], db_next_key := 2\<rparr>"
  have "create_user ''ann'' (open_db []) = Inr (1, d1)"
    by (simp add: create_user_def insert_user_def open_db_def ipv6_prefix_def empty_db_def name_ok_def name_char_def label_char_def
        max_id_def d1_def Let_def word_le_nat_alt)
  then have 1: "store_step demo_sha (open_db []) d1" by (rule step_create_user)
  have "create_preauth_key demo_sha 0 ''p'' ''s'' ''ann'' False False minute d1 = Inr (''wskey-p-s'', d2)"
    by (simp add: create_preauth_key_def user_id_def open_db_def ipv6_prefix_def empty_db_def max_id_def d1_def d2_def Let_def unix_def word_le_nat_alt)
  then have 2: "store_step demo_sha d1 d2" by (rule step_create_key)
  have "create_preauth_key demo_sha 0 ''q'' ''s'' ''ann'' False False minute d2 = Inr (''wskey-q-s'', demo_db)"
    by (simp add: create_preauth_key_def user_id_def open_db_def ipv6_prefix_def empty_db_def max_id_def d1_def d2_def demo_db_def
        demo_sha_def Let_def unix_def word_le_nat_alt)
  then have 3: "store_step demo_sha d2 demo_db" by (rule step_create_key)
  show ?thesis using 1 2 3 unfolding store_reaches_def by (meson r_into_rtranclp rtranclp.rtrancl_into_rtrancl)
qed

lemma demo_host: "host_addr (IPv4 0x64400001)" "host_addr (IPv4 0x64400002)"
  by (auto simp: host_addr_def reserved_ipv4_def)

lemma insert_node_row:
  "insert_node sha now rnd p6 uid user pre eph p db = Inr (n, t, db') \<Longrightarrow>
     db' = db\<lparr>db_nodes := db_nodes db @ [n], db_next_node := db_next_node db + 1\<rparr> \<and> nr_machine_key n = rp_machine_key p \<and>
     nr_token_hash n = sha t \<and> nr_preauth n = pre"
  by (auto simp: insert_node_def Let_def new_row_def split: option.splits if_splits)

lemma demo_registered:
  "\<exists>n db1 n' db2. register_node demo_sha 0 [] ''x'' (demo_params ''wskey-p-s'' ''m1'') demo_db = Inr (n, ''wsnode-x'', db1) \<and> nr_preauth n = Some 1 \<and>
     register_node demo_sha 0 [] ''y'' (demo_params ''wskey-q-s'' ''m2'') db1 = Inr (n', ''wsnode-y'', db2)"
proof -
  have inv: "store_inv demo_db" using store_reaches_inv [OF demo_reach open_db_inv] .
  obtain p6 where p6: "db_ipv6 demo_db = Some p6" using inv by (auto simp: store_inv_def)
  have empty: "db_nodes demo_db = []" "db_next_node demo_db = 1"
    by (simp_all add: demo_db_def open_db_def ipv6_prefix_def empty_db_def Let_def)
  obtain n d1 where ins: "insert_node demo_sha 0 ''x'' p6 1 ''ann'' (Some 1) False (demo_params ''wskey-p-s'' ''m1'') demo_db = Inr (n, ''wsnode-x'', d1)"
    using insert_node_succeeds [OF inv p6, of "demo_params ''wskey-p-s'' ''m1''" "''ann''" 1 "IPv4 0x64400001" demo_sha "''x''" 0 "Some 1" False]
      demo_host by (auto simp: empty demo_params_def over_limit_def max_id_def word_less_nat_alt)
  let ?db1 = "d1\<lparr>db_keys := map (\<lambda>k'. if pk_id k' = 1 then k'\<lparr>pk_used := True\<rparr> else k') (db_keys d1)\<rparr>"
  note row = insert_node_row [OF ins]
  have reg: "register_node demo_sha 0 [] ''x'' (demo_params ''wskey-p-s'' ''m1'') demo_db = Inr (n, ''wsnode-x'', ?db1)"
    using ins p6 by (simp add: register_node_def ipv6_prefix_def demo_db_def demo_params_def unix_def)
  have inv1: "store_inv ?db1" using register_node_inv [OF inv reg] .
  have "\<exists>a. host_addr a \<and> a \<notin> nr_ipv4 ` set (db_nodes ?db1)"
    using demo_host row empty by (cases "nr_ipv4 n = IPv4 0x64400001") (auto intro: exI [of _ "IPv4 0x64400002"] exI [of _ "IPv4 0x64400001"])
  then obtain a where a: "host_addr a" "a \<notin> nr_ipv4 ` set (db_nodes ?db1)" by blast
  obtain n' d2 where ins': "insert_node demo_sha 0 ''y'' p6 1 ''ann'' (Some 2) False (demo_params ''wskey-q-s'' ''m2'') ?db1 = Inr (n', ''wsnode-y'', d2)"
    using insert_node_succeeds [OF inv1 _ _ _ a, of p6 "demo_params ''wskey-q-s'' ''m2''" "''ann''" 1 demo_sha "''y''" 0 "Some 2" False] p6 row empty
    by (auto simp: demo_params_def over_limit_def max_id_def word_less_nat_alt demo_sha_def)
  have "\<exists>d3. register_node demo_sha 0 [] ''y'' (demo_params ''wskey-q-s'' ''m2'') ?db1 = Inr (n', ''wsnode-y'', d3)"
    using ins' p6 row by (auto simp: register_node_def ipv6_prefix_def demo_db_def demo_params_def unix_def demo_sha_def)
  then show ?thesis using reg row by blast
qed

theorem store_machines_distinct_witness:
  "\<exists>db. store_reaches demo_sha (open_db []) db \<and> db_nodes db \<noteq> [] \<and> distinct (map nr_ipv4 (db_nodes db)) \<and>
     distinct (map nr_token_hash (db_nodes db)) \<and>
     (\<forall>n \<in> set (db_nodes db). host_addr (nr_ipv4 n))"
proof -
  obtain n db1 where reg: "register_node demo_sha 0 [] ''x'' (demo_params ''wskey-p-s'' ''m1'') demo_db = Inr (n, ''wsnode-x'', db1)"
    using demo_registered by blast
  have "store_reaches demo_sha (open_db []) db1"
    using demo_reach step_register [OF reg] unfolding store_reaches_def by (meson rtranclp.rtrancl_into_rtrancl)
  moreover obtain p6 where "db_ipv6 demo_db = Some p6"
    using store_reaches_inv [OF demo_reach open_db_inv] by (auto simp: store_inv_def)
  then have "db_nodes db1 \<noteq> []" by (rule register_node_cases [OF reg]) (auto dest!: insert_node_row)
  ultimately show ?thesis using store_machines_distinct [of demo_sha "[]" db1] by blast
qed

theorem preauth_key_once_witness:
  "\<exists>n db1 n' db2. register_node demo_sha 0 [] ''x'' (demo_params ''wskey-p-s'' ''m1'') demo_db = Inr (n, ''wsnode-x'', db1) \<and> nr_preauth n = Some 1 \<and>
     register_node demo_sha 0 [] ''y'' (demo_params ''wskey-q-s'' ''m2'') db1 = Inr (n', ''wsnode-y'', db2) \<and> nr_preauth n' \<noteq> Some 1"
proof -
  obtain n db1 n' db2 where r: "register_node demo_sha 0 [] ''x'' (demo_params ''wskey-p-s'' ''m1'') demo_db = Inr (n, ''wsnode-x'', db1)"
    "nr_preauth n = Some 1" "register_node demo_sha 0 [] ''y'' (demo_params ''wskey-q-s'' ''m2'') db1 = Inr (n', ''wsnode-y'', db2)"
    using demo_registered by blast
  have "\<forall>k \<in> set (db_keys demo_db). pk_id k = 1 \<longrightarrow> \<not> pk_reusable k" by (simp add: demo_db_def)
  moreover have "store_reaches demo_sha db1 db1" by (simp add: store_reaches_def)
  ultimately have "nr_preauth n' \<noteq> Some 1" using preauth_key_once [OF demo_reach r(1,2)] r(3) by blast
  then show ?thesis using r by blast
qed

theorem registration_within_limit_witness:
  "\<exists>n db'. insert_node demo_sha 0 ''x'' (Prefix (IPv6 0 []) 48) 1 ''ann'' None False ((demo_params [] ''m1'')\<lparr>rp_limit := Some (\<lambda>_. Some 1)\<rparr>)
      (demo_db\<lparr>db_ipv6 := Some (Prefix (IPv6 0 []) 48)\<rparr>) = Inr (n, ''wsnode-x'', db') \<and>
     int (length (filter (\<lambda>m. nr_user m = 1) (db_nodes db'))) \<le> 1"
proof -
  let ?d = "demo_db\<lparr>db_ipv6 := Some (Prefix (IPv6 0 []) 48)\<rparr>" and ?p = "(demo_params [] ''m1'')\<lparr>rp_limit := Some (\<lambda>_. Some 1)\<rparr>"
  have empty: "db_nodes demo_db = []" "db_next_node demo_db = 1" "db_routes demo_db = []" "db_exposures demo_db = []"
    by (simp_all add: demo_db_def open_db_def ipv6_prefix_def empty_db_def Let_def)
  have inv: "store_inv ?d" using store_reaches_inv [OF demo_reach open_db_inv] by (auto simp: store_inv_def rows_ok_def empty)
  obtain n db' where ins: "insert_node demo_sha 0 ''x'' (Prefix (IPv6 0 []) 48) 1 ''ann'' None False ?p ?d = Inr (n, ''wsnode-x'', db')"
    using insert_node_succeeds [OF inv, of "Prefix (IPv6 0 []) 48" ?p "''ann''" 1 "IPv4 0x64400001" demo_sha "''x''" 0 None False] demo_host
    by (auto simp: empty demo_params_def over_limit_def max_id_def word_less_nat_alt)
  then show ?thesis using registration_within_limit [OF ins, of "\<lambda>_. Some 1" 1] by auto
qed

end
