(* ===== verification/Audit_Log.thy ===== *)
theory Audit_Log
  imports Net_Lock
begin

text \<open>
  The audit log (\<^verbatim>\<open>internal/store/audit.go\<close>): each entry's hash covers the entry before it.  A table is the
  list of its rows; \<^verbatim>\<open>ORDER BY id\<close> sorts them.  SHA-256 is the parameter \<open>sha\<close>; the text of an entry's
  details is given, not made from key-value pairs.  A time stamp is its 64 bits.
\<close>

section \<open>Definitions\<close>

record audit_row =
  ar_id :: u64
  ar_at :: u64
  ar_actor :: string
  ar_action :: string
  ar_detail :: string
  ar_prev :: bytes
  ar_hash :: bytes

record audit_log =
  al_rows :: "audit_row list"
  al_next :: u64

definition audit_field :: "string \<Rightarrow> bytes" where
  "audit_field f = put_u64 (of_nat (length f)) @ ascii f"

text \<open>What \<^verbatim>\<open>auditHash\<close> writes into the hash.\<close>

definition audit_input :: "bytes \<Rightarrow> audit_row \<Rightarrow> bytes" where
  "audit_input prev e = prev @ put_u64 (ar_id e) @ put_u64 (ar_at e) @ concat (map audit_field [ar_actor e, ar_action e, ar_detail e])"

definition audit_hash :: "(bytes \<Rightarrow> bytes) \<Rightarrow> bytes \<Rightarrow> audit_row \<Rightarrow> bytes" where
  "audit_hash sha prev e = sha (audit_input prev e)"

definition zero_hash :: bytes where
  "zero_hash = replicate 32 0"

definition audit :: "(bytes \<Rightarrow> bytes) \<Rightarrow> u64 \<Rightarrow> string \<Rightarrow> string \<Rightarrow> string \<Rightarrow> audit_log \<Rightarrow> audit_log" where
  "audit sha now actor action detail l =
     (let prev = (case rev (sort_key ar_id (al_rows l)) of [] \<Rightarrow> zero_hash | r # _ \<Rightarrow> ar_hash r);
          e = \<lparr>ar_id = al_next l, ar_at = now, ar_actor = actor, ar_action = action, ar_detail = detail, ar_prev = prev, ar_hash = []\<rparr>
      in l\<lparr>al_rows := al_rows l @ [e\<lparr>ar_hash := audit_hash sha prev e\<rparr>], al_next := al_next l + 1\<rparr>)"

text \<open>The walk of \<^verbatim>\<open>VerifyAudit\<close>: \<open>Inl\<close> is the identifier of the first entry that does not match.\<close>

fun verify_rows :: "(bytes \<Rightarrow> bytes) \<Rightarrow> nat \<Rightarrow> bytes \<Rightarrow> audit_row list \<Rightarrow> u64 + nat \<times> bytes" where
  "verify_rows sha n prev [] = Inr (n, prev)"
| "verify_rows sha n prev (e # es) =
     (if ar_prev e \<noteq> prev \<or> ar_hash e \<noteq> audit_hash sha prev e then Inl (ar_id e)
      else verify_rows sha (Suc n) (ar_hash e) es)"

definition verify_audit :: "(bytes \<Rightarrow> bytes) \<Rightarrow> audit_row list \<Rightarrow> u64 + nat \<times> bytes" where
  "verify_audit sha rows = verify_rows sha 0 zero_hash (sort_key ar_id rows)"

section \<open>Lemmas\<close>

definition audit_run :: "(bytes \<Rightarrow> bytes) \<Rightarrow> (u64 \<times> string \<times> string \<times> string) list \<Rightarrow> audit_log" where
  "audit_run sha evs = fold (\<lambda>(now, actor, action, detail). audit sha now actor action detail) evs \<lparr>al_rows = [], al_next = 1\<rparr>"

definition chained :: "(bytes \<Rightarrow> bytes) \<Rightarrow> bytes \<Rightarrow> audit_row list \<Rightarrow> bytes \<Rightarrow> bool" where
  "chained sha prev es h \<longleftrightarrow> (\<exists>n. verify_rows sha 0 prev es = Inr (n, h))"

lemma verify_rows_count: "verify_rows sha n prev es = Inr (m, h) \<Longrightarrow> m = n + length es"
  by (induction sha n prev es rule: verify_rows.induct) (auto split: if_splits)

lemma verify_rows_snoc:
  "verify_rows sha n prev es = Inr (m, h) \<Longrightarrow>
   verify_rows sha n prev (es @ [e]) = (if ar_prev e \<noteq> h \<or> ar_hash e \<noteq> audit_hash sha h e then Inl (ar_id e) else Inr (Suc m, ar_hash e))"
  by (induction sha n prev es rule: verify_rows.induct) (auto split: if_splits)

lemma verify_rows_last: "verify_rows sha n prev es = Inr (m, h) \<Longrightarrow> h = (if es = [] then prev else ar_hash (last es))"
  by (induction sha n prev es rule: verify_rows.induct) (auto split: if_splits)

lemma verify_rows_init:
  assumes "verify_rows sha n prev (es @ [e]) = Inr (m, h)"
  shows "\<exists>k p. m = Suc k \<and> verify_rows sha n prev es = Inr (k, p) \<and> ar_prev e = p \<and> ar_hash e = audit_hash sha p e \<and> ar_hash e = h"
  using assms by (induction es arbitrary: n prev) (auto split: if_splits)

lemma audit_run_ok:
  assumes "length evs < 2 ^ 63"
  shows "sorted_wrt (<) (map ar_id (al_rows (audit_run sha evs))) \<and> (\<forall>r \<in> set (al_rows (audit_run sha evs)). ar_id r < al_next (audit_run sha evs)) \<and>
    al_next (audit_run sha evs) = of_nat (Suc (length evs)) \<and> length (al_rows (audit_run sha evs)) = length evs \<and>
    (\<exists>h. verify_rows sha 0 zero_hash (al_rows (audit_run sha evs)) = Inr (length evs, h))"
  using assms
proof (induction evs rule: rev_induct)
  case Nil
  then show ?case by (simp add: audit_run_def)
next
  case (snoc ev evs)
  let ?l = "audit_run sha evs"
  obtain now actor action detail where ev: "ev = (now, actor, action, detail)" using prod_cases4 by blast
  have IH: "sorted_wrt (<) (map ar_id (al_rows ?l))" "\<forall>r \<in> set (al_rows ?l). ar_id r < al_next ?l"
    "al_next ?l = of_nat (Suc (length evs))" "length (al_rows ?l) = length evs"
    using snoc by auto
  obtain h where h: "verify_rows sha 0 zero_hash (al_rows ?l) = Inr (length evs, h)" using snoc by auto
  have sorted: "sort_key ar_id (al_rows ?l) = al_rows ?l" using IH(1) by (simp add: sort_key_id_if_sorted strict_sorted_iff)
  have run: "audit_run sha (evs @ [ev]) = audit sha now actor action detail ?l" by (simp add: audit_run_def ev)
  define prev where "prev = (case rev (al_rows ?l) of [] \<Rightarrow> zero_hash | r # _ \<Rightarrow> ar_hash r)"
  have prev: "prev = h" using verify_rows_last [OF h] by (cases "al_rows ?l" rule: rev_cases) (auto simp: prev_def)
  define e where "e = \<lparr>ar_id = al_next ?l, ar_at = now, ar_actor = actor, ar_action = action, ar_detail = detail, ar_prev = h, ar_hash = []\<rparr>"
  let ?e = "e\<lparr>ar_hash := audit_hash sha h e\<rparr>"
  have rows: "al_rows (audit_run sha (evs @ [ev])) = al_rows ?l @ [?e]" "al_next (audit_run sha (evs @ [ev])) = al_next ?l + 1"
    unfolding run by (simp_all add: audit_def sorted Let_def prev_def [symmetric] prev e_def)
  have same: "audit_hash sha h ?e = audit_hash sha h e" by (simp add: audit_hash_def audit_input_def)
  have ver: "verify_rows sha 0 zero_hash (al_rows ?l @ [?e]) = Inr (Suc (length evs), audit_hash sha h e)"
    using verify_rows_snoc [OF h, of ?e] same by (simp add: e_def)
  have "unat (al_next ?l) = Suc (length evs)" using snoc.prems unfolding IH(3) by (subst unat_of_nat) simp
  then have up: "r \<le> al_next ?l \<Longrightarrow> r < al_next ?l + 1" for r
    using snoc.prems by (simp add: word_less_nat_alt word_le_nat_alt unat_word_ariths)
  show ?case unfolding rows ver using IH up by (auto simp: sorted_wrt_append e_def less_imp_le algebra_simps)
qed

lemma field_inj:
  assumes "length f < 2 ^ 64" and "length g < 2 ^ 64" and "audit_field f @ a = audit_field g @ b"
  shows "f = g \<and> a = b"
proof -
  have p: "put_u64 (of_nat (length f)) = put_u64 (of_nat (length g))" "ascii f @ a = ascii g @ b"
    using assms(3) append_eq_append_conv [of "put_u64 (of_nat (length f))" "put_u64 (of_nat (length g))"]
    by (simp_all add: audit_field_def)
  then have "(of_nat (length f) :: u64) = of_nat (length g)" by (simp add: put_u64_inj)
  from arg_cong [OF this, of unat] have "length f = length g" using assms(1,2) by (simp add: unat_of_nat)
  then have "ascii f = ascii g \<and> a = b" using p(2) by (simp add: ascii_def)
  then show ?thesis by (simp add: ascii_inj)
qed

definition rows_short :: "audit_row list \<Rightarrow> bool" where
  "rows_short es \<longleftrightarrow> (\<forall>e \<in> set es. length (ar_actor e) < 2 ^ 64 \<and> length (ar_action e) < 2 ^ 64 \<and> length (ar_detail e) < 2 ^ 64)"

lemma input_inj:
  assumes "audit_input p e = audit_input q f" and "length p = 32" and "length q = 32" and "rows_short [e, f]"
  shows "p = q \<and> ar_id e = ar_id f \<and> ar_at e = ar_at f \<and> ar_actor e = ar_actor f \<and> ar_action e = ar_action f \<and> ar_detail e = ar_detail f"
proof -
  have 1: "p = q" and "put_u64 (ar_id e) @ put_u64 (ar_at e) @ concat (map audit_field [ar_actor e, ar_action e, ar_detail e])
     = put_u64 (ar_id f) @ put_u64 (ar_at f) @ concat (map audit_field [ar_actor f, ar_action f, ar_detail f])"
    using assms(1-3) by (simp_all add: audit_input_def)
  then have 2: "ar_id e = ar_id f" "ar_at e = ar_at f"
    and c: "audit_field (ar_actor e) @ audit_field (ar_action e) @ audit_field (ar_detail e)
     = audit_field (ar_actor f) @ audit_field (ar_action f) @ audit_field (ar_detail f)"
    by (simp_all add: put_u64_inj)
  have s: "length (ar_actor e) < 2 ^ 64" "length (ar_actor f) < 2 ^ 64" "length (ar_action e) < 2 ^ 64" "length (ar_action f) < 2 ^ 64"
    "length (ar_detail e) < 2 ^ 64" "length (ar_detail f) < 2 ^ 64" using assms(4) by (simp_all add: rows_short_def)
  note a = field_inj [OF s(1,2) c]
  note b = field_inj [OF s(3,4) a [THEN conjunct2]]
  have "audit_field (ar_detail e) @ [] = audit_field (ar_detail f) @ []" using b by simp
  from field_inj [OF s(5,6) this] show ?thesis using 1 2 a b by simp
qed

text \<open>The inputs of the hash in a log.\<close>

definition hash_inputs :: "audit_row list \<Rightarrow> bytes set" where
  "hash_inputs es = (\<lambda>e. audit_input (ar_prev e) e) ` set es"

lemma verify_rows_head:
  assumes "\<And>b. length (sha b) = 32" and "verify_rows sha 0 zero_hash es = Inr (n, h)"
  shows "length h = 32"
proof (cases es rule: rev_cases)
  case Nil
  then show ?thesis using assms(2) by (auto simp: zero_hash_def)
next
  case (snoc es' e)
  then obtain p where "ar_hash e = audit_hash sha p e" "ar_hash e = h" using verify_rows_init assms(2) by blast
  then show ?thesis using assms(1) by (simp add: audit_hash_def)
qed

lemma chain_unique:
  assumes out: "\<And>b. length (sha b) = 32"
    and "verify_rows sha 0 zero_hash es = Inr (n, h)" and "verify_rows sha 0 zero_hash fs = Inr (n, h)"
    and "inj_on sha (hash_inputs es \<union> hash_inputs fs)" and "rows_short es" and "rows_short fs"
  shows "es = fs"
  using assms(2-)
proof (induction n arbitrary: h es fs)
  case 0
  then have "es = []" "fs = []" using verify_rows_count [of sha 0 zero_hash] by (metis add_0 length_0_conv)+
  then show ?case by simp
next
  case (Suc n)
  have len: "length es = Suc n" "length fs = Suc n" using Suc.prems(1,2) verify_rows_count by fastforce+
  obtain es' e where es: "es = es' @ [e]" using len(1) by (cases es rule: rev_cases) auto
  obtain fs' f where fs: "fs = fs' @ [f]" using len(2) by (cases fs rule: rev_cases) auto
  obtain p where p: "verify_rows sha 0 zero_hash es' = Inr (n, p)" and e: "ar_prev e = p" "ar_hash e = audit_hash sha p e" "ar_hash e = h"
    using verify_rows_init Suc.prems(1) unfolding es by blast
  obtain q where q: "verify_rows sha 0 zero_hash fs' = Inr (n, q)" and f: "ar_prev f = q" "ar_hash f = audit_hash sha q f" "ar_hash f = h"
    using verify_rows_init Suc.prems(2) unfolding fs by blast
  have "sha (audit_input p e) = sha (audit_input q f)" using e f by (simp add: audit_hash_def)
  moreover have "audit_input p e \<in> hash_inputs es" "audit_input q f \<in> hash_inputs fs" using e f by (auto simp: hash_inputs_def es fs)
  ultimately have eq: "audit_input p e = audit_input q f" using Suc.prems(3) by (meson UnCI inj_onD)
  have l32: "length p = 32" "length q = 32" using verify_rows_head [OF out p] verify_rows_head [OF out q] by auto
  have "rows_short [e, f]" using Suc.prems(4,5) by (simp add: rows_short_def es fs)
  note same = input_inj [OF eq l32 this]
  have "p = q" using same by simp
  have "es' = fs'"
  proof (rule Suc.IH [OF p])
    show "verify_rows sha 0 zero_hash fs' = Inr (n, p)" using q \<open>p = q\<close> by simp
    show "inj_on sha (hash_inputs es' \<union> hash_inputs fs')"
      by (rule inj_on_subset [OF Suc.prems(3)]) (auto simp: hash_inputs_def es fs)
  qed (use Suc.prems(4,5) in \<open>auto simp: rows_short_def es fs\<close>)
  moreover have "e = f" using same e f by simp
  ultimately show ?case by (simp add: es fs)
qed

section \<open>Properties\<close>

text \<open>An audit log written by \<^verbatim>\<open>Audit\<close> alone verifies, with as many entries as were
  written.\<close>

theorem audit_log_verifies:
  assumes "length evs < 2 ^ 63"
  shows "\<exists>h. verify_audit sha (al_rows (audit_run sha evs)) = Inr (length evs, h)"
proof -
  have "sort_key ar_id (al_rows (audit_run sha evs)) = al_rows (audit_run sha evs)"
    using audit_run_ok [OF assms, of sha] by (simp add: sort_key_id_if_sorted strict_sorted_iff)
  then show ?thesis using audit_run_ok [OF assms, of sha] by (simp add: verify_audit_def)
qed

text \<open>Claim C24 (safety): the audit log shows tampering.  Two logs that verify with the same number of entries
  and the same newest hash are the same log, entry by entry, as long as SHA-256 does not collide on
  their entries: with the head hash kept elsewhere, no entry can be edited, removed, added, renumbered or
  reordered.\<close>

theorem audit_tamper_evident:
  assumes out: "\<And>b. length (sha b) = 32"
    and "verify_audit sha t = Inr (n, h)" and "verify_audit sha t' = Inr (n, h)"
    and "inj_on sha (hash_inputs t \<union> hash_inputs t')" and "rows_short t" and "rows_short t'"
  shows "sort_key ar_id t' = sort_key ar_id t"
  using chain_unique [OF out, where es = "sort_key ar_id t'" and fs = "sort_key ar_id t"] assms(2-)
  by (simp add: verify_audit_def hash_inputs_def rows_short_def Un_commute)

section \<open>Witnesses\<close>

definition demo_hash :: "bytes \<Rightarrow> bytes" where
  "demo_hash b = take 32 (drop 32 b @ replicate 32 0)"

definition demo_log :: "audit_row list" where
  "demo_log = al_rows (audit_run demo_hash [(5, ''ann'', ''login'', []), (6, ''bob'', ''logout'', [])])"

theorem audit_log_verifies_witness: "\<exists>h. verify_audit demo_hash demo_log = Inr (Suc 1, h)"
  using audit_log_verifies [of "[(5, ''ann'', ''login'', []), (6, ''bob'', ''logout'', [])]" demo_hash] by (simp add: demo_log_def)

lemma demo_log_facts:
  "map ar_id demo_log = [1, 2]" "verify_audit demo_hash (rev demo_log) = verify_audit demo_hash demo_log"
  "distinct (map demo_hash (map (\<lambda>e. audit_input (ar_prev e) e) demo_log))"
  "list_all (\<lambda>e. length (ar_actor e) < 10 \<and> length (ar_action e) < 10 \<and> length (ar_detail e) < 10) demo_log"
  by code_simp+

theorem audit_tamper_evident_witness:
  "(\<exists>h. verify_audit demo_hash (rev demo_log) = Inr (Suc 1, h)) \<and> sort_key ar_id (rev demo_log) = sort_key ar_id demo_log"
proof -
  obtain h where h: "verify_audit demo_hash demo_log = Inr (Suc 1, h)"
    using audit_run_ok [of "[(5, ''ann'', ''login'', []), (6, ''bob'', ''logout'', [])]" demo_hash]
    by (auto simp: demo_log_def verify_audit_def sort_key_id_if_sorted strict_sorted_iff)
  have inj: "inj_on demo_hash (hash_inputs demo_log)"
    using demo_log_facts(3) unfolding hash_inputs_def distinct_map by (simp add: image_image)
  have out: "length (demo_hash b) = 32" for b by (simp add: demo_hash_def)
  have short: "rows_short demo_log" using demo_log_facts(4) by (fastforce simp: rows_short_def list_all_iff)
  have r: "hash_inputs (rev demo_log) = hash_inputs demo_log" "rows_short (rev demo_log)" using short by (simp_all add: hash_inputs_def rows_short_def)
  have "sort_key ar_id (rev demo_log) = sort_key ar_id demo_log"
    using audit_tamper_evident [OF out h, of "rev demo_log"] demo_log_facts(2) h inj short r by simp
  then show ?thesis using h demo_log_facts(2) by simp
qed

end
