(* ===== verification/Cluster.thy ===== *)
theory Cluster
  imports Prelude
begin

text \<open>
  Servers that share a database (\<^verbatim>\<open>internal/store/cluster.go\<close>): who is alive, which machines are connected
  where, leases for periodic jobs, and the change counter.  Times in these tables are milliseconds;
  \<open>now\<close> is the clock of the server that makes the call.
\<close>

section \<open>Definitions\<close>

record member =
  mb_id :: string
  mb_public_url :: string
  mb_relay_url :: string
  mb_quic_addr :: string
  mb_started :: int
  mb_last_seen :: int

record lease =
  le_holder :: string
  le_expires :: int

record cluster_db =
  cd_servers :: "member list"
  cd_presence :: "(u64 \<times> string) list"
  cd_leases :: "(string, lease) gomap"
  cd_seq :: int

definition unix_milli :: "time \<Rightarrow> int" where
  "unix_milli t = t div millisecond"

definition heartbeat_server :: "time \<Rightarrow> member \<Rightarrow> cluster_db \<Rightarrow> cluster_db" where
  "heartbeat_server now m db =
     (if list_ex (\<lambda>v. mb_id v = mb_id m) (cd_servers db)
      then db\<lparr>cd_servers := map (\<lambda>v. if mb_id v = mb_id m
             then v\<lparr>mb_public_url := mb_public_url m, mb_relay_url := mb_relay_url m, mb_quic_addr := mb_quic_addr m,
                    mb_last_seen := unix_milli now\<rparr> else v) (cd_servers db)\<rparr>
      else db\<lparr>cd_servers := cd_servers db @ [m\<lparr>mb_last_seen := unix_milli now\<rparr>]\<rparr>)"

definition live_members :: "time \<Rightarrow> duration \<Rightarrow> cluster_db \<Rightarrow> member list" where
  "live_members now window db =
     sort_key (\<lambda>v. (mb_started v, mb_id v)) (filter (\<lambda>v. mb_last_seen v \<ge> unix_milli (now - window)) (cd_servers db))"

definition leave_cluster :: "string \<Rightarrow> cluster_db \<Rightarrow> cluster_db" where
  "leave_cluster i db = db\<lparr>cd_presence := filter (\<lambda>(n, s). s \<noteq> i) (cd_presence db),
     cd_servers := filter (\<lambda>v. mb_id v \<noteq> i) (cd_servers db)\<rparr>"

definition prune_members :: "time \<Rightarrow> duration \<Rightarrow> cluster_db \<Rightarrow> cluster_db" where
  "prune_members now max_age db =
     (let vs = filter (\<lambda>v. \<not> mb_last_seen v < unix_milli (now - max_age)) (cd_servers db)
      in db\<lparr>cd_servers := vs, cd_presence := filter (\<lambda>(n, s). s \<in> set (map mb_id vs)) (cd_presence db)\<rparr>)"

definition set_presence :: "string \<Rightarrow> u64 list \<Rightarrow> u64 list \<Rightarrow> cluster_db \<Rightarrow> cluster_db" where
  "set_presence server add remove db =
     (let ps = fold (\<lambda>i ps. if (i, server) \<in> set ps then ps else ps @ [(i, server)]) add (cd_presence db)
      in db\<lparr>cd_presence := filter (\<lambda>(i, s). \<not> (s = server \<and> i \<in> set remove)) ps\<rparr>)"

definition presence :: "time \<Rightarrow> string \<Rightarrow> duration \<Rightarrow> cluster_db \<Rightarrow> u64 list" where
  "presence now self window db =
     map fst (filter (\<lambda>(i, s). s \<noteq> self \<and> list_ex (\<lambda>v. mb_id v = s \<and> mb_last_seen v \<ge> unix_milli (now - window)) (cd_servers db))
       (cd_presence db))"

definition acquire_lease :: "time \<Rightarrow> string \<Rightarrow> string \<Rightarrow> duration \<Rightarrow> cluster_db \<Rightarrow> bool \<times> cluster_db" where
  "acquire_lease now name holder ttl db =
     (let new = \<lparr>le_holder = holder, le_expires = unix_milli (now + ttl)\<rparr>;
          db = (case map_of (cd_leases db) name of
                  None \<Rightarrow> db\<lparr>cd_leases := AList.update name new (cd_leases db)\<rparr>
                | Some l \<Rightarrow>
                    if le_holder l = holder \<or> le_expires l < unix_milli now
                    then db\<lparr>cd_leases := AList.update name new (cd_leases db)\<rparr> else db)
      in (map_option le_holder (map_of (cd_leases db) name) = Some holder, db))"

definition release_lease :: "string \<Rightarrow> string \<Rightarrow> cluster_db \<Rightarrow> cluster_db" where
  "release_lease name holder db =
     (case map_of (cd_leases db) name of
        Some l \<Rightarrow> if le_holder l = holder then db\<lparr>cd_leases := AList.delete name (cd_leases db)\<rparr> else db
      | None \<Rightarrow> db)"

definition bump_change_seq :: "cluster_db \<Rightarrow> cluster_db" where
  "bump_change_seq db = db\<lparr>cd_seq := cd_seq db + 1\<rparr>"

definition lease_holder :: "time \<Rightarrow> string \<Rightarrow> cluster_db \<Rightarrow> string \<times> time" where
  "lease_holder now name db =
     (case map_of (cd_leases db) name of
        Some l \<Rightarrow> if le_expires l \<ge> unix_milli now then (le_holder l, le_expires l * millisecond) else ([], zero_time)
      | None \<Rightarrow> ([], zero_time))"

section \<open>Lemmas\<close>

text \<open>What the servers may do, with the clock reading of the call.\<close>

datatype cluster_op = Heartbeat member | Leave string | Prune duration | SetPresence string "u64 list" "u64 list"
  | Acquire string string duration | Release string string | Bump

fun cluster_do :: "time \<times> cluster_op \<Rightarrow> cluster_db \<Rightarrow> cluster_db" where
  "cluster_do (now, Heartbeat m) db = heartbeat_server now m db"
| "cluster_do (now, Leave i) db = leave_cluster i db"
| "cluster_do (now, Prune d) db = prune_members now d db"
| "cluster_do (now, SetPresence s a r) db = set_presence s a r db"
| "cluster_do (now, Acquire n h d) db = snd (acquire_lease now n h d db)"
| "cluster_do (now, Release n h) db = release_lease n h db"
| "cluster_do (now, Bump) db = bump_change_seq db"

text \<open>An operation that neither gives up the lease for its holder nor comes after it expired.\<close>

definition spares :: "string \<Rightarrow> string \<Rightarrow> int \<Rightarrow> time \<times> cluster_op \<Rightarrow> bool" where
  "spares name holder expires act \<longleftrightarrow> unix_milli (fst act) \<le> expires \<and> snd act \<noteq> Release name holder \<and>
     (\<forall>d. snd act = Acquire name holder d \<longrightarrow> unix_milli (fst act + d) \<ge> expires)"

definition holds_lease :: "string \<Rightarrow> string \<Rightarrow> int \<Rightarrow> cluster_db \<Rightarrow> bool" where
  "holds_lease name holder expires db \<longleftrightarrow> (\<exists>l. map_of (cd_leases db) name = Some l \<and> le_holder l = holder \<and> le_expires l \<ge> expires)"

lemma acquire_gives:
  "acquire_lease now name holder ttl db = (True, db') \<Longrightarrow> holds_lease name holder (unix_milli (now + ttl)) db'"
  by (auto simp: acquire_lease_def holds_lease_def Let_def update_conv' split: option.splits if_splits)

lemma lease_kept:
  assumes "holds_lease name holder expires db" and "spares name holder expires act"
  shows "holds_lease name holder expires (cluster_do act db)"
  using assms
  by (cases "(act, db)" rule: cluster_do.cases)
    (auto simp: holds_lease_def spares_def heartbeat_server_def leave_cluster_def prune_members_def set_presence_def acquire_lease_def
      release_lease_def bump_change_seq_def Let_def update_conv' delete_conv' split: option.splits)

lemma lease_kept_run:
  "holds_lease name holder expires db \<Longrightarrow> \<forall>act \<in> set ops. spares name holder expires act \<Longrightarrow>
   holds_lease name holder expires (fold cluster_do ops db)"
  by (induction ops arbitrary: db) (auto intro: lease_kept)

section \<open>Properties\<close>

text \<open>Claim C33 (safety): a lease has one holder.  After a server acquired it until some time, and as long as that
  server does not release or shorten it, no other server acquires it before that time, whatever the
  servers do in between.\<close>

theorem lease_exclusive:
  assumes got: "acquire_lease now name holder ttl db = (True, db1)"
    and ops: "\<forall>act \<in> set ops. spares name holder (unix_milli (now + ttl)) act"
    and late: "unix_milli now' \<le> unix_milli (now + ttl)" and other: "holder' \<noteq> holder"
  shows "fst (acquire_lease now' name holder' ttl' (fold cluster_do ops db1)) = False \<and>
    fst (lease_holder now' name (fold cluster_do ops db1)) = holder"
proof -
  have "holds_lease name holder (unix_milli (now + ttl)) (fold cluster_do ops db1)"
    using lease_kept_run [OF acquire_gives [OF got] ops] .
  then show ?thesis using late other by (auto simp: holds_lease_def acquire_lease_def lease_holder_def Let_def)
qed

definition demo_cluster :: cluster_db where
  "demo_cluster = \<lparr>cd_servers = [], cd_presence = [], cd_leases = [], cd_seq = 0\<rparr>"

theorem lease_exclusive_witness:
  "fst (acquire_lease (5 * second) ''jobs'' ''b'' minute
     (fold cluster_do [(second, Acquire ''jobs'' ''b'' minute), (2 * second, Bump), (3 * second, Leave ''a'')]
        (snd (acquire_lease 0 ''jobs'' ''a'' minute demo_cluster)))) = False"
  using lease_exclusive [of 0 "''jobs''" "''a''" minute demo_cluster "snd (acquire_lease 0 ''jobs'' ''a'' minute demo_cluster)"
      "[(second, Acquire ''jobs'' ''b'' minute), (2 * second, Bump), (3 * second, Leave ''a'')]" "5 * second" "''b''" minute]
  by (simp add: acquire_lease_def demo_cluster_def spares_def unix_milli_def)

end
