(* ===== verification/Snapshot.thy ===== *)
theory Snapshot
  imports Node_Store Compile_Correct
begin

text \<open>
  The network maps a control server sends: \<^verbatim>\<open>internal/control/snapshot.go\<close> with the parts of \<^verbatim>\<open>service.go\<close> and
  \<^verbatim>\<open>cluster.go\<close> it reads.  A snapshot is the whole network at one version, shared by all streams; a stream
  sends each node a full map once and then what changed.  Snapshots, policies and map entries are
  compared by pointer: an entry here is its address and its value, a policy likewise, and a snapshot is
  identified by its version, which no two have in common.  The protobuf encodings and \<^verbatim>\<open>hash/maphash\<close> are
  the parameters in \<open>wire_env\<close>; reading the database is an argument (\<open>None\<close> when it fails).  \<^verbatim>\<open>pack\<close>, which
  only moves already encoded entries into a message, is left out.
\<close>

section \<open>Data\<close>

record wire_env =
  we_hash :: "bytes \<Rightarrow> u64"
  we_node :: "wire_node \<Rightarrow> bytes"
  we_rule :: "wire_rule \<Rightarrow> bytes"
  we_settings :: "network_map \<Rightarrow> bytes"
  we_codec :: lock_codec

record svc_config =
  cf_dns_suffix :: string
  cf_relays :: "string list"
  cf_stun :: "string list"
  cf_gateway_domain :: string
  cf_gateway_url :: string
  cf_flow_logs :: bool
  cf_quic_relay :: string
  cf_quic_pin :: string
  cf_post_quantum :: bool
  cf_server_key :: string

record ctl_member =
  cm_public_url :: string
  cm_relay_url :: string
  cm_quic_addr :: string

record node_filter =
  nf_rules :: "wire_rule list"
  nf_hash :: u64
  nf_ssh :: "wire_ssh list"

type_synonym node_ref = "nat \<times> wire_node"
type_synonym policy_ref = "nat \<times> policy"

record snapshot =
  sp_version :: u64
  sp_prev_version :: u64
  sp_nodes :: "store_node list"
  sp_index :: "u64 \<rightharpoonup> nat"
  sp_protos :: "node_ref list"
  sp_hashes :: "u64 list"
  sp_changed :: "u64 list"
  sp_policy :: policy_ref
  sp_policy_key :: u64
  sp_compiled :: compiled
  sp_filters :: "u64 \<rightharpoonup> node_filter"
  sp_dns :: string
  sp_lock_chain :: "lock_state list"
  sp_remote :: "u64 list"
  sp_exposures :: "exposure_row list"
  sp_taken :: "(u64, string list) gomap"
  sp_peer_relays :: "(u64 \<times> peer_relay) list"
  sp_relay_clients :: "(u64 \<times> wire_client) list"

text \<open>What one build reads from the database.\<close>

record db_read =
  rd_nodes :: "store_node list"
  rd_exposures :: "exposure_row list"
  rd_chain :: "lock_state list"
  rd_remote :: "u64 list"

record service =
  sv_config :: svc_config
  sv_policy :: policy_ref
  sv_version :: u64
  sv_dirty :: bool
  sv_snap :: "snapshot option"
  sv_online :: "(u64, int) gomap"
  sv_taken :: "(u64, string list) gomap"
  sv_members :: "ctl_member list"
  sv_alloc :: nat

record map_stream =
  ms_id :: u64
  ms_deltas :: bool
  ms_snap :: "snapshot option"
  ms_settings :: bytes

datatype map_response = FullMap network_map | Delta map_delta

section \<open>Machines in wire form\<close>

definition policy_node :: "store_node \<Rightarrow> node" where
  "policy_node n = \<lparr>node_id = sn_id n, node_name = sn_name n, node_user = sn_user n, node_addrs = [sn_ipv4 n, sn_ipv6 n],
     node_routes = sn_routes n,
     node_posture = [(''os'', sn_os n), (''os_version'', sn_os_version n), (''client_version'', sn_client_version n)]\<rparr>"

definition policy_nodes :: "store_node list \<Rightarrow> node list" where
  "policy_nodes ns = map policy_node ns"

definition node_proto :: "wire_env \<Rightarrow> svc_config \<Rightarrow> store_node \<Rightarrow> bool \<Rightarrow> wire_node" where
  "node_proto e cf n online =
     \<lparr>w_id = sn_id n, w_name = sn_name n, w_user = sn_user n, w_machine_key = sn_machine_key n,
      w_addresses = [addr_string (sn_ipv4 n), addr_string (sn_ipv6 n)], w_os = sn_os n,
      w_created_at = Some (sn_created n * second), w_last_seen = Some (sn_last_seen n * second), w_ephemeral = sn_ephemeral n,
      w_node_key = sn_node_key n, w_disco_key = sn_disco_key n, w_endpoints = sn_endpoints n, w_online = online,
      w_fqdn = sn_name n @ ''.'' @ cf_dns_suffix cf,
      w_routes = map prefix_string (filter (\<lambda>r. pfx_bits r \<noteq> 0) (sn_routes n)),
      w_advertised_routes = map prefix_string (sn_advertised n), w_exit_node = list_ex (\<lambda>r. pfx_bits r = 0) (sn_routes n),
      w_ssh_host_key = sn_ssh_host_key n, w_lock_signature = lock_signature (we_codec e) (sn_lock_signature n),
      w_os_version = sn_os_version n, w_client_version = sn_client_version n\<rparr>"

definition map_node :: "wire_env \<Rightarrow> svc_config \<Rightarrow> store_node \<Rightarrow> bool \<Rightarrow> wire_node" where
  "map_node e cf n online =
     (node_proto e cf n online)\<lparr>w_machine_key := [], w_created_at := None, w_last_seen := None, w_ephemeral := False,
        w_advertised_routes := [], w_os_version := [], w_client_version := []\<rparr>"

text \<open>\<^verbatim>\<open>binary.LittleEndian.PutUint64\<close> and \<^verbatim>\<open>MarshalBinary\<close> of addresses and prefixes.\<close>

definition le_u64 :: "u64 \<Rightarrow> bytes" where
  "le_u64 w = rev (put_u64 w)"

definition addr_binary :: "addr \<Rightarrow> bytes" where
  "addr_binary a = as_slice a @ ascii (addr_zone a)"

definition prefix_binary :: "prefix \<Rightarrow> bytes" where
  "prefix_binary p = addr_binary (pfx_addr p) @ [of_nat (pfx_bits p)]"

definition key_text :: "string \<Rightarrow> bytes" where
  "key_text s = ascii s @ [0]"

definition policy_key_node :: "store_node \<Rightarrow> bytes" where
  "policy_key_node n =
     le_u64 (sn_id n) @ key_text (sn_name n) @ key_text (sn_user n) @
     concat (map key_text [sn_os n, sn_os_version n, sn_client_version n]) @
     concat (map addr_binary [sn_ipv4 n, sn_ipv6 n]) @ concat (map prefix_binary (sn_routes n)) @ [0xff]"

definition policy_key_bytes :: "store_node list \<Rightarrow> bytes" where
  "policy_key_bytes ns = concat (map policy_key_node ns)"

definition policy_key :: "wire_env \<Rightarrow> store_node list \<Rightarrow> u64" where
  "policy_key e ns = we_hash e (policy_key_bytes ns)"

section \<open>Filters\<close>

definition wire_rule_of :: "rule \<Rightarrow> wire_rule" where
  "wire_rule_of r = \<lparr>wr_src = map prefix_string (rule_src r),
     wr_ports = map (\<lambda>p. (ucast (pr_first p), ucast (pr_last p))) (rule_ports r), wr_dst = map prefix_string (rule_dst r)\<rparr>"

definition wire_ssh_of :: "compiled_ssh \<Rightarrow> wire_ssh" where
  "wire_ssh_of r = \<lparr>ws_src = map prefix_string (cssh_src r), ws_users = cssh_users r, ws_record = cssh_record r\<rparr>"

text \<open>One machine's filter.  The sources convert each distinct rule once and share the result; the result is
  the same as converting each.\<close>

definition build_filter :: "wire_env \<Rightarrow> compiled \<Rightarrow> u64 \<Rightarrow> node_filter" where
  "build_filter e c i =
     (let rs = map wire_rule_of (comp_rules c i)
      in \<lparr>nf_rules = rs, nf_hash = we_hash e (concat (map (\<lambda>r. le_u64 (we_hash e (we_rule e r))) rs)),
          nf_ssh = map wire_ssh_of (comp_ssh c i)\<rparr>)"

definition build_filters :: "wire_env \<Rightarrow> compiled \<Rightarrow> store_node list \<Rightarrow> u64 \<rightharpoonup> node_filter" where
  "build_filters e c ns = foldl (\<lambda>m n. m(sn_id n \<mapsto> build_filter e c (sn_id n))) Map.empty ns"

section \<open>Building a snapshot\<close>

definition online_count :: "service \<Rightarrow> u64 \<Rightarrow> int" where
  "online_count s i = (case map_of (sv_online s) i of None \<Rightarrow> 0 | Some k \<Rightarrow> k)"

text \<open>The entry of one machine: the previous snapshot's when its hash did not change, else a new one at the
  address \<open>a\<close>; and whether it counts as changed.\<close>

definition node_entry :: "wire_env \<Rightarrow> snapshot option \<Rightarrow> nat \<Rightarrow> u64 \<Rightarrow> wire_node \<Rightarrow> node_ref \<times> u64 \<times> bool" where
  "node_entry e prev a i p =
     (let h = we_hash e (we_node e p) in
      case prev of
        None \<Rightarrow> ((a, p), h, False)
      | Some s \<Rightarrow>
          (case sp_index s i of
             Some j \<Rightarrow> if sp_hashes s ! j = h then (sp_protos s ! j, h, False) else ((a, p), h, True)
           | None \<Rightarrow> ((a, p), h, True)))"

definition entries :: "wire_env \<Rightarrow> service \<Rightarrow> store_node list \<Rightarrow> u64 list \<Rightarrow> (node_ref \<times> u64 \<times> bool) list" where
  "entries e s ns remote =
     map (\<lambda>(k, n). node_entry e (sv_snap s) (sv_alloc s + k) (sn_id n)
         (map_node e (sv_config s) n (online_count s (sn_id n) > 0 \<or> sn_id n \<in> set remote))) (enumerate 0 ns)"

definition index_nodes :: "store_node list \<Rightarrow> u64 \<rightharpoonup> nat" where
  "index_nodes ns = foldl (\<lambda>ix (k, n). ix(sn_id n \<mapsto> k)) Map.empty (enumerate 0 ns)"

definition keyed :: "store_node \<Rightarrow> bool" where
  "keyed n \<longleftrightarrow> sn_node_key n \<noteq> [] \<and> sn_disco_key n \<noteq> []"

definition changed_ids :: "snapshot option \<Rightarrow> store_node list \<Rightarrow> (node_ref \<times> u64 \<times> bool) list \<Rightarrow> u64 list" where
  "changed_ids prev ns es =
     map sn_id (map fst (filter (\<lambda>(n, r, h, ch). ch) (zip ns es))) @
     (case prev of None \<Rightarrow> [] | Some s \<Rightarrow> map sn_id (filter (\<lambda>n. index_nodes ns (sn_id n) = None) (sp_nodes s)))"

definition assemble :: "wire_env \<Rightarrow> service \<Rightarrow> db_read \<Rightarrow> snapshot" where
  "assemble e s r =
     (let ns = rd_nodes r; es = entries e s ns (rd_remote r); key = policy_key e ns;
          (c, fs) = (case sv_snap s of
                       Some pv \<Rightarrow>
                         if fst (sp_policy pv) = fst (sv_policy s) \<and> sp_policy_key pv = key then (sp_compiled pv, sp_filters pv)
                         else (let c = compile (snd (sv_policy s)) (policy_nodes ns) in (c, build_filters e c ns))
                     | None \<Rightarrow> (let c = compile (snd (sv_policy s)) (policy_nodes ns) in (c, build_filters e c ns)))
      in \<lparr>sp_version = sv_version s, sp_prev_version = (case sv_snap s of None \<Rightarrow> 0 | Some pv \<Rightarrow> sp_version pv),
          sp_nodes = ns, sp_index = index_nodes ns, sp_protos = map fst es, sp_hashes = map (\<lambda>(_, h, _). h) es,
          sp_changed = changed_ids (sv_snap s) ns es, sp_policy = sv_policy s, sp_policy_key = key, sp_compiled = c, sp_filters = fs,
          sp_dns = cf_dns_suffix (sv_config s), sp_lock_chain = rd_chain r, sp_remote = rd_remote r, sp_exposures = rd_exposures r,
          sp_taken = sv_taken s,
          sp_peer_relays = map (\<lambda>n. (sn_id n, \<lparr>wp_name = sn_name n, wp_node_key = sn_node_key n, wp_disco_key = sn_disco_key n,
              wp_endpoints = sn_endpoints n\<rparr>)) (filter (\<lambda>n. keyed n \<and> sn_relay_offered n \<and> sn_relay_approved n) ns),
          sp_relay_clients = map (\<lambda>n. (sn_id n, \<lparr>wc_node_key = sn_node_key n, wc_disco_key = sn_disco_key n\<rparr>)) (filter keyed ns)\<rparr>)"

text \<open>\<^verbatim>\<open>buildSnapshot\<close>: the database is read only when something stored changed.\<close>

definition build_snapshot :: "wire_env \<Rightarrow> db_read option \<Rightarrow> service \<Rightarrow> snapshot option \<times> service" where
  "build_snapshot e rd s =
     (case (if sv_dirty s then rd else
             case sv_snap s of
               None \<Rightarrow> rd
             | Some pv \<Rightarrow> Some \<lparr>rd_nodes = sp_nodes pv, rd_exposures = sp_exposures pv, rd_chain = sp_lock_chain pv, rd_remote = sp_remote pv\<rparr>) of
        None \<Rightarrow> (None, s\<lparr>sv_dirty := True\<rparr>)
      | Some r \<Rightarrow> (Some (assemble e s r), s\<lparr>sv_dirty := False, sv_alloc := sv_alloc s + length (rd_nodes r)\<rparr>))"

definition take_snapshot :: "wire_env \<Rightarrow> db_read option \<Rightarrow> service \<Rightarrow> snapshot option \<times> service" where
  "take_snapshot e rd s =
     (case sv_snap s of
        Some pv \<Rightarrow>
          if sp_version pv \<ge> sv_version s then (Some pv, s)
          else (case build_snapshot e rd s of (Some sp, s') \<Rightarrow> (Some sp, s'\<lparr>sv_snap := Some sp\<rparr>) | (None, s') \<Rightarrow> (None, s'))
      | None \<Rightarrow> (case build_snapshot e rd s of (Some sp, s') \<Rightarrow> (Some sp, s'\<lparr>sv_snap := Some sp\<rparr>) | (None, s') \<Rightarrow> (None, s')))"

section \<open>Maps\<close>

definition cluster_info :: "service \<Rightarrow> string list \<times> string list \<times> string" where
  "cluster_info s =
     (case sv_members s of
        [] \<Rightarrow> (cf_relays (sv_config s), [], cf_quic_relay (sv_config s))
      | m # _ \<Rightarrow> (map cm_relay_url (sv_members s), map cm_public_url (sv_members s), cm_quic_addr m))"

definition exposure_url :: "svc_config \<Rightarrow> string \<Rightarrow> string" where
  "exposure_url cf name =
     (if cf_gateway_domain cf = [] then [] else ''https://'' @ name @ ''.'' @ cf_gateway_domain cf)"

definition wire_exposure :: "svc_config \<Rightarrow> exposure_row \<Rightarrow> exposure" where
  "wire_exposure cf r =
     \<lparr>x_name = ex_name r, x_port = ucast (ex_port r), x_approved = ex_approved r, x_url = exposure_url cf (ex_name r),
      x_problem = (if cf_gateway_domain cf = [] then ''the server has no gateway domain configured''
                   else if \<not> ex_approved r then ''waiting for an admin to approve it'' else [])\<rparr>"

definition taken_exposure :: "string \<Rightarrow> exposure" where
  "taken_exposure name = \<lparr>x_name = name, x_port = 0, x_approved = False, x_url = [], x_problem = ''name taken by another machine''\<rparr>"

definition settings :: "service \<Rightarrow> snapshot \<Rightarrow> nat \<Rightarrow> network_map" where
  "settings s sp k =
     (let n = sp_nodes sp ! k; cf = sv_config s; (relays, controls, quic) = cluster_info s in
      \<lparr>nm_self = None, nm_peers = [], nm_dns = Some (sp_dns sp), nm_relays = relays, nm_stun = cf_stun cf, nm_packet_filter = [],
       nm_version = 0,
       nm_exposures = map (wire_exposure cf) (filter (\<lambda>x. ex_node x = sn_id n \<and> ex_advertised x) (sp_exposures sp)) @
          map taken_exposure (case map_of (sp_taken sp) (sn_id n) of None \<Rightarrow> [] | Some ts \<Rightarrow> ts),
       nm_gateway_url = (if cf_gateway_domain cf \<noteq> [] then cf_gateway_url cf else []),
       nm_peer_relays = map snd (filter (\<lambda>(i, r). i \<noteq> sn_id n) (sp_peer_relays sp)),
       nm_relay_clients = (if sn_relay_offered n \<and> sn_relay_approved n
                           then map snd (filter (\<lambda>(i, c). i \<noteq> sn_id n) (sp_relay_clients sp)) else []),
       nm_relay_offered = sn_relay_offered n, nm_relay_approved = sn_relay_approved n,
       nm_ssh_rules = (case sp_filters sp (sn_id n) of None \<Rightarrow> [] | Some f \<Rightarrow> nf_ssh f), nm_flow_logs = cf_flow_logs cf,
       nm_quic_relay = quic, nm_quic_relay_cert = cf_quic_pin cf, nm_lock_chain = sp_lock_chain sp, nm_control_urls = controls,
       nm_post_quantum = cf_post_quantum cf, nm_server_key = cf_server_key cf\<rparr>)"

text \<open>The entry of machine \<open>i\<close>, which the snapshot has.\<close>

definition entry_of :: "snapshot \<Rightarrow> u64 \<Rightarrow> node_ref" where
  "entry_of sp i = (case sp_index sp i of Some k \<Rightarrow> sp_protos sp ! k | None \<Rightarrow> sp_protos sp ! 0)"

definition rules_of :: "snapshot \<Rightarrow> u64 \<Rightarrow> wire_rule list" where
  "rules_of sp i = (case sp_filters sp i of None \<Rightarrow> [] | Some f \<Rightarrow> nf_rules f)"

definition filter_hash :: "snapshot \<Rightarrow> u64 \<Rightarrow> u64" where
  "filter_hash sp i = (case sp_filters sp i of None \<Rightarrow> 0 | Some f \<Rightarrow> nf_hash f)"

definition full_map :: "snapshot \<Rightarrow> nat \<Rightarrow> network_map \<Rightarrow> network_map" where
  "full_map sp k nm =
     (let i = sn_id (sp_nodes sp ! k)
      in nm\<lparr>nm_self := Some (snd (sp_protos sp ! k)), nm_version := sp_version sp, nm_packet_filter := rules_of sp i,
            nm_peers := nm_peers nm @ map (\<lambda>p. snd (entry_of sp p)) (peers (sp_compiled sp) i)\<rparr>)"

text \<open>The merge loop of \<^verbatim>\<open>diffPeers\<close> over the new and the old peers.\<close>

function merge_peers :: "snapshot \<Rightarrow> snapshot \<Rightarrow> u64 list \<Rightarrow> u64 list \<Rightarrow> wire_node list \<times> u64 list" where
  "merge_peers old sp [] [] = ([], [])"
| "merge_peers old sp (n # ns) [] = (case merge_peers old sp ns [] of (ch, rm) \<Rightarrow> (snd (entry_of sp n) # ch, rm))"
| "merge_peers old sp [] (q # qs) = (case merge_peers old sp [] qs of (ch, rm) \<Rightarrow> (ch, q # rm))"
| "merge_peers old sp (n # ns) (q # qs) =
     (if n < q then (case merge_peers old sp ns (q # qs) of (ch, rm) \<Rightarrow> (snd (entry_of sp n) # ch, rm))
      else if q < n then (case merge_peers old sp (n # ns) qs of (ch, rm) \<Rightarrow> (ch, q # rm))
      else (case merge_peers old sp ns qs of (ch, rm) \<Rightarrow>
              (if fst (entry_of sp n) \<noteq> fst (entry_of old q) then snd (entry_of sp n) # ch else ch, rm)))"
  by pat_completeness auto
termination
  by (relation "measure (\<lambda>(old, sp, ns, qs). length ns + length qs)") auto

definition diff_peers :: "snapshot \<Rightarrow> snapshot \<Rightarrow> u64 \<Rightarrow> wire_node list \<times> u64 list" where
  "diff_peers old sp i =
     (if sp_version old = sp_prev_version sp \<and> peer_set (sp_compiled sp) i = peer_set (sp_compiled old) i
      then (map (\<lambda>p. snd (entry_of sp p)) (filter (can_talk (sp_compiled sp) i) (sp_changed sp)), [])
      else merge_peers old sp (peers (sp_compiled sp) i) (peers (sp_compiled old) i))"

definition delta_between :: "snapshot \<Rightarrow> nat \<Rightarrow> snapshot \<Rightarrow> nat \<Rightarrow> u64 \<Rightarrow> network_map option \<Rightarrow> map_delta" where
  "delta_between old j sp k i st =
     (let (ch, rm) = diff_peers old sp i in
      \<lparr>d_version = sp_version sp,
       d_self = (if fst (sp_protos sp ! k) \<noteq> fst (sp_protos old ! j) then Some (snd (sp_protos sp ! k)) else None),
       d_peers_changed = ch, d_peers_removed = rm,
       d_packet_filter = (if filter_hash sp i \<noteq> filter_hash old i then Some (rules_of sp i) else None), d_settings = st\<rparr>)"

definition delta_empty :: "map_delta \<Rightarrow> bool" where
  "delta_empty d \<longleftrightarrow> d_self d = None \<and> d_packet_filter d = None \<and> d_settings d = None \<and> d_peers_changed d = [] \<and> d_peers_removed d = []"

datatype stream_error = NodeDeleted

text \<open>\<^verbatim>\<open>next\<close>: the message that brings a stream up to date, if any.\<close>

definition stream_next :: "wire_env \<Rightarrow> service \<Rightarrow> snapshot \<Rightarrow> map_stream \<Rightarrow> stream_error + map_response option \<times> map_stream" where
  "stream_next e s sp m =
     (case sp_index sp (ms_id m) of
        None \<Rightarrow> Inl NodeDeleted
      | Some k \<Rightarrow>
          if map_option sp_version (ms_snap m) = Some (sp_version sp) then Inr (None, m)
          else let st = settings s sp k; sb = we_settings e st; m' = m\<lparr>ms_snap := Some sp, ms_settings := sb\<rparr> in
            case ms_snap m of
              None \<Rightarrow> Inr (Some (FullMap (full_map sp k st)), m')
            | Some old \<Rightarrow>
                (case sp_index old (ms_id m) of
                   None \<Rightarrow> Inr (Some (FullMap (full_map sp k st)), m')
                 | Some j \<Rightarrow>
                     let d = delta_between old j sp k (ms_id m) (if sb \<noteq> ms_settings m then Some st else None) in
                     if delta_empty d then Inr (None, m')
                     else if \<not> ms_deltas m then Inr (Some (FullMap (full_map sp k st)), m')
                     else Inr (Some (Delta d), m')))"

section \<open>The service\<close>

definition new_service :: "svc_config \<Rightarrow> service" where
  "new_service cf = \<lparr>sv_config = (if cf_dns_suffix cf = [] then cf\<lparr>cf_dns_suffix := ''whale.internal''\<rparr> else cf), sv_policy = (0, allow_all),
     sv_version = 1, sv_dirty = True, sv_snap = None, sv_online = [], sv_taken = [], sv_members = [], sv_alloc = 1\<rparr>"

definition notify :: "bool \<Rightarrow> service \<Rightarrow> service" where
  "notify store_changed s = s\<lparr>sv_dirty := sv_dirty s \<or> store_changed, sv_version := sv_version s + 1\<rparr>"

text \<open>A new policy is a new object.\<close>

definition install_policy :: "policy \<Rightarrow> service \<Rightarrow> service" where
  "install_policy p s = notify False (s\<lparr>sv_policy := (sv_alloc s, p), sv_alloc := Suc (sv_alloc s)\<rparr>)"

definition set_members :: "ctl_member list \<Rightarrow> service \<Rightarrow> service" where
  "set_members ms s = (if ms = sv_members s then s else notify False (s\<lparr>sv_members := ms\<rparr>))"

definition set_taken :: "u64 \<Rightarrow> string list \<Rightarrow> service \<Rightarrow> service" where
  "set_taken i ts s = s\<lparr>sv_taken := AList.update i ts (sv_taken s)\<rparr>"

text \<open>The start and end of \<^verbatim>\<open>runMapStream\<close>.\<close>

definition max_streams_per_node :: int where "max_streams_per_node = 8"

definition stream_start :: "u64 \<Rightarrow> service \<Rightarrow> service option" where
  "stream_start i s =
     (let k = online_count s i in
      if k \<ge> max_streams_per_node then None
      else let s = s\<lparr>sv_online := AList.update i (k + 1) (sv_online s)\<rparr> in Some (if k + 1 = 1 then notify False s else s))"

definition stream_end :: "u64 \<Rightarrow> service \<Rightarrow> service" where
  "stream_end i s =
     (let k = online_count s i - 1 in
      if k = 0 then notify False (s\<lparr>sv_online := AList.delete i (sv_online s)\<rparr>)
      else s\<lparr>sv_online := AList.update i k (sv_online s)\<rparr>)"

text \<open>What a client makes of a message.\<close>

definition client_receive :: "network_map option \<Rightarrow> map_response \<Rightarrow> map_error + network_map" where
  "client_receive cur r = (case r of FullMap nm \<Rightarrow> Inr nm | Delta d \<Rightarrow> apply_delta cur d)"

end
