(* ===== verification/Policy_Key.thy ===== *)
theory Policy_Key
  imports Snapshot "HOL-Library.Sublist"
begin

text \<open>
  What the key of the compiled policy tells apart (\<^verbatim>\<open>policyKey\<close> in \<^verbatim>\<open>internal/control/snapshot.go\<close>).  The hashed text is the
  concatenation of the machines' fields: strings end with a zero byte, addresses have fixed lengths, and the routes
  follow each other, without length or family, up to a byte \<^verbatim>\<open>0xff\<close>.  So the text determines the machines as the policy
  compiler sees them if no string contains a zero byte and the route texts that occur are prefix-free; without the
  first condition it does not (\<open>policy_key_ambiguous\<close>).
\<close>

section \<open>Texts that can be read back\<close>

definition route_text :: "prefix list \<Rightarrow> bytes" where
  "route_text rs = concat (map prefix_binary rs) @ [0xff]"

fun plain_addrs :: "addr \<Rightarrow> addr \<Rightarrow> bool" where
  "plain_addrs (IPv4 x) (IPv6 y z) \<longleftrightarrow> z = []"
| "plain_addrs _ _ \<longleftrightarrow> False"

definition plain_node :: "store_node \<Rightarrow> bool" where
  "plain_node n \<longleftrightarrow> list_all (\<lambda>s. CHR 0x00 \<notin> set s) [sn_name n, sn_user n, sn_os n, sn_os_version n, sn_client_version n] \<and>
     plain_addrs (sn_ipv4 n) (sn_ipv6 n)"

definition routes_apart :: "prefix list set \<Rightarrow> bool" where
  "routes_apart R \<longleftrightarrow> (\<forall>rs \<in> R. \<forall>qs \<in> R. prefix (route_text rs) (route_text qs) \<longrightarrow> rs = qs)"

definition key_texts_plain :: "store_node list set \<Rightarrow> bool" where
  "key_texts_plain N \<longleftrightarrow> (\<forall>ns \<in> N. list_all plain_node ns) \<and> routes_apart (sn_routes ` \<Union> (set ` N))"

section \<open>Fields\<close>

lemma le_u64_append: "le_u64 i @ u = le_u64 j @ v \<longleftrightarrow> i = j \<and> u = v"
proof -
  have "length (le_u64 i) = length (le_u64 j)" by (simp add: le_u64_def put_u64_def)
  then show ?thesis by (auto simp: le_u64_def put_u64_inj)
qed

lemma nat_be_word_inj:
  "nat_be 4 (unat x) = nat_be 4 (unat y) \<Longrightarrow> x = y" "nat_be 16 (unat u) = nat_be 16 (unat v) \<Longrightarrow> u = v"
  for x y :: u32 and u v :: "128 word"
proof -
  have rd: "bytes_array (nat_be 4 (unat x)) = x" "bytes_array (nat_be 16 (unat u)) = u" for x :: u32 and u :: "128 word"
    using bytes_array_bytes [of x] bytes_array_bytes [of u] by (simp_all add: array_bytes_def)
  show "nat_be 4 (unat x) = nat_be 4 (unat y) \<Longrightarrow> x = y"
    by (drule arg_cong [where f = "bytes_array :: bytes \<Rightarrow> u32"]) (simp only: rd)
  show "nat_be 16 (unat u) = nat_be 16 (unat v) \<Longrightarrow> u = v"
    by (drule arg_cong [where f = "bytes_array :: bytes \<Rightarrow> 128 word"]) (simp only: rd)
qed

lemma zero_ascii:
  assumes "CHR 0x00 \<notin> set s"
  shows "0 \<notin> set (ascii s)"
proof
  assume "0 \<in> set (ascii s)"
  then obtain c where c: "c \<in> set s" "(of_char c :: byte) = 0" by (auto simp: ascii_def)
  then have "ascii [c] = ascii [CHR 0x00]" by (simp add: ascii_def)
  then show False using c(1) assms by (simp add: ascii_inj)
qed

lemma key_text_append:
  assumes "CHR 0x00 \<notin> set s" "CHR 0x00 \<notin> set t"
  shows "key_text s @ u = key_text t @ v \<longleftrightarrow> s = t \<and> u = v"
proof -
  have tw: "takeWhile (\<lambda>b. b \<noteq> 0) (ascii r @ 0 # w) = ascii r" if "CHR 0x00 \<notin> set r" for r w
    using zero_ascii [OF that] by (subst takeWhile_append2) auto
  have "s = t" if "ascii s @ 0 # u = ascii t @ 0 # v"
    using tw [OF assms(1), of u] tw [OF assms(2), of v] that by (simp add: ascii_inj)
  then show ?thesis by (auto simp: key_text_def)
qed

lemma plain_addrs_append:
  assumes "plain_addrs a b" "plain_addrs c d"
  shows "addr_binary a @ addr_binary b @ u = addr_binary c @ addr_binary d @ v \<longleftrightarrow> a = c \<and> b = d \<and> u = v"
  using assms by (cases a; cases b; cases c; cases d) (auto simp: addr_binary_def ascii_def dest: nat_be_word_inj)

lemma route_text_append:
  assumes "routes_apart R" "rs \<in> R" "qs \<in> R"
  shows "route_text rs @ u = route_text qs @ v \<longleftrightarrow> rs = qs \<and> u = v"
proof -
  have "rs = qs" if eq: "route_text rs @ u = route_text qs @ v"
  proof -
    have "prefix (route_text rs) (route_text qs) \<or> prefix (route_text qs) (route_text rs)"
      using eq prefix_same_cases [of "route_text rs" "route_text qs @ v" "route_text qs"] by (metis prefixI)
    then show ?thesis using assms unfolding routes_apart_def by metis
  qed
  then show ?thesis by auto
qed

section \<open>The text determines the machines\<close>

lemma policy_key_node_append:
  assumes "plain_node m" "plain_node n" "routes_apart R" "sn_routes m \<in> R" "sn_routes n \<in> R"
  shows "policy_key_node m @ u = policy_key_node n @ v \<longleftrightarrow> policy_node m = policy_node n \<and> u = v"
proof -
  have enc: "policy_key_node x @ w = le_u64 (sn_id x) @ key_text (sn_name x) @ key_text (sn_user x) @ key_text (sn_os x) @
      key_text (sn_os_version x) @ key_text (sn_client_version x) @ addr_binary (sn_ipv4 x) @ addr_binary (sn_ipv6 x) @
      route_text (sn_routes x) @ w" for x w
    by (simp add: policy_key_node_def route_text_def)
  have plain: "CHR 0x00 \<notin> set (sn_name x)" "CHR 0x00 \<notin> set (sn_user x)" "CHR 0x00 \<notin> set (sn_os x)" "CHR 0x00 \<notin> set (sn_os_version x)"
      "CHR 0x00 \<notin> set (sn_client_version x)" "plain_addrs (sn_ipv4 x) (sn_ipv6 x)" if "plain_node x" for x
    using that by (simp_all add: plain_node_def)
  note ps = plain [OF assms(1)] plain [OF assms(2)]
  show ?thesis
    unfolding enc le_u64_append
    by (simp only: key_text_append [OF ps(1) ps(7)] key_text_append [OF ps(2) ps(8)] key_text_append [OF ps(3) ps(9)]
        key_text_append [OF ps(4) ps(10)] key_text_append [OF ps(5) ps(11)] plain_addrs_append [OF ps(6) ps(12)]
        route_text_append [OF assms(3-5)]) (auto simp: policy_node_def)
qed

lemma policy_key_node_nonempty: "policy_key_node n \<noteq> []"
  by (simp add: policy_key_node_def)

theorem policy_key_bytes_inj:
  assumes "list_all plain_node ms" "list_all plain_node ns" "routes_apart R"
    and "sn_routes ` set ms \<subseteq> R" "sn_routes ` set ns \<subseteq> R" "policy_key_bytes ms = policy_key_bytes ns"
  shows "policy_nodes ms = policy_nodes ns"
  using assms
proof (induction ms arbitrary: ns)
  case Nil
  then show ?case using policy_key_node_nonempty by (cases ns) (auto simp: policy_key_bytes_def policy_nodes_def)
next
  case (Cons m ms)
  then obtain n ns' where ns: "ns = n # ns'"
    using policy_key_node_nonempty by (cases ns) (auto simp: policy_key_bytes_def)
  have "policy_key_node m @ policy_key_bytes ms = policy_key_node n @ policy_key_bytes ns'"
    using Cons.prems(6) by (simp add: policy_key_bytes_def ns)
  then have "policy_node m = policy_node n" "policy_key_bytes ms = policy_key_bytes ns'"
    using policy_key_node_append [of m n R] Cons.prems ns by auto
  then show ?case using Cons ns by (simp add: policy_nodes_def)
qed

text \<open>So the key tells machines apart, up to collisions of the hash on the texts that occur.\<close>

lemma policy_key_apart:
  assumes "key_texts_plain N" "inj_on (we_hash e) (policy_key_bytes ` N)" "ms \<in> N" "ns \<in> N" "policy_key e ms = policy_key e ns"
  shows "policy_nodes ms = policy_nodes ns"
proof (rule policy_key_bytes_inj)
  show "list_all plain_node ms" "list_all plain_node ns" "routes_apart (sn_routes ` \<Union> (set ` N))"
    using assms(1,3,4) by (simp_all add: key_texts_plain_def)
  show "sn_routes ` set ms \<subseteq> sn_routes ` \<Union> (set ` N)" "sn_routes ` set ns \<subseteq> sn_routes ` \<Union> (set ` N)" using assms(3,4) by blast+
  show "policy_key_bytes ms = policy_key_bytes ns" using assms(2-5) by (auto simp: policy_key_def inj_on_def)
qed

text \<open>Route texts are prefix-free when the first byte tells the families apart and none begins with the end mark.\<close>

definition first_byte :: "prefix \<Rightarrow> byte" where
  "first_byte r = hd (as_slice (pfx_addr r))"

definition families_apart :: "byte set \<Rightarrow> prefix list \<Rightarrow> bool" where
  "families_apart F rs \<longleftrightarrow> list_all (\<lambda>r. pfx_valid r \<and> first_byte r \<noteq> 0xff \<and> (first_byte r \<in> F \<longleftrightarrow> is6 (pfx_addr r))) rs"

lemma prefix_binary_cons:
  assumes "pfx_valid r"
  shows "\<exists>bs. prefix_binary r = first_byte r # bs \<and> length bs = (if is6 (pfx_addr r) then 16 else 4)"
proof -
  have z: "addr_zone (pfx_addr r) = []" "pfx_addr r \<noteq> ZeroAddr" using assms by (cases r; simp)+
  then have len: "length (as_slice (pfx_addr r)) = (if is6 (pfx_addr r) then 16 else 4)"
    by (cases "pfx_addr r") (simp_all add: is6_def)
  then obtain b bs where bs: "as_slice (pfx_addr r) = b # bs" by (cases "as_slice (pfx_addr r)") (auto split: if_splits)
  then have "prefix_binary r = first_byte r # bs @ [of_nat (pfx_bits r)]"
    using z(1) by (simp add: prefix_binary_def addr_binary_def first_byte_def ascii_def)
  then show ?thesis using len by (auto simp: bs split: if_splits)
qed

lemma prefix_binary_inj:
  assumes "pfx_valid r" "pfx_valid q" "prefix_binary r = prefix_binary q"
  shows "r = q"
proof -
  obtain a i where r: "r = Prefix a i" "a \<noteq> ZeroAddr" "addr_zone a = []" "i \<le> bit_len a" using assms(1) by (cases r) auto
  obtain b j where q: "q = Prefix b j" "b \<noteq> ZeroAddr" "addr_zone b = []" "j \<le> bit_len b" using assms(2) by (cases q) auto
  have "as_slice a = as_slice b" "(of_nat i :: byte) = of_nat j" using assms(3) r q by (simp_all add: prefix_binary_def addr_binary_def ascii_def)
  moreover from this have "a = b" using r q by (cases a; cases b) (auto dest: nat_be_word_inj arg_cong [where f = length])
  moreover have "i \<le> 128" using r(4) by (cases a) simp_all
  moreover have "j \<le> 128" using q(4) by (cases b) simp_all
  ultimately show ?thesis using r q by (simp add: word_of_nat_eq_iff take_bit_nat_eq_self)
qed

lemma families_routes_apart:
  assumes "families_apart F rs" "families_apart F qs" "prefix (route_text rs) (route_text qs)"
  shows "rs = qs"
  using assms
proof (induction rs arbitrary: qs)
  case Nil
  then show ?case using prefix_binary_cons by (cases qs) (force simp: route_text_def families_apart_def)+
next
  case (Cons r rs)
  have r: "pfx_valid r" "first_byte r \<noteq> 0xff" "first_byte r \<in> F \<longleftrightarrow> is6 (pfx_addr r)" using Cons.prems(1) by (simp_all add: families_apart_def)
  obtain bs where bs: "prefix_binary r = first_byte r # bs" "length bs = (if is6 (pfx_addr r) then 16 else 4)" using prefix_binary_cons [OF r(1)] by blast
  have "qs \<noteq> []" using Cons.prems(3) bs r(2) by (auto simp: route_text_def)
  then obtain q qs' where qs: "qs = q # qs'" by (cases qs) auto
  have q: "pfx_valid q" "first_byte q \<in> F \<longleftrightarrow> is6 (pfx_addr q)" using Cons.prems(2) by (simp_all add: families_apart_def qs)
  obtain cs where cs: "prefix_binary q = first_byte q # cs" "length cs = (if is6 (pfx_addr q) then 16 else 4)" using prefix_binary_cons [OF q(1)] by blast
  have pre: "prefix (prefix_binary r @ route_text rs) (prefix_binary q @ route_text qs')" using Cons.prems(3) by (simp add: route_text_def qs)
  then have "first_byte r = first_byte q" by (simp add: bs cs)
  then have "length (prefix_binary r) = length (prefix_binary q)" using bs cs r(3) q(2) by simp
  then have "prefix_binary r = prefix_binary q" "prefix (route_text rs) (route_text qs')" using pre by (auto simp: prefix_def append_eq_append_conv)
  then show ?case using Cons.IH [of qs'] Cons.prems(1,2) prefix_binary_inj [OF r(1) q(1)] qs by (simp add: families_apart_def)
qed

section \<open>An ambiguous text\<close>

text \<open>A zero byte in a reported string moves the boundary between two fields: machines with different postures, the
  same text and so the same key under every hash.\<close>

theorem policy_key_ambiguous:
  assumes "sn_os n = ''a'' @ CHR 0x00 # ''b''" "sn_os_version n = []" "sn_client_version n = []"
  shows "policy_key e [n\<lparr>sn_os := ''a'', sn_os_version := ''b'', sn_client_version := [CHR 0x00]\<rparr>] = policy_key e [n] \<and>
    policy_nodes [n\<lparr>sn_os := ''a'', sn_os_version := ''b'', sn_client_version := [CHR 0x00]\<rparr>] \<noteq> policy_nodes [n]"
  using assms by (simp add: policy_key_def policy_key_bytes_def policy_key_node_def key_text_def ascii_def policy_nodes_def policy_node_def)

end
