(* ===== verification/Snapshot_Sync.thy ===== *)
theory Snapshot_Sync
  imports Policy_Key
begin

text \<open>
  Map streams keep their clients up to date (\<^verbatim>\<open>internal/control/snapshot.go\<close> against \<^verbatim>\<open>internal/netmap\<close>).
  A well-formed snapshot, coherent histories of snapshots (entries are compared by address, so an address
  must always hold the same entry, and what a snapshot does not list as changed must be in the one it was
  built from), the server, a stream and its client as a step relation, and its invariant: the client's
  map is the full map of the snapshot the stream last handled.  Hash collisions are excluded by
  \<open>collision_free\<close> for the values that occur; its part on policy keys follows from \<open>Policy_Key\<close> when the hash alone
  has no collision (\<open>plain_keys_apart\<close>).
\<close>

section \<open>Snapshots\<close>

lemma index_nodes_compiled: "index_nodes ns = comp_index (compile p (policy_nodes ns))"
proof -
  have "foldl (\<lambda>ix k. ix(sn_id (ns ! k) \<mapsto> k)) Map.empty [0..<length ns] =
      foldl (\<lambda>ix k. ix(node_id (policy_nodes ns ! k) \<mapsto> k)) Map.empty [0..<length ns]"
    by (rule foldl_cong) (simp_all add: policy_nodes_def policy_node_def)
  then show ?thesis
    by (simp add: index_nodes_def compile_def build_peers_def Let_def case_prod_beta enumerate_nth foldl_map policy_nodes_def)
qed

lemma policy_ids: "map node_id (policy_nodes ns) = map sn_id ns"
  by (simp add: policy_nodes_def policy_node_def comp_def)

lemma length_policy_nodes: "length (policy_nodes ns) = length ns"
  by (simp add: policy_nodes_def)

lemma index_nodes_iff:
  assumes "distinct (map sn_id ns)"
  shows "index_nodes ns i = Some k \<longleftrightarrow> k < length ns \<and> sn_id (ns ! k) = i"
proof -
  have "k < length ns \<Longrightarrow> node_id (policy_nodes ns ! k) = sn_id (ns ! k)" by (simp add: policy_nodes_def policy_node_def)
  then show ?thesis
    using compiled_index [of "policy_nodes ns" allow_all i k] assms by (auto simp: index_nodes_compiled [of ns allow_all] policy_ids length_policy_nodes)
qed

definition snapshot_ok :: "wire_env \<Rightarrow> snapshot \<Rightarrow> bool" where
  "snapshot_ok e sp \<longleftrightarrow>
     sorted_wrt (<) (map sn_id (sp_nodes sp)) \<and> nodes_wf (policy_nodes (sp_nodes sp)) \<and>
     sp_index sp = index_nodes (sp_nodes sp) \<and> length (sp_protos sp) = length (sp_nodes sp) \<and>
     (\<forall>k < length (sp_nodes sp). w_id (snd (sp_protos sp ! k)) = sn_id (sp_nodes sp ! k)) \<and>
     (\<forall>k < length (sp_nodes sp). sp_hashes sp ! k = we_hash e (we_node e (snd (sp_protos sp ! k)))) \<and>
     sp_compiled sp = compile (snd (sp_policy sp)) (policy_nodes (sp_nodes sp)) \<and>
     sp_filters sp = build_filters e (sp_compiled sp) (sp_nodes sp)"

lemma snapshot_index:
  assumes "snapshot_ok e sp"
  shows "sp_index sp i = Some k \<longleftrightarrow> k < length (sp_nodes sp) \<and> sn_id (sp_nodes sp ! k) = i"
  using assms index_nodes_iff [of "sp_nodes sp" i k] by (simp add: snapshot_ok_def strict_sorted_iff)

lemma entry_id:
  assumes "snapshot_ok e sp" "i \<in> dom (sp_index sp)"
  shows "w_id (snd (entry_of sp i)) = i"
proof -
  obtain k where k: "sp_index sp i = Some k" using assms(2) by blast
  then have "k < length (sp_nodes sp)" "sn_id (sp_nodes sp ! k) = i" using snapshot_index [OF assms(1)] by blast+
  then show ?thesis using assms(1) k by (simp add: snapshot_ok_def entry_of_def)
qed

lemma snapshot_peers:
  assumes "snapshot_ok e sp" "i \<in> dom (sp_index sp)"
  shows "peers (sp_compiled sp) i = filter (can_talk (sp_compiled sp) i) (map sn_id (sp_nodes sp))"
proof -
  let ?ns = "sp_nodes sp"
  obtain k where k: "sp_index sp i = Some k" using assms(2) by blast
  then have "k < length ?ns" "sn_id (?ns ! k) = i" using snapshot_index [OF assms(1)] by blast+
  moreover from this have "node_id (policy_nodes ?ns ! k) = i" by (simp add: policy_nodes_def policy_node_def)
  ultimately show ?thesis
    using peers_filter [of "policy_nodes ?ns" k "snd (sp_policy sp)"] assms(1)
    by (simp add: snapshot_ok_def policy_ids length_policy_nodes)
qed

lemma peers_sorted:
  assumes "snapshot_ok e sp" "i \<in> dom (sp_index sp)"
  shows "sorted_wrt (<) (peers (sp_compiled sp) i)"
  unfolding snapshot_peers [OF assms] using assms(1) by (simp add: snapshot_ok_def sorted_wrt_filter)

lemma indexed_nodes:
  assumes "snapshot_ok e sp"
  shows "dom (sp_index sp) = sn_id ` set (sp_nodes sp)"
  by (force simp: snapshot_index [OF assms] in_set_conv_nth dom_def)

lemma peers_known:
  assumes "snapshot_ok e sp" "i \<in> dom (sp_index sp)"
  shows "set (peers (sp_compiled sp) i) \<subseteq> dom (sp_index sp)"
  by (auto simp: snapshot_peers [OF assms] indexed_nodes [OF assms(1)])

lemma can_talk_peers:
  assumes "snapshot_ok e sp" "i \<in> dom (sp_index sp)"
  shows "can_talk (sp_compiled sp) i j \<longleftrightarrow> j \<in> set (peers (sp_compiled sp) i)"
proof -
  have "can_talk (sp_compiled sp) i j \<Longrightarrow> j \<in> dom (sp_index sp)"
    using can_talk_known [of "sp_compiled sp" i j] assms(1)
    by (auto simp: snapshot_ok_def index_nodes_compiled [of _ "snd (sp_policy sp)"])
  then show ?thesis by (auto simp: snapshot_peers [OF assms] indexed_nodes [OF assms(1)])
qed

section \<open>Peer updates\<close>

definition peer_list :: "snapshot \<Rightarrow> u64 \<Rightarrow> wire_node list" where
  "peer_list sp i = map (\<lambda>p. snd (entry_of sp p)) (peers (sp_compiled sp) i)"

lemma node_map_entries:
  assumes "\<And>p. p \<in> set ps \<Longrightarrow> w_id (f p) = p"
  shows "node_map (map f ps) j = (if j \<in> set ps then Some (f j) else None)"
  using assms by (induction ps) (auto simp: node_map_def)

text \<open>What an update from \<open>old\<close> to \<open>sp\<close> has to say: the entries in \<open>C\<close> are among the new peers, everything else is an
  old peer with the same entry, and \<open>R\<close> covers the peers that went.\<close>

definition diff_ok :: "snapshot \<Rightarrow> snapshot \<Rightarrow> u64 list \<Rightarrow> u64 list \<Rightarrow> u64 list \<Rightarrow> u64 list \<Rightarrow> bool" where
  "diff_ok old sp qs ns C R \<longleftrightarrow>
     set C \<subseteq> set ns \<and> (\<forall>p \<in> set ns - set C. p \<in> set qs \<and> p \<notin> set R \<and> snd (entry_of sp p) = snd (entry_of old p)) \<and>
     (\<forall>p \<in> set qs - set ns. p \<in> set R)"

lemma diff_ok_apply:
  assumes old: "snapshot_ok e old" "i \<in> dom (sp_index old)" and sp: "snapshot_ok e sp" "i \<in> dom (sp_index sp)"
    and diff: "diff_ok old sp (peers (sp_compiled old) i) (peers (sp_compiled sp) i) C R"
  shows "apply_peers (peer_list old i) (map (\<lambda>p. snd (entry_of sp p)) C) R = peer_list sp i"
proof -
  let ?qs = "peers (sp_compiled old) i" and ?ns = "peers (sp_compiled sp) i"
  have ids: "\<And>p. p \<in> set ?qs \<Longrightarrow> w_id (snd (entry_of old p)) = p" "\<And>p. p \<in> set ?ns \<Longrightarrow> w_id (snd (entry_of sp p)) = p"
    using entry_id [OF old(1)] peers_known [OF old] entry_id [OF sp(1)] peers_known [OF sp] by blast+
  then have w: "map w_id (peer_list old i) = ?qs" "map w_id (peer_list sp i) = ?ns"
    by (simp_all add: peer_list_def map_idI)
  have new: "node_map (peer_list sp i) j = (if j \<in> set ?ns then Some (snd (entry_of sp j)) else None)" for j
    unfolding peer_list_def by (rule node_map_entries) (rule ids(2))
  have prev: "node_map (rev (peer_list old i)) j = (if j \<in> set ?qs then Some (snd (entry_of old j)) else None)" for j
    using node_map_entries [of "rev ?qs" "\<lambda>p. snd (entry_of old p)" j] ids(1) by (simp add: peer_list_def rev_map)
  have chg: "node_map (rev (map (\<lambda>p. snd (entry_of sp p)) C)) j = (if j \<in> set C then Some (snd (entry_of sp j)) else None)" for j
  proof -
    have "set C \<subseteq> set ?ns" using diff by (simp add: diff_ok_def)
    then have "\<And>p. p \<in> set (rev C) \<Longrightarrow> w_id (snd (entry_of sp p)) = p" using ids(2) by auto
    from node_map_entries [of "rev C" "\<lambda>p. snd (entry_of sp p)", OF this] show ?thesis by (simp add: rev_map)
  qed
  show ?thesis
  proof (cases "C \<noteq> [] \<or> R \<noteq> []")
    case True
    then have True': "map (\<lambda>p. snd (entry_of sp p)) C \<noteq> [] \<or> R \<noteq> []" by simp
    show ?thesis
    proof (rule sorted_map_unique [OF apply_peers_spec(2) [OF True']])
      show "sorted_wrt (<) (map w_id (peer_list sp i))" unfolding w by (rule peers_sorted [OF sp])
      show "node_map (apply_peers (peer_list old i) (map (\<lambda>p. snd (entry_of sp p)) C) R) = node_map (peer_list sp i)"
        unfolding apply_peers_spec(1) [OF True'] fun_eq_iff chg prev new using diff by (auto simp: diff_ok_def)
    qed
  next
    case False
    then have "C = []" "R = []" by simp_all
    then have "set ?qs = set ?ns" "\<And>p. p \<in> set ?ns \<Longrightarrow> snd (entry_of sp p) = snd (entry_of old p)"
      using diff by (auto simp: diff_ok_def)
    moreover from this(1) have "?qs = ?ns"
      using peers_sorted [OF old] peers_sorted [OF sp] strict_sorted_equal by blast
    ultimately have "peer_list old i = peer_list sp i" by (simp add: peer_list_def)
    then show ?thesis using False by (simp add: apply_peers_def)
  qed
qed

lemma merge_peers_ok:
  assumes "sorted_wrt (<) ns" "sorted_wrt (<) qs"
    and "\<And>p. p \<in> set ns \<Longrightarrow> p \<in> set qs \<Longrightarrow> fst (entry_of sp p) = fst (entry_of old p) \<Longrightarrow> snd (entry_of sp p) = snd (entry_of old p)"
  shows "\<exists>C R. merge_peers old sp ns qs = (map (\<lambda>p. snd (entry_of sp p)) C, R) \<and> set R \<subseteq> set qs \<and> set R \<inter> set ns = {} \<and>
    diff_ok old sp qs ns C R"
  using assms
proof (induction old sp ns qs rule: merge_peers.induct)
  case (2 old sp n ns)
  then obtain C R where "merge_peers old sp ns [] = (map (\<lambda>p. snd (entry_of sp p)) C, R)" "set R = {}" "diff_ok old sp [] ns C R"
    by auto
  then show ?case by (intro exI [of _ "n # C"] exI [of _ R]) (auto simp: diff_ok_def)
next
  case (3 old sp q qs)
  then obtain C R where "merge_peers old sp [] qs = (map (\<lambda>p. snd (entry_of sp p)) C, R)" "set R \<subseteq> set qs" "diff_ok old sp qs [] C R"
    by auto
  then show ?case by (intro exI [of _ C] exI [of _ "q # R"]) (auto simp: diff_ok_def)
next
  case (4 old sp n ns q qs)
  consider "n < q" | "q < n" | "n = q" by fastforce
  then show ?case
  proof cases
    case 1
    with 4 obtain C R where "merge_peers old sp ns (q # qs) = (map (\<lambda>p. snd (entry_of sp p)) C, R)" "set R \<subseteq> set (q # qs)"
        "set R \<inter> set ns = {}" "diff_ok old sp (q # qs) ns C R" by auto
    moreover have "n \<notin> set (q # qs)" using 1 4(5) by auto
    ultimately show ?thesis using 1 by (intro exI [of _ "n # C"] exI [of _ R]) (auto simp: diff_ok_def)
  next
    case 2
    then have "\<not> n < q" by simp
    with 2 4(2,4,5,6) obtain C R where "merge_peers old sp (n # ns) qs = (map (\<lambda>p. snd (entry_of sp p)) C, R)" "set R \<subseteq> set qs"
        "set R \<inter> set (n # ns) = {}" "diff_ok old sp qs (n # ns) C R" by auto
    moreover have "q \<notin> set (n # ns)" using 2 4(4) by auto
    ultimately show ?thesis using 2 by (intro exI [of _ C] exI [of _ "q # R"]) (auto simp: diff_ok_def)
  next
    case 3
    with 4 obtain C R where IH: "merge_peers old sp ns qs = (map (\<lambda>p. snd (entry_of sp p)) C, R)" "set R \<subseteq> set qs"
        "set R \<inter> set ns = {}" "diff_ok old sp qs ns C R" by auto
    have q: "q \<notin> set qs" "q \<notin> set ns" using 3 4(4,5) by auto
    show ?thesis
    proof (cases "fst (entry_of sp q) = fst (entry_of old q)")
      case True
      moreover from this have "snd (entry_of sp q) = snd (entry_of old q)" using 4(6) 3 by simp
      ultimately show ?thesis using 3 IH q by (intro exI [of _ C] exI [of _ R]) (auto simp: diff_ok_def)
    next
      case False
      then show ?thesis using 3 IH q by (intro exI [of _ "q # C"] exI [of _ R]) (auto simp: diff_ok_def)
    qed
  qed
qed (simp add: diff_ok_def)

section \<open>Histories of snapshots\<close>

text \<open>\<open>follows old sp\<close>: what \<open>sp\<close> does not list as changed is in \<open>old\<close> with the same entry.\<close>

definition follows :: "snapshot \<Rightarrow> snapshot \<Rightarrow> bool" where
  "follows old sp \<longleftrightarrow> (\<forall>i \<in> dom (sp_index sp) - set (sp_changed sp). i \<in> dom (sp_index old) \<and> entry_of sp i = entry_of old i)"

definition coherent :: "wire_env \<Rightarrow> snapshot set \<Rightarrow> bool" where
  "coherent e H \<longleftrightarrow>
     (\<forall>sp \<in> H. snapshot_ok e sp \<and> sp_policy_key sp = policy_key e (sp_nodes sp) \<and> sp_prev_version sp < sp_version sp) \<and>
     (\<forall>sp \<in> H. \<forall>old \<in> H.
        (\<forall>a p q. (a, p) \<in> set (sp_protos sp) \<longrightarrow> (a, q) \<in> set (sp_protos old) \<longrightarrow> p = q) \<and>
        (fst (sp_policy sp) = fst (sp_policy old) \<longrightarrow> snd (sp_policy sp) = snd (sp_policy old)) \<and>
        (sp_version sp = sp_version old \<longrightarrow> sp = old) \<and>
        (sp_version old = sp_prev_version sp \<longrightarrow> follows old sp))"

text \<open>No two of the values the server hashes collide, and the settings it encodes have different encodings.\<close>

definition collision_free :: "wire_env \<Rightarrow> snapshot set \<Rightarrow> network_map set \<Rightarrow> bool" where
  "collision_free e H S \<longleftrightarrow>
     (\<forall>a \<in> H. \<forall>b \<in> H.
        (policy_key e (sp_nodes a) = policy_key e (sp_nodes b) \<longrightarrow> policy_nodes (sp_nodes a) = policy_nodes (sp_nodes b)) \<and>
        (\<forall>i \<in> dom (sp_index a) \<inter> dom (sp_index b).
           (filter_hash a i = filter_hash b i \<longrightarrow> rules_of a i = rules_of b i) \<and>
           (peer_set (sp_compiled a) i = peer_set (sp_compiled b) i \<longrightarrow> peers (sp_compiled a) i = peers (sp_compiled b) i))) \<and>
     inj_on (we_settings e) S"

definition policy_keys_apart :: "wire_env \<Rightarrow> store_node list set \<Rightarrow> bool" where
  "policy_keys_apart e N \<longleftrightarrow> (\<forall>ms \<in> N. \<forall>ns \<in> N. policy_key e ms = policy_key e ns \<longrightarrow> policy_nodes ms = policy_nodes ns)"

lemma collision_free_keys: "collision_free e H S \<Longrightarrow> policy_keys_apart e (sp_nodes ` H)"
  unfolding collision_free_def policy_keys_apart_def by blast

lemma plain_keys_apart:
  assumes "key_texts_plain N" "inj_on (we_hash e) (policy_key_bytes ` N)"
  shows "policy_keys_apart e N"
  unfolding policy_keys_apart_def using policy_key_apart [OF assms] by blast

lemma policy_keys_apart_mono: "policy_keys_apart e N \<Longrightarrow> M \<subseteq> N \<Longrightarrow> policy_keys_apart e M"
  unfolding policy_keys_apart_def by blast

lemma collision_free_mono: "collision_free e H S \<Longrightarrow> H' \<subseteq> H \<Longrightarrow> S' \<subseteq> S \<Longrightarrow> collision_free e H' S'"
  unfolding collision_free_def by (meson inj_on_subset subsetD)

lemma entry_mem:
  assumes "snapshot_ok e sp" "i \<in> dom (sp_index sp)"
  shows "entry_of sp i \<in> set (sp_protos sp)"
proof -
  obtain k where k: "sp_index sp i = Some k" using assms(2) by blast
  then have "k < length (sp_nodes sp)" using snapshot_index [OF assms(1)] by blast
  then show ?thesis using assms(1) k by (simp add: snapshot_ok_def entry_of_def)
qed

lemma coherent_ok:
  assumes "coherent e H" "sp \<in> H"
  shows "snapshot_ok e sp" "sp_policy_key sp = policy_key e (sp_nodes sp)" "sp_prev_version sp < sp_version sp"
  using assms unfolding coherent_def by blast+

lemma coherent_versions:
  assumes "coherent e H" "sp \<in> H" "old \<in> H"
  shows "sp_version sp = sp_version old \<Longrightarrow> sp = old" "sp_version old = sp_prev_version sp \<Longrightarrow> follows old sp"
    "fst (sp_policy sp) = fst (sp_policy old) \<Longrightarrow> snd (sp_policy sp) = snd (sp_policy old)"
  using assms unfolding coherent_def by blast+

lemma coherent_entries:
  assumes "coherent e H" "sp \<in> H" "old \<in> H" "(a, p) \<in> set (sp_protos sp)" "(b, q) \<in> set (sp_protos old)" "a = b"
  shows "p = q"
  using assms unfolding coherent_def by blast

lemma entry_pointer:
  assumes "coherent e H" "sp \<in> H" "old \<in> H" "i \<in> dom (sp_index sp)" "j \<in> dom (sp_index old)"
    and "fst (entry_of sp i) = fst (entry_of old j)"
  shows "snd (entry_of sp i) = snd (entry_of old j)"
proof -
  have ok: "snapshot_ok e sp" "snapshot_ok e old" using coherent_ok(1) [OF assms(1)] assms(2,3) by blast+
  have "(fst (entry_of sp i), snd (entry_of sp i)) \<in> set (sp_protos sp)" "(fst (entry_of old j), snd (entry_of old j)) \<in> set (sp_protos old)"
    using entry_mem [OF ok(1) assms(4)] entry_mem [OF ok(2) assms(5)] by simp_all
  then show ?thesis using coherent_entries [OF assms(1-3)] assms(6) by blast
qed

lemma diff_peers_ok:
  assumes H: "coherent e H" "sp \<in> H" "old \<in> H" and cf: "collision_free e H S"
    and i: "i \<in> dom (sp_index old)" "i \<in> dom (sp_index sp)"
  shows "\<exists>C R. diff_peers old sp i = (map (\<lambda>p. snd (entry_of sp p)) C, R) \<and>
    diff_ok old sp (peers (sp_compiled old) i) (peers (sp_compiled sp) i) C R"
proof -
  have ok: "snapshot_ok e sp" "snapshot_ok e old" using coherent_ok(1) [OF H(1)] H(2,3) by blast+
  show ?thesis
  proof (cases "sp_version old = sp_prev_version sp \<and> peer_set (sp_compiled sp) i = peer_set (sp_compiled old) i")
    case True
    let ?C = "filter (can_talk (sp_compiled sp) i) (sp_changed sp)"
    have eq: "peers (sp_compiled sp) i = peers (sp_compiled old) i" using cf H(2,3) i True unfolding collision_free_def by blast
    have "follows old sp" using coherent_versions(2) [OF H] True by blast
    then have "entry_of sp p = entry_of old p" if "p \<in> set (peers (sp_compiled sp) i)" "p \<notin> set (sp_changed sp)" for p
      using that peers_known [OF ok(1) i(2)] unfolding follows_def by blast
    then have "diff_ok old sp (peers (sp_compiled old) i) (peers (sp_compiled sp) i) ?C []"
      unfolding diff_ok_def eq [symmetric] by (fastforce simp: can_talk_peers [OF ok(1) i(2)])
    then show ?thesis using True by (intro exI [of _ ?C] exI [of _ "[]"]) (simp add: diff_peers_def)
  next
    case False
    have sorted: "sorted_wrt (<) (peers (sp_compiled sp) i)" "sorted_wrt (<) (peers (sp_compiled old) i)"
      by (rule peers_sorted [OF ok(1) i(2)], rule peers_sorted [OF ok(2) i(1)])
    have same: "snd (entry_of sp p) = snd (entry_of old p)"
      if "p \<in> set (peers (sp_compiled sp) i)" "p \<in> set (peers (sp_compiled old) i)" "fst (entry_of sp p) = fst (entry_of old p)" for p
      using entry_pointer [OF H, of p p] peers_known [OF ok(1) i(2)] peers_known [OF ok(2) i(1)] that by blast
    obtain C R where "merge_peers old sp (peers (sp_compiled sp) i) (peers (sp_compiled old) i) = (map (\<lambda>p. snd (entry_of sp p)) C, R)"
        "diff_ok old sp (peers (sp_compiled old) i) (peers (sp_compiled sp) i) C R"
      using merge_peers_ok [OF sorted same] by blast
    then show ?thesis unfolding diff_peers_def if_not_P [OF False] by blast
  qed
qed

section \<open>One message\<close>

definition same_map :: "network_map \<Rightarrow> network_map \<Rightarrow> bool" where
  "same_map a b \<longleftrightarrow> a\<lparr>nm_version := 0\<rparr> = b\<lparr>nm_version := 0\<rparr>"

lemma same_mapE:
  assumes "same_map a b"
  obtains v where "a = b\<lparr>nm_version := v\<rparr>"
proof
  have "a = a\<lparr>nm_version := 0\<rparr>\<lparr>nm_version := nm_version a\<rparr>" by simp
  also have "\<dots> = b\<lparr>nm_version := 0\<rparr>\<lparr>nm_version := nm_version a\<rparr>" using assms by (simp only: same_map_def)
  finally show "a = b\<lparr>nm_version := nm_version a\<rparr>" by simp
qed

lemma shallow_copy_updates [simp]:
  "shallow_copy (m\<lparr>nm_self := x\<rparr>) = shallow_copy m" "shallow_copy (m\<lparr>nm_version := v\<rparr>) = shallow_copy m"
  "shallow_copy (m\<lparr>nm_packet_filter := f\<rparr>) = shallow_copy m" "shallow_copy (m\<lparr>nm_peers := ps\<rparr>) = shallow_copy m"
  by (simp_all add: shallow_copy_def)

lemma settings_bare:
  "shallow_copy (settings s sp k) = settings s sp k" "nm_peers (settings s sp k) = []"
  by (simp_all add: settings_def shallow_copy_def case_prod_beta Let_def)

lemma full_map_peers:
  assumes "snapshot_ok e sp" "sp_index sp i = Some k" "nm_peers st = []"
  shows "full_map sp k st = st\<lparr>nm_self := Some (snd (entry_of sp i)), nm_version := sp_version sp, nm_packet_filter := rules_of sp i,
    nm_peers := peer_list sp i\<rparr>"
proof -
  have "sn_id (sp_nodes sp ! k) = i" using assms(2) snapshot_index [OF assms(1)] by blast
  then show ?thesis using assms(2,3) by (simp add: full_map_def Let_def entry_of_def peer_list_def)
qed

text \<open>The map a client has after the message from \<open>old\<close> to \<open>sp\<close>: the full map of \<open>sp\<close>.\<close>

lemma delta_refines:
  assumes H: "coherent e H" "sp \<in> H" "old \<in> H" and cf: "collision_free e H S"
    and i: "sp_index old i = Some j" "sp_index sp i = Some k"
    and st: "shallow_copy st = st" "nm_peers st = []" "shallow_copy st' = st'" "nm_peers st' = []"
    and nm: "same_map nm (full_map old j st)" and set: "se = None \<Longrightarrow> st' = st" "\<And>s. se = Some s \<Longrightarrow> st' = s"
  shows "\<exists>nm'. apply_delta (Some nm) (delta_between old j sp k i se) = Inr nm' \<and> nm' = full_map sp k st'"
    and "delta_empty (delta_between old j sp k i se) \<Longrightarrow> same_map nm (full_map sp k st')"
proof -
  have ok: "snapshot_ok e sp" "snapshot_ok e old" using coherent_ok(1) [OF H(1)] H(2,3) by blast+
  have dom: "i \<in> dom (sp_index old)" "i \<in> dom (sp_index sp)" using i by auto
  obtain C R where d: "diff_peers old sp i = (map (\<lambda>p. snd (entry_of sp p)) C, R)"
      "diff_ok old sp (peers (sp_compiled old) i) (peers (sp_compiled sp) i) C R"
    using diff_peers_ok [OF H cf dom] by blast
  note ap = diff_ok_apply [OF ok(2) dom(1) ok(1) dom(2) d(2)]
  have entry: "sp_protos sp ! k = entry_of sp i" "sp_protos old ! j = entry_of old i" using i by (simp_all add: entry_of_def)
  have self: "fst (entry_of sp i) = fst (entry_of old i) \<Longrightarrow> snd (entry_of sp i) = snd (entry_of old i)"
    by (rule entry_pointer [OF H dom(2,1)])
  have rules: "filter_hash sp i = filter_hash old i \<Longrightarrow> rules_of sp i = rules_of old i"
    using cf H(2,3) dom unfolding collision_free_def by blast
  obtain v where nm': "nm = (full_map old j st)\<lparr>nm_version := v\<rparr>" using nm by (rule same_mapE)
  note new = full_map_peers [OF ok(1) i(2) st(4)]
  have nm_eq: "nm_self nm = Some (snd (entry_of old i))" "nm_packet_filter nm = rules_of old i" "nm_peers nm = peer_list old i"
      "shallow_copy nm = st"
    by (simp_all add: nm' full_map_peers [OF ok(2) i(1) st(2)] st(1))
  have "apply_delta (Some nm) (delta_between old j sp k i se) =
      Inr (st'\<lparr>nm_self := Some (snd (entry_of sp i)), nm_packet_filter := rules_of sp i, nm_version := sp_version sp,
        nm_peers := peer_list sp i\<rparr>)"
    unfolding apply_delta_def delta_between_def d(1) entry using self rules set
    by (cases se) (simp_all add: nm_eq ap Let_def network_map.equality)
  then show "\<exists>nm'. apply_delta (Some nm) (delta_between old j sp k i se) = Inr nm' \<and> nm' = full_map sp k st'"
    by (simp add: new)
  assume e: "delta_empty (delta_between old j sp k i se)"
  then have "se = None" "fst (entry_of sp i) = fst (entry_of old i)" "filter_hash sp i = filter_hash old i" "C = []" "R = []"
    by (auto simp: delta_empty_def delta_between_def d(1) entry split: if_splits)
  moreover from this(4,5) have "peer_list sp i = peer_list old i" using ap by (simp add: apply_peers_def)
  ultimately have "full_map sp k st' = (full_map old j st)\<lparr>nm_version := sp_version sp\<rparr>"
    unfolding new full_map_peers [OF ok(2) i(1) st(2)] using self rules set by (simp add: network_map.equality)
  then show "same_map nm (full_map sp k st')" by (simp add: same_map_def nm')
qed

section \<open>A new snapshot\<close>

definition read_ok :: "db_read \<Rightarrow> bool" where
  "read_ok r \<longleftrightarrow> sorted_wrt (<) (map sn_id (rd_nodes r)) \<and> nodes_wf (policy_nodes (rd_nodes r))"

text \<open>How the service stands to the snapshots taken so far: its own is the newest, everything allocated lies below the
  allocation counter, and a policy's address determines the policy.\<close>

definition service_ok :: "service \<Rightarrow> snapshot set \<Rightarrow> bool" where
  "service_ok s H \<longleftrightarrow>
     0 < sv_version s \<and> fst (sv_policy s) < sv_alloc s \<and>
     (\<forall>sp \<in> H. sp_version sp \<le> sv_version s \<and> (\<forall>r \<in> set (sp_protos sp). fst r < sv_alloc s) \<and> fst (sp_policy sp) < sv_alloc s \<and>
        (fst (sp_policy sp) = fst (sv_policy s) \<longrightarrow> snd (sp_policy sp) = snd (sv_policy s))) \<and>
     (case sv_snap s of None \<Rightarrow> H = {} | Some pv \<Rightarrow> pv \<in> H \<and> (\<forall>sp \<in> H. sp_version sp \<le> sp_version pv))"

lemma map_node_id [simp]: "w_id (map_node e cf n on) = sn_id n"
  by (simp add: map_node_def node_proto_def)

lemma build_filters_ids: "build_filters e c ns = foldl (\<lambda>m i. m(i \<mapsto> build_filter e c i)) Map.empty (map sn_id ns)"
  by (simp add: build_filters_def foldl_map)

lemma same_policy_nodes:
  assumes "policy_nodes ns = policy_nodes ns'"
  shows "build_filters e c ns = build_filters e c ns'"
  unfolding build_filters_ids policy_ids [symmetric] assms ..

text \<open>An entry is new, or the one of the previous snapshot.\<close>

lemma node_entry_cases:
  obtains (fresh) ch where "node_entry e prev a i p = ((a, p), we_hash e (we_node e p), ch)" "prev \<noteq> None \<Longrightarrow> ch"
  | (kept) pv j where "prev = Some pv" "sp_index pv i = Some j" "sp_hashes pv ! j = we_hash e (we_node e p)"
      "node_entry e prev a i p = (sp_protos pv ! j, we_hash e (we_node e p), False)"
proof (cases "\<exists>pv j. prev = Some pv \<and> sp_index pv i = Some j \<and> sp_hashes pv ! j = we_hash e (we_node e p)")
  case True
  then obtain pv j where pv: "prev = Some pv" "sp_index pv i = Some j" "sp_hashes pv ! j = we_hash e (we_node e p)" by blast
  then show ?thesis by (intro kept) (simp_all add: node_entry_def Let_def)
next
  case False
  then have "node_entry e prev a i p = ((a, p), we_hash e (we_node e p), prev \<noteq> None)"
    by (auto simp: node_entry_def Let_def split: option.splits)
  then show ?thesis by (rule fresh) simp
qed

lemma length_entries [simp]: "length (entries e s ns rm) = length ns"
  by (simp add: entries_def)

lemma entries_nth:
  "k < length ns \<Longrightarrow> entries e s ns rm ! k = node_entry e (sv_snap s) (sv_alloc s + k) (sn_id (ns ! k))
     (map_node e (sv_config s) (ns ! k) (online_count s (sn_id (ns ! k)) > 0 \<or> sn_id (ns ! k) \<in> set rm))"
  by (simp add: entries_def nth_enumerate_eq)

lemma assemble_fields:
  "sp_version (assemble e s r) = sv_version s" "sp_nodes (assemble e s r) = rd_nodes r" "sp_policy (assemble e s r) = sv_policy s"
  "sp_index (assemble e s r) = index_nodes (rd_nodes r)" "sp_policy_key (assemble e s r) = policy_key e (rd_nodes r)"
  "sp_protos (assemble e s r) = map fst (entries e s (rd_nodes r) (rd_remote r))"
  "sp_hashes (assemble e s r) = map (\<lambda>(_, h, _). h) (entries e s (rd_nodes r) (rd_remote r))"
  "sp_changed (assemble e s r) = changed_ids (sv_snap s) (rd_nodes r) (entries e s (rd_nodes r) (rd_remote r))"
  "sp_prev_version (assemble e s r) = (case sv_snap s of None \<Rightarrow> 0 | Some pv \<Rightarrow> sp_version pv)"
  by (simp_all add: assemble_def Let_def case_prod_beta)

lemma assemble_compiled:
  assumes "\<And>pv. sv_snap s = Some pv \<Longrightarrow> snapshot_ok e pv \<and> sp_policy_key pv = policy_key e (sp_nodes pv) \<and>
      (fst (sp_policy pv) = fst (sv_policy s) \<longrightarrow> snd (sp_policy pv) = snd (sv_policy s)) \<and>
      (policy_key e (sp_nodes pv) = policy_key e (rd_nodes r) \<longrightarrow> policy_nodes (sp_nodes pv) = policy_nodes (rd_nodes r))"
  shows "sp_compiled (assemble e s r) = compile (snd (sv_policy s)) (policy_nodes (rd_nodes r))"
    and "sp_filters (assemble e s r) = build_filters e (sp_compiled (assemble e s r)) (rd_nodes r)"
proof -
  let ?c = "compile (snd (sv_policy s)) (policy_nodes (rd_nodes r))"
  have "sp_compiled (assemble e s r) = ?c \<and> sp_filters (assemble e s r) = build_filters e ?c (rd_nodes r)"
  proof (cases "\<exists>pv. sv_snap s = Some pv \<and> fst (sp_policy pv) = fst (sv_policy s) \<and> sp_policy_key pv = policy_key e (rd_nodes r)")
    case True
    then obtain pv where pv: "sv_snap s = Some pv" "fst (sp_policy pv) = fst (sv_policy s)" "sp_policy_key pv = policy_key e (rd_nodes r)"
      by blast
    then have same: "policy_nodes (sp_nodes pv) = policy_nodes (rd_nodes r)" "snd (sp_policy pv) = snd (sv_policy s)"
      and ok: "snapshot_ok e pv" using assms [OF pv(1)] by simp_all
    have "sp_compiled pv = ?c" "sp_filters pv = build_filters e ?c (rd_nodes r)"
      using ok same(2) same_policy_nodes [OF same(1)] by (simp_all add: snapshot_ok_def same(1))
    then show ?thesis using pv by (simp add: assemble_def Let_def)
  next
    case False
    then show ?thesis by (auto simp: assemble_def Let_def split: option.splits)
  qed
  then show "sp_compiled (assemble e s r) = ?c"
      "sp_filters (assemble e s r) = build_filters e (sp_compiled (assemble e s r)) (rd_nodes r)" by simp_all
qed

lemma protos_nth:
  "k < length (rd_nodes r) \<Longrightarrow> sp_protos (assemble e s r) ! k = fst (entries e s (rd_nodes r) (rd_remote r) ! k)"
  by (simp add: assemble_fields)

lemma hashes_nth:
  "k < length (rd_nodes r) \<Longrightarrow> sp_hashes (assemble e s r) ! k = fst (snd (entries e s (rd_nodes r) (rd_remote r) ! k))"
  by (simp add: assemble_fields case_prod_beta)

lemma snapshot_previous:
  assumes "coherent e H" "service_ok s H" "sv_snap s = Some pv"
  shows "pv \<in> H" "snapshot_ok e pv"
proof -
  show "pv \<in> H" using assms(2,3) by (simp add: service_ok_def)
  then show "snapshot_ok e pv" by (rule coherent_ok [OF assms(1)])
qed

lemma service_ok_policy:
  "service_ok s H \<Longrightarrow> sp \<in> H \<Longrightarrow> fst (sp_policy sp) = fst (sv_policy s) \<Longrightarrow> snd (sp_policy sp) = snd (sv_policy s)"
  unfolding service_ok_def by blast

lemma assemble_ok:
  assumes H: "coherent e H" "service_ok s H" "read_ok r" and cf: "policy_keys_apart e (insert (rd_nodes r) (sp_nodes ` H))"
  shows "snapshot_ok e (assemble e s r)"
proof -
  let ?sp = "assemble e s r"
  have prev: "snapshot_ok e pv \<and> sp_policy_key pv = policy_key e (sp_nodes pv) \<and>
      (fst (sp_policy pv) = fst (sv_policy s) \<longrightarrow> snd (sp_policy pv) = snd (sv_policy s)) \<and>
      (policy_key e (sp_nodes pv) = policy_key e (rd_nodes r) \<longrightarrow> policy_nodes (sp_nodes pv) = policy_nodes (rd_nodes r))"
    if "sv_snap s = Some pv" for pv
  proof -
    have pv: "pv \<in> H" by (rule snapshot_previous [OF H(1,2) that])
    then have "policy_key e (sp_nodes pv) = policy_key e (rd_nodes r) \<longrightarrow> policy_nodes (sp_nodes pv) = policy_nodes (rd_nodes r)"
      using cf unfolding policy_keys_apart_def by blast
    then show ?thesis
      using coherent_ok [OF H(1) pv] service_ok_policy [OF H(2) pv] unfolding assemble_fields by blast
  qed
  have "w_id (snd (sp_protos ?sp ! k)) = sn_id (rd_nodes r ! k) \<and> sp_hashes ?sp ! k = we_hash e (we_node e (snd (sp_protos ?sp ! k)))"
    if k: "k < length (rd_nodes r)" for k
    unfolding protos_nth [OF k] hashes_nth [OF k] entries_nth [OF k]
  proof (rule node_entry_cases [of e "sv_snap s" "sv_alloc s + k" "sn_id (rd_nodes r ! k)"
        "map_node e (sv_config s) (rd_nodes r ! k) (online_count s (sn_id (rd_nodes r ! k)) > 0 \<or> sn_id (rd_nodes r ! k) \<in> set (rd_remote r))"],
      goal_cases)
    case (2 pv j)
    then have ok: "snapshot_ok e pv" using prev by simp
    have "j < length (sp_nodes pv)" "sn_id (sp_nodes pv ! j) = sn_id (rd_nodes r ! k)" using 2 snapshot_index [OF ok] by blast+
    then show ?case using ok 2 by (simp add: snapshot_ok_def)
  qed simp
  then show ?thesis
    using H(3) assemble_compiled [of s e r, OF prev] by (simp add: snapshot_ok_def read_ok_def assemble_fields)
qed

lemma assemble_entries:
  assumes "(a, p) \<in> set (sp_protos (assemble e s r))"
  obtains (fresh) k where "k < length (rd_nodes r)" "a = sv_alloc s + k" "(a, p) = sp_protos (assemble e s r) ! k"
  | (kept) pv j where "sv_snap s = Some pv" "\<exists>i. sp_index pv i = Some j" "(a, p) = sp_protos pv ! j"
proof -
  obtain k where k: "k < length (rd_nodes r)" "(a, p) = sp_protos (assemble e s r) ! k"
    using assms by (auto simp: in_set_conv_nth assemble_fields)
  let ?n = "rd_nodes r ! k"
  let ?p = "map_node e (sv_config s) ?n (online_count s (sn_id ?n) > 0 \<or> sn_id ?n \<in> set (rd_remote r))"
  show thesis
  proof (rule node_entry_cases [of e "sv_snap s" "sv_alloc s + k" "sn_id ?n" ?p], goal_cases)
    case (1 ch)
    then show ?case using k by (intro fresh [OF k(1)]) (simp_all add: protos_nth entries_nth)
  next
    case (2 pv j)
    then show ?case using k by (intro kept [of pv j]) (auto simp: protos_nth entries_nth)
  qed
qed

lemma service_ok_alloc: "service_ok s H \<Longrightarrow> sp \<in> H \<Longrightarrow> (a, p) \<in> set (sp_protos sp) \<Longrightarrow> a < sv_alloc s"
  by (fastforce simp: service_ok_def)

lemma kept_entry:
  assumes H: "coherent e H" "service_ok s H" and "sv_snap s = Some pv" "sp_index pv i = Some j" "(a, p) = sp_protos pv ! j"
  shows "pv \<in> H" "(a, p) \<in> set (sp_protos pv)" "a < sv_alloc s"
proof -
  note pv = snapshot_previous [OF H assms(3)]
  then show "pv \<in> H" by simp
  have "j < length (sp_protos pv)" using snapshot_index [OF pv(2)] assms(4) pv(2) by (simp add: snapshot_ok_def)
  then show mem: "(a, p) \<in> set (sp_protos pv)" using assms(5) by simp
  show "a < sv_alloc s" by (rule service_ok_alloc [OF H(2) pv(1) mem])
qed

lemma assemble_pointers:
  assumes H: "coherent e H" "service_ok s H" and sp: "(a, p) \<in> set (sp_protos (assemble e s r))"
  shows "old \<in> H \<Longrightarrow> (a, q) \<in> set (sp_protos old) \<Longrightarrow> p = q"
    and "(a, q) \<in> set (sp_protos (assemble e s r)) \<Longrightarrow> p = q"
    and "a < sv_alloc s + length (rd_nodes r)"
proof -
  let ?sp = "assemble e s r"
  have old: "p = q" if "old \<in> H" "(a, q) \<in> set (sp_protos old)" "(a, p) \<in> set (sp_protos ?sp)" for old p q
    using that(3)
  proof (cases rule: assemble_entries)
    case (fresh k)
    then show ?thesis using service_ok_alloc [OF H(2) that(1,2)] by simp
  next
    case (kept pv j)
    then obtain i where "sp_index pv i = Some j" by blast
    from kept_entry [OF H kept(1) this kept(3)] show ?thesis
      using coherent_entries [OF H(1) _ that(1) _ that(2) refl, of pv p] by blast
  qed
  show "p = q" if "old \<in> H" "(a, q) \<in> set (sp_protos old)" using old [OF that sp] .
  show "a < sv_alloc s + length (rd_nodes r)"
    using sp
  proof (cases rule: assemble_entries)
    case (kept pv j)
    then obtain i where "sp_index pv i = Some j" by blast
    from kept_entry [OF H kept(1) this kept(3)] show ?thesis by simp
  qed simp
  assume q: "(a, q) \<in> set (sp_protos ?sp)"
  from sp show "p = q"
  proof (cases rule: assemble_entries)
    case (fresh k)
    note fresh_p = fresh
    from q show ?thesis
    proof (cases rule: assemble_entries)
      case (fresh l)
      then show ?thesis using fresh_p by (metis add_left_imp_eq prod.inject)
    next
      case (kept pv j)
      then obtain i where "sp_index pv i = Some j" by blast
      from kept_entry [OF H kept(1) this kept(3)] show ?thesis using fresh_p(2) by simp
    qed
  next
    case (kept pv j)
    then obtain i where "sp_index pv i = Some j" by blast
    from kept_entry [OF H kept(1) this kept(3)] show ?thesis using old [of pv p q] q by blast
  qed
qed

lemma changed_mem:
  assumes "k < length ns" "snd (snd (es ! k))" "length es = length ns"
  shows "sn_id (ns ! k) \<in> set (changed_ids prev ns es)"
proof -
  have "(ns ! k, es ! k) \<in> set (zip ns es)" using assms by (auto simp: set_zip)
  then have "(ns ! k, es ! k) \<in> set (filter (\<lambda>(n, r, h, ch). ch) (zip ns es))" using assms(2) by (auto simp: case_prod_beta)
  then have "ns ! k \<in> set (map fst (filter (\<lambda>(n, r, h, ch). ch) (zip ns es)))" by force
  then have "sn_id (ns ! k) \<in> set (map sn_id (map fst (filter (\<lambda>(n, r, h, ch). ch) (zip ns es))))" unfolding set_map by (rule imageI)
  then show ?thesis unfolding changed_ids_def set_append by (rule UnI1)
qed

lemma assemble_follows:
  assumes ok: "snapshot_ok e (assemble e s r)" and pv: "sv_snap s = Some pv"
  shows "follows pv (assemble e s r)"
  unfolding follows_def
proof (intro ballI)
  let ?sp = "assemble e s r" and ?es = "entries e s (rd_nodes r) (rd_remote r)"
  fix i assume i: "i \<in> dom (sp_index ?sp) - set (sp_changed ?sp)"
  then obtain k where ix: "sp_index ?sp i = Some k" by blast
  then have k: "k < length (rd_nodes r)" "sn_id (rd_nodes r ! k) = i" using snapshot_index [OF ok] by (simp_all add: assemble_fields)
  then have unch: "\<not> snd (snd (?es ! k))" using i changed_mem [of k "rd_nodes r" ?es "sv_snap s"] by (auto simp: assemble_fields)
  let ?n = "rd_nodes r ! k"
  let ?p = "map_node e (sv_config s) ?n (online_count s (sn_id ?n) > 0 \<or> sn_id ?n \<in> set (rd_remote r))"
  show "i \<in> dom (sp_index pv) \<and> entry_of ?sp i = entry_of pv i"
  proof (rule node_entry_cases [of e "sv_snap s" "sv_alloc s + k" "sn_id ?n" ?p], goal_cases)
    case (1 ch)
    then show ?case using unch pv by (simp add: entries_nth [OF k(1)])
  next
    case (2 pv' j)
    then have "sp_index pv i = Some j" "sp_protos ?sp ! k = sp_protos pv ! j"
      using pv k by (simp_all add: protos_nth [OF k(1)] entries_nth [OF k(1)])
    then show ?case using ix by (auto simp: entry_of_def)
  qed
qed

lemma assemble_coherent:
  assumes H: "coherent e H" "service_ok s H" "read_ok r" and cf: "policy_keys_apart e (insert (rd_nodes r) (sp_nodes ` H))"
    and newer: "\<And>pv. sv_snap s = Some pv \<Longrightarrow> sp_version pv < sv_version s"
  shows "coherent e (insert (assemble e s r) H)"
proof -
  let ?sp = "assemble e s r"
  note ok = assemble_ok [OF H cf]
  have pos: "0 < sv_version s" using H(2) by (simp add: service_ok_def)
  have old: "sp_version old < sv_version s" if "old \<in> H" for old
  proof (cases "sv_snap s")
    case None
    then show ?thesis using H(2) that by (simp add: service_ok_def)
  next
    case (Some pv)
    then have "sp_version old \<le> sp_version pv" using H(2) that by (simp add: service_ok_def)
    also have "\<dots> < sv_version s" by (rule newer [OF Some])
    finally show ?thesis .
  qed
  have prev: "sp_prev_version ?sp < sp_version ?sp" using pos newer by (cases "sv_snap s") (simp_all add: assemble_fields)
  have one: "snapshot_ok e sp \<and> sp_policy_key sp = policy_key e (sp_nodes sp) \<and> sp_prev_version sp < sp_version sp"
    if "sp \<in> insert ?sp H" for sp
    using that ok prev coherent_ok [OF H(1)] by (auto simp: assemble_fields)
  have two: "(\<forall>a p q. (a, p) \<in> set (sp_protos sp) \<longrightarrow> (a, q) \<in> set (sp_protos old) \<longrightarrow> p = q) \<and>
        (fst (sp_policy sp) = fst (sp_policy old) \<longrightarrow> snd (sp_policy sp) = snd (sp_policy old)) \<and>
        (sp_version sp = sp_version old \<longrightarrow> sp = old) \<and>
        (sp_version old = sp_prev_version sp \<longrightarrow> follows old sp)"
    if cases: "sp \<in> insert ?sp H" "old \<in> insert ?sp H" for sp old
  proof -
    consider "sp \<in> H" "old \<in> H" | "sp = ?sp" "old = ?sp" | "sp = ?sp" "old \<in> H" | "sp \<in> H" "old = ?sp" using cases by blast
    then show ?thesis
    proof cases
      case 1
      then show ?thesis using H(1) unfolding coherent_def by blast
    next
      case 2
      then show ?thesis using prev assemble_pointers(2) [OF H(1,2)] by auto
    next
      case 3
      have "follows old ?sp" if "sp_version old = sp_prev_version ?sp"
      proof (cases "sv_snap s")
        case None
        then show ?thesis using H(2) 3 by (simp add: service_ok_def)
      next
        case (Some pv)
        then have "old = pv" using coherent_versions(1) [OF H(1) 3(2)] that snapshot_previous(1) [OF H(1,2)] by (simp add: assemble_fields)
        then show ?thesis using assemble_follows [OF ok Some] by simp
      qed
      moreover have "snd (sp_policy ?sp) = snd (sp_policy old)" if "fst (sp_policy ?sp) = fst (sp_policy old)"
        using service_ok_policy [OF H(2) 3(2)] that by (simp add: assemble_fields)
      moreover have "sp_version ?sp \<noteq> sp_version old" using old [OF 3(2)] by (simp add: assemble_fields)
      ultimately show ?thesis using 3(1) assemble_pointers(1) [OF H(1,2) _ 3(2)] by blast
    next
      case 4
      have "sp_version ?sp \<noteq> sp_prev_version sp" "sp_version sp \<noteq> sp_version ?sp"
        using old [OF 4(1)] coherent_ok(3) [OF H(1) 4(1)] by (auto simp: assemble_fields)
      moreover have "snd (sp_policy sp) = snd (sp_policy ?sp)" if "fst (sp_policy sp) = fst (sp_policy ?sp)"
        using service_ok_policy [OF H(2) 4(1)] that by (simp add: assemble_fields)
      moreover have "q = p" if "(a, p) \<in> set (sp_protos sp)" "(a, q) \<in> set (sp_protos ?sp)" for a p q
        using assemble_pointers(1) [OF H(1,2) that(2) 4(1) that(1)] .
      ultimately show ?thesis unfolding 4(2) by metis
    qed
  qed
  show ?thesis unfolding coherent_def
    by (rule conjI, rule ballI, rule one, assumption, rule ballI, rule ballI, rule two)
qed

section \<open>A stream and its client\<close>

text \<open>The server, one map stream and the client at its other end.  The snapshots taken so far and the settings encoded so far
  are kept to state that none collide.\<close>

record sync_state =
  sy_service :: service
  sy_history :: "snapshot set"
  sy_stream :: map_stream
  sy_client :: "network_map option"
  sy_sent :: "network_map set"

definition sync_init :: "svc_config \<Rightarrow> u64 \<Rightarrow> bool \<Rightarrow> sync_state" where
  "sync_init cf i deltas = \<lparr>sy_service = new_service cf, sy_history = {},
     sy_stream = \<lparr>ms_id = i, ms_deltas = deltas, ms_snap = None, ms_settings = []\<rparr>, sy_client = None, sy_sent = {}\<rparr>"

text \<open>What happens to the service apart from taking snapshots: changes are announced, policies installed, servers join and
  leave, exposures are refused, streams start and end.\<close>

inductive service_change :: "service \<Rightarrow> service \<Rightarrow> bool" where
  change_notify: "service_change s (notify b s)"
| change_policy: "service_change s (install_policy p s)"
| change_members: "service_change s (set_members ms s)"
| change_taken: "service_change s (set_taken i ts s)"
| change_start: "stream_start i s = Some s' \<Longrightarrow> service_change s s'"
| change_end: "service_change s (stream_end i s)"

definition client_after :: "network_map option \<Rightarrow> map_response option \<Rightarrow> network_map option" where
  "client_after cur r = (case r of None \<Rightarrow> cur | Some m \<Rightarrow> (case client_receive cur m of Inl _ \<Rightarrow> cur | Inr nm \<Rightarrow> Some nm))"

inductive sync_step :: "wire_env \<Rightarrow> sync_state \<Rightarrow> sync_state \<Rightarrow> bool" for e where
  sync_change: "service_change (sy_service y) s' \<Longrightarrow> sv_version (sy_service y) < - 1 \<Longrightarrow> sync_step e y (y\<lparr>sy_service := s'\<rparr>)"
| sync_take: "take_snapshot e rd (sy_service y) = (so, s') \<Longrightarrow> (\<forall>r. rd = Some r \<longrightarrow> read_ok r) \<Longrightarrow>
    sync_step e y (y\<lparr>sy_service := s', sy_history := sy_history y \<union> set_option so\<rparr>)"
| sync_pull: "sp \<in> sy_history y \<Longrightarrow> sp_index sp (ms_id (sy_stream y)) = Some k \<Longrightarrow>
    stream_next e (sy_service y) sp (sy_stream y) = Inr (r, m) \<Longrightarrow>
    sync_step e y (y\<lparr>sy_stream := m, sy_client := client_after (sy_client y) r,
      sy_sent := insert (settings (sy_service y) sp k) (sy_sent y)\<rparr>)"

inductive sync_reaches :: "wire_env \<Rightarrow> svc_config \<Rightarrow> u64 \<Rightarrow> bool \<Rightarrow> sync_state \<Rightarrow> bool" for e cf i deltas where
  reach_init: "sync_reaches e cf i deltas (sync_init cf i deltas)"
| reach_step: "sync_reaches e cf i deltas y \<Longrightarrow> sync_step e y y' \<Longrightarrow> sync_reaches e cf i deltas y'"

definition stream_ok :: "wire_env \<Rightarrow> sync_state \<Rightarrow> bool" where
  "stream_ok e y \<longleftrightarrow> (\<forall>sp. ms_snap (sy_stream y) = Some sp \<longrightarrow> sp \<in> sy_history y \<and>
     (\<exists>k s0 nm. sp_index sp (ms_id (sy_stream y)) = Some k \<and> settings s0 sp k \<in> sy_sent y \<and>
        ms_settings (sy_stream y) = we_settings e (settings s0 sp k) \<and> sy_client y = Some nm \<and>
        same_map nm (full_map sp k (settings s0 sp k)) \<and>
        (sp_version sp = sv_version (sy_service y) \<longrightarrow> settings s0 sp k = settings (sy_service y) sp k)))"

section \<open>Changes of the service\<close>

lemma version_step: "sv_version s < - 1 \<Longrightarrow> sv_version s < sv_version s + 1"
  by unat_arith

lemma settings_depends:
  assumes "sv_config s' = sv_config s" "sv_members s' = sv_members s"
  shows "settings s' sp k = settings s sp k"
proof -
  have "cluster_info s' = cluster_info s" unfolding cluster_info_def assms ..
  then show ?thesis unfolding settings_def assms(1) by simp
qed

definition extends_service :: "service \<Rightarrow> service \<Rightarrow> bool" where
  "extends_service s s' \<longleftrightarrow> sv_snap s' = sv_snap s \<and> sv_version s \<le> sv_version s' \<and> sv_alloc s \<le> sv_alloc s' \<and>
     (sv_policy s' = sv_policy s \<or> fst (sv_policy s') = sv_alloc s \<and> sv_alloc s < sv_alloc s') \<and>
     (sv_version s' = sv_version s \<longrightarrow> (\<forall>sp k. settings s' sp k = settings s sp k))"

lemma service_change_extends:
  assumes "service_change s s'" "sv_version s < - 1"
  shows "extends_service s s'"
  using assms
proof cases
  case change_notify
  then show ?thesis using version_step [OF assms(2)] by (auto simp: extends_service_def notify_def)
next
  case change_policy
  then show ?thesis using version_step [OF assms(2)] by (auto simp: extends_service_def install_policy_def notify_def)
next
  case change_members
  then show ?thesis using version_step [OF assms(2)] by (auto simp: extends_service_def set_members_def notify_def)
next
  case change_taken
  then show ?thesis by (auto simp: extends_service_def set_taken_def intro: settings_depends)
next
  case change_start
  then show ?thesis using version_step [OF assms(2)]
    by (auto simp: extends_service_def stream_start_def notify_def Let_def intro: settings_depends split: if_splits)
next
  case change_end
  then show ?thesis using version_step [OF assms(2)]
    by (auto simp: extends_service_def stream_end_def notify_def Let_def intro: settings_depends split: if_splits)
qed

lemma extends_service_ok:
  assumes "extends_service s s'" "service_ok s H"
  shows "service_ok s' H"
proof -
  have "sp_version sp \<le> sv_version s' \<and> (\<forall>r \<in> set (sp_protos sp). fst r < sv_alloc s') \<and> fst (sp_policy sp) < sv_alloc s' \<and>
        (fst (sp_policy sp) = fst (sv_policy s') \<longrightarrow> snd (sp_policy sp) = snd (sv_policy s'))" if "sp \<in> H" for sp
  proof -
    have s: "sp_version sp \<le> sv_version s" "\<And>r. r \<in> set (sp_protos sp) \<Longrightarrow> fst r < sv_alloc s" "fst (sp_policy sp) < sv_alloc s"
        "fst (sp_policy sp) = fst (sv_policy s) \<Longrightarrow> snd (sp_policy sp) = snd (sv_policy s)"
      using assms(2) that unfolding service_ok_def by blast+
    have x: "sv_version s \<le> sv_version s'" "sv_alloc s \<le> sv_alloc s'" "sv_policy s' = sv_policy s \<or> fst (sv_policy s') = sv_alloc s"
      using assms(1) unfolding extends_service_def by blast+
    have "\<forall>r \<in> set (sp_protos sp). fst r < sv_alloc s'" using s(2) x(2) less_le_trans by blast
    then show ?thesis using s(1,3,4) x by auto
  qed
  moreover have "0 < sv_version s'" "fst (sv_policy s') < sv_alloc s'" "sv_snap s' = sv_snap s"
    using assms unfolding extends_service_def service_ok_def by (metis less_le_trans)+
  ultimately show ?thesis using assms(2) by (simp add: service_ok_def)
qed

lemma change_stream_ok:
  assumes "stream_ok e y" "extends_service (sy_service y) s'" "service_ok (sy_service y) (sy_history y)"
  shows "stream_ok e (y\<lparr>sy_service := s'\<rparr>)"
proof -
  have "settings s' sp k = settings (sy_service y) sp k \<and> sp_version sp = sv_version (sy_service y)"
    if "sp \<in> sy_history y" "sp_version sp = sv_version s'" for sp k
    using that assms(2,3) unfolding extends_service_def service_ok_def by (metis order.antisym)
  then show ?thesis using assms(1) unfolding stream_ok_def by fastforce
qed

section \<open>Taking snapshots\<close>

text \<open>What a build reads: the database, or what the last snapshot read.\<close>

definition build_read :: "db_read option \<Rightarrow> service \<Rightarrow> db_read option" where
  "build_read rd s =
     (if sv_dirty s then rd else
        case sv_snap s of
          None \<Rightarrow> rd
        | Some pv \<Rightarrow> Some \<lparr>rd_nodes = sp_nodes pv, rd_exposures = sp_exposures pv, rd_chain = sp_lock_chain pv, rd_remote = sp_remote pv\<rparr>)"

definition after_build :: "wire_env \<Rightarrow> db_read \<Rightarrow> service \<Rightarrow> service" where
  "after_build e r s = s\<lparr>sv_dirty := False, sv_alloc := sv_alloc s + length (rd_nodes r), sv_snap := Some (assemble e s r)\<rparr>"

lemma take_snapshot_cases:
  assumes "take_snapshot e rd s = (so, s')"
  obtains (current) pv where "sv_snap s = Some pv" "so = Some pv" "s' = s"
  | (failed) "so = None" "s' = s\<lparr>sv_dirty := True\<rparr>"
  | (built) r where "build_read rd s = Some r" "\<And>pv. sv_snap s = Some pv \<Longrightarrow> sp_version pv < sv_version s"
      "so = Some (assemble e s r)" "s' = after_build e r s"
proof (cases "\<exists>pv. sv_snap s = Some pv \<and> sv_version s \<le> sp_version pv")
  case True
  then obtain pv where "sv_snap s = Some pv" "sv_version s \<le> sp_version pv" by blast
  then show ?thesis using assms by (intro current [of pv]) (simp_all add: take_snapshot_def)
next
  case False
  then have take: "take_snapshot e rd s = (case build_snapshot e rd s of (Some sp, s') \<Rightarrow> (Some sp, s'\<lparr>sv_snap := Some sp\<rparr>) | (None, s') \<Rightarrow> (None, s'))"
    by (auto simp: take_snapshot_def split: option.splits)
  have build: "build_snapshot e rd s = (case build_read rd s of None \<Rightarrow> (None, s\<lparr>sv_dirty := True\<rparr>)
      | Some r \<Rightarrow> (Some (assemble e s r), s\<lparr>sv_dirty := False, sv_alloc := sv_alloc s + length (rd_nodes r)\<rparr>))"
    unfolding build_snapshot_def build_read_def ..
  show ?thesis
  proof (cases "build_read rd s")
    case None
    then show ?thesis using assms by (intro failed) (simp_all add: take build)
  next
    case (Some r)
    then show ?thesis using assms False by (intro built [OF Some]) (auto simp: take build after_build_def not_le)
  qed
qed

lemma build_read_ok:
  assumes "coherent e H" "service_ok s H" "\<forall>r. rd = Some r \<longrightarrow> read_ok r" "build_read rd s = Some r"
  shows "read_ok r"
proof (cases "sv_dirty s \<or> sv_snap s = None")
  case True
  then have "rd = Some r" using assms(4) by (auto simp: build_read_def split: option.splits if_splits)
  then show ?thesis using assms(3) by blast
next
  case False
  then obtain pv where pv: "sv_snap s = Some pv" "rd_nodes r = sp_nodes pv" using assms(4) by (auto simp: build_read_def)
  have "snapshot_ok e pv" by (rule snapshot_previous [OF assms(1,2) pv(1)])
  then show ?thesis using pv(2) by (simp add: snapshot_ok_def read_ok_def)
qed

lemma after_build_ok:
  assumes H: "coherent e H" "service_ok s H" and newer: "\<And>pv. sv_snap s = Some pv \<Longrightarrow> sp_version pv < sv_version s"
  shows "service_ok (after_build e r s) (insert (assemble e s r) H)"
proof -
  let ?s = "after_build e r s"
  have new: "fst x < sv_alloc ?s" if "x \<in> set (sp_protos (assemble e s r))" for x
    using assemble_pointers(3) [OF H, of "fst x" "snd x" r] that by (simp add: after_build_def)
  have "sp_version sp \<le> sv_version ?s \<and> (\<forall>r \<in> set (sp_protos sp). fst r < sv_alloc ?s) \<and> fst (sp_policy sp) < sv_alloc ?s \<and>
        (fst (sp_policy sp) = fst (sv_policy ?s) \<longrightarrow> snd (sp_policy sp) = snd (sv_policy ?s))"
    if "sp \<in> insert (assemble e s r) H" for sp
  proof (cases "sp = assemble e s r")
    case True
    have "fst (sv_policy s) < sv_alloc s" using H(2) by (simp add: service_ok_def)
    then show ?thesis using new unfolding True by (simp add: assemble_fields after_build_def)
  next
    case False
    then have sp: "sp \<in> H" using that by blast
    then have "sp_version sp \<le> sv_version s" "fst (sp_policy sp) < sv_alloc s" "\<forall>r \<in> set (sp_protos sp). fst r < sv_alloc s"
      using H(2) unfolding service_ok_def by blast+
    then show ?thesis using service_ok_policy [OF H(2) sp] by (auto simp: after_build_def)
  qed
  moreover have "0 < sv_version ?s" "fst (sv_policy ?s) < sv_alloc ?s" using H(2) by (simp_all add: service_ok_def after_build_def)
  moreover have "sp_version sp \<le> sv_version s" if "sp \<in> H" for sp using H(2) that unfolding service_ok_def by blast
  ultimately show ?thesis unfolding service_ok_def by (simp add: after_build_def assemble_fields)
qed

lemma take_stream_ok:
  assumes "stream_ok e y" "sv_version s' = sv_version (sy_service y)" "sv_config s' = sv_config (sy_service y)"
    "sv_members s' = sv_members (sy_service y)" "sy_history y \<subseteq> H"
  shows "stream_ok e (y\<lparr>sy_service := s', sy_history := H\<rparr>)"
proof -
  have "settings s' sp k = settings (sy_service y) sp k" for sp k by (rule settings_depends [OF assms(3,4)])
  then show ?thesis using assms(1,5) unfolding stream_ok_def by (fastforce simp: assms(2))
qed

section \<open>Sending\<close>

lemma stream_next_cases:
  assumes nx: "stream_next e s sp m = Inr (r, m')" and k: "sp_index sp (ms_id m) = Some k"
  obtains (same) "map_option sp_version (ms_snap m) = Some (sp_version sp)" "r = None" "m' = m"
  | (full) "m' = m\<lparr>ms_snap := Some sp, ms_settings := we_settings e (settings s sp k)\<rparr>" "r = Some (FullMap (full_map sp k (settings s sp k)))"
  | (delta) old j d where "ms_snap m = Some old" "sp_index old (ms_id m) = Some j"
      "m' = m\<lparr>ms_snap := Some sp, ms_settings := we_settings e (settings s sp k)\<rparr>"
      "d = delta_between old j sp k (ms_id m) (if we_settings e (settings s sp k) \<noteq> ms_settings m then Some (settings s sp k) else None)"
      "delta_empty d \<and> r = None \<or> r = Some (Delta d)"
proof (cases "map_option sp_version (ms_snap m) = Some (sp_version sp)")
  case True
  then show ?thesis using nx by (intro same) (simp_all add: stream_next_def k)
next
  case new: False
  show ?thesis
  proof (cases "\<exists>old j. ms_snap m = Some old \<and> sp_index old (ms_id m) = Some j")
    case False
    then have "stream_next e s sp m = Inr (Some (FullMap (full_map sp k (settings s sp k))),
        m\<lparr>ms_snap := Some sp, ms_settings := we_settings e (settings s sp k)\<rparr>)"
      using new unfolding stream_next_def k by (cases "ms_snap m") (auto simp: Let_def split: option.splits)
    then show ?thesis using nx by (intro full) simp_all
  next
    case True
    then obtain old j where old: "ms_snap m = Some old" "sp_index old (ms_id m) = Some j" by blast
    define d where "d = delta_between old j sp k (ms_id m) (if we_settings e (settings s sp k) \<noteq> ms_settings m then Some (settings s sp k) else None)"
    define m1 where "m1 = m\<lparr>ms_snap := Some sp, ms_settings := we_settings e (settings s sp k)\<rparr>"
    have "stream_next e s sp m = (if delta_empty d then Inr (None, m1)
        else if \<not> ms_deltas m then Inr (Some (FullMap (full_map sp k (settings s sp k))), m1) else Inr (Some (Delta d), m1))"
      using new old unfolding stream_next_def k d_def m1_def by (simp add: Let_def)
    then consider "delta_empty d" "r = None" "m' = m1" | "r = Some (FullMap (full_map sp k (settings s sp k)))" "m' = m1" | "r = Some (Delta d)" "m' = m1"
      using nx by (auto split: if_splits)
    then show ?thesis
    proof cases
      case 2
      then show ?thesis by (intro full) (simp_all add: m1_def)
    qed (rule delta [OF old _ d_def], simp_all add: m1_def)+
  qed
qed

lemma client_after_full [simp]: "client_after cur (Some (FullMap nm)) = Some nm"
  by (simp add: client_after_def client_receive_def)

lemma pull_stream_ok:
  assumes H: "coherent e (sy_history y)" "sp \<in> sy_history y" and ok: "stream_ok e y"
    and cf: "collision_free e (sy_history y) (insert (settings (sy_service y) sp k) (sy_sent y))"
    and k: "sp_index sp (ms_id (sy_stream y)) = Some k" and nx: "stream_next e (sy_service y) sp (sy_stream y) = Inr (r, m)"
  shows "stream_ok e (y\<lparr>sy_stream := m, sy_client := client_after (sy_client y) r,
      sy_sent := insert (settings (sy_service y) sp k) (sy_sent y)\<rparr>)"
  using nx k
proof (cases rule: stream_next_cases)
  case same
  then show ?thesis using ok unfolding stream_ok_def by (fastforce simp: client_after_def)
next
  case full
  then show ?thesis using H(2) k by (auto simp: stream_ok_def same_map_def)
next
  case (delta old j d)
  let ?st = "settings (sy_service y) sp k"
  obtain s0 nm where old: "old \<in> sy_history y" "settings s0 old j \<in> sy_sent y" "ms_settings (sy_stream y) = we_settings e (settings s0 old j)"
      "sy_client y = Some nm" "same_map nm (full_map old j (settings s0 old j))"
    using ok delta(1,2) unfolding stream_ok_def by fastforce
  define se where "se = (if we_settings e ?st \<noteq> ms_settings (sy_stream y) then Some ?st else None)"
  have inj: "inj_on (we_settings e) (insert ?st (sy_sent y))" using cf by (simp add: collision_free_def)
  have se: "?st = settings s0 old j" if "se = None"
    using that old(2,3) inj_onD [OF inj, of ?st "settings s0 old j"] by (auto simp: se_def split: if_splits)
  have se': "?st = x" if "se = Some x" for x using that by (auto simp: se_def split: if_splits)
  note refines = delta_refines [OF H(1,2) old(1) cf delta(2) k settings_bare settings_bare old(5) se se', folded se_def]
  have d: "d = delta_between old j sp k (ms_id (sy_stream y)) se" using delta(4) by (simp add: se_def)
  obtain nm' where "client_after (sy_client y) r = Some nm'" "same_map nm' (full_map sp k ?st)"
  proof (cases "r = None")
    case True
    then show thesis using that [of nm] delta(5) refines(2) old(4) by (simp add: client_after_def d)
  next
    case False
    then have "r = Some (Delta d)" using delta(5) by blast
    then show thesis using that refines(1) old(4) by (auto simp: client_after_def client_receive_def d same_map_def)
  qed
  then show ?thesis using H(2) k delta(3) by (auto simp: stream_ok_def)
qed

section \<open>The invariant\<close>

definition sync_inv :: "wire_env \<Rightarrow> sync_state \<Rightarrow> bool" where
  "sync_inv e y \<longleftrightarrow> coherent e (sy_history y) \<and> service_ok (sy_service y) (sy_history y) \<and> stream_ok e y"

lemma sync_init_inv: "sync_inv e (sync_init cf i deltas)"
  by (simp add: sync_inv_def sync_init_def coherent_def service_ok_def stream_ok_def new_service_def)

lemma sync_step_grows: "sync_step e y y' \<Longrightarrow> sy_history y \<subseteq> sy_history y' \<and> sy_sent y \<subseteq> sy_sent y'"
  by (cases rule: sync_step.cases) auto

text \<open>The server's part of the invariant needs only that the policy keys tell the machines of its snapshots apart.\<close>

definition server_inv :: "wire_env \<Rightarrow> sync_state \<Rightarrow> bool" where
  "server_inv e y \<longleftrightarrow> coherent e (sy_history y) \<and> service_ok (sy_service y) (sy_history y)"

lemma take_server_inv:
  assumes inv: "server_inv e y" and take: "take_snapshot e rd (sy_service y) = (so, s')" "\<forall>r. rd = Some r \<longrightarrow> read_ok r"
    and keys: "policy_keys_apart e (sp_nodes ` (sy_history y \<union> set_option so))"
  shows "server_inv e (y\<lparr>sy_service := s', sy_history := sy_history y \<union> set_option so\<rparr>)"
proof -
  let ?H = "sy_history y" and ?s = "sy_service y"
  have H: "coherent e ?H" "service_ok ?s ?H" using inv by (simp_all add: server_inv_def)
  from take(1) show ?thesis
  proof (cases rule: take_snapshot_cases)
    case (current pv)
    then have "?H \<union> set_option so = ?H" using snapshot_previous(1) [OF H current(1)] by auto
    then show ?thesis using inv current(3) by (simp add: server_inv_def)
  next
    case failed
    then have "service_ok s' ?H" using H(2) by (simp add: service_ok_def)
    then show ?thesis using H(1) failed by (simp add: server_inv_def)
  next
    case (built r)
    note r = build_read_ok [OF H take(2) built(1)]
    have "policy_keys_apart e (insert (rd_nodes r) (sp_nodes ` ?H))" using keys built(3) by (simp add: assemble_fields)
    then have "coherent e (insert (assemble e ?s r) ?H)" by (rule assemble_coherent [OF H r _ built(2)])
    moreover have "service_ok s' (insert (assemble e ?s r) ?H)" unfolding built(4) by (rule after_build_ok [OF H built(2)])
    ultimately show ?thesis unfolding server_inv_def built(3) by simp
  qed
qed

lemma server_step_inv:
  assumes "sync_step e y y'" "server_inv e y" "policy_keys_apart e (sp_nodes ` sy_history y')"
  shows "server_inv e y'"
  using assms(1)
proof cases
  case (sync_change s')
  then show ?thesis using assms(2) extends_service_ok [OF service_change_extends [OF sync_change(2,3)]] by (simp add: server_inv_def)
next
  case (sync_take rd so s')
  then show ?thesis using take_server_inv [OF assms(2) sync_take(2,3)] assms(3) by simp
next
  case (sync_pull sp k r m)
  then show ?thesis using assms(2) by (simp add: server_inv_def)
qed

lemma server_reaches_inv:
  assumes "sync_reaches e cf i deltas y" "policy_keys_apart e (sp_nodes ` sy_history y)"
  shows "server_inv e y"
  using assms
proof (induction rule: sync_reaches.induct)
  case reach_init
  then show ?case using sync_init_inv by (simp add: sync_inv_def server_inv_def)
next
  case (reach_step y y')
  have "policy_keys_apart e (sp_nodes ` sy_history y)"
    using sync_step_grows [OF reach_step(2)] policy_keys_apart_mono [OF reach_step.prems] by blast
  then show ?case using server_step_inv [OF reach_step(2) reach_step.IH reach_step.prems] by blast
qed

lemma take_inv:
  assumes inv: "sync_inv e y" and take: "take_snapshot e rd (sy_service y) = (so, s')" "\<forall>r. rd = Some r \<longrightarrow> read_ok r"
    and cf: "collision_free e (sy_history y \<union> set_option so) S"
  shows "sync_inv e (y\<lparr>sy_service := s', sy_history := sy_history y \<union> set_option so\<rparr>)"
proof -
  let ?H = "sy_history y" and ?s = "sy_service y"
  have ok: "stream_ok e y" and server: "server_inv e y" using inv by (simp_all add: sync_inv_def server_inv_def)
  have "stream_ok e (y\<lparr>sy_service := s', sy_history := ?H \<union> set_option so\<rparr>)"
    by (rule take_stream_ok [OF ok]; use take(1) in \<open>cases rule: take_snapshot_cases\<close>) (auto simp: after_build_def)
  then show ?thesis using take_server_inv [OF server take collision_free_keys [OF cf]] by (simp add: sync_inv_def server_inv_def)
qed

lemma sync_step_inv:
  assumes "sync_step e y y'" "sync_inv e y" "collision_free e (sy_history y') (sy_sent y')"
  shows "sync_inv e y'"
  using assms(1)
proof cases
  case (sync_change s')
  note ext = service_change_extends [OF sync_change(2,3)]
  show ?thesis
    using assms(2) extends_service_ok [OF ext] change_stream_ok [OF _ ext] by (simp add: sync_inv_def sync_change(1))
next
  case (sync_take rd so s')
  then show ?thesis using take_inv [OF assms(2) sync_take(2,3)] assms(3) by simp
next
  case (sync_pull sp k r m)
  have "stream_ok e y'" unfolding sync_pull(1)
    by (rule pull_stream_ok [OF _ sync_pull(2) _ _ sync_pull(3,4)]) (use assms(2,3) in \<open>simp_all add: sync_inv_def sync_pull(1)\<close>)
  then show ?thesis using assms(2) by (simp add: sync_inv_def sync_pull(1))
qed

lemma sync_reaches_inv:
  assumes "sync_reaches e cf i deltas y" "collision_free e (sy_history y) (sy_sent y)"
  shows "sync_inv e y \<and> ms_id (sy_stream y) = i"
  using assms
proof (induction rule: sync_reaches.induct)
  case reach_init
  then show ?case using sync_init_inv by (simp add: sync_init_def)
next
  case (reach_step y y')
  have "collision_free e (sy_history y) (sy_sent y)"
    using sync_step_grows [OF reach_step(2)] collision_free_mono [OF reach_step.prems] by blast
  then have IH: "sync_inv e y" "ms_id (sy_stream y) = i" using reach_step.IH by simp_all
  have "ms_id (sy_stream y') = ms_id (sy_stream y)" using reach_step(2)
  proof cases
    case (sync_pull sp k r m)
    from sync_pull(4,3) show ?thesis by (cases rule: stream_next_cases) (simp_all add: sync_pull(1))
  qed simp_all
  then show ?case using sync_step_inv [OF reach_step(2) IH(1) reach_step.prems] IH(2) by simp
qed

text \<open>Claim C1: the incremental updates of a map stream implement sending the whole network map every time.  Whatever the server does
  (changes, new policies, servers joining and leaving, other streams), whatever snapshots the stream skips, and whether
  it sends full maps or updates: the map the client has put together is, apart from its version number, the full map of the
  snapshot the stream last handled, and when that snapshot is current it has the server's current settings.\<close>

theorem map_stream_refines:
  assumes "sync_reaches e cf i deltas y" "collision_free e (sy_history y) (sy_sent y)" "ms_snap (sy_stream y) = Some sp"
  shows "\<exists>k s0 nm. sp_index sp i = Some k \<and> sy_client y = Some nm \<and> same_map nm (full_map sp k (settings s0 sp k)) \<and>
    (sp_version sp = sv_version (sy_service y) \<longrightarrow> same_map nm (full_map sp k (settings (sy_service y) sp k)))"
proof -
  have "stream_ok e y" "ms_id (sy_stream y) = i" using sync_reaches_inv [OF assms(1,2)] by (simp_all add: sync_inv_def)
  then show ?thesis using assms(3) unfolding stream_ok_def by (metis (no_types, lifting))
qed

text \<open>The entries and node hashes of the snapshots so far: what the build compares new entries with.\<close>

definition map_entry :: "wire_env \<Rightarrow> service \<Rightarrow> db_read \<Rightarrow> store_node \<Rightarrow> wire_node" where
  "map_entry e s r n = map_node e (sv_config s) n (online_count s (sn_id n) > 0 \<or> sn_id n \<in> set (rd_remote r))"

definition entries_hashed :: "wire_env \<Rightarrow> service \<Rightarrow> db_read \<Rightarrow> bool" where
  "entries_hashed e s r \<longleftrightarrow> (\<forall>pv. sv_snap s = Some pv \<longrightarrow>
     inj_on (\<lambda>p. we_hash e (we_node e p)) (map_entry e s r ` set (rd_nodes r) \<union> snd ` set (sp_protos pv)))"

lemma assemble_entry_values:
  assumes "\<And>pv. sv_snap s = Some pv \<Longrightarrow> snapshot_ok e pv" "entries_hashed e s r"
  shows "map snd (sp_protos (assemble e s r)) = map (map_entry e s r) (rd_nodes r)"
proof (rule nth_equalityI)
  fix k assume "k < length (map snd (sp_protos (assemble e s r)))"
  then have k: "k < length (rd_nodes r)" by (simp add: assemble_fields)
  let ?n = "rd_nodes r ! k"
  have "snd (sp_protos (assemble e s r) ! k) = map_entry e s r ?n"
  proof (rule node_entry_cases [of e "sv_snap s" "sv_alloc s + k" "sn_id ?n" "map_entry e s r ?n"], goal_cases)
    case (1 ch)
    then show ?case by (simp add: protos_nth [OF k] entries_nth [OF k] map_entry_def)
  next
    case (2 pv j)
    note ok = assms(1) [OF 2(1)]
    have j: "j < length (sp_nodes pv)" using snapshot_index [OF ok] 2(2) by blast
    then have "sp_hashes pv ! j = we_hash e (we_node e (snd (sp_protos pv ! j)))" "sp_protos pv ! j \<in> set (sp_protos pv)"
      using ok by (simp_all add: snapshot_ok_def)
    then have "map_entry e s r ?n = snd (sp_protos pv ! j)"
      using assms(2) 2(1,3) k by (auto simp: entries_hashed_def dest: inj_onD)
    then show ?case using 2 by (simp add: protos_nth [OF k] entries_nth [OF k] map_entry_def)
  qed
  then show "map snd (sp_protos (assemble e s r)) ! k = map (map_entry e s r) (rd_nodes r) ! k" using k by (simp add: assemble_fields)
qed (simp add: assemble_fields)

text \<open>Claim C12: building a snapshot on top of the previous one gives what building it from nothing gives: the same entries,
  the same compiled policy and the same filters, although entries whose hash is unchanged, and the compiled policy when nothing
  it reads changed, are taken over.  The hash is collision-free on the texts it is given here (entries compared, and the key texts of
  the snapshots so far); that equal key texts mean equal input of the policy compiler is proved, for machines whose strings have
  no zero byte and whose route texts are prefix-free.\<close>

theorem snapshot_incremental:
  assumes "sync_reaches e cf i deltas y" "read_ok r" "entries_hashed e (sy_service y) r"
    and "key_texts_plain (insert (rd_nodes r) (sp_nodes ` sy_history y))"
    and "inj_on (we_hash e) (policy_key_bytes ` insert (rd_nodes r) (sp_nodes ` sy_history y))"
  shows "let s = sy_service y; sp = assemble e s r; fresh = assemble e (s\<lparr>sv_snap := None\<rparr>) r in
    map snd (sp_protos sp) = map snd (sp_protos fresh) \<and> sp_compiled sp = sp_compiled fresh \<and> sp_filters sp = sp_filters fresh \<and>
    sp_index sp = sp_index fresh \<and> sp_compiled sp = compile (snd (sv_policy s)) (policy_nodes (rd_nodes r))"
proof -
  let ?s = "sy_service y" and ?f = "(sy_service y)\<lparr>sv_snap := None\<rparr>"
  note keys = plain_keys_apart [OF assms(4,5)]
  have "policy_keys_apart e (sp_nodes ` sy_history y)" by (rule policy_keys_apart_mono [OF keys]) auto
  then have H: "coherent e (sy_history y)" "service_ok ?s (sy_history y)"
    using server_reaches_inv [OF assms(1)] by (simp_all add: server_inv_def)
  have "map snd (sp_protos (assemble e ?s r)) = map (map_entry e ?s r) (rd_nodes r)"
    by (rule assemble_entry_values [OF _ assms(3)]) (rule snapshot_previous [OF H])
  moreover have "map snd (sp_protos (assemble e ?f r)) = map (map_entry e ?f r) (rd_nodes r)"
    by (rule assemble_entry_values) (simp_all add: entries_hashed_def)
  moreover have "map_entry e ?f r = map_entry e ?s r" by (simp add: map_entry_def fun_eq_iff online_count_def)
  moreover have "snapshot_ok e (assemble e ?s r)" by (rule assemble_ok [OF H assms(2) keys])
  then have "sp_compiled (assemble e ?s r) = compile (snd (sv_policy ?s)) (policy_nodes (rd_nodes r))"
      "sp_filters (assemble e ?s r) = build_filters e (sp_compiled (assemble e ?s r)) (rd_nodes r)"
    unfolding snapshot_ok_def assemble_fields by blast+
  moreover have "sp_compiled (assemble e ?f r) = compile (snd (sv_policy ?s)) (policy_nodes (rd_nodes r))"
      "sp_filters (assemble e ?f r) = build_filters e (sp_compiled (assemble e ?f r)) (rd_nodes r)"
    using assemble_compiled [of ?f e r] by simp_all
  ultimately show ?thesis by (simp add: Let_def assemble_fields(4))
qed

section \<open>A run\<close>

text \<open>Two machines; the first one's stream gets a full map, then a server joins and the stream sends an update.\<close>

definition demo_env :: wire_env where
  "demo_env = \<lparr>we_hash = (\<lambda>b. of_nat (length b)), we_node = (\<lambda>p. ascii (w_name p)), we_rule = (\<lambda>r. []),
     we_settings = (\<lambda>st. ascii (concat (nm_relays st))),
     we_codec = \<lparr>lc_state = (\<lambda>_. []), lc_parse_state = (\<lambda>_. None), lc_sig = (\<lambda>_. []), lc_parse_sig = (\<lambda>_. None)\<rparr>\<rparr>"

definition demo_config :: svc_config where
  "demo_config = \<lparr>cf_dns_suffix = [], cf_relays = [''a''], cf_stun = [], cf_gateway_domain = [], cf_gateway_url = [], cf_flow_logs = False,
     cf_quic_relay = [], cf_quic_pin = [], cf_post_quantum = False, cf_server_key = []\<rparr>"

definition demo_machine :: "u64 \<Rightarrow> string \<Rightarrow> addr \<Rightarrow> addr \<Rightarrow> store_node" where
  "demo_machine i name a b = \<lparr>sn_id = i, sn_user_id = 1, sn_user = ''ann'', sn_name = name, sn_machine_key = [], sn_ipv4 = a, sn_ipv6 = b,
     sn_os = [], sn_ephemeral = False, sn_created = 0, sn_last_seen = 0, sn_node_key = [], sn_disco_key = [], sn_endpoints = [],
     sn_advertised = [], sn_routes = [], sn_relay_offered = False, sn_relay_approved = False, sn_lock_signature = [],
     sn_os_version = [], sn_client_version = [], sn_ssh_host_key = [], sn_signed_auth = False\<rparr>"

definition demo_read :: db_read where
  "demo_read = \<lparr>rd_nodes = [demo_machine 1 ''a'' (IPv4 1) (IPv6 1 []), demo_machine 2 ''bb'' (IPv4 2) (IPv6 2 [])],
     rd_exposures = [], rd_chain = [], rd_remote = []\<rparr>"

definition demo_member :: ctl_member where
  "demo_member = \<lparr>cm_public_url = [], cm_relay_url = ''r'', cm_quic_addr = []\<rparr>"

definition demo_first :: snapshot where "demo_first = assemble demo_env (new_service demo_config) demo_read"

definition demo_service :: service where
  "demo_service = set_members [demo_member] (after_build demo_env demo_read (new_service demo_config))"

definition demo_second :: snapshot where "demo_second = assemble demo_env demo_service demo_read"

definition demo_taken :: sync_state where
  "demo_taken = (sync_init demo_config 1 True)\<lparr>sy_service := after_build demo_env demo_read (new_service demo_config),
     sy_history := {demo_first}\<rparr>"

definition demo_full :: sync_state where
  "demo_full = (let st = settings (sy_service demo_taken) demo_first 0 in
     demo_taken\<lparr>sy_stream := \<lparr>ms_id = 1, ms_deltas = True, ms_snap = Some demo_first, ms_settings = we_settings demo_env st\<rparr>,
       sy_client := Some (full_map demo_first 0 st), sy_sent := {st}\<rparr>)"

definition demo_current :: sync_state where
  "demo_current = demo_full\<lparr>sy_service := after_build demo_env demo_read demo_service, sy_history := {demo_first, demo_second}\<rparr>"

lemma demo_read_ok: "read_ok demo_read"
  by (simp add: read_ok_def demo_read_def demo_machine_def policy_nodes_def policy_node_def nodes_wf_def node_ok_def)

lemma demo_index: "sp_index demo_first = [1 \<mapsto> 0, 2 \<mapsto> 1]" "sp_index demo_second = [1 \<mapsto> 0, 2 \<mapsto> 1]"
  by (simp_all add: demo_first_def demo_second_def assemble_fields index_nodes_def demo_read_def demo_machine_def)

lemma demo_versions: "sp_version demo_first = 1" "sp_version demo_second = 2"
  by (simp_all add: demo_first_def demo_second_def assemble_fields demo_service_def set_members_def after_build_def new_service_def
      notify_def demo_member_def)

lemma demo_taken_reached: "sync_reaches demo_env demo_config 1 True demo_taken"
proof -
  have "take_snapshot demo_env (Some demo_read) (new_service demo_config) =
      (Some demo_first, after_build demo_env demo_read (new_service demo_config))"
    by (simp add: take_snapshot_def build_snapshot_def after_build_def demo_first_def new_service_def)
  then have "sync_step demo_env (sync_init demo_config 1 True) demo_taken"
    using sync_take [of demo_env "Some demo_read" "sync_init demo_config 1 True"] demo_read_ok
    by (simp add: demo_taken_def sync_init_def)
  then show ?thesis using reach_init reach_step by blast
qed

lemma demo_full_reached: "sync_reaches demo_env demo_config 1 True demo_full"
proof -
  have "stream_next demo_env (sy_service demo_taken) demo_first (sy_stream demo_taken) =
      Inr (Some (FullMap (full_map demo_first 0 (settings (sy_service demo_taken) demo_first 0))), sy_stream demo_full)"
    by (simp add: stream_next_def demo_taken_def sync_init_def demo_full_def demo_index Let_def)
  then have "sync_step demo_env demo_taken demo_full"
    using sync_pull [of demo_first demo_taken 0 demo_env] by (simp add: demo_full_def demo_taken_def sync_init_def demo_index Let_def)
  then show ?thesis using demo_taken_reached reach_step by blast
qed

lemma demo_reread: "build_read None demo_service = Some demo_read"
  by (simp add: build_read_def demo_service_def set_members_def after_build_def new_service_def notify_def demo_member_def
      assemble_def Let_def case_prod_beta)

lemma demo_joined_reached: "sync_reaches demo_env demo_config 1 True (demo_full\<lparr>sy_service := demo_service\<rparr>)"
proof -
  have s: "sy_service demo_full = after_build demo_env demo_read (new_service demo_config)"
    by (simp add: demo_full_def demo_taken_def Let_def)
  have "sync_step demo_env demo_full (demo_full\<lparr>sy_service := demo_service\<rparr>)"
  proof (rule sync_change)
    show "service_change (sy_service demo_full) demo_service" unfolding s demo_service_def by (rule change_members)
    have "(1 :: u64) < - 1" by (simp add: word_order.not_eq_extremum [symmetric])
    then show "sv_version (sy_service demo_full) < - 1" by (simp add: s after_build_def new_service_def)
  qed
  then show ?thesis using demo_full_reached reach_step by blast
qed

lemma demo_current_reached: "sync_reaches demo_env demo_config 1 True demo_current"
proof -
  have "sync_step demo_env (demo_full\<lparr>sy_service := demo_service\<rparr>) demo_current"
  proof -
    have "sv_snap demo_service = Some demo_first" "sv_version demo_service = 2" "sv_dirty demo_service = False"
      by (simp_all add: demo_service_def set_members_def after_build_def new_service_def notify_def demo_member_def demo_first_def)
    moreover have "\<not> (2 :: u64) \<le> 1" by (simp add: word_le_nat_alt)
    ultimately have "take_snapshot demo_env None demo_service = (Some demo_second, after_build demo_env demo_read demo_service)"
      using demo_reread by (simp add: take_snapshot_def build_snapshot_def build_read_def demo_versions demo_second_def after_build_def)
    then show ?thesis using sync_take [of demo_env None "demo_full\<lparr>sy_service := demo_service\<rparr>"]
      by (simp add: demo_current_def demo_full_def demo_taken_def Let_def insert_commute)
  qed
  then show ?thesis using demo_joined_reached reach_step by blast
qed

lemma demo_same:
  "sp_nodes demo_second = sp_nodes demo_first" "sp_compiled demo_second = sp_compiled demo_first" "sp_filters demo_second = sp_filters demo_first"
proof -
  have s: "sv_snap demo_service = Some demo_first" "fst (sp_policy demo_first) = fst (sv_policy demo_service)"
    by (simp_all add: demo_service_def set_members_def after_build_def new_service_def notify_def demo_member_def demo_first_def assemble_fields)
  have "sp_nodes demo_first = rd_nodes demo_read" "sp_policy_key demo_first = policy_key demo_env (rd_nodes demo_read)"
    by (simp_all add: demo_first_def assemble_fields)
  then show "sp_nodes demo_second = sp_nodes demo_first" "sp_compiled demo_second = sp_compiled demo_first"
      "sp_filters demo_second = sp_filters demo_first"
    using s by (simp_all add: demo_second_def assemble_def Let_def case_prod_beta)
qed

lemma demo_collisions:
  assumes "inj_on (we_settings demo_env) S"
  shows "collision_free demo_env {demo_first, demo_second} S"
  using assms by (auto simp: collision_free_def demo_same rules_of_def)

lemma demo_settings:
  "nm_relays (settings (sy_service demo_taken) demo_first 0) = [''a'']"
  "nm_relays (settings (after_build demo_env demo_read demo_service) demo_second 0) = [''r'']"
  by (simp_all add: settings_def cluster_info_def demo_taken_def demo_service_def set_members_def after_build_def new_service_def
      notify_def demo_member_def demo_config_def Let_def)

definition demo_end :: sync_state where
  "demo_end = (let st = settings (sy_service demo_current) demo_second 0; old = settings (sy_service demo_taken) demo_first 0 in
     demo_current\<lparr>sy_stream := \<lparr>ms_id = 1, ms_deltas = True, ms_snap = Some demo_second, ms_settings = we_settings demo_env st\<rparr>,
       sy_client := client_after (sy_client demo_current) (Some (Delta (delta_between demo_first 0 demo_second 0 1 (Some st)))),
       sy_sent := {st, old}\<rparr>)"

lemma demo_end_reached: "sync_reaches demo_env demo_config 1 True demo_end"
proof -
  let ?st = "settings (sy_service demo_current) demo_second 0" and ?old = "settings (sy_service demo_taken) demo_first 0"
  have "we_settings demo_env ?st \<noteq> we_settings demo_env ?old"
    using demo_settings by (simp add: demo_env_def demo_current_def ascii_def)
  then have "stream_next demo_env (sy_service demo_current) demo_second (sy_stream demo_current) =
      Inr (Some (Delta (delta_between demo_first 0 demo_second 0 1 (Some ?st))), sy_stream demo_end)"
    by (simp add: stream_next_def demo_current_def demo_full_def demo_end_def demo_index demo_versions Let_def delta_empty_def
        delta_between_def case_prod_beta)
  then have "sync_step demo_env demo_current demo_end"
    using sync_pull [of demo_second demo_current 0 demo_env]
    by (simp add: demo_end_def demo_current_def demo_full_def demo_index Let_def)
  then show ?thesis using demo_current_reached reach_step by blast
qed

lemma demo_encodings: "inj_on (we_settings demo_env) (sy_sent demo_end)"
  using demo_settings by (simp add: demo_end_def Let_def demo_current_def inj_on_def demo_env_def ascii_def)

theorem map_stream_refines_witness: "\<exists>nm. sy_client demo_end = Some nm \<and> nm_relays nm = [''r'']"
proof -
  have "collision_free demo_env (sy_history demo_end) (sy_sent demo_end)"
    using demo_collisions [OF demo_encodings] by (simp add: demo_end_def Let_def demo_current_def)
  moreover have "ms_snap (sy_stream demo_end) = Some demo_second" by (simp add: demo_end_def Let_def)
  moreover have "sp_version demo_second = sv_version (sy_service demo_end)"
    by (simp add: demo_versions demo_end_def Let_def demo_current_def after_build_def demo_service_def set_members_def new_service_def
        notify_def demo_member_def)
  ultimately obtain k nm where "sp_index demo_second 1 = Some k" "sy_client demo_end = Some nm"
      "same_map nm (full_map demo_second k (settings (sy_service demo_end) demo_second k))"
    using map_stream_refines [OF demo_end_reached, of demo_second] by blast
  moreover from this(1) have "k = 0" by (simp add: demo_index)
  ultimately show ?thesis using demo_settings(2)
    by (auto elim!: same_mapE simp: full_map_def Let_def demo_end_def demo_current_def)
qed

lemma demo_entries_hashed: "entries_hashed demo_env demo_service demo_read"
proof -
  let ?s = "new_service demo_config" and ?f = "\<lambda>p. we_hash demo_env (we_node demo_env p)"
  have snap: "sv_snap demo_service = Some demo_first"
    by (simp add: demo_service_def set_members_def after_build_def new_service_def notify_def demo_member_def demo_first_def)
  have "map snd (sp_protos demo_first) = map (map_entry demo_env ?s demo_read) (rd_nodes demo_read)"
    unfolding demo_first_def by (rule assemble_entry_values) (simp_all add: entries_hashed_def new_service_def)
  then have "set (map snd (sp_protos demo_first)) = set (map (map_entry demo_env ?s demo_read) (rd_nodes demo_read))" by simp
  moreover have "map_entry demo_env demo_service demo_read = map_entry demo_env ?s demo_read"
    by (simp add: map_entry_def fun_eq_iff online_count_def demo_service_def set_members_def after_build_def new_service_def notify_def)
  ultimately have "map_entry demo_env demo_service demo_read ` set (rd_nodes demo_read) \<union> snd ` set (sp_protos demo_first) =
      map_entry demo_env ?s demo_read ` set (rd_nodes demo_read)" by simp
  moreover have "inj_on ?f (map_entry demo_env ?s demo_read ` set (rd_nodes demo_read))"
    by (simp add: demo_read_def demo_machine_def inj_on_def map_entry_def map_node_def node_proto_def demo_env_def ascii_def)
  ultimately show ?thesis using snap by (simp add: entries_hashed_def)
qed

lemma demo_texts:
  "key_texts_plain {rd_nodes demo_read}" "sp_nodes ` sy_history (demo_full\<lparr>sy_service := demo_service\<rparr>) \<subseteq> {rd_nodes demo_read}"
proof -
  show "key_texts_plain {rd_nodes demo_read}"
    by (auto simp: key_texts_plain_def routes_apart_def demo_read_def demo_machine_def plain_node_def)
  show "sp_nodes ` sy_history (demo_full\<lparr>sy_service := demo_service\<rparr>) \<subseteq> {rd_nodes demo_read}"
    by (auto simp: demo_full_def demo_taken_def Let_def demo_first_def assemble_fields)
qed

theorem snapshot_incremental_witness:
  "sp_compiled demo_second = compile allow_all (policy_nodes (rd_nodes demo_read))"
proof -
  let ?y = "demo_full\<lparr>sy_service := demo_service\<rparr>"
  have N: "insert (rd_nodes demo_read) (sp_nodes ` sy_history ?y) = {rd_nodes demo_read}" using demo_texts(2) by blast
  have "entries_hashed demo_env (sy_service ?y) demo_read" using demo_entries_hashed by simp
  then have "sp_compiled (assemble demo_env (sy_service ?y) demo_read) =
      compile (snd (sv_policy (sy_service ?y))) (policy_nodes (rd_nodes demo_read))"
    using snapshot_incremental [OF demo_joined_reached demo_read_ok] demo_texts(1) unfolding Let_def N by auto
  moreover have "snd (sv_policy demo_service) = allow_all"
    by (simp add: demo_service_def set_members_def after_build_def new_service_def notify_def)
  ultimately show ?thesis by (simp add: demo_second_def)
qed

end
