(* ===== verification/Grants.thy ===== *)
theory Grants
  imports Store_Inv Access Compile_Correct
begin

text \<open>
  Temporary access, from the request to the policy in force: \<^verbatim>\<open>internal/store/access.go\<close> (the table of requests) and
  \<^verbatim>\<open>internal/control/access.go\<close> (the calls that request, decide and revoke, and the grants the policy is given), with
  \<^verbatim>\<open>SetPolicy\<close> and \<^verbatim>\<open>withGrants\<close>.
  A query of the table is a function of the database of theory \<open>Node_Store\<close>; a call of the service is a function of
  the part of its state it works on.
  What is not here: the audit events, the notifications of channels and the messages of the protocol.
  Proved here: what the grants add to who may talk to whom.
\<close>

section \<open>The table of requests\<close>

text \<open>A request with the names of its machine and user, as the queries join them; a duration column is in seconds.\<close>

record access_request =
  ag_row :: access_row
  ag_node_name :: string
  ag_user :: string

definition pending_access_ttl :: duration where
  "pending_access_ttl = 24 * hour"

definition scan_access :: "store_db \<Rightarrow> access_row \<Rightarrow> access_request option" where
  "scan_access db a =
     (case find (\<lambda>n. nr_id n = aq_node a) (db_nodes db) of
        None \<Rightarrow> None
      | Some n \<Rightarrow> map_option (\<lambda>u. \<lparr>ag_row = a, ag_node_name = nr_name n, ag_user = us_name u\<rparr>)
          (find (\<lambda>u. us_id u = nr_user n) (db_users db)))"

definition access_by_id :: "u64 \<Rightarrow> store_db \<Rightarrow> store_error + access_request" where
  "access_by_id i db =
     (case List.map_filter (scan_access db) (filter (\<lambda>a. aq_id a = i) (db_access db)) of [] \<Rightarrow> Inl NotFound | a # _ \<Rightarrow> Inr a)"

definition create_access_request ::
  "time \<Rightarrow> u64 \<Rightarrow> string \<Rightarrow> duration \<Rightarrow> string \<Rightarrow> bool \<Rightarrow> store_db \<Rightarrow> store_error + access_request \<times> store_db"
where
  "create_access_request now node dst d reason auto_approve db =
     (if \<not> node_exists node db \<or> db_next_access db \<ge> max_id then Inl Constraint
      else let i = db_next_access db;
               a = \<lparr>aq_id = i, aq_node = node, aq_dst = dst, aq_duration = d div second, aq_reason = reason,
                    aq_status = (if auto_approve then AccessApproved else AccessPending), aq_requested = unix now,
                    aq_by = (if auto_approve then ''policy'' else []), aq_decided = (if auto_approve then unix now else 0),
                    aq_expires = (if auto_approve then unix (now + d) else 0)\<rparr>;
               db' = db\<lparr>db_access := db_access db @ [a], db_next_access := i + 1\<rparr>
           in case access_by_id i db' of Inl e \<Rightarrow> Inl e | Inr r \<Rightarrow> Inr (r, db'))"

text \<open>\<^verbatim>\<open>ListAccessRequests\<close>: of one machine or of all (0), newest first.\<close>

definition access_open :: "time \<Rightarrow> access_row \<Rightarrow> bool" where
  "access_open now a \<longleftrightarrow> aq_status a = AccessPending \<or> aq_status a = AccessApproved \<and> aq_expires a > unix now"

definition list_access_requests :: "time \<Rightarrow> u64 \<Rightarrow> bool \<Rightarrow> int \<Rightarrow> store_db \<Rightarrow> access_request list" where
  "list_access_requests now node only_open limit db =
     (let limit = (if limit \<le> 0 \<or> limit > 5000 then 500 else limit)
      in take (nat limit) (List.map_filter (scan_access db)
           (rev (sort_key aq_id (filter (\<lambda>a. (node = 0 \<or> aq_node a = node) \<and> (only_open \<longrightarrow> access_open now a)) (db_access db))))))"

definition active_grants :: "time \<Rightarrow> store_db \<Rightarrow> access_request list" where
  "active_grants now db =
     List.map_filter (scan_access db)
       (sort_key aq_id (filter (\<lambda>a. aq_status a = AccessApproved \<and> aq_expires a > unix now) (db_access db)))"

definition put_access :: "u64 \<Rightarrow> (access_row \<Rightarrow> access_row) \<Rightarrow> store_db \<Rightarrow> store_db" where
  "put_access i f db = db\<lparr>db_access := map (\<lambda>a. if aq_id a = i then f a else a) (db_access db)\<rparr>"

definition decide_access_request :: "time \<Rightarrow> u64 \<Rightarrow> bool \<Rightarrow> string \<Rightarrow> store_db \<Rightarrow> store_error + access_request \<times> store_db" where
  "decide_access_request now i approve by db =
     (case access_by_id i db of
        Inl e \<Rightarrow> Inl e
      | Inr r \<Rightarrow>
          if aq_status (ag_row r) \<noteq> AccessPending then Inl NotPending
          else let db' = put_access i (\<lambda>a. a\<lparr>aq_status := if approve then AccessApproved else AccessDenied, aq_by := by, aq_decided := unix now,
                   aq_expires := if approve then unix (now + aq_duration (ag_row r) * second) else 0\<rparr>) db
               in case access_by_id i db' of Inl e \<Rightarrow> Inl e | Inr r' \<Rightarrow> Inr (r', db'))"

definition revoke_access_grant :: "time \<Rightarrow> u64 \<Rightarrow> string \<Rightarrow> store_db \<Rightarrow> store_error + access_request \<times> store_db" where
  "revoke_access_grant now i by db =
     (if list_ex (\<lambda>a. aq_id a = i \<and> aq_status a = AccessApproved \<and> aq_expires a > unix now) (db_access db) then
        let db' = db\<lparr>db_access := map (\<lambda>a. if aq_id a = i \<and> aq_status a = AccessApproved \<and> aq_expires a > unix now
              then a\<lparr>aq_status := AccessRevoked, aq_by := by, aq_decided := unix now\<rparr> else a) (db_access db)\<rparr>
        in case access_by_id i db' of Inl e \<Rightarrow> Inl e | Inr r \<Rightarrow> Inr (r, db')
      else case access_by_id i db of Inl e \<Rightarrow> Inl e | Inr r \<Rightarrow> Inl NotActive)"

definition access_over :: "time \<Rightarrow> access_row \<Rightarrow> bool" where
  "access_over now a \<longleftrightarrow>
     aq_status a = AccessApproved \<and> aq_expires a \<le> unix now \<or>
     aq_status a = AccessPending \<and> aq_requested a \<le> unix (now - pending_access_ttl)"

definition expire_access_requests :: "time \<Rightarrow> store_db \<Rightarrow> access_request list \<times> store_db" where
  "expire_access_requests now db =
     (let done = List.map_filter (scan_access db) (filter (access_over now) (db_access db));
          ids = map (\<lambda>r. aq_id (ag_row r)) done
      in (done, db\<lparr>db_access := map (\<lambda>a. if aq_id a \<in> set ids then a\<lparr>aq_status := AccessExpired\<rparr> else a) (db_access db)\<rparr>))"

section \<open>Grants in the policy\<close>

text \<open>How Go prints a time depends on where the server is: a parameter.\<close>

definition grant_acl :: "(time \<Rightarrow> string) \<Rightarrow> access_request \<Rightarrow> acl" where
  "grant_acl show_time g =
     \<lparr>acl_action = ''accept'', acl_src = [''node:'' @ ag_node_name g], acl_dst = [aq_dst (ag_row g)], acl_src_posture = [],
      acl_origin = ''temporary access #'' @ dec_string (unat (aq_id (ag_row g))) @ '' (until '' @
        show_time (if aq_expires (ag_row g) > 0 then aq_expires (ag_row g) * second else zero_time) @ '')''\<rparr>"

definition with_grants :: "(time \<Rightarrow> string) \<Rightarrow> policy \<Rightarrow> access_request list \<Rightarrow> policy" where
  "with_grants show_time base gs = (if gs = [] then base else base\<lparr>acls := acls base @ map (grant_acl show_time) gs\<rparr>)"

text \<open>The part of \<^verbatim>\<open>Service\<close> these calls work on; \<open>ac_version\<close> counts what \<^verbatim>\<open>notify\<close> adds to the map version.\<close>

record access_state =
  ac_db :: store_db
  ac_base :: policy
  ac_grants :: "access_request list"
  ac_policy :: policy
  ac_version :: nat

definition set_policy :: "(time \<Rightarrow> string) \<Rightarrow> policy \<Rightarrow> access_state \<Rightarrow> access_state" where
  "set_policy show_time p s = s\<lparr>ac_base := p, ac_policy := with_grants show_time p (ac_grants s), ac_version := Suc (ac_version s)\<rparr>"

definition refresh_grants :: "(time \<Rightarrow> string) \<Rightarrow> time \<Rightarrow> bool \<Rightarrow> access_state \<Rightarrow> access_state" where
  "refresh_grants show_time now expire s =
     (let db = (if expire then snd (expire_access_requests now (ac_db s)) else ac_db s); s = s\<lparr>ac_db := db\<rparr>;
          gs = active_grants now db
      in if map (\<lambda>g. aq_id (ag_row g)) gs = map (\<lambda>g. aq_id (ag_row g)) (ac_grants s) then s
         else s\<lparr>ac_grants := gs, ac_policy := with_grants show_time (ac_base s) gs, ac_version := Suc (ac_version s)\<rparr>)"

definition max_pending_per_node :: nat where
  "max_pending_per_node = 5"

datatype access_call_error = ReasonTooLong | AccessRefused request_error | TooManyPending | AccessInternal | AccessNotFound | AccessPrecondition

record access_message =
  am_dst :: string
  am_seconds :: u64
  am_reason :: string

definition access_duration :: "policy \<Rightarrow> node \<Rightarrow> access_message \<Rightarrow> duration" where
  "access_duration base n m =
     (let d = min (int (unat (am_seconds m))) (max_access_duration div second) * second
      in if d = 0 then max (max_request base n (am_dst m)) minute else d)"

text \<open>\<^verbatim>\<open>requestAccess\<close> for the machine \<open>n\<close> (its policy view) with identifier \<open>i\<close>.\<close>

definition request_access ::
  "(time \<Rightarrow> string) \<Rightarrow> time \<Rightarrow> node \<Rightarrow> access_message \<Rightarrow> access_state \<Rightarrow> access_call_error + access_request \<times> access_state"
where
  "request_access show_time now n m s =
     (if length (am_reason m) > 500 then Inl ReasonTooLong
      else let d = access_duration (ac_base s) n m in
        case match_request (ac_base s) n (am_dst m) d of
          Inl e \<Rightarrow> Inl (AccessRefused e)
        | Inr rule \<Rightarrow>
            if length (filter (\<lambda>r. aq_status (ag_row r) = AccessPending) (list_access_requests now (node_id n) True 0 (ac_db s)))
                 \<ge> max_pending_per_node then Inl TooManyPending
            else case create_access_request now (node_id n) (am_dst m) d (am_reason m) (ar_auto_approve rule) (ac_db s) of
                Inl e \<Rightarrow> Inl AccessInternal
              | Inr (r, db) \<Rightarrow>
                  let s = s\<lparr>ac_db := db\<rparr>
                  in Inr (r, if ar_auto_approve rule then refresh_grants show_time now False s else s))"

definition decide_access :: "(time \<Rightarrow> string) \<Rightarrow> time \<Rightarrow> u64 \<Rightarrow> bool \<Rightarrow> string \<Rightarrow> access_state \<Rightarrow> access_call_error + access_request \<times> access_state" where
  "decide_access show_time now i approve by s =
     (case decide_access_request now i approve by (ac_db s) of
        Inl NotPending \<Rightarrow> Inl AccessPrecondition
      | Inl NotFound \<Rightarrow> Inl AccessNotFound
      | Inl _ \<Rightarrow> Inl AccessInternal
      | Inr (r, db) \<Rightarrow> Inr (r, refresh_grants show_time now False (s\<lparr>ac_db := db\<rparr>)))"

definition revoke_access :: "(time \<Rightarrow> string) \<Rightarrow> time \<Rightarrow> u64 \<Rightarrow> string \<Rightarrow> access_state \<Rightarrow> access_call_error + access_state" where
  "revoke_access show_time now i by s =
     (case revoke_access_grant now i by (ac_db s) of
        Inl NotActive \<Rightarrow> Inl AccessPrecondition
      | Inl NotFound \<Rightarrow> Inl AccessNotFound
      | Inl _ \<Rightarrow> Inl AccessInternal
      | Inr (r, db) \<Rightarrow> Inr (refresh_grants show_time now False (s\<lparr>ac_db := db\<rparr>)))"

section \<open>Grants and who may talk\<close>

lemma no_last_index: "c \<notin> set s \<Longrightarrow> last_index_byte c s = None"
  by (induction s) auto

lemma grant_source:
  assumes "name_ok name"
  shows "parse_prefix (''node:'' @ name) = None" "matches p (''node:'' @ name) n \<longleftrightarrow> node_name n = name"
proof -
  have "CHR ''/'' \<notin> set name"
    using assms by (auto simp: name_ok_def list_all_iff name_char_def label_char_def)
  then have "last_index_byte CHR ''/'' (''node:'' @ name) = None" by (intro no_last_index) simp
  then show "parse_prefix (''node:'' @ name) = None" by (simp only: parse_prefix_def option.case)
  show "matches p (''node:'' @ name) n \<longleftrightarrow> node_name n = name" by (simp add: matches_def has_prefix_def)
qed

text \<open>Whether a selector matches, a posture holds or a destination is reached depends on the policy's groups, postures and access
  list names only, not on its rules.\<close>

lemma acls_irrelevant:
  "matches (p\<lparr>acls := as\<rparr>) s n = matches p s n" "matches_dst (p\<lparr>acls := as\<rparr>) s n = matches_dst p s n"
  "passes (p\<lparr>acls := as\<rparr>) n ps = passes p n ps" "dst_reaches (p\<lparr>acls := as\<rparr>) n = dst_reaches p n"
  "src_prefixes (p\<lparr>acls := as\<rparr>) ns ss ps = src_prefixes p ns ss ps" "in_src (p\<lparr>acls := as\<rparr>) ss ps n = in_src p ss ps n"
proof -
  show m: "matches (p\<lparr>acls := as\<rparr>) s n = matches p s n" for s n by (simp add: matches_def)
  show md: "matches_dst (p\<lparr>acls := as\<rparr>) s n = matches_dst p s n" for s n by (simp add: matches_dst_def m split: option.splits)
  show pa: "passes (p\<lparr>acls := as\<rparr>) n ps = passes p n ps" for n ps by (induction ps) (auto split: option.splits)
  show "dst_reaches (p\<lparr>acls := as\<rparr>) n = dst_reaches p n" by (simp add: dst_reaches_def md fun_eq_iff)
  have ns: "named_src (p\<lparr>acls := as\<rparr>) ss ps = named_src p ss ps" by (simp add: named_src_def fun_eq_iff m pa)
  show "src_prefixes (p\<lparr>acls := as\<rparr>) ns ss ps = src_prefixes p ns ss ps" by (simp add: src_prefixes_def ns)
  show "in_src (p\<lparr>acls := as\<rparr>) ss ps n = in_src p ss ps n" by (simp add: in_src_def ns)
qed

definition granted :: "policy \<Rightarrow> access_request \<Rightarrow> node \<Rightarrow> node \<Rightarrow> bool" where
  "granted base g m n \<longleftrightarrow> node_name m = ag_node_name g \<and> dst_reaches base n (aq_dst (ag_row g))"

lemma grant_joins:
  assumes "nodes_wf nodes" "m \<in> set nodes" "node_addrs m \<noteq> []" "name_ok (ag_node_name g)"
  shows "acl_joins p nodes (grant_acl show g) m n \<longleftrightarrow> granted p g m n"
proof -
  let ?src = "[''node:'' @ ag_node_name g]"
  have named: "named_src p ?src [] k \<longleftrightarrow> node_name k = ag_node_name g" for k
    using grant_source [OF assms(4)] by (simp add: named_src_def del: append.simps)
  have "src_cidrs ?src = []" using grant_source(1) [OF assms(4)] by (simp add: src_cidrs_def del: append.simps)
  then have src: "in_src p ?src [] m \<longleftrightarrow> node_name m = ag_node_name g" by (simp add: in_src_def named covered_by_def list_ex_iff del: append.simps)
  have "src_prefixes p nodes ?src [] \<noteq> []" if "node_name m = ag_node_name g"
  proof -
    obtain x where "x \<in> set (node_addrs m)" using assms(3) by (meson ex_in_conv set_empty)
    then have "\<exists>q \<in> set (src_prefixes p nodes ?src []). contains q x"
      using src_prefixes_cover [OF assms(1)] named that assms(2) by blast
    then show ?thesis by (metis empty_iff list.set(1))
  qed
  then show ?thesis using src by (auto simp: acl_joins_def grant_acl_def granted_def)
qed

lemma with_grants_joins:
  assumes "nodes_wf nodes" "m \<in> set nodes" "node_addrs m \<noteq> []" "\<forall>g \<in> set gs. name_ok (ag_node_name g)"
  shows "policy_joins (with_grants show base gs) nodes m n \<longleftrightarrow> policy_joins base nodes m n \<or> (\<exists>g \<in> set gs. granted base g m n)"
proof -
  have "list_ex (\<lambda>a. acl_joins base nodes a m n) (map (grant_acl show) gs) \<longleftrightarrow> (\<exists>g \<in> set gs. granted base g m n)"
    using grant_joins [OF assms(1-3)] assms(4) by (auto simp: list_ex_iff)
  then show ?thesis
    by (auto simp: with_grants_def policy_joins_def acl_joins_def ssh_joins_def acls_irrelevant)
qed

text \<open>Claim C16: a temporary grant adds exactly what was granted: with the active grants in force, two machines may talk if they may
  by the policy itself, or if one of them has a grant for a destination that reaches the other.\<close>

theorem grants_exact:
  assumes "nodes_wf nodes" "i < length nodes" "j < length nodes" "\<forall>n \<in> set nodes. node_addrs n \<noteq> []" "\<forall>g \<in> set gs. name_ok (ag_node_name g)"
  shows "can_talk (compile (with_grants show_time base gs) nodes) (node_id (nodes ! i)) (node_id (nodes ! j)) \<longleftrightarrow>
    can_talk (compile base nodes) (node_id (nodes ! i)) (node_id (nodes ! j)) \<or>
    i \<noteq> j \<and> (\<exists>g \<in> set gs. granted base g (nodes ! i) (nodes ! j) \<or> granted base g (nodes ! j) (nodes ! i))"
  using with_grants_joins [OF assms(1) _ _ assms(5)] assms(2-4) unfolding can_talk_joins [OF assms(1-3)] by (auto simp: nth_mem)

text \<open>A granted request.\<close>

definition demo_row :: access_row where
  "demo_row = \<lparr>aq_id = 1, aq_node = 1, aq_dst = ''db:5432'', aq_duration = 60, aq_reason = [], aq_status = AccessApproved, aq_requested = 0,
     aq_by = ''policy'', aq_decided = 0, aq_expires = 60\<rparr>"

text \<open>Two machines that the policy itself keeps apart.\<close>

definition demo_pair :: "node list" where
  "demo_pair = [demo_node\<lparr>node_addrs := [IPv4 0x64400001]\<rparr>,
     \<lparr>node_id = 2, node_name = ''server'', node_user = ''db'', node_addrs = [IPv4 0x64400002], node_routes = [], node_posture = []\<rparr>]"

theorem grants_exact_witness:
  "let base = demo_policy\<lparr>acls := []\<rparr>; g = \<lparr>ag_row = demo_row, ag_node_name = ''laptop'', ag_user = ''karan''\<rparr>
   in can_talk (compile (with_grants (\<lambda>_. []) base [g]) demo_pair) 1 2"
proof -
  let ?g = "\<lparr>ag_row = demo_row, ag_node_name = ''laptop'', ag_user = ''karan''\<rparr>" and ?b = "demo_policy\<lparr>acls := []\<rparr>"
  have "nodes_wf demo_pair" by (simp add: nodes_wf_def node_ok_def demo_pair_def demo_node_def)
  moreover have "name_ok ''laptop''" by (simp add: name_ok_def name_char_def label_char_def)
  moreover have "granted ?b ?g (demo_pair ! 0) (demo_pair ! 1)"
    by (simp add: granted_def demo_pair_def demo_node_def demo_row_def dst_reaches_def matches_dst_def matches_def split_dst_def split_dst_or_empty_def go_eval
        parse_ports_def parse_port_part_def)
  ultimately show ?thesis using grants_exact [of demo_pair 0 1 "[?g]" "\<lambda>_. []" ?b]
    by (simp add: demo_pair_def demo_node_def)
qed

end
