(* ===== verification/Transitions.thy ===== *)
theory Transitions
  imports Main
begin

text \<open>
  State machines: the states reachable by steps from initial ones, and the interface an invariant has.
  Components give their steps as inductive relations and interpret the locale on them.
\<close>

inductive reachable :: "('s \<Rightarrow> bool) \<Rightarrow> ('s \<Rightarrow> 's \<Rightarrow> bool) \<Rightarrow> 's \<Rightarrow> bool" for init step where
  reachable_init: "init s \<Longrightarrow> reachable init step s"
| reachable_step: "reachable init step s \<Longrightarrow> step s t \<Longrightarrow> reachable init step t"

locale invariant =
  fixes init :: "'s \<Rightarrow> bool" and step :: "'s \<Rightarrow> 's \<Rightarrow> bool" and inv :: "'s \<Rightarrow> bool"
  assumes init_inv: "init s \<Longrightarrow> inv s" and step_inv: "step s t \<Longrightarrow> inv s \<Longrightarrow> inv t"
begin

lemma always: "reachable init step s \<Longrightarrow> inv s"
  by (induction rule: reachable.induct) (auto intro: init_inv step_inv)

lemma stays: "step\<^sup>*\<^sup>* s t \<Longrightarrow> inv s \<Longrightarrow> inv t"
  by (induction rule: rtranclp_induct) (auto intro: step_inv)

end

lemma reachable_steps: "step\<^sup>*\<^sup>* s t \<Longrightarrow> reachable init step s \<Longrightarrow> reachable init step t"
  by (induction rule: rtranclp_induct) (auto intro: reachable_step)

end
