(* ===== verification/Grants_Inv.thy ===== *)
theory Grants_Inv
  imports Grants Transitions
begin

text \<open>
  Temporary access over time: the calls of theory \<open>Grants\<close> and everything that happens to the database as steps, an invariant of the
  states they reach, and that a refresh puts exactly the grants in force that are approved and not over.
\<close>

section \<open>What the rest of the store keeps\<close>

text \<open>Everything else that happens to the database leaves the requests alone, but for those of a machine that is deleted, and
  a machine keeps its name and its user.\<close>

definition nodes_kept :: "node_row list \<Rightarrow> node_row list \<Rightarrow> bool" where
  "nodes_kept ns ns' \<longleftrightarrow> (\<forall>n \<in> set ns. \<forall>m \<in> set ns'. nr_id m = nr_id n \<longrightarrow> nr_name m = nr_name n \<and> nr_user m = nr_user n)"

definition users_kept :: "user_row list \<Rightarrow> user_row list \<Rightarrow> bool" where
  "users_kept us us' \<longleftrightarrow> (\<forall>u \<in> set us. \<forall>v \<in> set us'. us_id v = us_id u \<longrightarrow> us_name v = us_name u)"

definition same_access :: "store_db \<Rightarrow> store_db \<Rightarrow> bool" where
  "same_access db db' \<longleftrightarrow> db_access db' = db_access db \<and> db_next_access db' = db_next_access db \<and>
     nr_id ` set (db_nodes db) \<subseteq> nr_id ` set (db_nodes db') \<and> nodes_kept (db_nodes db) (db_nodes db') \<and> users_kept (db_users db) (db_users db')"

lemma inv_node_id: "store_inv db \<Longrightarrow> n \<in> set (db_nodes db) \<Longrightarrow> nr_id n < db_next_node db"
  by (auto simp: store_inv_def rows_ok_def row_ok_def list_all_iff)

lemma inv_user_id: "store_inv db \<Longrightarrow> u \<in> set (db_users db) \<Longrightarrow> us_id u < db_next_user db"
  by (auto simp: store_inv_def users_ok_def list_all_iff)

lemma inv_user_ids: "store_inv db \<Longrightarrow> distinct (map us_id (db_users db))"
  by (simp add: store_inv_def users_ok_def)

lemma nodes_kept_map:
  assumes "store_inv db" "\<And>n. nr_id (g n) = nr_id n \<and> nr_name (g n) = nr_name n \<and> nr_user (g n) = nr_user n"
  shows "nodes_kept (db_nodes db) (map g (db_nodes db))"
  using assms(2) inv_ids [OF assms(1)] by (fastforce simp: nodes_kept_def distinct_map inj_on_def)

lemma nodes_kept_same: "store_inv db \<Longrightarrow> nodes_kept (db_nodes db) (db_nodes db)"
  using nodes_kept_map [of db id] by simp

lemma nodes_kept_append:
  assumes "store_inv db" "nr_id n = db_next_node db"
  shows "nodes_kept (db_nodes db) (db_nodes db @ [n])"
proof -
  have "nr_id m \<noteq> nr_id n" if "m \<in> set (db_nodes db)" for m using inv_node_id [OF assms(1) that] assms(2) by simp
  then show ?thesis using nodes_kept_same [OF assms(1)] unfolding nodes_kept_def by (metis Un_iff empty_iff empty_set list.set(2) insert_iff set_append)
qed

lemma users_kept_map:
  assumes "store_inv db" "\<And>u. us_id (g u) = us_id u \<and> us_name (g u) = us_name u"
  shows "users_kept (db_users db) (map g (db_users db))"
  using assms(2) inv_user_ids [OF assms(1)] by (fastforce simp: users_kept_def distinct_map inj_on_def)

lemma users_kept_same: "store_inv db \<Longrightarrow> users_kept (db_users db) (db_users db)"
  using users_kept_map [of db id] by simp

lemma kept_filter:
  "nodes_kept ns ns' \<Longrightarrow> nodes_kept ns (filter P ns')" "users_kept us us' \<Longrightarrow> users_kept us (filter Q us')"
  by (auto simp: nodes_kept_def users_kept_def)

lemma same_access_refl: "store_inv db \<Longrightarrow> same_access db db"
  by (simp add: same_access_def nodes_kept_same users_kept_same)

lemma same_access_frame:
  "store_inv db \<Longrightarrow> db_access db' = db_access db \<Longrightarrow> db_next_access db' = db_next_access db \<Longrightarrow> db_nodes db' = db_nodes db \<Longrightarrow>
     db_users db' = db_users db \<Longrightarrow> same_access db db'"
  by (simp add: same_access_def nodes_kept_same users_kept_same)

lemma same_access_row:
  assumes "store_inv db" "\<And>n. nr_id (f n) = nr_id n \<and> nr_name (f n) = nr_name n \<and> nr_user (f n) = nr_user n"
  shows "same_access db (update_row i f db)"
proof -
  let ?g = "\<lambda>n. if nr_id n = i then f n else n"
  have g: "nr_id (?g n) = nr_id n \<and> nr_name (?g n) = nr_name n \<and> nr_user (?g n) = nr_user n" for n using assms(2) by simp
  have "map nr_id (map ?g (db_nodes db)) = map nr_id (db_nodes db)" unfolding map_map by (rule map_cong) (use g in \<open>simp_all only: comp_apply\<close>)
  from arg_cong [OF this, of set] have "nr_id ` set (map ?g (db_nodes db)) = nr_id ` set (db_nodes db)" unfolding list.set_map .
  then show ?thesis using nodes_kept_map [OF assms(1) g] users_kept_same [OF assms(1)]
    unfolding same_access_def update_row_def by simp
qed

lemma insert_user_access:
  assumes "store_inv db" "insert_user name email subject db = Inr (i, db')"
  shows "same_access db db'"
proof -
  obtain u where db': "db' = db\<lparr>db_users := db_users db @ [u], db_next_user := db_next_user db + 1\<rparr>" and u: "us_id u = db_next_user db"
    using assms(2) by (auto simp: insert_user_def split: if_splits)
  have "us_id v \<noteq> us_id u" if "v \<in> set (db_users db)" for v using inv_user_id [OF assms(1) that] u by simp
  then have "users_kept (db_users db) (db_users db @ [u])" using users_kept_same [OF assms(1)]
    unfolding users_kept_def by (metis Un_iff empty_iff empty_set list.set(2) insert_iff set_append)
  then show ?thesis using assms(1) by (simp add: db' same_access_def nodes_kept_same)
qed

lemma oidc_loop_access: "store_inv db \<Longrightarrow> oidc_loop fuel k base email subject db = Inr (i, db') \<Longrightarrow> same_access db db'"
  by (induction fuel k base email subject db rule: oidc_loop.induct)
    (auto split: sum.splits if_splits dest: insert_user_access)

lemma create_user_access: "store_inv db \<Longrightarrow> create_user name db = Inr (i, db') \<Longrightarrow> same_access db db'"
  by (auto simp: create_user_def split: if_splits dest: insert_user_access)

lemma user_for_oidc_access:
  assumes "store_inv db" "user_for_oidc subject email db = Inr (i, db')"
  shows "same_access db db'"
proof (cases "find (\<lambda>u. us_subject u = Some subject) (db_users db)")
  case None
  then show ?thesis using assms oidc_loop_access by (fastforce simp: user_for_oidc_def Let_def split: if_splits)
next
  case (Some u)
  then have "db' = db\<lparr>db_users := map (\<lambda>v. if us_id v = us_id u then v\<lparr>us_email := email\<rparr> else v) (db_users db)\<rparr>"
    using assms(2) by (auto simp: user_for_oidc_def)
  moreover have "users_kept (db_users db) (map (\<lambda>v. if us_id v = us_id u then v\<lparr>us_email := email\<rparr> else v) (db_users db))"
    by (rule users_kept_map [OF assms(1)]) simp
  ultimately show ?thesis using nodes_kept_same [OF assms(1)] by (simp add: same_access_def)
qed

lemma delete_user_access: "store_inv db \<Longrightarrow> delete_user name db = Inr db' \<Longrightarrow> same_access db db'"
  by (auto simp: delete_user_def same_access_def nodes_kept_same users_kept_same kept_filter split: option.splits if_splits)

lemma key_access:
  "store_inv db \<Longrightarrow> create_preauth_key sha now pre secret user reusable eph ttl db = Inr (plain, db') \<Longrightarrow> same_access db db'"
  "store_inv db \<Longrightarrow> expire_preauth_key now pre db = Inr db' \<Longrightarrow> same_access db db'"
  by (auto simp: create_preauth_key_def expire_preauth_key_def Let_def split: option.splits if_splits intro!: same_access_frame)

lemma insert_node_access:
  assumes "store_inv db" "insert_node sha now rnd p6 uid user pre eph p db = Inr (n, token, db')"
  shows "same_access db db'"
proof -
  have "db' = db\<lparr>db_nodes := db_nodes db @ [n], db_next_node := db_next_node db + 1\<rparr>" "nr_id n = db_next_node db"
    using assms(2) by (auto simp: insert_node_def new_row_def Let_def split: if_splits option.splits)
  then show ?thesis using nodes_kept_append [OF assms(1)] users_kept_same [OF assms(1)] by (auto simp: same_access_def)
qed

lemma register_access:
  assumes "store_inv db"
  shows "register_node sha now rnd6 rnd p db = Inr (n, token, db') \<Longrightarrow> same_access db db'"
    "register_node_for_user sha now rnd6 rnd uid p db = Inr (n, token, db') \<Longrightarrow> same_access db db'"
proof -
  obtain x where x: "db_ipv6 db = Some x" using assms by (auto simp: store_inv_def)
  show "same_access db db'" if reg: "register_node sha now rnd6 rnd p db = Inr (n, token, db')"
  proof (rule register_node_cases [OF reg x])
    fix k u db1
    assume ins: "insert_node sha now rnd x (us_id u) (us_name u) (Some (pk_id k)) (pk_ephemeral k) p db = Inr (n, token, db1)"
      and db': "db' = db1\<lparr>db_keys := map (\<lambda>k'. if pk_id k' = pk_id k then k'\<lparr>pk_used := True\<rparr> else k') (db_keys db1)\<rparr>"
    show ?thesis using insert_node_access [OF assms ins] by (simp add: db' same_access_def)
  qed
  show "register_node_for_user sha now rnd6 rnd uid p db = Inr (n, token, db') \<Longrightarrow> same_access db db'"
    by (auto simp: register_node_for_user_def ipv6_prefix_def x split: option.splits intro: insert_node_access [OF assms])
qed

lemma node_access:
  assumes "store_inv db"
  shows "node_where now cond db = Inr (sn, db') \<Longrightarrow> same_access db db'"
  "same_access db (mark_signed_auth i db)"
  "same_access db (snd (write_node_info now i info db))"
  "same_access db (snd (set_relay_offered i b db))"
  "set_relay_approved i b db = Inr db' \<Longrightarrow> same_access db db'"
  using assms
  by (auto simp: node_where_def mark_signed_auth_def write_node_info_def set_relay_offered_def set_relay_approved_def info_row_def Let_def
      split: option.splits if_splits intro!: same_access_row)

lemma route_access:
  assumes "store_inv db"
  shows "set_advertised_routes i ps db = Inr (ch, db') \<Longrightarrow> same_access db db'"
  "set_route_approved i p b db = Inr db' \<Longrightarrow> same_access db db'"
  "set_exposures i rs db = Inr (res, db') \<Longrightarrow> same_access db db'"
  "set_exposure_approved i name b db = Inr db' \<Longrightarrow> same_access db db'"
  using assms
  by (auto simp: set_advertised_routes_def set_route_approved_def set_exposures_def set_exposure_approved_def Let_def
      split: if_splits intro!: same_access_frame)

lemmas step_access = create_user_access user_for_oidc_access delete_user_access key_access register_access node_access route_access

lemma same_or_deleted: "store_step sha db db' \<Longrightarrow> store_inv db \<Longrightarrow> same_access db db' \<or> (\<exists>i. delete_node i db = Inr db')"
  by (erule store_step.cases; hypsubst; (rule disjI2, rule exI, assumption | rule disjI1, erule (1) step_access [rotated] | simp add: node_access(2-4)))

lemma store_step_access:
  assumes "store_step sha db db'" "store_inv db"
  shows "db_next_access db' = db_next_access db \<and> nodes_kept (db_nodes db) (db_nodes db') \<and> users_kept (db_users db) (db_users db') \<and>
    (db_access db' = db_access db \<and> nr_id ` set (db_nodes db) \<subseteq> nr_id ` set (db_nodes db') \<or>
     (\<exists>i. db_access db' = filter (\<lambda>a. aq_node a \<noteq> i) (db_access db) \<and> nr_id ` set (db_nodes db) \<subseteq> insert i (nr_id ` set (db_nodes db'))))"
  using same_or_deleted [OF assms]
proof
  assume "\<exists>i. delete_node i db = Inr db'"
  then obtain i where "delete_node i db = Inr db'" ..
  then have "db_next_access db' = db_next_access db" "nodes_kept (db_nodes db) (db_nodes db')" "users_kept (db_users db) (db_users db')"
    "db_access db' = filter (\<lambda>a. aq_node a \<noteq> i) (db_access db)" "nr_id ` set (db_nodes db) \<subseteq> insert i (nr_id ` set (db_nodes db'))"
    using assms(2) by (auto simp: delete_node_def nodes_kept_same users_kept_same kept_filter split: if_splits)
  then show ?thesis by blast
qed (simp add: same_access_def)

section \<open>Requests over time\<close>

text \<open>The clock, and the calls that change requests, grants or the policy, one after the other; \<open>store_step\<close> is everything else that
  happens to the database.\<close>

inductive access_step :: "sha_fn \<Rightarrow> (time \<Rightarrow> string) \<Rightarrow> time \<times> access_state \<Rightarrow> time \<times> access_state \<Rightarrow> bool" for sha show_time where
  acc_request: "t \<le> now \<Longrightarrow> request_access show_time now n m s = Inr (r, s') \<Longrightarrow> access_step sha show_time (t, s) (now, s')"
| acc_decide: "t \<le> now \<Longrightarrow> decide_access show_time now i approve by s = Inr (r, s') \<Longrightarrow> access_step sha show_time (t, s) (now, s')"
| acc_revoke: "t \<le> now \<Longrightarrow> revoke_access show_time now i by s = Inr s' \<Longrightarrow> access_step sha show_time (t, s) (now, s')"
| acc_refresh: "t \<le> now \<Longrightarrow> access_step sha show_time (t, s) (now, refresh_grants show_time now expire s)"
| acc_policy: "validate p = [] \<Longrightarrow> access_step sha show_time (t, s) (t, set_policy show_time p s)"
| acc_store: "store_step sha (ac_db s) db \<Longrightarrow> access_step sha show_time (t, s) (t, s\<lparr>ac_db := db\<rparr>)"

definition access_start :: "bytes \<Rightarrow> time \<times> access_state \<Rightarrow> bool" where
  "access_start rnd = (\<lambda>(t, s). s = \<lparr>ac_db = open_db rnd, ac_base = allow_all, ac_grants = [], ac_policy = allow_all, ac_version = 0\<rparr>)"

definition max_access_seconds :: int where
  "max_access_seconds = max_access_duration div second"

text \<open>A request in the table: it asks for at most a week, and if it was granted, it ends within what it asked for.\<close>

definition access_row_ok :: "time \<Rightarrow> access_row \<Rightarrow> bool" where
  "access_row_ok t a \<longleftrightarrow> aq_duration a \<le> max_access_seconds \<and>
     (aq_status a = AccessApproved \<longrightarrow> aq_decided a \<le> unix t \<and> aq_expires a \<le> aq_decided a + aq_duration a + 1)"

text \<open>The grants in force are what the table had when they were read: a row that has the identifier of a grant and is approved is
  the grant's, with the machine's name and user, and a granted request does not become pending again.\<close>

definition grants_ok :: "store_db \<Rightarrow> access_request list \<Rightarrow> bool" where
  "grants_ok db gs \<longleftrightarrow> (\<forall>g \<in> set gs. aq_id (ag_row g) < db_next_access db \<and>
     (\<forall>a \<in> set (db_access db). aq_id a = aq_id (ag_row g) \<longrightarrow>
        aq_status a \<noteq> AccessPending \<and> (aq_status a = AccessApproved \<longrightarrow> scan_access db a = Some g)))"

definition rows_in_order :: "time \<Rightarrow> store_db \<Rightarrow> bool" where
  "rows_in_order t db \<longleftrightarrow> distinct (map aq_id (db_access db)) \<and>
     (\<forall>a \<in> set (db_access db). aq_id a < db_next_access db \<and> access_row_ok t a \<and> node_exists (aq_node a) db)"

definition access_inv :: "(time \<Rightarrow> string) \<Rightarrow> time \<times> access_state \<Rightarrow> bool" where
  "access_inv show_time = (\<lambda>(t, s). store_inv (ac_db s) \<and> validate (ac_base s) = [] \<and>
     ac_policy s = with_grants show_time (ac_base s) (ac_grants s) \<and> rows_in_order t (ac_db s) \<and> grants_ok (ac_db s) (ac_grants s))"

lemma unix_mono: "t \<le> u \<Longrightarrow> unix t \<le> unix u"
  by (simp add: unix_def zdiv_mono1)

lemma row_ok_later: "access_row_ok t a \<Longrightarrow> t \<le> u \<Longrightarrow> access_row_ok u a"
  using unix_mono [of t u] by (auto simp: access_row_ok_def)

lemma access_inv_later: "access_inv sh (t, s) \<Longrightarrow> t \<le> u \<Longrightarrow> access_inv sh (u, s)"
  by (auto simp: access_inv_def rows_in_order_def row_ok_later)

lemma unix_add: "unix (now + d) \<le> unix now + d div second + 1"
proof -
  have "(now + d) div 1000000000 \<le> now div 1000000000 + d div 1000000000 + 1" by linarith
  then show ?thesis by (simp add: unix_def)
qed

section \<open>Reading the table\<close>

lemma scan_row: "scan_access db a = Some g \<Longrightarrow> ag_row g = a"
  by (auto simp: scan_access_def split: option.splits)

lemma scan_frame [simp]: "scan_access (db\<lparr>db_access := as\<rparr>) = scan_access db" "scan_access (db\<lparr>db_next_access := i\<rparr>) = scan_access db"
  by (simp_all add: scan_access_def fun_eq_iff split: option.splits)

lemma map_filter_scan: "g \<in> set (List.map_filter (scan_access db) as) \<longleftrightarrow> ag_row g \<in> set as \<and> scan_access db (ag_row g) = Some g"
proof -
  have "g \<in> set (List.map_filter (scan_access db) as) \<longleftrightarrow> (\<exists>a \<in> set as. scan_access db a = Some g)"
    by (induction as) (auto simp: List.map_filter_simps split: option.splits)
  then show ?thesis using scan_row by metis
qed

lemma active_grants_rows:
  "g \<in> set (active_grants now db) \<longleftrightarrow> ag_row g \<in> set (db_access db) \<and> aq_status (ag_row g) = AccessApproved \<and> unix now < aq_expires (ag_row g) \<and>
     scan_access db (ag_row g) = Some g"
  by (auto simp: active_grants_def map_filter_scan)

lemma access_by_id_row: "access_by_id i db = Inr r \<Longrightarrow> ag_row r \<in> set (db_access db) \<and> aq_id (ag_row r) = i"
proof -
  assume "access_by_id i db = Inr r"
  then have "r \<in> set (List.map_filter (scan_access db) (filter (\<lambda>a. aq_id a = i) (db_access db)))"
    by (auto simp: access_by_id_def split: list.splits)
  then show ?thesis by (auto simp: map_filter_scan)
qed

lemma scan_some:
  assumes "store_inv db" "n \<in> set (db_nodes db)" "nr_id n = aq_node a"
  obtains u where "u \<in> set (db_users db)" "us_id u = nr_user n" "scan_access db a = Some \<lparr>ag_row = a, ag_node_name = nr_name n, ag_user = us_name u\<rparr>"
proof -
  obtain n' where n': "find (\<lambda>n. nr_id n = aq_node a) (db_nodes db) = Some n'" "n' \<in> set (db_nodes db)" "nr_id n' = aq_node a"
    using assms(2,3) by (metis (mono_tags, lifting) find_None_iff find_Some_iff not_None_eq nth_mem)
  then have eq: "n' = n" using assms inv_ids by (metis distinct_map inj_onD)
  have "nr_user n \<in> us_id ` set (db_users db)" using assms(1,2) by (auto simp: store_inv_def rows_ok_def row_ok_def list_all_iff)
  then obtain u where u: "find (\<lambda>u. us_id u = nr_user n) (db_users db) = Some u" "u \<in> set (db_users db)" "us_id u = nr_user n"
    by (metis (mono_tags, lifting) find_None_iff find_Some_iff imageE not_None_eq nth_mem)
  show thesis using that [OF u(2,3)] n'(1) u(1) by (simp add: scan_access_def eq)
qed

lemma scan_kept:
  assumes inv: "store_inv db" "store_inv db'" and kept: "nodes_kept (db_nodes db) (db_nodes db')" "users_kept (db_users db) (db_users db')"
    and ex: "node_exists (aq_node a) db" "node_exists (aq_node a) db'"
  shows "scan_access db' a = scan_access db a"
proof -
  obtain n n' where n: "n \<in> set (db_nodes db)" "nr_id n = aq_node a" and n': "n' \<in> set (db_nodes db')" "nr_id n' = aq_node a"
    using ex by (auto simp: node_exists_def list_ex_iff)
  then have same: "nr_name n' = nr_name n" "nr_user n' = nr_user n" using kept(1) by (auto simp: nodes_kept_def)
  obtain u where u: "u \<in> set (db_users db)" "us_id u = nr_user n" "scan_access db a = Some \<lparr>ag_row = a, ag_node_name = nr_name n, ag_user = us_name u\<rparr>"
    using scan_some [OF inv(1) n] by blast
  obtain v where v: "v \<in> set (db_users db')" "us_id v = nr_user n'" "scan_access db' a = Some \<lparr>ag_row = a, ag_node_name = nr_name n', ag_user = us_name v\<rparr>"
    using scan_some [OF inv(2) n'] by blast
  have "us_name v = us_name u" using kept(2) u v same by (auto simp: users_kept_def)
  then show ?thesis using u(3) v(3) same by simp
qed

section \<open>Every call keeps the invariant\<close>

lemma store_inv_access [simp]: "store_inv (db\<lparr>db_access := as\<rparr>) = store_inv db" "store_inv (db\<lparr>db_next_access := i\<rparr>) = store_inv db"
  by (simp_all add: store_inv_def)

lemma node_exists_access [simp]: "node_exists i (db\<lparr>db_access := as\<rparr>) = node_exists i db" "node_exists i (db\<lparr>db_next_access := j\<rparr>) = node_exists i db"
  by (simp_all add: node_exists_def)

lemma access_inv_db:
  "access_inv sh (t, s) \<Longrightarrow> store_inv db \<Longrightarrow> rows_in_order t db \<Longrightarrow> grants_ok db (ac_grants s) \<Longrightarrow> access_inv sh (t, s\<lparr>ac_db := db\<rparr>)"
  by (simp add: access_inv_def)

text \<open>Changing rows in place: the changed rows are in order, and a row that is approved or pending now was so before or belongs to no grant.\<close>

lemma access_inv_map:
  assumes inv: "access_inv sh (t, s)" and db: "db = (ac_db s)\<lparr>db_access := map f (db_access (ac_db s))\<rparr>"
    and f: "\<And>a. a \<in> set (db_access (ac_db s)) \<Longrightarrow> aq_id (f a) = aq_id a \<and> aq_node (f a) = aq_node a \<and> access_row_ok t (f a)"
    and app: "\<And>a. a \<in> set (db_access (ac_db s)) \<Longrightarrow> aq_status (f a) = AccessApproved \<or> aq_status (f a) = AccessPending \<Longrightarrow>
      f a = a \<or> aq_status a = AccessPending"
  shows "access_inv sh (t, s\<lparr>ac_db := db\<rparr>)"
proof (rule access_inv_db [OF inv])
  show "store_inv db" using inv by (simp add: access_inv_def db)
  have "map aq_id (map f (db_access (ac_db s))) = map aq_id (db_access (ac_db s))" using f by simp
  moreover have "distinct (map aq_id (db_access (ac_db s)))" using inv unfolding access_inv_def rows_in_order_def by auto
  ultimately have "distinct (map aq_id (db_access db))" unfolding db by (metis store_db.select_convs(7) store_db.update_convs(7) store_db.surjective)
  then show "rows_in_order t db" using inv f by (auto simp: access_inv_def rows_in_order_def db)
  have *: "aq_status (f a) \<noteq> AccessPending \<and> (aq_status (f a) = AccessApproved \<longrightarrow> scan_access (ac_db s) (f a) = Some g)"
    if "g \<in> set (ac_grants s)" "a \<in> set (db_access (ac_db s))" "aq_id a = aq_id (ag_row g)" for g a
  proof -
    have "aq_status a \<noteq> AccessPending" "aq_status a = AccessApproved \<Longrightarrow> scan_access (ac_db s) a = Some g"
      using inv that unfolding access_inv_def grants_ok_def by auto
    then show ?thesis using app [OF that(2)] by auto
  qed
  then show "grants_ok db (ac_grants s)" using inv f unfolding access_inv_def grants_ok_def db by auto
qed

lemma decide_db:
  assumes inv: "access_inv sh (t, s)" and dec: "decide_access_request t i approve by (ac_db s) = Inr (r, db)"
  shows "access_inv sh (t, s\<lparr>ac_db := db\<rparr>)"
proof -
  obtain q where q: "access_by_id i (ac_db s) = Inr q" "aq_status (ag_row q) = AccessPending"
    and db: "db = put_access i (\<lambda>a. a\<lparr>aq_status := if approve then AccessApproved else AccessDenied, aq_by := by, aq_decided := unix t,
       aq_expires := if approve then unix (t + aq_duration (ag_row q) * second) else 0\<rparr>) (ac_db s)"
    using dec by (auto simp: decide_access_request_def Let_def split: sum.splits if_splits)
  have row: "ag_row q \<in> set (db_access (ac_db s))" "aq_id (ag_row q) = i" using access_by_id_row [OF q(1)] by auto
  have only: "a = ag_row q" if "a \<in> set (db_access (ac_db s))" "aq_id a = i" for a
    using inv that row unfolding access_inv_def rows_in_order_def by (metis (mono_tags, lifting) case_prodD distinct_map inj_onD)
  have ends: "unix (t + aq_duration (ag_row q) * second) \<le> unix t + aq_duration (ag_row q) + 1"
    using unix_add [of t "aq_duration (ag_row q) * second"] by simp
  have ok: "access_row_ok t a" if "a \<in> set (db_access (ac_db s))" for a using inv that unfolding access_inv_def rows_in_order_def by auto
  show ?thesis
  proof (rule access_inv_map [OF inv db [unfolded put_access_def]], goal_cases)
    case (1 a)
    then show ?case using ok [OF 1] only [OF 1] ends by (cases "aq_id a = i") (simp_all add: access_row_ok_def)
  next
    case (2 a)
    then show ?case using only [OF 2(1)] q(2) by (cases "aq_id a = i") simp_all
  qed
qed

lemma revoke_db:
  assumes inv: "access_inv sh (t, s)" and rev: "revoke_access_grant t i by (ac_db s) = Inr (r, db)"
  shows "access_inv sh (t, s\<lparr>ac_db := db\<rparr>)"
proof -
  let ?f = "\<lambda>a. if aq_id a = i \<and> aq_status a = AccessApproved \<and> aq_expires a > unix t
      then a\<lparr>aq_status := AccessRevoked, aq_by := by, aq_decided := unix t\<rparr> else a"
  have db: "db = (ac_db s)\<lparr>db_access := map ?f (db_access (ac_db s))\<rparr>"
    using rev by (auto simp: revoke_access_grant_def Let_def split: sum.splits if_splits)
  have "access_row_ok t a" if "a \<in> set (db_access (ac_db s))" for a using inv that unfolding access_inv_def rows_in_order_def by auto
  then show ?thesis by (intro access_inv_map [OF inv db]) (auto simp: access_row_ok_def)
qed

lemma expire_db:
  assumes inv: "access_inv sh (t, s)"
  shows "access_inv sh (t, s\<lparr>ac_db := snd (expire_access_requests t (ac_db s))\<rparr>)"
proof -
  have "access_row_ok t a" if "a \<in> set (db_access (ac_db s))" for a using inv that unfolding access_inv_def rows_in_order_def by auto
  then show ?thesis unfolding expire_access_requests_def Let_def snd_conv
    by (intro access_inv_map [OF inv refl]) (auto simp: access_row_ok_def)
qed

lemma create_db:
  assumes inv: "access_inv sh (t, s)" and d: "d \<le> max_access_duration" and cr: "create_access_request t i dst d reason auto_ok (ac_db s) = Inr (r, db)"
  shows "access_inv sh (t, s\<lparr>ac_db := db\<rparr>)"
proof (rule access_inv_db [OF inv])
  define a where "a = \<lparr>aq_id = db_next_access (ac_db s), aq_node = i, aq_dst = dst, aq_duration = d div second, aq_reason = reason,
    aq_status = (if auto_ok then AccessApproved else AccessPending), aq_requested = unix t, aq_by = (if auto_ok then ''policy'' else []),
    aq_decided = (if auto_ok then unix t else 0), aq_expires = (if auto_ok then unix (t + d) else 0)\<rparr>"
  have db: "db = (ac_db s)\<lparr>db_access := db_access (ac_db s) @ [a], db_next_access := db_next_access (ac_db s) + 1\<rparr>"
    and ex: "node_exists i (ac_db s)" and room: "\<not> max_id \<le> db_next_access (ac_db s)"
    using cr by (auto simp: create_access_request_def a_def Let_def split: if_splits sum.splits)
  have old: "aq_id b < db_next_access (ac_db s) \<and> access_row_ok t b \<and> node_exists (aq_node b) (ac_db s)"
    if "b \<in> set (db_access (ac_db s))" for b using inv that unfolding access_inv_def rows_in_order_def by auto
  have "d div second \<le> max_access_seconds" unfolding max_access_seconds_def using d by (simp add: zdiv_mono1)
  then have row: "access_row_ok t a" using unix_add [of t d] by (simp add: access_row_ok_def a_def)
  show "store_inv db" using inv by (simp add: access_inv_def db)
  have "aq_id a \<notin> aq_id ` set (db_access (ac_db s))" using old by (fastforce simp: a_def)
  then show "rows_in_order t db" using inv old row ex id_step [OF room]
    by (auto simp: access_inv_def rows_in_order_def db a_def order.strict_implies_order)
  show "grants_ok db (ac_grants s)" using inv id_step [OF room]
    by (auto simp: access_inv_def grants_ok_def db a_def order.strict_implies_order)
qed

lemma store_db_inv:
  assumes inv: "access_inv sh (t, s)" and st: "store_step sha (ac_db s) db"
  shows "access_inv sh (t, s\<lparr>ac_db := db\<rparr>)"
proof (rule access_inv_db [OF inv])
  have old: "store_inv (ac_db s)" using inv by (simp add: access_inv_def)
  show new: "store_inv db" using store_step_inv [OF st old] .
  note acc = store_step_access [OF st old]
  have sub: "set (db_access db) \<subseteq> set (db_access (ac_db s))" using acc by auto
  have ex: "node_exists (aq_node a) db \<and> node_exists (aq_node a) (ac_db s)" if "a \<in> set (db_access db)" for a
  proof -
    have *: "node_exists (aq_node a) (ac_db s)" using that sub inv unfolding access_inv_def rows_in_order_def by auto
    then have "aq_node a \<in> nr_id ` set (db_nodes (ac_db s))" by (force simp: node_exists_def list_ex_iff)
    then have "aq_node a \<in> nr_id ` set (db_nodes db)" using acc that by auto
    then show ?thesis using * by (auto simp: node_exists_def list_ex_iff)
  qed
  have "distinct (map aq_id (db_access db))" using acc inv unfolding access_inv_def rows_in_order_def by (auto simp: distinct_map_filter)
  then show "rows_in_order t db" using acc sub ex inv unfolding access_inv_def rows_in_order_def by auto
  have "scan_access db a = scan_access (ac_db s) a" if "a \<in> set (db_access db)" for a
    using scan_kept [OF old new] acc ex [OF that] by blast
  then show "grants_ok db (ac_grants s)" using acc sub inv unfolding access_inv_def grants_ok_def by auto
qed

lemma scan_node_row:
  assumes "scan_access db a = Some g"
  shows "\<exists>n \<in> set (db_nodes db). nr_id n = aq_node a \<and> nr_name n = ag_node_name g"
proof -
  obtain n where n: "find (\<lambda>n. nr_id n = aq_node a) (db_nodes db) = Some n" "nr_name n = ag_node_name g"
    using assms by (auto simp: scan_access_def split: option.splits)
  then have "n \<in> set (db_nodes db)" "nr_id n = aq_node a" by (auto simp: find_Some_iff)
  then show ?thesis using n(2) by blast
qed

text \<open>Reading the grants again: identifiers are enough to tell whether they changed.\<close>

lemma grants_ok_active:
  assumes "rows_in_order t db"
  shows "grants_ok db (active_grants now db)"
  unfolding grants_ok_def
proof (intro ballI conjI impI)
  fix g a
  assume g: "g \<in> set (active_grants now db)"
  then have row: "ag_row g \<in> set (db_access db)" "aq_status (ag_row g) = AccessApproved" "scan_access db (ag_row g) = Some g"
    by (auto simp: active_grants_rows)
  then show "aq_id (ag_row g) < db_next_access db" using assms by (auto simp: rows_in_order_def)
  assume "a \<in> set (db_access db)" "aq_id a = aq_id (ag_row g)"
  then have "a = ag_row g" using row(1) assms unfolding rows_in_order_def by (metis distinct_map inj_onD)
  then show "aq_status a \<noteq> AccessPending" "scan_access db a = Some g" using row by auto
qed

lemma active_unchanged:
  assumes "grants_ok db gs" "map (\<lambda>g. aq_id (ag_row g)) (active_grants now db) = map (\<lambda>g. aq_id (ag_row g)) gs"
  shows "gs = active_grants now db"
proof (rule nth_equalityI)
  show len: "length gs = length (active_grants now db)" using arg_cong [OF assms(2), of length] by simp
  fix k
  assume k: "k < length gs"
  let ?g = "active_grants now db ! k"
  have "?g \<in> set (active_grants now db)" using k len by simp
  then have row: "ag_row ?g \<in> set (db_access db)" "aq_status (ag_row ?g) = AccessApproved" "scan_access db (ag_row ?g) = Some ?g"
    by (auto simp: active_grants_rows)
  have "aq_id (ag_row ?g) = aq_id (ag_row (gs ! k))" using assms(2) k len by (metis (no_types, lifting) nth_map)
  then have "scan_access db (ag_row ?g) = Some (gs ! k)" using assms(1) row k unfolding grants_ok_def by (metis nth_mem)
  then show "gs ! k = ?g" using row(3) by simp
qed

lemma refresh_grants_exact:
  assumes "access_inv sh (t, s)"
  shows "access_inv sh (t, refresh_grants sh t expire s) \<and> ac_grants (refresh_grants sh t expire s) = active_grants t (ac_db (refresh_grants sh t expire s))"
proof -
  define s1 where "s1 = s\<lparr>ac_db := if expire then snd (expire_access_requests t (ac_db s)) else ac_db s\<rparr>"
  have inv: "access_inv sh (t, s1)" using expire_db [OF assms] assms by (cases expire) (simp_all add: s1_def)
  show ?thesis
  proof (cases "map (\<lambda>g. aq_id (ag_row g)) (active_grants t (ac_db s1)) = map (\<lambda>g. aq_id (ag_row g)) (ac_grants s1)")
    case True
    then have "refresh_grants sh t expire s = s1" by (auto simp: refresh_grants_def Let_def s1_def)
    then show ?thesis using active_unchanged [OF _ True] inv by (simp add: access_inv_def)
  next
    case False
    then have "refresh_grants sh t expire s = s1\<lparr>ac_grants := active_grants t (ac_db s1),
        ac_policy := with_grants sh (ac_base s1) (active_grants t (ac_db s1)), ac_version := Suc (ac_version s1)\<rparr>"
      by (auto simp: refresh_grants_def Let_def s1_def)
    then show ?thesis using inv grants_ok_active [of t "ac_db s1" t] by (simp add: access_inv_def)
  qed
qed

lemma request_inv:
  assumes inv: "access_inv sh (t, s)" and req: "request_access sh t n m s = Inr (r, s')"
  shows "access_inv sh (t, s')"
proof -
  let ?d = "access_duration (ac_base s) n m"
  obtain rule db where match: "match_request (ac_base s) n (am_dst m) ?d = Inr rule"
    and cr: "create_access_request t (node_id n) (am_dst m) ?d (am_reason m) (ar_auto_approve rule) (ac_db s) = Inr (r, db)"
    and s': "s' = (if ar_auto_approve rule then refresh_grants sh t False (s\<lparr>ac_db := db\<rparr>) else s\<lparr>ac_db := db\<rparr>)"
    using req by (auto simp: request_access_def Let_def split: if_splits sum.splits prod.splits)
  have "validate (ac_base s) = []" using inv by (simp add: access_inv_def)
  from create_db [OF inv match_request_week [OF match this] cr] show ?thesis
    using refresh_grants_exact by (simp add: s')
qed

lemma access_step_inv: "access_step sha sh st st' \<Longrightarrow> access_inv sh st \<Longrightarrow> access_inv sh st'"
proof (induction rule: access_step.induct)
  case (acc_request t now n m s r s')
  then show ?case using request_inv access_inv_later by blast
next
  case (acc_decide t now i approve who s r s')
  then obtain db where "decide_access_request now i approve who (ac_db s) = Inr (r, db)" "s' = refresh_grants sh now False (s\<lparr>ac_db := db\<rparr>)"
    by (auto simp: decide_access_def split: sum.splits store_error.splits prod.splits)
  then show ?case using decide_db refresh_grants_exact access_inv_later [OF acc_decide(3,1)] by blast
next
  case (acc_revoke t now i who s s')
  then obtain r db where "revoke_access_grant now i who (ac_db s) = Inr (r, db)" "s' = refresh_grants sh now False (s\<lparr>ac_db := db\<rparr>)"
    by (auto simp: revoke_access_def split: sum.splits store_error.splits prod.splits)
  then show ?case using revoke_db refresh_grants_exact access_inv_later [OF acc_revoke(3,1)] by blast
next
  case (acc_refresh t now s expire)
  then show ?case using refresh_grants_exact access_inv_later by blast
next
  case (acc_policy p t s)
  then show ?case by (simp add: access_inv_def set_policy_def)
next
  case (acc_store s db t)
  then show ?case using store_db_inv by blast
qed

lemma open_db_access: "db_access (open_db rnd) = []"
  by (simp add: open_db_def ipv6_prefix_def empty_db_def Let_def)

lemma access_start_inv: "access_start rnd st \<Longrightarrow> access_inv sh st"
  by (auto simp: access_start_def access_inv_def open_db_inv allow_all_valid with_grants_def rows_in_order_def grants_ok_def open_db_access)

interpretation requests: invariant "access_start rnd" "access_step sha show_time" "access_inv show_time"
  by unfold_locales (auto intro: access_start_inv access_step_inv)

text \<open>Claim C13: temporary access is temporary: whatever requests, decisions, revocations, policy changes and changes of the database came
  before, once the grants are refreshed the policy in force is the configured policy with one rule for each active grant and nothing else;
  each of these is an approved request in the table of a machine that exists, under that machine's name, that has not expired, and that
  was approved no more than a week (and a second, since times are cut to seconds) before it expires.\<close>

theorem temporary_access_bounded:
  assumes "reachable (access_start rnd) (access_step sha show_time) (t, s)" "t \<le> now" "s' = refresh_grants show_time now expire s"
  shows "ac_policy s' = with_grants show_time (ac_base s) (active_grants now (ac_db s')) \<and>
    (\<forall>g \<in> set (active_grants now (ac_db s')). ag_row g \<in> set (db_access (ac_db s')) \<and> aq_status (ag_row g) = AccessApproved \<and>
       (\<exists>n \<in> set (db_nodes (ac_db s')). nr_id n = aq_node (ag_row g) \<and> nr_name n = ag_node_name g) \<and>
       aq_decided (ag_row g) \<le> unix now \<and> unix now < aq_expires (ag_row g) \<and> aq_expires (ag_row g) \<le> aq_decided (ag_row g) + 7 * 24 * 3600 + 1)"
proof -
  have "access_inv show_time (now, s)" using requests.always [OF assms(1)] access_inv_later assms(2) by blast
  from refresh_grants_exact [OF this, of expire, folded assms(3)]
  have inv: "access_inv show_time (now, s')" and gs: "ac_grants s' = active_grants now (ac_db s')" by auto
  have base: "ac_base s' = ac_base s" by (simp add: assms(3) refresh_grants_def Let_def)
  have pol: "ac_policy s' = with_grants show_time (ac_base s) (active_grants now (ac_db s'))" using inv gs base by (simp add: access_inv_def)
  have "max_access_seconds = 7 * 24 * 3600" by (simp add: max_access_seconds_def max_access_duration_def)
  then have row: "aq_decided a \<le> unix now \<and> aq_expires a \<le> aq_decided a + 7 * 24 * 3600 + 1"
    if "a \<in> set (db_access (ac_db s'))" "aq_status a = AccessApproved" for a
    using inv that unfolding access_inv_def rows_in_order_def access_row_ok_def by force
  have "\<exists>n \<in> set (db_nodes (ac_db s')). nr_id n = aq_node (ag_row g) \<and> nr_name n = ag_node_name g" if "scan_access (ac_db s') (ag_row g) = Some g" for g
    using scan_node_row [OF that] .
  then show ?thesis using pol row by (auto simp: active_grants_rows)
qed

section \<open>An example\<close>

text \<open>Ann's laptop registers, the policy lets every machine ask for the database for an hour, and the laptop asks for a minute.\<close>

lemma demo_policy_valid: "validate demo_policy = []"
  by (simp add: demo_policy_def allow_all_def validate_def validate_groups_def validate_acls_def validate_tests_def validate_ssh_def
     validate_access_rules_def validate_postures_def validate_limits_def check_selector_def check_dst_def
     split_dst_def parse_ports_def parse_port_part_def go_eval)

definition demo_message :: access_message where
  "demo_message = \<lparr>am_dst = ''db:5432'', am_seconds = 60, am_reason = []\<rparr>"

lemma demo_match: "match_request demo_policy demo_node ''db:5432'' 60000000000 = 
  Inr \<lparr>ar_src = [''*''], ar_dst = [''db:5432''], ar_max_duration = [], ar_auto_approve = True\<rparr>"
  by (simp add: match_request_def demo_covering pick_rule_def demo_ar_max)

lemma demo_node_id: "node_id demo_node = 1"
  by (simp add: demo_node_def)

lemma demo_create:
  assumes "store_inv db" "node_exists 1 db" "db_access db = []" "db_next_access db = 1"
  obtains r where "create_access_request 0 1 ''db:5432'' 60000000000 [] True db = Inr (r, db\<lparr>db_access := [demo_row], db_next_access := 2\<rparr>)"
    "active_grants 0 (db\<lparr>db_access := [demo_row], db_next_access := 2\<rparr>) = [r]"
proof -
  obtain n where n: "n \<in> set (db_nodes db)" "nr_id n = aq_node demo_row" using assms(2) by (auto simp: node_exists_def list_ex_iff demo_row_def)
  obtain r where r: "scan_access db demo_row = Some r" using scan_some [OF assms(1) n] by blast
  have "create_access_request 0 1 ''db:5432'' 60000000000 [] True db = Inr (r, db\<lparr>db_access := [demo_row], db_next_access := 2\<rparr>)"
    using assms r by (simp add: create_access_request_def access_by_id_def demo_row_def max_id_def unix_def Let_def List.map_filter_simps
        word_le_nat_alt)
  moreover have "active_grants 0 (db\<lparr>db_access := [demo_row], db_next_access := 2\<rparr>) = [r]"
    using r by (simp add: active_grants_def demo_row_def unix_def List.map_filter_simps)
  ultimately show thesis by (rule that)
qed

lemma demo_access:
  "\<exists>s r. reachable (access_start []) (access_step demo_sha (\<lambda>_. [])) (0, s) \<and> active_grants 0 (ac_db s) = [r] \<and> ag_row r = demo_row \<and>
     ac_base s = demo_policy"
proof -
  let ?reach = "reachable (access_start []) (access_step demo_sha (\<lambda>_. []))" and ?show = "\<lambda>_ :: time. [] :: string"
  let ?s = "\<lambda>db. \<lparr>ac_db = db, ac_base = allow_all, ac_grants = [], ac_policy = allow_all, ac_version = 0\<rparr>"
  have db: "?reach (0, ?s db)" if "store_reaches demo_sha (open_db []) db" for db
    using that unfolding store_reaches_def
  proof (induction rule: rtranclp_induct)
    case base
    show ?case by (rule reachable_init) (simp add: access_start_def)
  next
    case (step d1 d2)
    show ?case using reachable_step [OF step(3) acc_store, of d2] step(2) by simp
  qed
  obtain n db1 where reg: "register_node demo_sha 0 [] ''x'' (demo_params ''wskey-p-s'' ''m1'') demo_db = Inr (n, ''wsnode-x'', db1)"
    using demo_registered by blast
  have reach: "store_reaches demo_sha (open_db []) db1"
    using demo_reach step_register [OF reg] unfolding store_reaches_def by (meson rtranclp.rtrancl_into_rtrancl)
  have inv: "store_inv db1" using store_reaches_inv [OF reach open_db_inv] .
  have demo: "store_inv demo_db" "db_nodes demo_db = []" "db_next_node demo_db = 1" "db_access demo_db = []" "db_next_access demo_db = 1"
    using store_reaches_inv [OF demo_reach open_db_inv] by (simp_all add: demo_db_def open_db_def ipv6_prefix_def empty_db_def Let_def)
  have acc: "db_access db1 = []" "db_next_access db1 = 1" using register_access(1) [OF demo(1) reg] demo by (auto simp: same_access_def)
  have ex: "node_exists 1 db1"
  proof -
    obtain p6 where "db_ipv6 demo_db = Some p6" using demo(1) by (auto simp: store_inv_def)
    then have "db_nodes db1 = [n] \<and> nr_id n = 1" by (rule register_node_cases [OF reg])
      (auto simp: insert_node_def new_row_def demo Let_def split: if_splits option.splits)
    then show ?thesis by (simp add: node_exists_def)
  qed
  let ?db = "db1\<lparr>db_access := [demo_row], db_next_access := 2\<rparr>" and ?p = "set_policy ?show demo_policy (?s db1)"
  obtain r where cr: "create_access_request 0 1 ''db:5432'' 60000000000 [] True db1 = Inr (r, ?db)" and act: "active_grants 0 ?db = [r]"
    using demo_create [OF inv ex acc] by blast
  have p: "?reach (0, ?p)" using reachable_step [OF db [OF reach] acc_policy [OF demo_policy_valid]] .
  have "access_duration demo_policy demo_node demo_message = 60000000000"
    by (simp add: access_duration_def demo_message_def max_access_duration_def)
  then have "request_access ?show 0 demo_node demo_message ?p = Inr (r, refresh_grants ?show 0 False (?p\<lparr>ac_db := ?db\<rparr>))"
    using cr acc by (simp add: request_access_def set_policy_def demo_message_def demo_match list_access_requests_def max_pending_per_node_def
        List.map_filter_simps Let_def demo_node_id)
  then have "?reach (0, refresh_grants ?show 0 False (?p\<lparr>ac_db := ?db\<rparr>))" using reachable_step [OF p acc_request] by blast
  moreover have "ac_db (refresh_grants ?show 0 False (?p\<lparr>ac_db := ?db\<rparr>)) = ?db" "ac_base (refresh_grants ?show 0 False (?p\<lparr>ac_db := ?db\<rparr>)) = demo_policy"
    by (simp_all add: refresh_grants_def set_policy_def Let_def)
  moreover have "ag_row r = demo_row" using act active_grants_rows [of r 0 ?db] by simp
  ultimately show ?thesis using act by metis
qed

theorem temporary_access_bounded_witness:
  "\<exists>s g. reachable (access_start []) (access_step demo_sha (\<lambda>_. [])) (0, s) \<and> ag_row g = demo_row \<and>
     ac_policy (refresh_grants (\<lambda>_. []) 0 False s) = with_grants (\<lambda>_. []) demo_policy [g]"
proof -
  obtain s r where s: "reachable (access_start []) (access_step demo_sha (\<lambda>_. [])) (0, s)" "active_grants 0 (ac_db s) = [r]" "ag_row r = demo_row"
    "ac_base s = demo_policy" using demo_access by blast
  have "ac_db (refresh_grants (\<lambda>_. []) 0 False s) = ac_db s" by (simp add: refresh_grants_def Let_def)
  then show ?thesis using temporary_access_bounded [OF s(1) order_refl refl, of False] s by auto
qed

end
