(* ===== verification/Node_Auth.thy ===== *)
theory Node_Auth
  imports Encodings Node_Names Transitions
begin

text \<open>
  Machine proofs (\<^verbatim>\<open>internal/nodeauth\<close>): a request carries an HMAC, keyed by the X25519 secret between the
  machine's key and the server's, over the request, a time and a nonce, and the server accepts it once.
  X25519, SHA-256 and HMAC are parameters; the time and the nonce are arguments.  Shown: a value is
  accepted once, for the request it was made for only; honest proofs are accepted; and, because the server
  remembers a proof's text rather than what it means, an accepted proof can be written differently and is
  then accepted again.
\<close>

section \<open>Proofs\<close>

text \<open>\<^verbatim>\<open>Authority\<close>: lower case, without a default port.\<close>

definition trim_suffix :: "string \<Rightarrow> string \<Rightarrow> string" where
  "trim_suffix suf s = (if has_suffix suf s then take (length s - length suf) s else s)"

definition authority :: "string \<Rightarrow> string" where
  "authority host = trim_suffix '':80'' (trim_suffix '':443'' (to_lower host))"

type_synonym mac_fn = "bytes \<Rightarrow> bytes \<Rightarrow> bytes"

text \<open>What the sources use of X25519: the public key of a private one, and the shared secret, which fails on
  a public key of the wrong length or of low order.\<close>

record x25519 =
  dh_public :: "bytes \<Rightarrow> bytes"
  dh_shared :: "bytes \<Rightarrow> bytes \<Rightarrow> bytes option"

record crypto =
  cr_dh :: x25519
  cr_sha :: "bytes \<Rightarrow> bytes"
  cr_hmac :: mac_fn

definition scheme :: string where
  "scheme = ''WS-Machine v1 ''"

definition max_skew :: duration where
  "max_skew = 5 * minute"

definition mac_key :: "crypto \<Rightarrow> bytes \<Rightarrow> bytes" where
  "mac_key cr shared = cr_sha cr (ascii ''whalescale node auth v1'' @ [0] @ shared)"

definition int_string :: "int \<Rightarrow> string" where
  "int_string n = (if n < 0 then CHR ''-'' # dec_string (nat (- n)) else dec_string (nat n))"

definition nl :: char where
  "nl = CHR 0x0A"

definition mac_text :: "string \<Rightarrow> string \<Rightarrow> string \<Rightarrow> int \<Rightarrow> bytes \<Rightarrow> bytes \<Rightarrow> string" where
  "mac_text method auth path ts nonce machine =
     method @ [nl] @ auth @ [nl] @ path @ [nl] @ int_string ts @ [nl] @ hex_encode nonce @ [nl] @ hex_encode machine"

definition proof_mac :: "crypto \<Rightarrow> bytes \<Rightarrow> string \<Rightarrow> string \<Rightarrow> string \<Rightarrow> int \<Rightarrow> bytes \<Rightarrow> bytes \<Rightarrow> bytes" where
  "proof_mac cr key method auth path ts nonce machine = cr_hmac cr key (ascii (mac_text method auth path ts nonce machine))"

section \<open>The machine's side\<close>

record signer =
  sg_machine :: bytes
  sg_key :: bytes

definition new_signer :: "crypto \<Rightarrow> string \<Rightarrow> string \<Rightarrow> signer option" where
  "new_signer cr machine_priv server_pub =
     (case (std_decode machine_priv, std_decode server_pub) of
        (Some pb, Some sb) \<Rightarrow>
          if length pb \<noteq> 32 \<or> length sb \<noteq> 32 then None
          else (case dh_shared (cr_dh cr) pb sb of
                  None \<Rightarrow> None
                | Some shared \<Rightarrow> Some \<lparr>sg_machine = dh_public (cr_dh cr) pb, sg_key = mac_key cr shared\<rparr>)
      | _ \<Rightarrow> None)"

text \<open>The random nonce and the time are arguments.\<close>

definition signer_header :: "crypto \<Rightarrow> time \<Rightarrow> bytes \<Rightarrow> signer \<Rightarrow> string \<Rightarrow> string \<Rightarrow> string \<Rightarrow> string" where
  "signer_header cr now nonce s method auth path =
     (let ts = now div second; m = proof_mac cr (sg_key s) method auth path ts nonce (sg_machine s)
      in scheme @ join_with '','' [raw_url_encode (sg_machine s), auth, int_string ts, hex_encode nonce, raw_url_encode m])"

text \<open>\<^verbatim>\<open>Credentials\<close>: proofs once the server's key is known, the bearer token until then.\<close>

record credentials =
  cd_machine :: string
  cd_token :: string
  cd_signer :: "signer option"
  cd_server :: string

definition set_server_key :: "crypto \<Rightarrow> string \<Rightarrow> credentials \<Rightarrow> credentials option" where
  "set_server_key cr k c =
     (case new_signer cr (cd_machine c) k of None \<Rightarrow> None | Some s \<Rightarrow> Some (c\<lparr>cd_signer := Some s, cd_server := k\<rparr>))"

definition credentials_header :: "crypto \<Rightarrow> time \<Rightarrow> bytes \<Rightarrow> credentials \<Rightarrow> string \<Rightarrow> string \<Rightarrow> string \<Rightarrow> string" where
  "credentials_header cr now nonce c method host path =
     (case cd_signer c of
        None \<Rightarrow> ''Bearer '' @ cd_token c
      | Some s \<Rightarrow> signer_header cr now nonce s method (authority host) path)"

definition is_proof :: "string \<Rightarrow> bool" where
  "is_proof h \<longleftrightarrow> has_prefix scheme h"

section \<open>The server's side\<close>

record verifier =
  vf_priv :: bytes
  vf_authorities :: "string list"
  vf_seen :: "(string, time) gomap"
  vf_next :: time

definition new_verifier :: "bytes \<Rightarrow> string list \<Rightarrow> verifier" where
  "new_verifier priv hosts = \<lparr>vf_priv = priv, vf_authorities = map authority hosts, vf_seen = [], vf_next = zero_time\<rparr>"

datatype proof_error = Malformed | BadProof | Stale | Replayed | Elsewhere

record proof_parts =
  pp_machine :: bytes
  pp_authority :: string
  pp_ts :: int
  pp_nonce :: bytes
  pp_mac :: bytes
  pp_id :: string

definition parse_proof :: "string \<Rightarrow> proof_parts option" where
  "parse_proof header =
     (if \<not> has_prefix scheme header then None
      else case split_char CHR '','' (drop (length scheme) header) of
        [p0, p1, p2, p3, p4] \<Rightarrow>
          (case (raw_url_decode p0, atoi p2, hex_decode p3, raw_url_decode p4) of
             (Some machine, Some ts, Some nonce, Some got) \<Rightarrow>
               if length nonce \<noteq> 16 then None
               else Some \<lparr>pp_machine = machine, pp_authority = p1, pp_ts = ts, pp_nonce = nonce, pp_mac = got, pp_id = p3 @ p0\<rparr>
           | _ \<Rightarrow> None)
      | _ \<Rightarrow> None)"

definition check_mac :: "crypto \<Rightarrow> bytes \<Rightarrow> proof_parts \<Rightarrow> string \<Rightarrow> string \<Rightarrow> proof_error option" where
  "check_mac cr priv p method path =
     (if length (pp_machine p) \<noteq> 32 then Some Malformed
      else case dh_shared (cr_dh cr) priv (pp_machine p) of
        None \<Rightarrow> Some BadProof
      | Some shared \<Rightarrow>
          if pp_mac p \<noteq> proof_mac cr (mac_key cr shared) method (pp_authority p) path (pp_ts p) (pp_nonce p) (pp_machine p)
          then Some BadProof else None)"

definition sweep_seen :: "time \<Rightarrow> verifier \<Rightarrow> verifier" where
  "sweep_seen now v =
     (if now > vf_next v
      then v\<lparr>vf_seen := filter (\<lambda>(n, at). \<not> time_sub now at > 2 * max_skew) (vf_seen v), vf_next := now + minute\<rparr>
      else v)"

definition verify_proof :: "crypto \<Rightarrow> time \<Rightarrow> string \<Rightarrow> string \<Rightarrow> string \<Rightarrow> verifier \<Rightarrow> (proof_error + string) \<times> verifier" where
  "verify_proof cr now header method path v =
     (case parse_proof header of
        None \<Rightarrow> (Inl Malformed, v)
      | Some p \<Rightarrow>
          if pp_authority p \<notin> set (vf_authorities v) then (Inl Elsewhere, v)
          else let d = time_sub now (pp_ts p * second) in
            if d > max_skew \<or> d < - max_skew then (Inl Stale, v)
            else case check_mac cr (vf_priv v) p method path of
              Some e \<Rightarrow> (Inl e, v)
            | None \<Rightarrow>
                let v = sweep_seen now v in
                if map_of (vf_seen v) (pp_id p) \<noteq> None then (Inl Replayed, v)
                else (Inr (std_encode (pp_machine p)), v\<lparr>vf_seen := AList.update (pp_id p) now (vf_seen v)\<rparr>))"

section \<open>Texts\<close>

lemma split_char_part: "c \<notin> set s \<Longrightarrow> split_char c (s @ c # t) = s # split_char c t"
  by (induction s) auto

lemma split_char_single: "c \<notin> set s \<Longrightarrow> split_char c s = [s]"
  by (induction s) auto

definition proof_header :: "string \<Rightarrow> string \<Rightarrow> string \<Rightarrow> string \<Rightarrow> string \<Rightarrow> string" where
  "proof_header p0 p1 p2 p3 p4 = scheme @ join_with '','' [p0, p1, p2, p3, p4]"

definition no_comma :: "string \<Rightarrow> bool" where
  "no_comma s \<longleftrightarrow> CHR '','' \<notin> set s"

lemma split_header:
  assumes "no_comma p0" "no_comma p1" "no_comma p2" "no_comma p3" "no_comma p4"
  shows "has_prefix scheme (proof_header p0 p1 p2 p3 p4)"
    "split_char CHR '','' (drop (length scheme) (proof_header p0 p1 p2 p3 p4)) = [p0, p1, p2, p3, p4]"
  using assms by (simp_all add: has_prefix_def proof_header_def no_comma_def split_char_part split_char_single)

lemma hex_digits_in:
  assumes "length al = 16"
  shows "set (concat (map (\<lambda>b. [al ! (unat b div 16), al ! (unat b mod 16)]) (bs :: bytes))) \<subseteq> set al"
proof (induction bs)
  case (Cons b bs)
  have "unat b div 16 < 16" "unat b mod 16 < 16" using unat_bound [of b] by simp_all
  then have "al ! (unat b div 16) \<in> set al" "al ! (unat b mod 16) \<in> set al" using assms by simp_all
  then show ?case using Cons by simp
qed simp

lemma hex_encode_chars: "c \<in> set (hex_encode bs) \<Longrightarrow> c \<in> set ''0123456789abcdef''"
  unfolding hex_encode_def by (rule subsetD [OF hex_digits_in]) simp_all

lemma url_encode_chars: "c \<in> set (raw_url_encode bs) \<Longrightarrow> c \<in> set url_alphabet"
  using digits_text_in [of "b64_digits (map unat bs)" url_alphabet] b64_digits_bound [OF unats_bound [of bs]]
  by (auto simp: raw_url_encode_def alphabets)

lemma dec_string_chars: "c \<in> set (dec_string n) \<Longrightarrow> is_digit c"
proof (induction n rule: dec_string.induct)
  case (1 n)
  have "is_digit (char_of (48 + n mod 10))" by (simp add: is_digit_def)
  then show ?case using 1 by (subst (asm) dec_string.simps) (auto simp: is_digit_def split: if_splits)
qed

lemma encoded_no_comma: "no_comma (raw_url_encode bs)" "no_comma (hex_encode bs)" "no_comma (int_string n)"
proof -
  show "no_comma (raw_url_encode bs)" using url_encode_chars [of "CHR '',''" bs] by (auto simp: no_comma_def url_alphabet_def)
  show "no_comma (hex_encode bs)" using hex_encode_chars [of "CHR '',''" bs] by (auto simp: no_comma_def)
  show "no_comma (int_string n)" using dec_string_chars [of "CHR '',''"] by (auto simp: no_comma_def int_string_def is_digit_def)
qed

lemma encoded_no_nl: "nl \<notin> set (hex_encode bs)" "nl \<notin> set (int_string n)"
proof -
  show "nl \<notin> set (hex_encode bs)" using hex_encode_chars [of nl bs] by (auto simp: nl_def)
  show "nl \<notin> set (int_string n)" using dec_string_chars [of nl] by (auto simp: nl_def int_string_def is_digit_def)
qed

lemma atoi_int_string:
  assumes "- (2 ^ 63) \<le> n" "n < 2 ^ 63"
  shows "atoi (int_string n) = Some n"
proof (cases "n < 0")
  case True
  have "list_all is_digit (dec_string (nat (- n)))" using dec_string_chars by (auto simp: list_all_iff)
  then show ?thesis using True assms(1) by (simp add: atoi_def int_string_def)
next
  case False
  obtain c r where cr: "dec_string (nat n) = c # r" by (cases "dec_string (nat n)") simp_all
  have digits: "list_all is_digit (dec_string (nat n))" using dec_string_chars by (auto simp: list_all_iff)
  then have "is_digit c" by (simp add: cr)
  then have "c \<noteq> CHR ''-''" "c \<noteq> CHR ''+''" by (auto simp: is_digit_def)
  moreover have "int (dec_val (c # r)) = n" using arg_cong [OF cr, of dec_val] False by simp
  ultimately show ?thesis using False digits assms(2) by (simp add: atoi_def int_string_def cr Let_def)
qed

lemma int_string_inj: "int_string m = int_string n \<longleftrightarrow> m = n"
proof
  assume eq: "int_string m = int_string n"
  have neg: "int_string k \<noteq> CHR ''-'' # s" if "\<not> k < 0" for k s
    using dec_string_chars [of "CHR ''-''" "nat k"] that by (auto simp: int_string_def is_digit_def)
  have head: "k < 0 \<Longrightarrow> int_string k = CHR ''-'' # dec_string (nat (- k))" for k by (simp add: int_string_def)
  have "m < 0 \<longleftrightarrow> n < 0" using eq neg head by metis
  then show "m = n" using eq by (auto simp: int_string_def split: if_splits)
qed simp

text \<open>The text under the MAC determines what it was made of, whatever the path is: the method and the server's name have no
  line break, nor have the three last fields.\<close>

lemma first_line: "nl \<notin> set s \<Longrightarrow> nl \<notin> set s' \<Longrightarrow> s @ nl # t = s' @ nl # t' \<Longrightarrow> s = s' \<and> t = t'"
  by (induction s arbitrary: s') (auto simp: Cons_eq_append_conv)

lemma last_line:
  assumes "nl \<notin> set t" "nl \<notin> set t'" "s @ nl # t = s' @ nl # t'"
  shows "s = s' \<and> t = t'"
proof -
  have "rev t @ nl # rev s = rev t' @ nl # rev s'" using arg_cong [OF assms(3), of rev] by simp
  then show ?thesis using first_line [of "rev t" "rev t'" "rev s" "rev s'"] assms(1,2) by simp
qed

lemma mac_text_inj:
  assumes "mac_text m a p ts n k = mac_text m' a' p' ts' n' k'" and "nl \<notin> set m" "nl \<notin> set a" "nl \<notin> set m'" "nl \<notin> set a'"
  shows "m = m' \<and> a = a' \<and> p = p' \<and> ts = ts' \<and> n = n' \<and> k = k'"
proof -
  have eq: "((((m @ nl # a @ nl # p) @ nl # int_string ts) @ nl # hex_encode n) @ nl # hex_encode k) =
      ((((m' @ nl # a' @ nl # p') @ nl # int_string ts') @ nl # hex_encode n') @ nl # hex_encode k')"
    using assms(1) by (simp add: mac_text_def)
  from last_line [OF _ _ eq] have k: "hex_encode k = hex_encode k'"
    and eq: "(((m @ nl # a @ nl # p) @ nl # int_string ts) @ nl # hex_encode n) = (((m' @ nl # a' @ nl # p') @ nl # int_string ts') @ nl # hex_encode n')"
    by (simp_all add: encoded_no_nl)
  from last_line [OF _ _ eq] have n: "hex_encode n = hex_encode n'"
    and eq: "((m @ nl # a @ nl # p) @ nl # int_string ts) = ((m' @ nl # a' @ nl # p') @ nl # int_string ts')" by (simp_all add: encoded_no_nl)
  from last_line [OF _ _ eq] have ts: "int_string ts = int_string ts'" and eq: "m @ nl # a @ nl # p = m' @ nl # a' @ nl # p'"
    by (simp_all add: encoded_no_nl)
  from first_line [OF assms(2,4) eq] have m: "m = m'" and eq: "a @ nl # p = a' @ nl # p'" by simp_all
  have "hex_decode (hex_encode k) = hex_decode (hex_encode k')" "hex_decode (hex_encode n) = hex_decode (hex_encode n')" by (simp_all only: k n)
  then show ?thesis using m first_line [OF assms(3,5) eq] ts by (simp add: int_string_inj)
qed

section \<open>The verifier\<close>

lemma parse_header:
  assumes "no_comma p0" "no_comma p1" "no_comma p2" "no_comma p3" "no_comma p4"
    and "raw_url_decode p0 = Some machine" "atoi p2 = Some ts" "hex_decode p3 = Some nonce" "raw_url_decode p4 = Some got" "length nonce = 16"
  shows "parse_proof (proof_header p0 p1 p2 p3 p4) =
    Some \<lparr>pp_machine = machine, pp_authority = p1, pp_ts = ts, pp_nonce = nonce, pp_mac = got, pp_id = p3 @ p0\<rparr>"
  using assms split_header [OF assms(1-5)] by (simp add: parse_proof_def)

lemma parse_header_Some:
  assumes "no_comma p0" "no_comma p1" "no_comma p2" "no_comma p3" "no_comma p4" and "parse_proof (proof_header p0 p1 p2 p3 p4) = Some p"
  shows "raw_url_decode p0 = Some (pp_machine p)" "atoi p2 = Some (pp_ts p)" "hex_decode p3 = Some (pp_nonce p)"
    "raw_url_decode p4 = Some (pp_mac p)" "length (pp_nonce p) = 16" "pp_authority p = p1" "pp_id p = p3 @ p0"
  using assms(6) split_header [OF assms(1-5)] by (auto simp: parse_proof_def split: option.splits if_splits)

text \<open>What an accepted proof passed.\<close>

lemma verify_accepted:
  assumes "verify_proof cr now header method path v = (Inr k, v')"
  obtains p where "parse_proof header = Some p" "pp_authority p \<in> set (vf_authorities v)"
    "\<bar>time_sub now (pp_ts p * second)\<bar> \<le> max_skew" "check_mac cr (vf_priv v) p method path = None"
    "map_of (vf_seen (sweep_seen now v)) (pp_id p) = None" "k = std_encode (pp_machine p)"
    "v' = (sweep_seen now v)\<lparr>vf_seen := AList.update (pp_id p) now (vf_seen (sweep_seen now v))\<rparr>"
  using assms by (fastforce simp: verify_proof_def Let_def split: option.splits if_splits)

lemma verify_other:
  "verify_proof cr now header method path v = (r, v') \<Longrightarrow> v' = v \<or> v' = sweep_seen now v \<or>
     (\<exists>i. map_of (vf_seen (sweep_seen now v)) i = None \<and> v' = (sweep_seen now v)\<lparr>vf_seen := AList.update i now (vf_seen (sweep_seen now v))\<rparr>)"
  by (auto simp: verify_proof_def Let_def split: option.splits if_splits)

lemma skew_window:
  assumes "\<bar>time_sub now t\<bar> \<le> max_skew"
  shows "t - max_skew \<le> now \<and> now \<le> t + max_skew"
  using assms by (auto simp: time_sub_def max_skew_def max_def min_def abs_le_iff split: if_splits)

lemma map_of_filter_kept: "map_of xs i = Some t \<Longrightarrow> P (i, t) \<Longrightarrow> map_of (filter P xs) i = Some t"
  by (induction xs) (auto split: if_splits)

lemma sweep_None: "map_of (vf_seen v) i = None \<Longrightarrow> map_of (vf_seen (sweep_seen now v)) i = None"
  by (auto simp: sweep_seen_def map_of_eq_None_iff)

text \<open>The clock never goes back; requests are verified one after the other.\<close>

inductive verify_step :: "crypto \<Rightarrow> time \<times> verifier \<Rightarrow> time \<times> verifier \<Rightarrow> bool" for cr where
  "t \<le> now \<Longrightarrow> verify_proof cr now header method path v = (r, v') \<Longrightarrow> verify_step cr (t, v) (now, v')"

text \<open>An accepted proof is remembered until the window it is valid in has passed.\<close>

definition remembers :: "string \<Rightarrow> time \<Rightarrow> time \<times> verifier \<Rightarrow> bool" where
  "remembers i t0 = (\<lambda>(t, v). t0 \<le> t \<and> (t - t0 \<le> 2 * max_skew \<longrightarrow> (\<exists>at \<ge> t0. map_of (vf_seen v) i = Some at)))"

lemma sweep_remembers:
  assumes "remembers i t0 (t, v)" "t \<le> now"
  shows "remembers i t0 (now, sweep_seen now v)"
proof -
  have "\<exists>at \<ge> t0. map_of (vf_seen (sweep_seen now v)) i = Some at" if near: "now - t0 \<le> 2 * max_skew"
  proof -
    obtain at where at: "t0 \<le> at" "map_of (vf_seen v) i = Some at" using assms near by (auto simp: remembers_def)
    moreover have "\<not> time_sub now at > 2 * max_skew" using near at(1) by (simp add: time_sub_def max_skew_def)
    ultimately show ?thesis using map_of_filter_kept [OF at(2)] by (auto simp: sweep_seen_def)
  qed
  then show ?thesis using assms by (auto simp: remembers_def)
qed

lemma remembers_step: "verify_step cr s s' \<Longrightarrow> remembers i t0 s \<Longrightarrow> remembers i t0 s'"
proof (induction rule: verify_step.induct)
  case (1 t now header meth pth v r v')
  have sw: "remembers i t0 (now, sweep_seen now v)" by (rule sweep_remembers [OF 1(3,1)])
  have keep: "remembers i t0 (now, v)" using 1(1,3) by (auto simp: remembers_def)
  from verify_other [OF 1(2)] show ?case
  proof (elim disjE exE conjE)
    fix j assume "v' = (sweep_seen now v)\<lparr>vf_seen := AList.update j now (vf_seen (sweep_seen now v))\<rparr>"
    then show ?case using sw by (auto simp: remembers_def update_conv')
  qed (use sw keep in simp_all)
qed

interpretation remembered: invariant "\<lambda>s. False" "verify_step cr" "remembers i t0" for cr i t0
  by unfold_locales (auto intro: remembers_step)

section \<open>Properties\<close>

text \<open>Claim C14: an authorization value is accepted once.  After the server accepted it, every later use of the same value is
  refused, for whatever request, however many requests were verified in between and although the server forgets what it has
  seen after ten minutes.\<close>

theorem proof_once:
  assumes "verify_proof cr t header method path v = (Inr k, v1)" "(verify_step cr)\<^sup>*\<^sup>* (t, v1) (t', v2)" "t' \<le> now"
  shows "\<exists>e. fst (verify_proof cr now header method' path' v2) = Inl e"
proof (rule ccontr)
  assume "\<nexists>e. fst (verify_proof cr now header method' path' v2) = Inl e"
  then obtain k' v3 where again: "verify_proof cr now header method' path' v2 = (Inr k', v3)"
    by (metis prod.collapse sum.exhaust)
  obtain p where p: "parse_proof header = Some p" "\<bar>time_sub t (pp_ts p * second)\<bar> \<le> max_skew"
      "v1 = (sweep_seen t v)\<lparr>vf_seen := AList.update (pp_id p) t (vf_seen (sweep_seen t v))\<rparr>"
    using assms(1) by (rule verify_accepted) blast
  obtain p' where p': "parse_proof header = Some p'" "\<bar>time_sub now (pp_ts p' * second)\<bar> \<le> max_skew"
      "map_of (vf_seen (sweep_seen now v2)) (pp_id p') = None"
    using again by (rule verify_accepted) blast
  have "remembers (pp_id p) t (t, v1)" by (simp add: remembers_def p(3) update_conv')
  from sweep_remembers [OF remembered.stays [OF assms(2) this] assms(3)]
  have "now - t \<le> 2 * max_skew \<Longrightarrow> map_of (vf_seen (sweep_seen now v2)) (pp_id p) \<noteq> None" by (auto simp: remembers_def)
  moreover have "now - t \<le> 2 * max_skew" using skew_window [OF p(2)] skew_window [OF p'(2)] p(1) p'(1) by simp
  ultimately show False using p(1) p'(1,3) by simp
qed

text \<open>Claim C15: a proof is good for one request only: one made for a method, a server and a path is accepted for that method and
  path alone, by that server alone, within five minutes of the time it was made.\<close>

theorem proof_binds_request:
  assumes "verify_proof cr now (signer_header cr made nonce s method auth path) method' path' v = (Inr k, v')"
    and "inj_on (cr_hmac cr (sg_key s)) {ascii (mac_text m auth p (made div second) nonce (sg_machine s)) | m p. (m, p) \<in> {(method, path), (method', path')}}" "dh_shared (cr_dh cr) (vf_priv v) (sg_machine s) = Some shared" "sg_key s = mac_key cr shared"
    and "length nonce = 16" "no_comma auth" "nl \<notin> set method" "nl \<notin> set method'" "\<forall>a \<in> set (vf_authorities v). nl \<notin> set a"
    and "\<bar>made\<bar> < 2 ^ 63 * second"
  shows "method' = method \<and> path' = path \<and> auth \<in> set (vf_authorities v) \<and> \<bar>time_sub now (made div second * second)\<bar> \<le> max_skew \<and>
    k = std_encode (sg_machine s)"
proof -
  define ts where "ts = made div second"
  define m where "m = proof_mac cr (sg_key s) method auth path ts nonce (sg_machine s)"
  have ts: "- (2 ^ 63) \<le> ts" "ts < 2 ^ 63" using assms(10) unfolding ts_def by linarith+
  have h: "signer_header cr made nonce s method auth path =
      proof_header (raw_url_encode (sg_machine s)) auth (int_string ts) (hex_encode nonce) (raw_url_encode m)"
    by (simp add: signer_header_def proof_header_def m_def ts_def Let_def)
  note parse = parse_header [OF encoded_no_comma(1) assms(6) encoded_no_comma(3,2,1) raw_url_round_trip atoi_int_string [OF ts]
      hex_round_trip raw_url_round_trip assms(5), of "sg_machine s" m]
  obtain p where p: "parse_proof (signer_header cr made nonce s method auth path) = Some p" "pp_authority p \<in> set (vf_authorities v)"
      "\<bar>time_sub now (pp_ts p * second)\<bar> \<le> max_skew" "check_mac cr (vf_priv v) p method' path' = None" "k = std_encode (pp_machine p)"
    using assms(1) by (rule verify_accepted) blast
  have pp: "p = \<lparr>pp_machine = sg_machine s, pp_authority = auth, pp_ts = ts, pp_nonce = nonce, pp_mac = m,
      pp_id = hex_encode nonce @ raw_url_encode (sg_machine s)\<rparr>"
    using p(1) parse by (simp add: h)
  have same: "m = proof_mac cr (sg_key s) method' auth path' ts nonce (sg_machine s)"
    using p(4) assms(3,4) by (auto simp: check_mac_def pp split: if_splits)
  then have "mac_text method auth path ts nonce (sg_machine s) = mac_text method' auth path' ts nonce (sg_machine s)"
  proof -
    have "ascii (mac_text method auth path ts nonce (sg_machine s)) = ascii (mac_text method' auth path' ts nonce (sg_machine s))"
      by (rule inj_onD [OF assms(2)]) (use same in \<open>auto simp: m_def proof_mac_def ts_def\<close>)
    then show ?thesis by (simp add: ascii_inj)
  qed
  from mac_text_inj [OF this assms(7) _ assms(8)] show ?thesis using p(2,3,5) assms(9) by (auto simp: pp ts_def)
qed

text \<open>Claim C37: what the server remembers of a proof is its text, and the text is not unique.  Hexadecimal digits are read in either case,
  so an accepted proof whose nonce is written again in the other case is accepted a second time, for the same request.\<close>

theorem proof_replayed:
  assumes "verify_proof cr now (proof_header p0 p1 p2 p3 p4) method path v = (Inr k, v')"
    and "no_comma p0" "no_comma p1" "no_comma p2" "no_comma p3" "no_comma p4"
    and "hex_decode p3' = hex_decode p3" "p3' \<noteq> p3" "no_comma p3'" "map_of (vf_seen v) (p3' @ p0) = None"
  shows "fst (verify_proof cr now (proof_header p0 p1 p2 p3' p4) method path v') = Inr k"
proof -
  obtain p where p: "parse_proof (proof_header p0 p1 p2 p3 p4) = Some p" "pp_authority p \<in> set (vf_authorities v)"
      "\<bar>time_sub now (pp_ts p * second)\<bar> \<le> max_skew" "check_mac cr (vf_priv v) p method path = None" "k = std_encode (pp_machine p)"
      "v' = (sweep_seen now v)\<lparr>vf_seen := AList.update (pp_id p) now (vf_seen (sweep_seen now v))\<rparr>"
    using assms(1) by (rule verify_accepted) blast
  note pp = parse_header_Some [OF assms(2-6) p(1)]
  let ?p = "p\<lparr>pp_id := p3' @ p0\<rparr>"
  have "parse_proof (proof_header p0 p1 p2 p3' p4) = Some ?p"
    using parse_header [OF assms(2,3,4,9,6) pp(1,2) _ pp(4,5)] pp assms(7) by simp
  moreover have "check_mac cr (vf_priv v) ?p method path = None" using p(4) unfolding check_mac_def by (auto split: option.splits if_splits)
  moreover have "vf_authorities v' = vf_authorities v" "vf_priv v' = vf_priv v" "sweep_seen now v' = v'"
    by (simp_all add: p(6) sweep_seen_def)
  moreover have "map_of (vf_seen v') (p3' @ p0) = None"
  proof -
    have "map_of (vf_seen (sweep_seen now v)) (p3' @ p0) = None" by (rule sweep_None [OF assms(10)])
    then show ?thesis using assms(8) pp(7) by (simp add: p(6) update_conv')
  qed
  ultimately show ?thesis using p(2,3,5) by (simp add: verify_proof_def Let_def abs_le_iff)
qed

text \<open>What is used of X25519: both ends compute the same secret, and public keys have 32 bytes.\<close>

definition dh_laws :: "x25519 \<Rightarrow> bool" where
  "dh_laws dh \<longleftrightarrow> (\<forall>a b. dh_shared dh a (dh_public dh b) = dh_shared dh b (dh_public dh a)) \<and> (\<forall>a. length (dh_public dh a) = 32)"

lemma signed_accepted:
  assumes "new_signer cr machine_priv (std_encode (dh_public (cr_dh cr) (vf_priv v))) = Some s" "std_decode machine_priv = Some pb"
    and "dh_laws (cr_dh cr)" "auth \<in> set (vf_authorities v)" "no_comma auth" "length nonce = 16" "\<bar>made\<bar> < 2 ^ 63 * second"
    and "\<bar>time_sub now (made div second * second)\<bar> \<le> max_skew"
    and "map_of (vf_seen v) (hex_encode nonce @ raw_url_encode (dh_public (cr_dh cr) pb)) = None"
  shows "fst (verify_proof cr now (signer_header cr made nonce s method auth path) method path v) = Inr (std_encode (dh_public (cr_dh cr) pb))"
proof -
  define ts where "ts = made div second"
  define m where "m = proof_mac cr (sg_key s) method auth path ts nonce (sg_machine s)"
  obtain shared where sh: "dh_shared (cr_dh cr) pb (dh_public (cr_dh cr) (vf_priv v)) = Some shared"
      "sg_machine s = dh_public (cr_dh cr) pb" "sg_key s = mac_key cr shared"
    using assms(1,2) by (auto simp: new_signer_def split: option.splits if_splits)
  have ts: "- (2 ^ 63) \<le> ts" "ts < 2 ^ 63" using assms(7) unfolding ts_def by linarith+
  have h: "signer_header cr made nonce s method auth path =
      proof_header (raw_url_encode (sg_machine s)) auth (int_string ts) (hex_encode nonce) (raw_url_encode m)"
    by (simp add: signer_header_def proof_header_def m_def ts_def Let_def)
  note parse = parse_header [OF encoded_no_comma(1) assms(5) encoded_no_comma(3,2,1) raw_url_round_trip atoi_int_string [OF ts]
      hex_round_trip raw_url_round_trip assms(6), of "sg_machine s" m]
  have sh': "dh_shared (cr_dh cr) (vf_priv v) (sg_machine s) = Some shared" and len: "length (sg_machine s) = 32"
    using sh assms(3) unfolding dh_laws_def by metis+
  have mac: "check_mac cr (vf_priv v) \<lparr>pp_machine = sg_machine s, pp_authority = auth, pp_ts = ts, pp_nonce = nonce, pp_mac = m,
      pp_id = hex_encode nonce @ raw_url_encode (sg_machine s)\<rparr> method path = None"
    using sh' len sh(3) by (simp add: check_mac_def m_def)
  have new: "map_of (vf_seen (sweep_seen now v)) (hex_encode nonce @ raw_url_encode (sg_machine s)) = None"
    using sweep_None [OF assms(9)] by (simp add: sh(2))
  show ?thesis unfolding h verify_proof_def parse
    using assms(4,8) mac new sh(2) by (simp add: Let_def abs_le_iff ts_def)
qed

text \<open>Claim C29: a machine that knows its server's key is let in: the proof it makes for a request is accepted for that request, as that
  machine, if the clocks are within five minutes and the nonce is new.\<close>

theorem proof_accepted:
  assumes "new_signer cr machine_priv (std_encode (dh_public (cr_dh cr) (vf_priv v))) = Some s" "std_decode machine_priv = Some pb"
    and "dh_laws (cr_dh cr)" "auth \<in> set (vf_authorities v)" "no_comma auth" "length nonce = 16" "\<bar>made\<bar> < 2 ^ 63 * second"
    and "\<bar>time_sub now (made div second * second)\<bar> \<le> max_skew"
    and "map_of (vf_seen v) (hex_encode nonce @ raw_url_encode (dh_public (cr_dh cr) pb)) = None"
  shows "fst (verify_proof cr now (signer_header cr made nonce s method auth path) method path v) = Inr (std_encode (dh_public (cr_dh cr) pb))"
  by (rule signed_accepted [OF assms])

section \<open>A run\<close>

text \<open>A stand-in for the cryptography, and two machines.\<close>

definition pad32 :: "bytes \<Rightarrow> bytes" where
  "pad32 x = take 32 (x @ replicate 32 0)"

definition demo_crypto :: crypto where
  "demo_crypto = \<lparr>cr_dh = \<lparr>dh_public = pad32, dh_shared = (\<lambda>a b. Some (map2 (+) (pad32 a) (pad32 b)))\<rparr>, cr_sha = (\<lambda>x. x), cr_hmac = (\<lambda>k x. x)\<rparr>"

definition demo_key :: bytes where
  "demo_key = replicate 32 1"

definition demo_nonce :: bytes where
  "demo_nonce = replicate 16 0xab"

definition demo_verifier :: verifier where
  "demo_verifier = new_verifier (replicate 32 2) [''ws'']"

definition demo_signer :: signer where
  "demo_signer = \<lparr>sg_machine = demo_key, sg_key = mac_key demo_crypto (replicate 32 3)\<rparr>"

lemma pad32_length [simp]: "length (pad32 x) = 32"
  by (simp add: pad32_def)

lemma pad32_id [simp]: "length x = 32 \<Longrightarrow> pad32 x = x"
  by (simp add: pad32_def)

lemma map2_comm: "map2 (+) xs ys = map2 (+) ys (xs :: bytes)"
  by (rule nth_equalityI) (simp_all add: add.commute)

lemma demo_dh_laws: "dh_laws (cr_dh demo_crypto)"
  by (simp add: dh_laws_def demo_crypto_def) (use map2_comm in blast)

lemma demo_new_signer:
  "new_signer demo_crypto (std_encode demo_key) (std_encode (dh_public (cr_dh demo_crypto) (vf_priv demo_verifier))) = Some demo_signer"
  by (simp add: new_signer_def demo_crypto_def demo_verifier_def new_verifier_def demo_key_def demo_signer_def mac_key_def zip_replicate)

lemma demo_authorities: "vf_authorities demo_verifier = [''ws'']" "vf_seen demo_verifier = []"
  by (simp_all add: demo_verifier_def new_verifier_def authority_def trim_suffix_def has_suffix_def lower_char_def)

theorem proof_accepted_witness:
  "fst (verify_proof demo_crypto 0 (signer_header demo_crypto 0 demo_nonce demo_signer ''POST'' ''ws'' ''/p'') ''POST'' ''/p'' demo_verifier) =
     Inr (std_encode demo_key)"
  using proof_accepted [OF demo_new_signer std_round_trip demo_dh_laws, of "''ws''" demo_nonce 0 0 "''POST''" "''/p''"]
  by (simp add: demo_authorities no_comma_def demo_nonce_def time_sub_def max_skew_def) (simp add: demo_crypto_def demo_key_def)

text \<open>The same proof used again, and written differently.\<close>

definition demo_header :: "string \<Rightarrow> string" where
  "demo_header nonce_text = proof_header (raw_url_encode demo_key) ''ws'' ''0'' nonce_text
     (raw_url_encode (ascii (mac_text ''POST'' ''ws'' ''/p'' 0 demo_nonce demo_key)))"

lemma demo_header_signed: "signer_header demo_crypto 0 demo_nonce demo_signer ''POST'' ''ws'' ''/p'' = demo_header (hex_encode demo_nonce)"
proof -
  have "of_char (CHR ''0'') = (48 :: nat)" by simp
  then have "char_of (48 :: nat) = CHR ''0''" by (metis char_of_char)
  then have "int_string 0 = ''0''" by (simp add: int_string_def dec_string.simps)
  then show ?thesis by (simp add: signer_header_def demo_header_def proof_header_def proof_mac_def demo_crypto_def demo_signer_def)
qed

lemma demo_upper: "hex_decode (concat (replicate n ''AB'')) = Some (replicate n 0xab)"
  by (induction n) (simp_all add: hex_digit_val_def)

lemma demo_nonce_texts: "hex_decode (concat (replicate 16 ''AB'')) = hex_decode (hex_encode demo_nonce)"
    "concat (replicate 16 ''AB'') \<noteq> hex_encode demo_nonce" "no_comma (concat (replicate 16 ''AB''))"
proof -
  show "hex_decode (concat (replicate 16 ''AB'')) = hex_decode (hex_encode demo_nonce)" unfolding demo_upper hex_round_trip by (simp add: demo_nonce_def)
  show "concat (replicate 16 ''AB'') \<noteq> hex_encode demo_nonce"
  proof
    assume "concat (replicate 16 ''AB'') = hex_encode demo_nonce"
    then have "CHR ''A'' \<in> set (hex_encode demo_nonce)" by (metis in_set_replicate list.set_intros(1) UN_I set_concat zero_neq_numeral)
    from hex_encode_chars [OF this] show False by simp
  qed
  show "no_comma (concat (replicate 16 ''AB''))" by (auto simp: no_comma_def)
qed

lemma demo_verified:
  obtains v where "verify_proof demo_crypto 0 (demo_header (hex_encode demo_nonce)) ''POST'' ''/p'' demo_verifier = (Inr (std_encode demo_key), v)"
proof -
  have "fst (verify_proof demo_crypto 0 (demo_header (hex_encode demo_nonce)) ''POST'' ''/p'' demo_verifier) =
      Inr (std_encode (dh_public (cr_dh demo_crypto) demo_key))"
    unfolding demo_header_signed [symmetric]
    by (rule signed_accepted [OF demo_new_signer std_round_trip demo_dh_laws])
      (simp_all add: demo_authorities no_comma_def demo_nonce_def time_sub_def max_skew_def)
  also have "dh_public (cr_dh demo_crypto) demo_key = demo_key" by (simp add: demo_crypto_def demo_key_def)
  finally show thesis using that by (metis prod.collapse)
qed

lemma demo_commas: "no_comma (raw_url_encode bs)" "no_comma ''ws''" "no_comma ''0''" "no_comma (hex_encode bs)"
  by (rule encoded_no_comma, simp add: no_comma_def, simp add: no_comma_def, rule encoded_no_comma)

theorem proof_replayed_witness:
  "\<exists>v. fst (verify_proof demo_crypto 0 (demo_header (concat (replicate 16 ''AB''))) ''POST'' ''/p'' v) = Inr (std_encode demo_key)"
proof -
  obtain v where "verify_proof demo_crypto 0 (demo_header (hex_encode demo_nonce)) ''POST'' ''/p'' demo_verifier = (Inr (std_encode demo_key), v)"
    by (rule demo_verified)
  from proof_replayed [OF this [unfolded demo_header_def] demo_commas demo_commas(1) demo_nonce_texts]
  show ?thesis by (auto simp: demo_authorities demo_header_def)
qed

theorem proof_once_witness:
  "\<exists>v e. fst (verify_proof demo_crypto 0 (demo_header (hex_encode demo_nonce)) ''POST'' ''/p'' v) = Inl e"
proof -
  obtain v where "verify_proof demo_crypto 0 (demo_header (hex_encode demo_nonce)) ''POST'' ''/p'' demo_verifier = (Inr (std_encode demo_key), v)"
    by (rule demo_verified)
  from proof_once [OF this rtranclp.rtrancl_refl] show ?thesis by blast
qed

theorem proof_binds_request_witness:
  "\<not> (\<exists>k v. verify_proof demo_crypto 0 (demo_header (hex_encode demo_nonce)) ''POST'' ''/q'' demo_verifier = (Inr k, v))"
proof
  assume "\<exists>k v. verify_proof demo_crypto 0 (demo_header (hex_encode demo_nonce)) ''POST'' ''/q'' demo_verifier = (Inr k, v)"
  then obtain k v where "verify_proof demo_crypto 0 (signer_header demo_crypto 0 demo_nonce demo_signer ''POST'' ''ws'' ''/p'') ''POST'' ''/q'' demo_verifier = (Inr k, v)"
    unfolding demo_header_signed by blast
  from proof_binds_request [OF this] have "''/q'' = ''/p''"
    by (simp add: demo_crypto_def demo_signer_def demo_verifier_def new_verifier_def demo_key_def zip_replicate mac_key_def demo_nonce_def no_comma_def nl_def
        authority_def trim_suffix_def has_suffix_def lower_char_def)
  then show False by simp
qed

end
