(* ===== verification/Control.thy ===== *)
theory Control
  imports Snapshot Node_Auth
begin

text \<open>
  The calls machines make to the control server (\<^verbatim>\<open>internal/control/service.go\<close>): authentication, registration with a key or a browser
  login, updates, logout and the map on request.  The state is the service of theory \<open>Snapshot\<close> with its database (\<open>Node_Store\<close>),
  the verifier of proofs (\<open>Node_Auth\<close>) and the pending logins.  The clock and random values are arguments; an answer is its
  code or its content, without the text of errors; audit events, logs and counters are left out.  A handler is one step on the
  service and its database, as if it ran alone, but for \<^verbatim>\<open>CompleteRegistration\<close> and \<^verbatim>\<open>WaitRegistration\<close>, whose two halves are separate.  Queries
  do not fail: in particular \<^verbatim>\<open>UpdateNode\<close>, which ignores an error of \<^verbatim>\<open>IPv6Prefix\<close> and then checks routes against no IPv6 range,
  always has the range here.
\<close>

section \<open>Checks of what a machine sends\<close>

text \<open>\<^verbatim>\<open>netip.ParseAddrPort\<close>: an IPv6 address stands in brackets, an IPv4 address does not.\<close>

definition parse_addr_port :: "string \<Rightarrow> (addr \<times> u16) option" where
  "parse_addr_port s =
     (case last_index_byte CHR '':'' s of
        None \<Rightarrow> None
      | Some i \<Rightarrow>
          let ip = take i s; port = drop (Suc i) s; six = (ip \<noteq> [] \<and> hd ip = CHR ''['') in
          if ip = [] \<or> port = [] \<or> six \<and> (length ip < 2 \<or> ip ! (length ip - 1) \<noteq> CHR '']'') then None
          else case (parse_uint16 port, parse_addr (if six then butlast (tl ip) else ip)) of
            (Some p, Some a) \<Rightarrow> if six = is4 a then None else Some (a, p)
          | _ \<Rightarrow> None)"

definition validate_key :: "string \<Rightarrow> bool" where
  "validate_key k \<longleftrightarrow> (case std_decode k of Some b \<Rightarrow> length b = 32 | None \<Rightarrow> False)"

definition truncate_string :: "string \<Rightarrow> nat \<Rightarrow> string" where
  "truncate_string s n = take n s"

definition mesh_range4 :: prefix where
  "mesh_range4 = Prefix (IPv4 0x64400000) 10"

text \<open>One route of \<^verbatim>\<open>parseAdvertised\<close>; \<open>mesh6\<close> is the deployment's IPv6 prefix.\<close>

definition parse_route :: "prefix \<Rightarrow> string \<Rightarrow> prefix option" where
  "parse_route mesh6 s =
     (case parse_prefix s of
        None \<Rightarrow> None
      | Some q \<Rightarrow>
          let p = masked q in
          if pfx_bits p > 0 \<and> list_ex (\<lambda>m. pfx_valid m \<and> overlaps m p) [mesh_range4, mesh6] then None else Some p)"

fun all_some :: "'a option list \<Rightarrow> 'a list option" where
  "all_some [] = Some []"
| "all_some (None # xs) = None"
| "all_some (Some x # xs) = map_option ((#) x) (all_some xs)"

definition parse_advertised :: "string list \<Rightarrow> prefix \<Rightarrow> prefix list option" where
  "parse_advertised ss mesh6 = (if length ss > 64 then None else all_some (map (parse_route mesh6) ss))"

definition parse_exposures :: "(string \<times> u32) list \<Rightarrow> (string \<times> u16) list option" where
  "parse_exposures es =
     (if length es > 32 then None
      else all_some (map (\<lambda>(name, port).
        if \<not> name_ok name then None else if port = 0 \<or> port > 65535 then None else Some (name, ucast port)) es))"

section \<open>The service and its errors\<close>

text \<open>A browser login: \<open>pd_done\<close> says whether its channel is closed, \<open>pd_result\<close> is what was left for the waiting machine.
  The map of pending logins holds pointers, and calls keep theirs after the map has dropped the login.\<close>

record pending_reg =
  pd_params :: register_params
  pd_created :: time
  pd_result :: "(store_error + node_row \<times> string) option"
  pd_done :: bool

text \<open>The service with its database; \<open>ct_logins\<close> is the store of the logins, by address, \<open>ct_alloc\<close> its next free address; \<open>ct_local\<close> is \<^verbatim>\<open>localChange\<close>, which tells other servers.\<close>

record control =
  ct_db :: store_db
  ct_service :: service
  ct_verifier :: "verifier option"
  ct_pending :: "(string, nat) gomap"
  ct_logins :: "nat \<Rightarrow> pending_reg"
  ct_alloc :: nat
  ct_oidc :: bool
  ct_public_url :: string
  ct_local :: bool

datatype code = CodeInvalidArgument | CodeUnauthenticated | CodeAlreadyExists | CodeResourceExhausted | CodeInternal | CodeNotFound
  | CodeDeadlineExceeded

definition notify_all :: "control \<Rightarrow> control" where
  "notify_all s = s\<lparr>ct_local := True, ct_service := notify True (ct_service s)\<rparr>"

definition current_policy :: "control \<Rightarrow> policy" where
  "current_policy s = snd (sv_policy (ct_service s))"

section \<open>Credentials\<close>

datatype auth_error = NoProofs | ProofRefused proof_error | NoCredentials | TokenRetired | AuthStore store_error

definition bearer :: string where
  "bearer = ''Bearer ''"

definition node_for :: "crypto \<Rightarrow> sha_fn \<Rightarrow> time \<Rightarrow> string \<Rightarrow> string \<Rightarrow> string \<Rightarrow> control \<Rightarrow> (auth_error + store_node) \<times> control" where
  "node_for cr sha now cred method path s =
     (if is_proof cred then
        (case ct_verifier s of
           None \<Rightarrow> (Inl NoProofs, s)
         | Some v \<Rightarrow>
             (case verify_proof cr now cred method path v of
                (Inl e, v') \<Rightarrow> (Inl (ProofRefused e), s\<lparr>ct_verifier := Some v'\<rparr>)
              | (Inr mk, v') \<Rightarrow>
                  let s = s\<lparr>ct_verifier := Some v'\<rparr> in
                  (case node_by_machine_key now mk (ct_db s) of
                     Inl e \<Rightarrow> (Inl (AuthStore e), s)
                   | Inr (n, db) \<Rightarrow> (Inr n, s\<lparr>ct_db := if sn_signed_auth n then db else mark_signed_auth (sn_id n) db\<rparr>))))
      else if \<not> has_prefix bearer cred \<or> drop (length bearer) cred = [] then (Inl NoCredentials, s)
      else (case node_by_token sha now (drop (length bearer) cred) (ct_db s) of
              Inl e \<Rightarrow> (Inl (AuthStore e), s)
            | Inr (n, db) \<Rightarrow> (if sn_signed_auth n then Inl TokenRetired else Inr n, s\<lparr>ct_db := db\<rparr>)))"

definition auth_code :: "auth_error \<Rightarrow> code" where
  "auth_code e = (case e of AuthStore NotFound \<Rightarrow> CodeUnauthenticated | AuthStore _ \<Rightarrow> CodeInternal | _ \<Rightarrow> CodeUnauthenticated)"

definition authenticate :: "crypto \<Rightarrow> sha_fn \<Rightarrow> time \<Rightarrow> string \<Rightarrow> string \<Rightarrow> control \<Rightarrow> (code + store_node) \<times> control" where
  "authenticate cr sha now cred path s =
     (case node_for cr sha now cred ''POST'' path s of (Inl e, s) \<Rightarrow> (Inl (auth_code e), s) | (Inr n, s) \<Rightarrow> (Inr n, s))"

text \<open>\<^verbatim>\<open>RelayAuth\<close>: \<open>None\<close> is the error of the credential or of the key.\<close>

definition relay_auth :: "crypto \<Rightarrow> sha_fn \<Rightarrow> time \<Rightarrow> string \<Rightarrow> string \<Rightarrow> string \<Rightarrow> control \<Rightarrow> key32 option \<times> control" where
  "relay_auth cr sha now cred method path s =
     (case node_for cr sha now cred method path s of (Inl e, s) \<Rightarrow> (None, s) | (Inr n, s) \<Rightarrow> (parse_public (sn_node_key n), s))"

section \<open>Registration\<close>

record register_message =
  rm_machine_key :: string
  rm_auth_key :: string
  rm_hostname :: string
  rm_os :: string

datatype register_answer = Registered node_row string | OpenBrowser string string

definition pending_ttl :: duration where
  "pending_ttl = 10 * minute"

definition max_pending :: nat where
  "max_pending = 20000"

definition start_browser_registration :: "time \<Rightarrow> string \<Rightarrow> register_message \<Rightarrow> control \<Rightarrow> (code + register_answer) \<times> control" where
  "start_browser_registration now i m s =
     (if \<not> ct_oidc s then (Inl CodeInvalidArgument, s)
      else let ps = filter (\<lambda>(k, a). \<not> time_sub now (pd_created (ct_logins s a)) > pending_ttl) (ct_pending s); s = s\<lparr>ct_pending := ps\<rparr> in
        if length ps \<ge> max_pending then (Inl CodeResourceExhausted, s)
        else (Inr (OpenBrowser (rev (dropWhile (\<lambda>c. c = CHR ''/'') (rev (ct_public_url s))) @ ''/auth/node?id='' @ i) i),
          s\<lparr>ct_pending := AList.update i (ct_alloc s) ps, ct_alloc := Suc (ct_alloc s),
             ct_logins := (ct_logins s)(ct_alloc s :=
              \<lparr>pd_params = \<lparr>rp_auth_key = [], rp_machine_key = rm_machine_key m, rp_hostname = rm_hostname m, rp_os = truncate_string (rm_os m) 32,
                 rp_limit = None\<rparr>, pd_created = now, pd_result = None, pd_done = False\<rparr>)\<rparr>))"

definition store_code :: "store_error \<Rightarrow> code" where
  "store_code e =
     (case e of DeviceLimitError _ _ _ \<Rightarrow> CodeResourceExhausted | InvalidKey \<Rightarrow> CodeUnauthenticated | AlreadyExists \<Rightarrow> CodeAlreadyExists
      | PoolExhausted \<Rightarrow> CodeResourceExhausted | _ \<Rightarrow> CodeInternal)"

text \<open>\<^verbatim>\<open>Register\<close>; \<open>rnd6\<close>, \<open>rnd\<close> and \<open>i\<close> are the random values of the address prefix, the token and the login's identifier.\<close>

definition register :: "sha_fn \<Rightarrow> time \<Rightarrow> bytes \<Rightarrow> string \<Rightarrow> string \<Rightarrow> register_message \<Rightarrow> control \<Rightarrow> (code + register_answer) \<times> control" where
  "register sha now rnd6 rnd i m s =
     (if \<not> validate_key (rm_machine_key m) then (Inl CodeInvalidArgument, s)
      else if rm_auth_key m = [] then start_browser_registration now i m s
      else case register_node sha now rnd6 rnd
          \<lparr>rp_auth_key = rm_auth_key m, rp_machine_key = rm_machine_key m, rp_hostname = rm_hostname m, rp_os = truncate_string (rm_os m) 32,
           rp_limit = Some (device_limit (current_policy s))\<rparr> (ct_db s) of
        Inl e \<Rightarrow> (Inl (store_code e), s)
      | Inr (n, token, db) \<Rightarrow> (Inr (Registered n token), notify_all (s\<lparr>ct_db := db\<rparr>)))"

text \<open>\<^verbatim>\<open>CompleteRegistration\<close> looks at the login first, and leaves its result and closes its channel at the end; another call for
  the same login may come in between, and the login may have left the map by then.\<close>

datatype completion = LinkExpired | Finished "(store_error + node_row \<times> string) option" | Proceed nat register_params

definition complete_check :: "time \<Rightarrow> string \<Rightarrow> control \<Rightarrow> completion" where
  "complete_check now i s =
     (case map_of (ct_pending s) i of
        None \<Rightarrow> LinkExpired
      | Some a \<Rightarrow>
          let p = ct_logins s a in
          if time_sub now (pd_created p) > pending_ttl then LinkExpired
          else if pd_done p then Finished (pd_result p)
          else Proceed a ((pd_params p)\<lparr>rp_limit := Some (device_limit (current_policy s))\<rparr>))"

datatype completed = Completed "store_error + node_row" | CloseOfClosedChannel

definition complete_finish :: "sha_fn \<Rightarrow> time \<Rightarrow> bytes \<Rightarrow> string \<Rightarrow> nat \<Rightarrow> u64 \<Rightarrow> register_params \<Rightarrow> control \<Rightarrow> completed \<times> control" where
  "complete_finish sha now rnd6 rnd a uid params s =
     (let r = register_node_for_user sha now rnd6 rnd uid params (ct_db s);
          s' = (case r of Inl e \<Rightarrow> s | Inr (n, token, db) \<Rightarrow> s\<lparr>ct_db := db\<rparr>);
          res = (case r of Inl e \<Rightarrow> Inl e | Inr (n, token, db) \<Rightarrow> Inr (n, token));
          s'' = s'\<lparr>ct_logins := (ct_logins s)(a := (ct_logins s a)\<lparr>pd_result := Some res, pd_done := True\<rparr>)\<rparr>
      in if pd_done (ct_logins s a) then (CloseOfClosedChannel, s'')
         else (Completed (map_sum id fst res), case r of Inl e \<Rightarrow> s'' | Inr _ \<Rightarrow> notify_all s''))"

definition complete_registration :: "sha_fn \<Rightarrow> time \<Rightarrow> bytes \<Rightarrow> string \<Rightarrow> string \<Rightarrow> u64 \<Rightarrow> control \<Rightarrow> completed option \<times> control" where
  "complete_registration sha now rnd6 rnd i uid s =
     (case complete_check now i s of
        LinkExpired \<Rightarrow> (None, s)
      | Finished r \<Rightarrow> (map_option (\<lambda>r. Completed (map_sum id fst r)) r, s)
      | Proceed a params \<Rightarrow> (case complete_finish sha now rnd6 rnd a uid params s of (c, s') \<Rightarrow> (Some c, s')))"

definition pending_exists :: "time \<Rightarrow> string \<Rightarrow> control \<Rightarrow> bool" where
  "pending_exists now i s = (case map_of (ct_pending s) i of None \<Rightarrow> False | Some a \<Rightarrow> time_sub now (pd_created (ct_logins s a)) < pending_ttl)"

text \<open>\<^verbatim>\<open>WaitRegistration\<close>: \<open>wait_end\<close> is the moment its wait for the login at \<open>a\<close> ends: the login is done, or the time is up.\<close>

definition wait_end :: "string \<Rightarrow> nat \<Rightarrow> control \<Rightarrow> (code + node_row \<times> string) \<times> control" where
  "wait_end i a s =
     (if \<not> pd_done (ct_logins s a) then (Inl CodeDeadlineExceeded, s)
      else (case pd_result (ct_logins s a) of
          Some (Inr r) \<Rightarrow> Inr r
        | Some (Inl AlreadyExists) \<Rightarrow> Inl CodeAlreadyExists
        | Some (Inl (DeviceLimitError _ _ _)) \<Rightarrow> Inl CodeResourceExhausted
        | _ \<Rightarrow> Inl CodeInternal, s\<lparr>ct_pending := AList.delete i (ct_pending s)\<rparr>))"

definition wait_registration :: "string \<Rightarrow> control \<Rightarrow> (code + node_row \<times> string) \<times> control" where
  "wait_registration i s = (case map_of (ct_pending s) i of None \<Rightarrow> (Inl CodeNotFound, s) | Some a \<Rightarrow> wait_end i a s)"

section \<open>Calls of a machine\<close>

record update_message =
  um_node_key :: string
  um_disco_key :: string
  um_endpoints :: "string list"
  um_os :: string
  um_routes :: "string list"
  um_offer_relay :: bool
  um_exposures :: "(string \<times> u32) list"
  um_ssh_host_key :: string
  um_os_version :: string
  um_client_version :: string

definition update_info :: "update_message \<Rightarrow> node_info" where
  "update_info m = \<lparr>ni_node_key = um_node_key m, ni_disco_key = um_disco_key m, ni_endpoints = um_endpoints m, ni_os = truncate_string (um_os m) 32,
     ni_ssh_host_key = um_ssh_host_key m, ni_os_version = truncate_string (um_os_version m) 64, ni_client_version = truncate_string (um_client_version m) 64\<rparr>"

text \<open>The writes of \<^verbatim>\<open>UpdateNode\<close>, each its own transaction; the first that fails ends them.\<close>

definition update_writes :: "time \<Rightarrow> u64 \<Rightarrow> update_message \<Rightarrow> prefix list \<Rightarrow> (string \<times> u16) list \<Rightarrow> control \<Rightarrow> (store_error + bool) \<times> control" where
  "update_writes now i m routes exposures s =
     (case update_node_info now i (update_info m) (ct_db s) of
        Inl e \<Rightarrow> (Inl e, s)
      | Inr (c1, db1) \<Rightarrow>
          (case set_advertised_routes i routes db1 of
             Inl e \<Rightarrow> (Inl e, s\<lparr>ct_db := db1\<rparr>)
           | Inr (c2, db2) \<Rightarrow>
               (case set_relay_offered i (um_offer_relay m) db2 of (c3, db3) \<Rightarrow>
                  (case set_exposures i exposures db3 of
                     Inl e \<Rightarrow> (Inl e, s\<lparr>ct_db := db3, ct_service := set_taken i [] (ct_service s)\<rparr>)
                   | Inr ((c4, taken), db4) \<Rightarrow>
                       (Inr (c1 \<or> c2 \<or> c3 \<or> c4), s\<lparr>ct_db := db4, ct_service := set_taken i taken (ct_service s)\<rparr>)))))"

definition update_answer :: "(store_error + bool) \<times> control \<Rightarrow> (code + unit) \<times> control" where
  "update_answer r =
     (case r of
        (Inl e, s) \<Rightarrow> (Inl (if e = AlreadyExists then CodeAlreadyExists else CodeInternal), s)
      | (Inr changed, s) \<Rightarrow> (Inr (), if changed then notify_all s else s))"

definition update_node :: "crypto \<Rightarrow> sha_fn \<Rightarrow> time \<Rightarrow> bytes \<Rightarrow> string \<Rightarrow> string \<Rightarrow> update_message \<Rightarrow> control \<Rightarrow> (code + unit) \<times> control" where
  "update_node cr sha now rnd6 cred path m s =
     (case authenticate cr sha now cred path s of
        (Inl e, s) \<Rightarrow> (Inl e, s)
      | (Inr self, s) \<Rightarrow>
          if \<not> validate_key (um_node_key m) \<or> \<not> validate_key (um_disco_key m) then (Inl CodeInvalidArgument, s)
          else if length (um_endpoints m) > 32 \<or> list_ex (\<lambda>ep. parse_addr_port ep = None) (um_endpoints m) then (Inl CodeInvalidArgument, s)
          else (case ipv6_prefix rnd6 (ct_db s) of (mesh6, db) \<Rightarrow>
            let s = s\<lparr>ct_db := db\<rparr> in
            (case parse_advertised (um_routes m) mesh6 of
               None \<Rightarrow> (Inl CodeInvalidArgument, s)
             | Some routes \<Rightarrow>
                 (case parse_exposures (um_exposures m) of
                    None \<Rightarrow> (Inl CodeInvalidArgument, s)
                  | Some exposures \<Rightarrow>
                      if um_ssh_host_key m \<noteq> [] \<and> (length (um_ssh_host_key m) > 512 \<or> \<not> has_prefix ''ssh-ed25519 '' (um_ssh_host_key m))
                      then (Inl CodeInvalidArgument, s)
                      else update_answer (update_writes now (sn_id self) m routes exposures s)))))"

definition logout :: "crypto \<Rightarrow> sha_fn \<Rightarrow> time \<Rightarrow> string \<Rightarrow> string \<Rightarrow> control \<Rightarrow> (code + unit) \<times> control" where
  "logout cr sha now cred path s =
     (case authenticate cr sha now cred path s of
        (Inl e, s) \<Rightarrow> (Inl e, s)
      | (Inr self, s) \<Rightarrow>
          (case delete_node (sn_id self) (ct_db s) of
             Inl e \<Rightarrow> (Inl CodeInternal, s)
           | Inr db \<Rightarrow> (Inr (), notify_all (s\<lparr>ct_db := db\<rparr>))))"

text \<open>What a build of a snapshot reads; the lock's history is parsed by the codec, and who is online elsewhere comes from the cluster's table.\<close>

definition read_db :: "lock_state list \<Rightarrow> u64 list \<Rightarrow> store_db \<Rightarrow> db_read" where
  "read_db chain remote db = \<lparr>rd_nodes = list_nodes [] db, rd_exposures = list_exposures db, rd_chain = chain, rd_remote = remote\<rparr>"

definition empty_map :: network_map where
  "empty_map = \<lparr>nm_self = None, nm_peers = [], nm_dns = None, nm_relays = [], nm_stun = [], nm_packet_filter = [], nm_version = 0,
     nm_exposures = [], nm_gateway_url = [], nm_peer_relays = [], nm_relay_clients = [], nm_relay_offered = False, nm_relay_approved = False,
     nm_ssh_rules = [], nm_flow_logs = False, nm_quic_relay = [], nm_quic_relay_cert = [], nm_lock_chain = [], nm_control_urls = [],
     nm_post_quantum = False, nm_server_key = []\<rparr>"

definition get_network_map ::
  "wire_env \<Rightarrow> crypto \<Rightarrow> sha_fn \<Rightarrow> time \<Rightarrow> string \<Rightarrow> string \<Rightarrow> lock_state list \<Rightarrow> u64 list \<Rightarrow> control \<Rightarrow> (code + wire_node option \<times> wire_node list) \<times> control"
where
  "get_network_map e cr sha now cred path chain remote s =
     (case authenticate cr sha now cred path s of
        (Inl c, s) \<Rightarrow> (Inl c, s)
      | (Inr self, s) \<Rightarrow>
          (case take_snapshot e (Some (read_db chain remote (ct_db s))) (ct_service s) of
             (None, sv) \<Rightarrow> (Inl CodeInternal, s\<lparr>ct_service := sv\<rparr>)
           | (Some sp, sv) \<Rightarrow>
               (case sp_index sp (sn_id self) of
                  None \<Rightarrow> (Inl CodeUnauthenticated, s\<lparr>ct_service := sv\<rparr>)
                | Some k \<Rightarrow> let nm = full_map sp k empty_map in (Inr (nm_self nm, nm_peers nm), s\<lparr>ct_service := sv\<rparr>))))"

end
