(* ===== verification/Control_Inv.thy ===== *)
theory Control_Inv
  imports Control Store_Inv Snapshot_Sync Transitions
begin

text \<open>
  The control server over time: the calls of theory \<open>Control\<close> and what administrators do as steps, with the database's invariant
  and that no route but a default route covers the mesh.  From it: no route takes a machine's traffic, snapshots can
  always be built, a token is retired by the first proof, and what browser logins do.
\<close>

section \<open>Steps of the control server\<close>

text \<open>What administrators do to users, keys and machines, from the console or with commands.\<close>

inductive admin_step :: "sha_fn \<Rightarrow> store_db \<Rightarrow> store_db \<Rightarrow> bool" for sha where
  adm_create_user: "create_user name db = Inr (i, db') \<Longrightarrow> admin_step sha db db'"
| adm_oidc: "user_for_oidc subject email db = Inr (i, db') \<Longrightarrow> admin_step sha db db'"
| adm_delete_user: "delete_user name db = Inr db' \<Longrightarrow> admin_step sha db db'"
| adm_create_key: "create_preauth_key sha now pre secret user reusable eph ttl db = Inr (plain, db') \<Longrightarrow> admin_step sha db db'"
| adm_expire_key: "expire_preauth_key now pre db = Inr db' \<Longrightarrow> admin_step sha db db'"
| adm_delete: "delete_node i db = Inr db' \<Longrightarrow> admin_step sha db db'"
| adm_route: "set_route_approved i p b db = Inr db' \<Longrightarrow> admin_step sha db db'"
| adm_relay: "set_relay_approved i b db = Inr db' \<Longrightarrow> admin_step sha db db'"
| adm_exposure: "set_exposure_approved i name b db = Inr db' \<Longrightarrow> admin_step sha db db'"

text \<open>The calls, each as a whole but for \<^verbatim>\<open>CompleteRegistration\<close> and \<^verbatim>\<open>WaitRegistration\<close>, whose ends are steps of their own; the service may change its other
  state at any time, and other calls the other tables.\<close>

inductive control_step :: "crypto \<Rightarrow> sha_fn \<Rightarrow> control \<Rightarrow> control \<Rightarrow> bool" for cr sha where
  ctl_auth: "node_for cr sha now cred method path s = (r, s') \<Longrightarrow> control_step cr sha s s'"
| ctl_register: "register sha now rnd6 rnd i m s = (r, s') \<Longrightarrow> control_step cr sha s s'"
| ctl_complete: "complete_finish sha now rnd6 rnd a uid params s = (r, s') \<Longrightarrow> control_step cr sha s s'"
| ctl_wait: "wait_end i a s = (r, s') \<Longrightarrow> control_step cr sha s s'"
| ctl_update: "update_node cr sha now rnd6 cred path m s = (r, s') \<Longrightarrow> control_step cr sha s s'"
| ctl_logout: "logout cr sha now cred path s = (r, s') \<Longrightarrow> control_step cr sha s s'"
| ctl_map: "get_network_map e cr sha now cred path chain remote s = (r, s') \<Longrightarrow> control_step cr sha s s'"
| ctl_admin: "admin_step sha (ct_db s) db \<Longrightarrow> control_step cr sha s (s\<lparr>ct_db := db\<rparr>)"
| ctl_other: "control_step cr sha s (s\<lparr>ct_db := (ct_db s)\<lparr>db_access := as, db_next_access := j, db_lock := lk\<rparr>, ct_service := sv\<rparr>)"

definition control_start :: "bytes \<Rightarrow> control \<Rightarrow> bool" where
  "control_start rnd s \<longleftrightarrow> ct_db s = open_db rnd \<and> ct_pending s = []"

text \<open>A route the mesh can carry: none but a default route covers addresses of the mesh.\<close>

definition route_clear :: "prefix \<Rightarrow> prefix \<Rightarrow> bool" where
  "route_clear p6 p \<longleftrightarrow> pfx_valid p \<and> (pfx_bits p > 0 \<longrightarrow> \<not> overlaps mesh_range4 p \<and> \<not> overlaps p6 p)"

definition routes_clear :: "store_db \<Rightarrow> bool" where
  "routes_clear db \<longleftrightarrow> (\<forall>p6. db_ipv6 db = Some p6 \<longrightarrow> (\<forall>r \<in> set (db_routes db). route_clear p6 (rt_prefix r)))"

definition control_inv :: "control \<Rightarrow> bool" where
  "control_inv s \<longleftrightarrow> store_inv (ct_db s) \<and> routes_clear (ct_db s)"

text \<open>Writes to the database: of routes, only clear ones, and no other write adds one.\<close>

inductive write_step :: "sha_fn \<Rightarrow> store_db \<Rightarrow> store_db \<Rightarrow> bool" for sha where
  write_routes: "set_advertised_routes i ps db = Inr (ch, db') \<Longrightarrow> db_ipv6 db = Some p6 \<Longrightarrow> \<forall>p \<in> set ps. route_clear p6 p \<Longrightarrow> write_step sha db db'"
| write_other: "store_step sha db db' \<Longrightarrow> db_ipv6 db' = db_ipv6 db \<Longrightarrow> rt_prefix ` set (db_routes db') \<subseteq> rt_prefix ` set (db_routes db) \<Longrightarrow>
     write_step sha db db'"
| write_tables: "write_step sha db (db\<lparr>db_access := as, db_next_access := j, db_lock := lk\<rparr>)"

definition no_routes :: "store_db \<Rightarrow> store_db \<Rightarrow> bool" where
  "no_routes db db' \<longleftrightarrow> db_ipv6 db' = db_ipv6 db \<and> rt_prefix ` set (db_routes db') \<subseteq> rt_prefix ` set (db_routes db)"

lemma insert_user_routes: "insert_user name email subject db = Inr (i, db') \<Longrightarrow> no_routes db db'"
  by (auto simp: insert_user_def no_routes_def split: if_splits)

lemma oidc_loop_routes: "oidc_loop fuel k base email subject db = Inr (i, db') \<Longrightarrow> no_routes db db'"
  by (induction fuel k base email subject db rule: oidc_loop.induct) (auto split: sum.splits if_splits dest: insert_user_routes)

lemma prefixes_map: "(\<And>r. rt_prefix (f r) = rt_prefix r) \<Longrightarrow> rt_prefix ` set (map f rs) = rt_prefix ` set rs"
  by (simp add: image_image)

lemma admin_routes:
  "create_user name db = Inr (i, db') \<Longrightarrow> no_routes db db'"
  "user_for_oidc subject email db = Inr (i, db') \<Longrightarrow> no_routes db db'"
  "delete_user name db = Inr db' \<Longrightarrow> no_routes db db'"
  "create_preauth_key sha now pre secret user reusable eph ttl db = Inr (plain, db') \<Longrightarrow> no_routes db db'"
  "expire_preauth_key now pre db = Inr db' \<Longrightarrow> no_routes db db'"
  "delete_node j db = Inr db' \<Longrightarrow> no_routes db db'"
  "set_route_approved j p b db = Inr db' \<Longrightarrow> no_routes db db'"
  "set_relay_approved j b db = Inr db' \<Longrightarrow> no_routes db db'"
  "set_exposure_approved j name b db = Inr db' \<Longrightarrow> no_routes db db'"
proof -
  show "create_user name db = Inr (i, db') \<Longrightarrow> no_routes db db'" by (auto simp: create_user_def split: if_splits dest: insert_user_routes)
  show "user_for_oidc subject email db = Inr (i, db') \<Longrightarrow> no_routes db db'"
    by (auto simp: user_for_oidc_def Let_def no_routes_def split: option.splits if_splits dest: oidc_loop_routes [unfolded no_routes_def])
  show "delete_user name db = Inr db' \<Longrightarrow> no_routes db db'" by (auto simp: delete_user_def no_routes_def split: option.splits if_splits)
  show "create_preauth_key sha now pre secret user reusable eph ttl db = Inr (plain, db') \<Longrightarrow> no_routes db db'"
    by (auto simp: create_preauth_key_def Let_def no_routes_def split: option.splits if_splits)
  show "expire_preauth_key now pre db = Inr db' \<Longrightarrow> no_routes db db'" by (auto simp: expire_preauth_key_def no_routes_def split: if_splits)
  show "delete_node j db = Inr db' \<Longrightarrow> no_routes db db'" by (auto simp: delete_node_def no_routes_def split: if_splits)
  show "no_routes db db'" if h: "set_route_approved j p b db = Inr db'"
  proof -
    define f :: "route_row \<Rightarrow> route_row" where "f = (\<lambda>r. if rt_node r = j \<and> rt_prefix r = masked p then r\<lparr>rt_approved := b\<rparr> else r)"
    have "db' = db\<lparr>db_routes := map f (db_routes db)\<rparr>" using h by (simp add: set_route_approved_def f_def split: if_splits)
    moreover have "rt_prefix ` set (map f (db_routes db)) = rt_prefix ` set (db_routes db)" by (rule prefixes_map) (simp add: f_def)
    ultimately show ?thesis by (simp add: no_routes_def)
  qed
  show "set_relay_approved j b db = Inr db' \<Longrightarrow> no_routes db db'"
    by (auto simp: set_relay_approved_def update_row_def no_routes_def split: if_splits)
  show "set_exposure_approved j name b db = Inr db' \<Longrightarrow> no_routes db db'"
    by (auto simp: set_exposure_approved_def no_routes_def split: if_splits)
qed

lemma node_routes_same:
  "node_where now cond db = Inr (sn, db') \<Longrightarrow> no_routes db db'"
  "no_routes db (mark_signed_auth i db)"
  "update_node_info now i info db = Inr (ch, db') \<Longrightarrow> no_routes db db'"
  "no_routes db (snd (set_relay_offered i b db))"
  "set_exposures i rs db = Inr (res, db') \<Longrightarrow> no_routes db db'"
  by (auto simp: node_where_def mark_signed_auth_def update_node_info_def write_node_info_def set_relay_offered_def set_exposures_def update_row_def no_routes_def
      Let_def split: option.splits if_splits)

lemma insert_node_routes: "insert_node sha now rnd p6 uid user pre eph p db = Inr (n, token, db') \<Longrightarrow> no_routes db db'"
  by (auto simp: insert_node_def no_routes_def Let_def split: if_splits option.splits)

lemma register_routes:
  assumes "db_ipv6 db = Some p6"
  shows "register_node sha now rnd6 rnd p db = Inr (n, token, db') \<Longrightarrow> no_routes db db'"
    "register_node_for_user sha now rnd6 rnd uid p db = Inr (n, token, db') \<Longrightarrow> no_routes db db'"
  by (auto simp: register_node_def register_node_for_user_def ipv6_prefix_def assms no_routes_def
      split: sum.splits option.splits if_splits dest!: insert_node_routes [unfolded no_routes_def])

lemma write_no_routes: "store_step sha db db' \<Longrightarrow> no_routes db db' \<Longrightarrow> write_step sha db db'"
  by (auto simp: no_routes_def intro: write_other)

lemma admin_write: "admin_step sha db db' \<Longrightarrow> write_step sha db db'"
  by (induction rule: admin_step.induct) (auto intro!: write_no_routes intro: store_step.intros admin_routes)

lemma write_step_inv: "write_step sha db db' \<Longrightarrow> store_inv db \<Longrightarrow> store_inv db'"
proof (induction rule: write_step.induct)
  case (write_routes i ps db ch db' p6)
  then show ?case using store_step_inv [OF step_routes] by blast
next
  case (write_other db db')
  then show ?case using store_step_inv by blast
qed (simp add: store_inv_def)

lemma set_advertised_prefixes:
  assumes "set_advertised_routes i ps db = Inr (ch, db')"
  shows "db_ipv6 db' = db_ipv6 db \<and> rt_prefix ` set (db_routes db') \<subseteq> rt_prefix ` set (db_routes db) \<union> masked ` set ps"
proof -
  have put: "rt_prefix ` set (put_route i p rs) \<subseteq> insert p (rt_prefix ` set rs)" for p rs by (auto simp: put_route_def)
  have "rt_prefix ` set (fold (put_route i) qs rs) \<subseteq> rt_prefix ` set rs \<union> set qs" for qs rs
  proof (induction qs arbitrary: rs)
    case (Cons q qs)
    show ?case using put [of q rs] Cons.IH [of "put_route i q rs"] by (simp, blast)
  qed simp
  note puts = this
  define f :: "route_row \<Rightarrow> route_row" where "f = (\<lambda>r. if rt_node r = i then r\<lparr>rt_advertised := False\<rparr> else r)"
  have f: "rt_prefix ` set (map f (db_routes db)) = rt_prefix ` set (db_routes db)" by (rule prefixes_map) (simp add: f_def)
  have "db' = db \<or> db' = db\<lparr>db_routes := fold (put_route i) (remdups (map masked ps)) (map f (db_routes db))\<rparr>"
    using assms by (simp add: set_advertised_routes_def f_def Let_def split: if_splits)
  then show ?thesis using puts [of "remdups (map masked ps)" "map f (db_routes db)"] unfolding f by (elim disjE; simp)
qed

lemma mesh_range4_valid: "pfx_valid mesh_range4"
  by (simp add: mesh_range4_def)

lemma inv_ipv6: "store_inv db \<Longrightarrow> \<exists>p6. db_ipv6 db = Some p6 \<and> pfx_valid p6"
  by (auto simp: store_inv_def)

lemma clear_masked: "pfx_valid p6 \<Longrightarrow> route_clear p6 p \<Longrightarrow> route_clear p6 (masked p)"
  using overlaps_iff [OF mesh_range4_valid, of p] overlaps_iff [of p6 p] overlaps_iff [OF mesh_range4_valid, of "masked p"]
    overlaps_iff [of p6 "masked p"] by (auto simp: route_clear_def)

lemma write_step_clear:
  assumes "write_step sha db db'" "routes_clear db" "store_inv db"
  shows "routes_clear db'"
  using assms
proof (induction rule: write_step.induct)
  case (write_routes i ps db ch db' p6)
  note pre = set_advertised_prefixes [OF write_routes(1)]
  have "pfx_valid p6" using inv_ipv6 [OF write_routes(5)] write_routes(2) by auto
  then have "route_clear p6 (masked p)" if "p \<in> set ps" for p using write_routes(3) that clear_masked by blast
  then show ?case using pre write_routes(2,4) by (fastforce simp: routes_clear_def)
next
  case (write_other db db')
  then show ?case by (fastforce simp: routes_clear_def)
qed (simp add: routes_clear_def)

abbreviation writes :: "sha_fn \<Rightarrow> store_db \<Rightarrow> store_db \<Rightarrow> bool" where
  "writes sha \<equiv> (write_step sha)\<^sup>*\<^sup>*"

lemma writes_inv: "writes sha db db' \<Longrightarrow> store_inv db \<Longrightarrow> routes_clear db \<Longrightarrow> store_inv db' \<and> routes_clear db'"
  by (induction rule: rtranclp_induct) (auto intro: write_step_inv write_step_clear)

lemma one_write: "store_step sha db db' \<Longrightarrow> no_routes db db' \<Longrightarrow> writes sha db db'"
  by (blast intro: write_no_routes)

section \<open>Every call is a sequence of writes\<close>

lemma seen_write: "node_where now cond db = Inr (n, db') \<Longrightarrow> writes sha db db'"
  by (intro one_write step_seen node_routes_same)

lemma node_for_writes: "node_for cr sha now cred method path s = (r, s') \<Longrightarrow> writes sha (ct_db s) (ct_db s')"
proof -
  have mark: "writes sha db (mark_signed_auth i db')" if "writes sha db db'" for i db db'
    using that one_write [OF step_signed node_routes_same(2)] by (rule rtranclp_trans)
  show "writes sha (ct_db s) (ct_db s')" if "node_for cr sha now cred method path s = (r, s')"
    using that seen_write mark
    by (auto simp: node_for_def node_by_machine_key_def node_by_token_def Let_def split: if_splits option.splits prod.splits sum.splits)
qed

lemma authenticate_node_for:
  assumes "authenticate cr sha now cred path s = (r, s')"
  obtains q where "node_for cr sha now cred ''POST'' path s = (q, s')"
  using assms by (auto simp: authenticate_def split: prod.splits sum.splits)

lemma authenticate_writes: "authenticate cr sha now cred path s = (r, s') \<Longrightarrow> writes sha (ct_db s) (ct_db s')"
  using authenticate_node_for node_for_writes by metis

lemma ct_db_simps [simp]: "ct_db (notify_all s) = ct_db s"
  by (simp add: notify_all_def)

lemma start_browser_db: "start_browser_registration now i m s = (r, s') \<Longrightarrow> ct_db s' = ct_db s"
  by (auto simp: start_browser_registration_def Let_def split: if_splits)

lemma register_writes:
  assumes "store_inv (ct_db s)" "register sha now rnd6 rnd i m s = (r, s')"
  shows "writes sha (ct_db s) (ct_db s')"
proof -
  obtain p6 where "db_ipv6 (ct_db s) = Some p6" using inv_ipv6 [OF assms(1)] by blast
  then have reg: "writes sha (ct_db s) db" if "register_node sha now rnd6 rnd p (ct_db s) = Inr (n, token, db)" for p n token db
    using one_write [OF step_register [OF that] register_routes(1) [OF _ that]] by blast
  consider "s' = s" | "start_browser_registration now i m s = (r, s')"
    | p n token db where "register_node sha now rnd6 rnd p (ct_db s) = Inr (n, token, db)" "ct_db s' = db"
    using assms(2) by (auto simp: register_def split: if_splits sum.splits prod.splits)
  then show ?thesis by cases (auto simp: start_browser_db intro: reg)
qed

lemma complete_db:
  assumes "store_inv (ct_db s)" "complete_finish sha now rnd6 rnd a uid params s = (r, s')"
  shows "writes sha (ct_db s) (ct_db s')"
proof -
  obtain p6 where "db_ipv6 (ct_db s) = Some p6" using inv_ipv6 [OF assms(1)] by blast
  then have reg: "writes sha (ct_db s) db" if "register_node_for_user sha now rnd6 rnd uid params (ct_db s) = Inr (n, token, db)" for n token db
    using one_write [OF step_register_user [OF that] register_routes(2) [OF _ that]] by blast
  consider "ct_db s' = ct_db s" | n token db where "register_node_for_user sha now rnd6 rnd uid params (ct_db s) = Inr (n, token, db)" "ct_db s' = db"
    using assms(2) by (cases "register_node_for_user sha now rnd6 rnd uid params (ct_db s)") (auto simp: complete_finish_def Let_def split: if_splits)
  then show ?thesis by cases (auto intro: reg)
qed

lemma wait_db: "wait_end i a s = (r, s') \<Longrightarrow> ct_db s' = ct_db s"
  by (auto simp: wait_end_def split: if_splits)

lemma all_some_map: "all_some xs = Some ys \<Longrightarrow> xs = map Some ys"
  by (induction xs arbitrary: ys rule: all_some.induct) auto

lemma parse_route_clear:
  assumes "parse_route p6 t = Some p" "pfx_valid p6"
  shows "route_clear p6 p"
proof -
  obtain q where q: "parse_prefix t = Some q" "p = masked q" using assms(1) by (auto simp: parse_route_def Let_def split: option.splits if_splits)
  then show ?thesis using assms parse_prefix_valid [OF q(1)] mesh_range4_valid
    by (auto simp: parse_route_def route_clear_def Let_def split: if_splits)
qed

lemma parse_advertised_clear:
  assumes "parse_advertised ss p6 = Some ps" "pfx_valid p6"
  shows "\<forall>p \<in> set ps. route_clear p6 p"
proof
  fix p
  assume "p \<in> set ps"
  moreover have "map (parse_route p6) ss = map Some ps" using assms(1) by (intro all_some_map) (simp add: parse_advertised_def split: if_splits)
  ultimately have "Some p \<in> set (map (parse_route p6) ss)" by simp
  then obtain t where "parse_route p6 t = Some p" by auto
  then show "route_clear p6 p" using parse_route_clear assms(2) by blast
qed

lemma update_writes_writes:
  assumes "store_inv (ct_db s)" "db_ipv6 (ct_db s) = Some p6" "\<forall>p \<in> set routes. route_clear p6 p" "update_writes now i m routes exposures s = (r, s')"
  shows "writes sha (ct_db s) (ct_db s')"
proof -
  consider e where "update_node_info now i (update_info m) (ct_db s) = Inl e"
    | c1 db1 where "update_node_info now i (update_info m) (ct_db s) = Inr (c1, db1)" by (metis sum.exhaust prod.exhaust)
  then show ?thesis
  proof cases
    case 1
    then show ?thesis using assms(4) by (simp add: update_writes_def)
  next
    case 2
    have w1: "writes sha (ct_db s) db1" and p1: "db_ipv6 db1 = Some p6"
      using one_write [OF step_update_info [OF 2] node_routes_same(3) [OF 2]] node_routes_same(3) [OF 2] assms(2) by (auto simp: no_routes_def)
    show ?thesis
    proof (cases "set_advertised_routes i routes db1")
      case (Inl e)
      then show ?thesis using 2 w1 assms(4) by (auto simp: update_writes_def)
    next
      case (Inr q)
      obtain c2 db2 where q: "q = (c2, db2)" by (cases q)
      have w2: "writes sha db1 db2" using write_routes [OF _ p1 assms(3)] Inr q by blast
      obtain c3 db3 where r3: "set_relay_offered i (um_offer_relay m) db2 = (c3, db3)" by fastforce
      then have w3: "writes sha db2 db3" using one_write [OF step_offer node_routes_same(4), of sha db2 i "um_offer_relay m"] by simp
      have w13: "writes sha (ct_db s) db3" using w1 w2 w3 by simp
      have w4: "writes sha db3 db4" if "set_exposures i exposures db3 = Inr (res, db4)" for res db4
        by (rule one_write [OF step_expose [OF that] node_routes_same(5) [OF that]])
      show ?thesis using 2 Inr q r3 w13 w4 assms(4) rtranclp_trans [OF w13]
        by (auto simp: update_writes_def split: sum.splits prod.splits)
    qed
  qed
qed

lemma update_node_writes:
  assumes inv: "store_inv (ct_db s)" "routes_clear (ct_db s)" and up: "update_node cr sha now rnd6 cred path m s = (r, s')"
  shows "writes sha (ct_db s) (ct_db s')"
proof -
  obtain a s1 where auth: "authenticate cr sha now cred path s = (a, s1)" by fastforce
  have w1: "writes sha (ct_db s) (ct_db s1)" by (rule authenticate_writes [OF auth])
  have inv1: "store_inv (ct_db s1)" using writes_inv [OF w1 inv] by blast
  obtain p6 where p6: "db_ipv6 (ct_db s1) = Some p6" "pfx_valid p6" using inv_ipv6 [OF inv1] by blast
  then have pre: "ipv6_prefix rnd6 (ct_db s1) = (p6, ct_db s1)" by (simp add: ipv6_prefix_def)
  have answer: "ct_db (snd (update_answer q)) = ct_db (snd q)" for q by (simp add: update_answer_def split: prod.splits sum.splits)
  note step = update_node_def auth pre Let_def
  show ?thesis
  proof (cases a)
    case (Inl c)
    then show ?thesis using up w1 by (simp add: step)
  next
    case (Inr self)
    show ?thesis
    proof (cases "parse_advertised (um_routes m) p6")
      case None
      then show ?thesis using up w1 Inr by (auto simp: step split: if_splits)
    next
      case (Some routes)
      show ?thesis
      proof (cases "parse_exposures (um_exposures m)")
        case None
        then show ?thesis using up w1 Inr Some by (auto simp: step split: if_splits)
      next
        case (Some exposures)
        obtain q s2 where w: "update_writes now (sn_id self) m routes exposures s1 = (q, s2)" by fastforce
        have "writes sha (ct_db s1) (ct_db s2)"
          by (rule update_writes_writes [OF inv1 p6(1) parse_advertised_clear [OF \<open>parse_advertised (um_routes m) p6 = Some routes\<close> p6(2)] w])
        then have w2: "writes sha (ct_db s) (ct_db s2)" using w1 by simp
        have "s' = s1 \<or> s' = snd (update_answer (q, s2))"
          using up Inr \<open>parse_advertised (um_routes m) p6 = Some routes\<close> Some w by (auto simp: step split: if_splits)
        then show ?thesis using w1 w2 answer [of "(q, s2)"] by auto
      qed
    qed
  qed
qed

lemma logout_writes:
  assumes "logout cr sha now cred path s = (r, s')"
  shows "writes sha (ct_db s) (ct_db s')"
proof -
  obtain a s1 where auth: "authenticate cr sha now cred path s = (a, s1)" by fastforce
  note w1 = authenticate_writes [OF auth]
  have del: "writes sha (ct_db s) db" if "delete_node i (ct_db s1) = Inr db" for i db
    using w1 one_write [OF step_delete [OF that] admin_routes(6) [OF that]] by (rule rtranclp_trans)
  show ?thesis using assms w1 del by (auto simp: logout_def auth split: sum.splits)
qed

lemma get_network_map_writes: "get_network_map e cr sha now cred path chain remote s = (r, s') \<Longrightarrow> writes sha (ct_db s) (ct_db s')"
proof -
  obtain a s1 where auth: "authenticate cr sha now cred path s = (a, s1)" by fastforce
  assume "get_network_map e cr sha now cred path chain remote s = (r, s')"
  then have "ct_db s' = ct_db s1" by (auto simp: get_network_map_def auth Let_def split: sum.splits prod.splits option.splits)
  then show ?thesis using authenticate_writes [OF auth] by simp
qed

lemma control_step_writes: "control_step cr sha s s' \<Longrightarrow> control_inv s \<Longrightarrow> writes sha (ct_db s) (ct_db s')"
proof (induction rule: control_step.induct)
  case (ctl_update now rnd6 cred path m s r s')
  then show ?case using update_node_writes by (simp add: control_inv_def)
next
  case (ctl_register now rnd6 rnd i m s r s')
  then show ?case using register_writes by (simp add: control_inv_def)
next
  case (ctl_complete now rnd6 rnd i uid params s r s')
  then show ?case using complete_db by (simp add: control_inv_def)
next
  case (ctl_other s as j lk sv)
  then show ?case using write_tables by (simp add: r_into_rtranclp)
qed (auto simp: wait_db intro: node_for_writes logout_writes get_network_map_writes admin_write)

lemma control_step_inv: "control_step cr sha s s' \<Longrightarrow> control_inv s \<Longrightarrow> control_inv s'"
  using control_step_writes writes_inv unfolding control_inv_def by blast

lemma control_start_inv: "control_start rnd s \<Longrightarrow> control_inv s"
  by (simp add: control_start_def control_inv_def open_db_inv routes_clear_def) (simp add: open_db_def ipv6_prefix_def empty_db_def Let_def)

interpretation server: invariant "control_start rnd" "control_step cr sha" control_inv
  by unfold_locales (auto intro: control_start_inv control_step_inv)

section \<open>A retired token\<close>

definition signs :: "u64 \<Rightarrow> store_db \<Rightarrow> bool" where
  "signs i db \<longleftrightarrow> i < db_next_node db \<and> (\<forall>n \<in> set (db_nodes db). nr_id n = i \<longrightarrow> nr_signed_auth n)"

lemma signs_frame: "db_nodes db' = db_nodes db \<Longrightarrow> db_next_node db' = db_next_node db \<Longrightarrow> signs i db \<Longrightarrow> signs i db'"
  by (simp add: signs_def)

lemma signs_row: "signs i db \<Longrightarrow> (\<And>n. nr_id (f n) = nr_id n \<and> (nr_signed_auth n \<longrightarrow> nr_signed_auth (f n))) \<Longrightarrow> signs i (update_row j f db)"
  by (auto simp: signs_def update_row_def)

lemma insert_node_signs:
  assumes "signs i db" "insert_node sha now rnd p6 uid user pre eph p db = Inr (n, t, db')"
  shows "signs i db'"
proof -
  have "\<not> max_id \<le> db_next_node db" "db' = db\<lparr>db_nodes := db_nodes db @ [n], db_next_node := db_next_node db + 1\<rparr>" "nr_id n = db_next_node db"
    using assms(2) by (auto simp: insert_node_def new_row_def Let_def split: if_splits option.splits)
  then show ?thesis using assms(1) id_step [of "db_next_node db" i] by (auto simp: signs_def)
qed

lemma insert_user_signs: "insert_user name email subject db = Inr (j, db') \<Longrightarrow> signs i db \<Longrightarrow> signs i db'"
  by (auto simp: insert_user_def signs_def split: if_splits)

lemma oidc_loop_signs: "oidc_loop fuel k base email subject db = Inr (j, db') \<Longrightarrow> signs i db \<Longrightarrow> signs i db'"
  by (induction fuel k base email subject db rule: oidc_loop.induct) (auto split: sum.splits if_splits dest: insert_user_signs)

lemma store_step_signs:
  assumes "store_step sha db db'" "store_inv db" "signs i db"
  shows "signs i db'"
proof -
  obtain p6 where p6: "db_ipv6 db = Some p6" using assms(2) by (auto simp: store_inv_def)
  note s = signs_frame [OF _ _ assms(3)] and row = signs_row [OF assms(3)]
  show ?thesis using assms(1)
  proof cases
    case (step_create_user name j)
    then show ?thesis using assms(3) insert_user_signs by (auto simp: create_user_def split: if_splits)
  next
    case step_oidc
    then show ?thesis using assms(3) by (auto simp: user_for_oidc_def Let_def signs_def split: option.splits if_splits dest: oidc_loop_signs [unfolded signs_def])
  next
    case (step_register now rnd6 rnd p n token)
    show ?thesis
      by (rule register_node_cases [OF step_register p6]) (auto simp: signs_def dest!: insert_node_signs [OF assms(3)])
  next
    case step_register_user
    then show ?thesis using p6
      by (auto simp: register_node_for_user_def ipv6_prefix_def split: option.splits intro: insert_node_signs [OF assms(3)])
  next
    case step_delete
    then show ?thesis using assms(3) by (auto simp: signs_def delete_node_def split: if_splits)
  qed (auto simp: delete_user_def create_preauth_key_def expire_preauth_key_def node_where_def mark_signed_auth_def write_node_info_def
      set_advertised_routes_def set_route_approved_def info_row_def
      set_relay_offered_def set_relay_approved_def set_exposures_def set_exposure_approved_def Let_def
      split: option.splits if_splits intro!: s row)
qed

lemma write_step_signs: "write_step sha db db' \<Longrightarrow> store_inv db \<Longrightarrow> signs i db \<Longrightarrow> signs i db'"
proof (induction rule: write_step.induct)
  case (write_routes j ps db ch db' p6)
  then show ?case using store_step_signs [OF step_routes] by blast
next
  case (write_other db db')
  then show ?case using store_step_signs by blast
qed (simp add: signs_def)

lemma writes_signs: "writes sha db db' \<Longrightarrow> store_inv db \<Longrightarrow> signs i db \<Longrightarrow> store_inv db' \<and> signs i db'"
  by (induction rule: rtranclp_induct) (auto intro: write_step_inv write_step_signs)

lemma control_signs: "control_step cr sha s s' \<Longrightarrow> control_inv s \<Longrightarrow> signs i (ct_db s) \<Longrightarrow> signs i (ct_db s')"
  using control_step_writes writes_signs unfolding control_inv_def by blast

interpretation signing: invariant "\<lambda>s. control_inv s \<and> signs i (ct_db s)" "control_step cr sha" "\<lambda>s. control_inv s \<and> signs i (ct_db s)"
  by unfold_locales (auto intro: control_step_inv control_signs)

section \<open>Machines as they are listed\<close>

lemma joined_rows:
  assumes "sn \<in> set (Node_Store.joined db)"
  obtains r and u :: user_row where "r \<in> set (db_nodes db)" "sn = scan_node (us_name u) r"
  using assms by (auto simp: Node_Store.joined_def map_filter_def)

lemma list_nodes_row:
  assumes "sn \<in> set (list_nodes user db)"
  obtains r where "r \<in> set (db_nodes db)" "sn_id sn = nr_id r" "sn_ipv4 sn = nr_ipv4 r" "sn_ipv6 sn = nr_ipv6 r"
    "set (sn_advertised sn) \<subseteq> rt_prefix ` set (db_routes db)" "set (sn_routes sn) \<subseteq> rt_prefix ` set (db_routes db)"
proof -
  obtain j where j: "j \<in> set (Node_Store.joined db)" "sn = attach_lock_signature db (attach_routes db j)" using assms by (auto simp: list_nodes_def)
  obtain r and u :: user_row where r: "r \<in> set (db_nodes db)" "j = scan_node (us_name u) r" using joined_rows [OF j(1)] by blast
  show thesis
    by (rule that [OF r(1)]) (auto simp: j(2) r(2) attach_lock_signature_def attach_routes_def scan_node_def list_routes_def Let_def)
qed

lemma ids_filtered: "sorted_wrt (<) (map f xs) \<Longrightarrow> (\<And>x y. g x = Some y \<Longrightarrow> h y = f x) \<Longrightarrow> sorted_wrt (<) (map h (List.map_filter g xs))"
proof (induction xs)
  case (Cons x xs)
  have "h y \<in> f ` set xs" if "y \<in> set (List.map_filter g xs)" for y
    using that Cons.prems(2) by (force simp: map_filter_def)
  then show ?case using Cons by (fastforce simp: List.map_filter_simps split: option.splits)
qed (simp add: List.map_filter_simps)

lemma list_nodes_sorted:
  assumes "store_inv db"
  shows "sorted_wrt (<) (map sn_id (list_nodes [] db))"
proof -
  have rows: "sorted_wrt (<) (map nr_id (db_nodes db))" using assms by (auto simp: store_inv_def rows_ok_def)
  then have same: "sort_key nr_id (db_nodes db) = db_nodes db" by (intro sort_key_id_if_sorted) (simp add: strict_sorted_iff)
  have "sorted_wrt (<) (map sn_id (Node_Store.joined db))" unfolding Node_Store.joined_def same by (rule ids_filtered [OF rows]) (auto simp: scan_node_def)
  moreover have "map sn_id (list_nodes [] db) = map sn_id (Node_Store.joined db)"
    by (simp add: list_nodes_def attach_lock_signature_def attach_routes_def Let_def)
  ultimately show ?thesis by (simp only:)
qed

lemma row_addresses:
  assumes "store_inv db" "r \<in> set (db_nodes db)" "db_ipv6 db = Some p6"
  shows "host_addr (nr_ipv4 r)" "nr_ipv6 r = ipv6_for p6 (nr_ipv4 r)" "\<exists>x. p6 = Prefix (IPv6 x []) 48"
  using assms by (auto simp: store_inv_def rows_ok_def row_ok_def list_all_iff)

lemma control_read_ok:
  assumes "store_inv db" "routes_clear db"
  shows "read_ok (read_db chain remote db)"
proof -
  obtain p6 where p6: "db_ipv6 db = Some p6" using inv_ipv6 [OF assms(1)] by blast
  have ok: "node_ok (policy_node sn)" if n: "sn \<in> set (list_nodes [] db)" for sn
  proof (rule list_nodes_row [OF n])
    fix r
    assume r: "r \<in> set (db_nodes db)" "sn_ipv4 sn = nr_ipv4 r" "sn_ipv6 sn = nr_ipv6 r" "set (sn_routes sn) \<subseteq> rt_prefix ` set (db_routes db)"
    have "nr_ipv4 r \<noteq> ZeroAddr \<and> addr_zone (nr_ipv4 r) = []" using row_addresses(1) [OF assms(1) r(1) p6] by (auto simp: host_addr_def)
    moreover have "nr_ipv6 r \<noteq> ZeroAddr \<and> addr_zone (nr_ipv6 r) = []"
      using row_addresses(2) [OF assms(1) r(1) p6] by (simp add: ipv6_for_def addr_from16_def)
    moreover have "pfx_valid p" if "p \<in> set (sn_routes sn)" for p
      using that r(4) assms(2) p6 by (auto simp: routes_clear_def route_clear_def)
    ultimately show ?thesis using r by (auto simp: node_ok_def policy_node_def list_all_iff)
  qed
  have "map node_id (policy_nodes (list_nodes [] db)) = map sn_id (list_nodes [] db)" by (simp add: policy_nodes_def policy_node_def)
  then have "distinct (map node_id (policy_nodes (list_nodes [] db)))" using list_nodes_sorted [OF assms(1)] by (simp add: strict_sorted_iff)
  then show ?thesis using list_nodes_sorted [OF assms(1)] ok
    by (auto simp: read_ok_def read_db_def nodes_wf_def policy_nodes_def list_all_iff)
qed

lemma ipv6_inside:
  assumes "host_addr v4"
  shows "contains (Prefix (IPv6 x []) 48) (ipv6_for (Prefix (IPv6 x []) 48) v4)"
proof -
  obtain y where y: "v4 = IPv4 y" using assms by (auto simp: host_addr_def)
  let ?b = "nat_be 16 (unat x)" and ?w = "nat_be 4 (unat y)"
  have b: "be_nat ?b = unat x" using unat_bound [of x] by (simp add: be_nat_nat_be)
  have split: "?b = take 12 ?b @ drop 12 ?b" by simp
  have w: "be_nat ?w < 2 ^ 32" and d: "be_nat (drop 12 ?b) < 2 ^ 32" using be_nat_less [of ?w] be_nat_less [of "drop 12 ?b"] by simp_all
  have full: "be_nat (take 12 ?b) * 2 ^ 32 + be_nat (drop 12 ?b) = unat x"
    using be_nat_append [of "take 12 ?b" "drop 12 ?b"] b split by simp
  define v where "v = be_nat (take 12 ?b) * 2 ^ 32 + be_nat ?w"
  have v: "be_nat (take 12 ?b @ ?w) = v" by (simp add: be_nat_append v_def)
  have lt: "v < 2 ^ 128" using be_nat_less [of "take 12 ?b @ ?w"] v by simp
  have "v div 2 ^ 32 = be_nat (take 12 ?b)" "(be_nat (take 12 ?b) * 2 ^ 32 + be_nat (drop 12 ?b)) div 2 ^ 32 = be_nat (take 12 ?b)"
    using w d by (simp_all add: v_def)
  then have "v div 2 ^ 32 = unat x div 2 ^ 32" by (simp only: full)
  then have "v div 2 ^ 32 div 2 ^ 48 = unat x div 2 ^ 32 div 2 ^ 48" by simp
  then have "v div 2 ^ 80 = unat x div 2 ^ 80" unfolding div_mult2_eq [symmetric] by simp
  moreover have "ipv6_for (Prefix (IPv6 x []) 48) v4 = IPv6 (of_nat v) []" by (simp add: ipv6_for_def y addr_from16_def v)
  moreover have "unat (of_nat v :: 128 word) = v" using lt by (simp add: unat_of_nat)
  ultimately show ?thesis by (subst contains_iff) (simp_all add: host_bits_def)
qed

lemma host_in_mesh: "host_addr a \<Longrightarrow> contains mesh_range4 a"
  using in_pool by (auto simp: host_addr_def mesh_range4_def ipv4_pool_def)

lemma clear_avoids:
  assumes "route_clear p6 p" "pfx_valid p6" "pfx_bits p > 0" "contains mesh_range4 a \<or> contains p6 a"
  shows "\<not> contains p a"
proof
  assume "contains p a"
  then have "a \<in> addrs p" by (simp add: addrs_def)
  then show False using assms overlaps_iff [OF mesh_range4_valid, of p] overlaps_iff [OF assms(2), of p]
    by (auto simp: route_clear_def addrs_def)
qed

section \<open>Properties\<close>

text \<open>Claim C11: no route takes traffic for a machine away from it: in every state the server can reach, a route a machine advertises
  or that is in force, unless it is a default route, contains no machine's address.\<close>

theorem routes_avoid_machines:
  assumes "reachable (control_start rnd) (control_step cr sha) s"
    and "n \<in> set (list_nodes [] (ct_db s))" "m \<in> set (list_nodes [] (ct_db s))"
    and "p \<in> set (sn_advertised n) \<union> set (sn_routes n)" "pfx_bits p > 0"
  shows "\<not> contains p (sn_ipv4 m) \<and> \<not> contains p (sn_ipv6 m)"
proof -
  have inv: "store_inv (ct_db s)" "routes_clear (ct_db s)" using server.always [OF assms(1)] by (auto simp: control_inv_def)
  obtain p6 where p6: "db_ipv6 (ct_db s) = Some p6" "pfx_valid p6" using inv_ipv6 [OF inv(1)] by blast
  have "route_clear p6 p" using list_nodes_row [OF assms(2)] assms(4) inv(2) p6(1) unfolding routes_clear_def by (metis UnE image_iff subsetD)
  note avoid = clear_avoids [OF this p6(2) assms(5)]
  obtain r where r: "r \<in> set (db_nodes (ct_db s))" "sn_ipv4 m = nr_ipv4 r" "sn_ipv6 m = nr_ipv6 r" using list_nodes_row [OF assms(3)] by metis
  note a = row_addresses [OF inv(1) r(1) p6(1)]
  have "contains p6 (nr_ipv6 r)" using a ipv6_inside by metis
  then show ?thesis using avoid host_in_mesh [OF a(1)] r by simp
qed

text \<open>Claim C9: what a build of a snapshot reads from the database is always as the compiler and the streams need it: in every state
  the server can reach, machines are listed in the order of different identifiers, with two valid addresses and valid routes.\<close>

theorem server_reads_ok:
  assumes "reachable (control_start rnd) (control_step cr sha) s"
  shows "read_ok (read_db chain remote (ct_db s))"
  using server.always [OF assms] control_read_ok by (auto simp: control_inv_def)

lemma node_where_row:
  assumes "node_where now cond db = Inr (n, db')"
  obtains r where "r \<in> set (db_nodes db)" "cond r" "sn_id n = nr_id r" "sn_signed_auth n = nr_signed_auth r"
    "db' = update_row (nr_id r) (\<lambda>n. n\<lparr>nr_last_seen := unix now\<rparr>) db"
proof -
  obtain r where r: "find cond (db_nodes db) = Some r" using assms by (auto simp: node_where_def split: option.splits)
  then have "r \<in> set (db_nodes db)" "cond r" by (auto simp: find_Some_iff)
  moreover have "sn_id n = nr_id r" "sn_signed_auth n = nr_signed_auth r" "db' = update_row (nr_id r) (\<lambda>n. n\<lparr>nr_last_seen := unix now\<rparr>) db"
    using assms r by (auto simp: node_where_def attach_routes_def scan_node_def Let_def split: option.splits)
  ultimately show thesis by (rule that)
qed

lemma mark_signs: "i < db_next_node db \<Longrightarrow> signs i (mark_signed_auth i db)"
proof -
  assume lt: "i < db_next_node db"
  have "nr_signed_auth m" if "m \<in> (\<lambda>n. if nr_id n = i then n\<lparr>nr_signed_auth := True\<rparr> else n) ` S" "nr_id m = i" for m S
    using that by (elim imageE) (simp split: if_splits)
  note signed = this
  show ?thesis unfolding signs_def
  proof (intro conjI ballI impI)
    fix m
    assume m: "m \<in> set (db_nodes (mark_signed_auth i db))" "nr_id m = i"
    have "set (db_nodes (mark_signed_auth i db)) = (\<lambda>n. if nr_id n = i then n\<lparr>nr_signed_auth := True\<rparr> else n) ` set (db_nodes db)"
      by (simp add: mark_signed_auth_def update_row_def)
    then show "nr_signed_auth m" using signed m by blast
  qed (simp add: lt mark_signed_auth_def update_row_def)
qed

lemma node_by_key_signs:
  assumes inv: "store_inv db" and n: "node_where now cond db = Inr (n, db')"
  shows "signs (sn_id n) (if sn_signed_auth n then db' else mark_signed_auth (sn_id n) db')"
proof -
  obtain r where r: "r \<in> set (db_nodes db)" "sn_id n = nr_id r" "sn_signed_auth n = nr_signed_auth r"
      "db' = update_row (nr_id r) (\<lambda>n. n\<lparr>nr_last_seen := unix now\<rparr>) db"
    using node_where_row [OF n] by blast
  have lt: "nr_id r < db_next_node db" using inv r(1) by (auto simp: store_inv_def rows_ok_def row_ok_def list_all_iff)
  have only: "q = r" if "q \<in> set (db_nodes db)" "nr_id q = nr_id r" for q using inv_ids [OF inv] that r(1) by (metis distinct_map inj_onD)
  show ?thesis
  proof (cases "nr_signed_auth r")
    case True
    then have "signs (nr_id r) db" using lt only unfolding signs_def by blast
    then show ?thesis using signs_row True r by simp
  next
    case False
    have "db_next_node db' = db_next_node db" by (simp add: r(4) update_row_def)
    then show ?thesis using False lt r(2,3) mark_signs by simp
  qed
qed

text \<open>Claim C10: a token is retired by the first proof: once a machine has proved a request with its machine key, no bearer token ever
  authenticates as that machine again, whatever calls, logins and administration happen in between.\<close>

theorem token_retired:
  assumes "reachable (control_start rnd) (control_step cr sha) s"
    and "is_proof cred" "node_for cr sha now cred method path s = (Inr n, s1)"
    and "(control_step cr sha)\<^sup>*\<^sup>* s1 s2"
    and "\<not> is_proof cred'" "node_for cr sha now' cred' method' path' s2 = (Inr n', s3)"
  shows "sn_id n' \<noteq> sn_id n"
proof
  assume same: "sn_id n' = sn_id n"
  have inv: "control_inv s" by (rule server.always [OF assms(1)])
  obtain v' mk db where nk: "node_by_machine_key now mk (ct_db s) = Inr (n, db)" "ct_db s1 = (if sn_signed_auth n then db else mark_signed_auth (sn_id n) db)"
    using assms(2,3) by (auto simp: node_for_def Let_def split: option.splits prod.splits sum.splits)
  have "signs (sn_id n) (ct_db s1)"
    using node_by_key_signs [OF _ nk(1) [unfolded node_by_machine_key_def]] inv nk(2) by (simp add: control_inv_def)
  moreover have "control_inv s1" using control_step_inv [OF ctl_auth [OF assms(3)] inv] .
  ultimately have "signs (sn_id n) (ct_db s2)" using signing.stays [OF assms(4)] by blast
  moreover obtain db' where "node_by_token sha now' (drop (length bearer) cred') (ct_db s2) = Inr (n', db')" "\<not> sn_signed_auth n'"
    using assms(5,6) by (auto simp: node_for_def split: if_splits sum.splits prod.splits)
  then obtain r where "r \<in> set (db_nodes (ct_db s2))" "sn_id n' = nr_id r" "\<not> nr_signed_auth r"
    unfolding node_by_token_def by (metis node_where_row)
  ultimately show False using same by (auto simp: signs_def)
qed

section \<open>Browser logins\<close>

lemma complete_finish_first:
  assumes "complete_check now i s = Proceed a params" "register_node_for_user sha now rnd6 rnd uid params (ct_db s) = Inr (n, token, db)"
  obtains s' where "complete_finish sha now rnd6 rnd a uid params s = (Completed (Inr n), s')" "ct_db s' = db"
    "map_of (ct_pending s') i = Some a" "pd_result (ct_logins s' a) = Some (Inr (n, token))" "pd_done (ct_logins s' a)"
    "\<not> time_sub now (pd_created (ct_logins s' a)) > pending_ttl"
proof -
  have q: "map_of (ct_pending s) i = Some a" "\<not> time_sub now (pd_created (ct_logins s a)) > pending_ttl" "\<not> pd_done (ct_logins s a)"
    using assms(1) by (auto simp: complete_check_def Let_def split: option.splits if_splits)
  show thesis
    by (rule that [where s' = "snd (complete_finish sha now rnd6 rnd a uid params s)"])
      (use q assms(2) in \<open>simp_all add: complete_finish_def notify_all_def\<close>)
qed

text \<open>Claim C28: a browser login registers one machine: when it completes, the machine that waits is given the token of the machine that
  was registered, and completing the login again changes nothing and names the same machine.\<close>

theorem login_completes:
  assumes "complete_check now i s = Proceed a params" "register_node_for_user sha now rnd6 rnd uid params (ct_db s) = Inr (n, token, db)"
  shows "\<exists>s'. complete_registration sha now rnd6 rnd i uid s = (Some (Completed (Inr n)), s') \<and> ct_db s' = db \<and>
    fst (wait_registration i s') = Inr (n, token) \<and>
    complete_registration sha now rnd6' rnd' i uid' s' = (Some (Completed (Inr n)), s')"
proof (rule complete_finish_first [OF assms])
  fix s'
  assume fin: "complete_finish sha now rnd6 rnd a uid params s = (Completed (Inr n), s')" "ct_db s' = db"
    and p: "map_of (ct_pending s') i = Some a" "pd_result (ct_logins s' a) = Some (Inr (n, token))" "pd_done (ct_logins s' a)"
      "\<not> time_sub now (pd_created (ct_logins s' a)) > pending_ttl"
  have "complete_check now i s' = Finished (Some (Inr (n, token)))" using p by (simp add: complete_check_def)
  then show ?thesis using fin assms(1) p by (auto simp: complete_registration_def wait_registration_def wait_end_def)
qed

text \<open>Claim C38: two logins with the same link can meet: if both look at the login before either completes it, the one that completes last
  closes a channel that is closed, also when the waiting machine has been answered in between; if it has not, it is left the error that
  it exists already instead of its token.\<close>

theorem complete_race:
  assumes "complete_check now i s = Proceed a params" "register_node_for_user sha now rnd6 rnd uid params (ct_db s) = Inr (n, token, db)"
    and "db_ipv6 db = Some p6" "uid' \<in> us_id ` set (db_users db)" "complete_finish sha now rnd6 rnd a uid params s = (r, s1)"
  shows "\<exists>s2. complete_finish sha now' rnd6' rnd' a uid' params s1 = (CloseOfClosedChannel, s2) \<and>
    fst (wait_registration i s2) = Inl CodeAlreadyExists \<and> n \<in> set (db_nodes (ct_db s2)) \<and>
    fst (complete_finish sha now' rnd6' rnd' a uid' params (snd (wait_registration i s1))) = CloseOfClosedChannel"
proof (rule complete_finish_first [OF assms(1,2)])
  fix s'
  assume fin: "complete_finish sha now rnd6 rnd a uid params s = (Completed (Inr n), s')" "ct_db s' = db"
    and p: "map_of (ct_pending s') i = Some a" "pd_result (ct_logins s' a) = Some (Inr (n, token))" "pd_done (ct_logins s' a)"
  have s1: "s1 = s'" using fin(1) assms(5) by simp
  have n: "n \<in> set (db_nodes db)" "nr_machine_key n = rp_machine_key params"
    using assms(2) by (auto simp: register_node_for_user_def insert_node_def new_row_def Let_def split: prod.splits option.splits if_splits)
  obtain u where "find (\<lambda>u. us_id u = uid') (db_users db) = Some u"
    using assms(4) by (metis (mono_tags, lifting) find_None_iff imageE not_None_eq)
  moreover have "list_ex (\<lambda>m. nr_machine_key m = rp_machine_key params) (db_nodes db)" using n by (auto simp: list_ex_iff)
  ultimately have "register_node_for_user sha now' rnd6' rnd' uid' params db = Inl AlreadyExists"
    by (simp add: register_node_for_user_def ipv6_prefix_def assms(3) insert_node_def)
  then show ?thesis using fin(2) p n(1) by (simp add: s1 complete_finish_def wait_registration_def wait_end_def)
qed

section \<open>A run\<close>

text \<open>A server that accepts proofs; two machines register after a browser login, the first of them with the key of the stand-in
  cryptography.\<close>

definition demo_control :: control where
  "demo_control = \<lparr>ct_db = open_db [], ct_service = new_service \<lparr>cf_dns_suffix = [], cf_relays = [], cf_stun = [], cf_gateway_domain = [],
     cf_gateway_url = [], cf_flow_logs = False, cf_quic_relay = [], cf_quic_pin = [], cf_post_quantum = False, cf_server_key = []\<rparr>,
     ct_verifier = Some demo_verifier, ct_pending = [], ct_logins = (\<lambda>_. \<lparr>pd_params = \<lparr>rp_auth_key = [], rp_machine_key = [],
       rp_hostname = [], rp_os = [], rp_limit = None\<rparr>, pd_created = 0, pd_result = None, pd_done = False\<rparr>), ct_alloc = 0, ct_oidc = True, ct_public_url = ''https://ws'', ct_local = False\<rparr>"

lemma demo_start: "reachable (control_start []) (control_step cr demo_sha) demo_control"
  by (rule reachable_init) (simp add: control_start_def demo_control_def)

definition one_user :: store_db where
  "one_user = (open_db [])\<lparr>db_users := [\<lparr>us_id = 1, us_name = ''ann'', us_email = [], us_subject = None\<rparr>], db_next_user := 2\<rparr>"

lemma demo_user_reached: "reachable (control_start []) (control_step cr demo_sha) (demo_control\<lparr>ct_db := one_user\<rparr>)"
proof -
  have "create_user ''ann'' (open_db []) = Inr (1, one_user)"
    by (simp add: create_user_def insert_user_def open_db_def ipv6_prefix_def empty_db_def name_ok_def name_char_def label_char_def
        max_id_def one_user_def Let_def word_le_nat_alt)
  then have "control_step cr demo_sha demo_control (demo_control\<lparr>ct_db := one_user\<rparr>)"
    by (intro ctl_admin adm_create_user) (simp add: demo_control_def)
  then show ?thesis by (rule reachable_step [OF demo_start])
qed

lemma one_user_facts: "db_users one_user = [\<lparr>us_id = 1, us_name = ''ann'', us_email = [], us_subject = None\<rparr>]" "db_nodes one_user = []"
  "db_next_node one_user = 1" "db_routes one_user = []" "db_exposures one_user = []"
  by (simp_all add: one_user_def open_db_def ipv6_prefix_def empty_db_def Let_def)

text \<open>Registering a machine for Ann.\<close>

lemma ann_registers:
  assumes inv: "store_inv db" and user: "db_users db = db_users one_user" and next_id: "db_next_node db < max_id"
    and mk: "mk \<notin> nr_machine_key ` set (db_nodes db)" and tok: "demo_sha (''wsnode-'' @ rnd) \<notin> nr_token_hash ` set (db_nodes db)"
    and free: "length (db_nodes db) \<le> 1" and p: "rp_machine_key p = mk" "over_limit p ''ann'' 1 db = None"
  obtains n where "register_node_for_user demo_sha 0 [] rnd 1 p db =
      Inr (n, ''wsnode-'' @ rnd, db\<lparr>db_nodes := db_nodes db @ [n], db_next_node := db_next_node db + 1\<rparr>)"
    "nr_id n = db_next_node db" "nr_machine_key n = mk" "nr_token_hash n = demo_sha (''wsnode-'' @ rnd)" "nr_user n = 1" "\<not> nr_signed_auth n" "nr_node_key n = []"
proof -
  obtain p6 where p6: "db_ipv6 db = Some p6" using inv by (auto simp: store_inv_def)
  have "\<exists>a. host_addr a \<and> a \<notin> nr_ipv4 ` set (db_nodes db)"
  proof (rule ccontr)
    assume "\<nexists>a. host_addr a \<and> a \<notin> nr_ipv4 ` set (db_nodes db)"
    then have "{IPv4 0x64400001, IPv4 0x64400002} \<subseteq> nr_ipv4 ` set (db_nodes db)" using demo_host by auto
    then have "card {IPv4 0x64400001, IPv4 0x64400002} \<le> card (nr_ipv4 ` set (db_nodes db))" by (intro card_mono) auto
    also have "\<dots> \<le> length (db_nodes db)" by (metis List.finite_set card_image_le card_length le_trans)
    finally show False using free by simp
  qed
  then obtain a where a: "host_addr a" "a \<notin> nr_ipv4 ` set (db_nodes db)" by blast
  obtain n db' where ins: "insert_node demo_sha 0 rnd p6 1 ''ann'' None False p db = Inr (n, ''wsnode-'' @ rnd, db')"
    using insert_node_succeeds [OF inv p6, of p "''ann''" 1 a demo_sha rnd 0 None False] mk a tok next_id p by auto
  have "db' = db\<lparr>db_nodes := db_nodes db @ [n], db_next_node := db_next_node db + 1\<rparr>" "nr_id n = db_next_node db" "nr_machine_key n = mk"
    "nr_token_hash n = demo_sha (''wsnode-'' @ rnd)" "nr_user n = 1" "\<not> nr_signed_auth n" "nr_node_key n = []"
    using ins by (auto simp: insert_node_def new_row_def p Let_def split: if_splits option.splits)
  moreover have "register_node_for_user demo_sha 0 [] rnd 1 p db = Inr (n, ''wsnode-'' @ rnd, db')"
    using ins by (simp add: register_node_for_user_def ipv6_prefix_def p6 user one_user_facts)
  ultimately show thesis using that by blast
qed

definition ann_params :: "string \<Rightarrow> register_params" where
  "ann_params mk = \<lparr>rp_auth_key = [], rp_machine_key = mk, rp_hostname = ''Laptop'', rp_os = ''linux'', rp_limit = None\<rparr>"

lemma ann_no_limit: "rp_machine_key (ann_params mk) = mk" "over_limit (ann_params mk) user uid db = None"
  by (simp_all add: ann_params_def over_limit_def)

text \<open>Both machines: the first with the key of the stand-in cryptography, the second with another.\<close>

lemma finish_step:
  assumes "reachable (control_start []) (control_step cr demo_sha) s" "register_node_for_user demo_sha 0 [] rnd 1 params (ct_db s) = Inr (n, token, db)"
    "\<not> pd_done (ct_logins s a)"
  obtains s' where "reachable (control_start []) (control_step cr demo_sha) s'" "ct_db s' = db" "ct_verifier s' = ct_verifier s"
    "ct_pending s' = ct_pending s" "\<And>b. b \<noteq> a \<Longrightarrow> ct_logins s' b = ct_logins s b"
proof -
  obtain r s' where fin: "complete_finish demo_sha 0 [] rnd a 1 params s = (r, s')" by fastforce
  have "reachable (control_start []) (control_step cr demo_sha) s'" using reachable_step [OF assms(1) ctl_complete [OF fin]] .
  then show thesis by (rule that) (use assms(2,3) fin in \<open>auto simp: complete_finish_def notify_all_def\<close>)
qed

lemma two_machines:
  obtains s n m where "reachable (control_start []) (control_step cr demo_sha) s" "ct_verifier s = Some demo_verifier" "ct_pending s = []"
    "db_users (ct_db s) = db_users one_user" "db_nodes (ct_db s) = [n, m]" "db_routes (ct_db s) = []" "db_exposures (ct_db s) = []"
    "nr_id n = 1" "nr_id m = 2" "nr_user n = 1" "nr_user m = 1" "nr_machine_key n = std_encode demo_key"
    "nr_token_hash n = demo_sha ''wsnode-x''" "nr_token_hash m = demo_sha ''wsnode-y''" "\<not> nr_signed_auth n" "\<not> nr_signed_auth m" "nr_node_key n = []"
proof -
  let ?reach = "reachable (control_start []) (control_step cr demo_sha)"
  let ?s0 = "demo_control\<lparr>ct_db := one_user\<rparr>"
  have inv: "store_inv (ct_db s)" if "?reach s" for s using server.always [OF that] by (simp add: control_inv_def)
  have r0: "?reach ?s0" by (rule demo_user_reached)
  have i0: "store_inv one_user" using inv [OF r0] by simp
  obtain n where n: "register_node_for_user demo_sha 0 [] ''x'' 1 (ann_params (std_encode demo_key)) one_user =
      Inr (n, ''wsnode-'' @ ''x'', one_user\<lparr>db_nodes := db_nodes one_user @ [n], db_next_node := db_next_node one_user + 1\<rparr>)"
    and nf: "nr_id n = db_next_node one_user" "nr_machine_key n = std_encode demo_key" "nr_token_hash n = demo_sha (''wsnode-'' @ ''x'')" "nr_user n = 1" "\<not> nr_signed_auth n" "nr_node_key n = []"
    by (rule ann_registers [OF i0 refl, of "std_encode demo_key" "''x''" "ann_params (std_encode demo_key)"])
      (simp_all add: one_user_facts max_id_def word_less_nat_alt ann_no_limit)
  let ?d1 = "one_user\<lparr>db_nodes := [n], db_next_node := 2\<rparr>"
  have reg: "register_node_for_user demo_sha 0 [] ''x'' 1 (ann_params (std_encode demo_key)) (ct_db ?s0) = Inr (n, ''wsnode-x'', ?d1)"
    using n by (simp add: one_user_facts)
  have open0: "\<not> pd_done (ct_logins ?s0 0)" by (simp add: demo_control_def)
  obtain s1 where r1: "?reach s1" and s1: "ct_db s1 = ?d1" "ct_verifier s1 = ct_verifier ?s0" "ct_pending s1 = ct_pending ?s0"
      "ct_logins s1 1 = ct_logins ?s0 1"
    by (rule finish_step [OF r0 reg open0], rule that, assumption+) simp
  then have s1': "ct_verifier s1 = Some demo_verifier" "ct_pending s1 = []" "\<not> pd_done (ct_logins s1 1)" by (simp_all add: demo_control_def)
  have i1: "store_inv ?d1" using inv [OF r1] s1(1) by simp
  have "std_decode [] \<noteq> Some demo_key" by (simp add: std_decode_def skip_breaks_def to_bytes_def demo_key_def)
  then have key: "[] \<noteq> std_encode demo_key" by (metis std_round_trip)
  have tok: "demo_sha ''wsnode-y'' \<noteq> demo_sha ''wsnode-x''" by (simp add: demo_sha_def)
  obtain m where m: "register_node_for_user demo_sha 0 [] ''y'' 1 (ann_params []) ?d1 =
      Inr (m, ''wsnode-'' @ ''y'', ?d1\<lparr>db_nodes := db_nodes ?d1 @ [m], db_next_node := db_next_node ?d1 + 1\<rparr>)"
    and mf: "nr_id m = db_next_node ?d1" "nr_token_hash m = demo_sha (''wsnode-'' @ ''y'')" "nr_user m = 1" "\<not> nr_signed_auth m"
    using ann_registers [OF i1, of "[]" "''y''" "ann_params []"] key tok nf by (auto simp: one_user_facts max_id_def word_less_nat_alt ann_no_limit)
  then have "register_node_for_user demo_sha 0 [] ''y'' 1 (ann_params []) (ct_db s1) =
      Inr (m, ''wsnode-y'', one_user\<lparr>db_nodes := [n, m], db_next_node := 3\<rparr>)" by (simp add: s1(1))
  from finish_step [OF r1 this s1'(3)] obtain s2 where r2: "?reach s2" and s2: "ct_db s2 = one_user\<lparr>db_nodes := [n, m], db_next_node := 3\<rparr>"
      "ct_verifier s2 = Some demo_verifier" "ct_pending s2 = []"
    using s1' by metis
  show thesis by (rule that [where n = n and m = m, OF r2]) (use nf mf s2 in \<open>simp_all add: one_user_facts\<close>)
qed

lemma lookup_row:
  assumes "find cond (db_nodes db) = Some r" "nr_user r = 1" "db_users db = db_users one_user"
  obtains sn where "node_where now cond db = Inr (sn, update_row (nr_id r) (\<lambda>n. n\<lparr>nr_last_seen := unix now\<rparr>) db)" "sn_id sn = nr_id r"
    "sn_signed_auth sn = nr_signed_auth r"
  using assms by (auto simp: node_where_def one_user_facts Let_def attach_routes_def scan_node_def)

lemma bearer_texts: "\<not> is_proof (bearer @ ''wsnode-y'')" "drop (length bearer) (bearer @ t) = t" "has_prefix bearer (bearer @ t)"
  by (simp_all add: is_proof_def scheme_def bearer_def has_prefix_def)

theorem token_retired_witness:
  "\<exists>s n s1 n' s3. reachable (control_start []) (control_step demo_crypto demo_sha) s \<and>
     node_for demo_crypto demo_sha 0 (demo_header (hex_encode demo_nonce)) ''POST'' ''/p'' s = (Inr n, s1) \<and>
     node_for demo_crypto demo_sha 0 (bearer @ ''wsnode-y'') ''POST'' ''/p'' s1 = (Inr n', s3) \<and> sn_id n' \<noteq> sn_id n"
proof -
  obtain s n m where s: "reachable (control_start []) (control_step demo_crypto demo_sha) s" "ct_verifier s = Some demo_verifier"
    "db_users (ct_db s) = db_users one_user" "db_nodes (ct_db s) = [n, m]" "nr_id n = 1" "nr_id m = 2" "nr_user n = 1" "nr_user m = 1"
    "nr_machine_key n = std_encode demo_key" "nr_token_hash n = demo_sha ''wsnode-x''" "nr_token_hash m = demo_sha ''wsnode-y''"
    "\<not> nr_signed_auth n" "\<not> nr_signed_auth m"
    by (rule two_machines) blast
  obtain v where v: "verify_proof demo_crypto 0 (demo_header (hex_encode demo_nonce)) ''POST'' ''/p'' demo_verifier = (Inr (std_encode demo_key), v)"
    by (rule demo_verified)
  have pf: "is_proof (demo_header (hex_encode demo_nonce))" by (simp add: is_proof_def demo_header_def proof_header_def has_prefix_def)
  have tok: "demo_sha ''wsnode-x'' \<noteq> demo_sha ''wsnode-y''" by (simp add: demo_sha_def)
  let ?seen = "\<lambda>n. n\<lparr>nr_last_seen := unix 0\<rparr>"
  obtain sn where sn: "node_where 0 (\<lambda>n. nr_machine_key n = std_encode demo_key) (ct_db s) = Inr (sn, update_row 1 ?seen (ct_db s))" "sn_id sn = 1"
    "\<not> sn_signed_auth sn"
    using lookup_row [of "\<lambda>n. nr_machine_key n = std_encode demo_key" "ct_db s" n 0] s by auto
  define d1 where "d1 = mark_signed_auth 1 (update_row 1 ?seen (ct_db s))"
  define s1 where "s1 = s\<lparr>ct_verifier := Some v, ct_db := d1\<rparr>"
  have first: "node_for demo_crypto demo_sha 0 (demo_header (hex_encode demo_nonce)) ''POST'' ''/p'' s = (Inr sn, s1)"
    using pf v sn s(2) by (simp add: node_for_def node_by_machine_key_def s1_def d1_def)
  have nodes: "db_nodes d1 = [n\<lparr>nr_last_seen := unix 0, nr_signed_auth := True\<rparr>, m]" "db_users d1 = db_users one_user"
    using s by (simp_all add: d1_def mark_signed_auth_def update_row_def)
  obtain sm where sm: "node_where 0 (\<lambda>n. nr_token_hash n = demo_sha ''wsnode-y'') d1 = Inr (sm, update_row 2 ?seen d1)" "\<not> sn_signed_auth sm"
    using lookup_row [of "\<lambda>n. nr_token_hash n = demo_sha ''wsnode-y''" d1 m 0] s tok nodes by auto
  have "\<exists>s3. node_for demo_crypto demo_sha 0 (bearer @ ''wsnode-y'') ''POST'' ''/p'' s1 = (Inr sm, s3)"
    using sm by (auto simp: node_for_def node_by_token_def bearer_texts s1_def)
  then show ?thesis using token_retired [OF s(1) pf first rtranclp.rtrancl_refl bearer_texts(1)] s(1) first by blast
qed

theorem server_reads_ok_witness:
  "\<exists>s. reachable (control_start []) (control_step demo_crypto demo_sha) s \<and> db_nodes (ct_db s) \<noteq> [] \<and> read_ok (read_db [] [] (ct_db s))"
proof -
  obtain s n m where s: "reachable (control_start []) (control_step demo_crypto demo_sha) s" "db_nodes (ct_db s) = [n, m]"
    by (rule two_machines) blast
  show ?thesis using server_reads_ok [OF s(1)] s by auto
qed

text \<open>The second machine offers a route.\<close>

definition demo_update :: update_message where
  "demo_update = \<lparr>um_node_key = std_encode demo_key, um_disco_key = std_encode demo_key, um_endpoints = [], um_os = [],
     um_routes = [''10.0.0.0/8''], um_offer_relay = False, um_exposures = [], um_ssh_host_key = [], um_os_version = [], um_client_version = []\<rparr>"

definition ten_net :: prefix where
  "ten_net = Prefix (IPv4 0x0a000000) 8"

lemma ten_net_masked: "masked ten_net = ten_net"
  by (simp add: ten_net_def prefix_from_def mask_eq_exp_minus_1)

lemma demo_route: "parse_advertised [''10.0.0.0/8''] (Prefix (IPv6 x []) 48) = Some [ten_net]"
proof -
  have "parse_prefix ''10.0.0.0/8'' = Some ten_net" by (simp add: go_eval ten_net_def)
  moreover note ten_net_masked
  moreover have "\<not> overlaps mesh_range4 ten_net" by (simp add: ten_net_def mesh_range4_def prefix_from_def is4_def mask_eq_exp_minus_1)
  moreover have "\<not> overlaps (Prefix (IPv6 x []) 48) ten_net" by (simp add: ten_net_def is4_def)
  ultimately show ?thesis by (simp add: parse_advertised_def parse_route_def)
qed

lemma demo_update_key: "validate_key (std_encode demo_key)"
  by (simp add: validate_key_def) (simp add: demo_key_def)

lemma demo_writes:
  assumes db: "db_users (ct_db s) = db_users one_user" "db_nodes (ct_db s) = [n, m]" "db_routes (ct_db s) = []" "db_exposures (ct_db s) = []"
    and ids: "nr_id n = 1" "nr_id m = 2" "nr_user n = 1" "nr_user m = 1" "nr_node_key n = []"
  obtains s' m' c where "update_writes 0 2 demo_update [ten_net] [] s = (Inr c, s')"
    "db_routes (ct_db s') = [\<lparr>rt_node = 2, rt_prefix = ten_net, rt_advertised = True, rt_approved = False\<rparr>]"
    "db_users (ct_db s') = db_users one_user" "db_nodes (ct_db s') = [n, m']" "nr_id m' = 2" "nr_user m' = 1"
proof -
  have "std_decode [] \<noteq> Some demo_key" by (simp add: std_decode_def skip_breaks_def to_bytes_def demo_key_def)
  then have key: "[] \<noteq> std_encode demo_key" by (metis std_round_trip)
  define f where "f = (\<lambda>n. if info_row (update_info demo_update) n \<noteq> n then (info_row (update_info demo_update) n)\<lparr>nr_last_seen := unix 0\<rparr> else n)"
  define m1 where "m1 = f m"
  have m1: "nr_id m1 = 2" "nr_user m1 = 1" using ids by (simp_all add: m1_def f_def info_row_def)
  define d1 where "d1 = (ct_db s)\<lparr>db_nodes := [n, m1]\<rparr>"
  have 1: "\<exists>c1. update_node_info 0 2 (update_info demo_update) (ct_db s) = Inr (c1, d1)"
    using db ids key by (auto simp: update_node_info_def node_key_taken_def write_node_info_def update_row_def d1_def m1_def f_def update_info_def demo_update_def)
  define d2 where "d2 = d1\<lparr>db_routes := [\<lparr>rt_node = 2, rt_prefix = ten_net, rt_advertised = True, rt_approved = False\<rparr>]\<rparr>"
  have 2: "set_advertised_routes 2 [ten_net] d1 = Inr (True, d2)"
    using db m1 by (simp add: set_advertised_routes_def put_route_def d1_def d2_def ten_net_masked node_exists_def)
  obtain c3 d3 where 3: "set_relay_offered 2 (um_offer_relay demo_update) d2 = (c3, d3)" by fastforce
  define m3 where "m3 = m1\<lparr>nr_relay_offered := um_offer_relay demo_update\<rparr>"
  have d3: "d3 = d2\<lparr>db_nodes := [n, m3]\<rparr>" using 3 m1 ids by (auto simp: set_relay_offered_def update_row_def d2_def d1_def m3_def)
  have 4: "set_exposures 2 [] d3 = Inr ((False, []), d3)"
    using db by (simp add: set_exposures_def d3 d2_def d1_def)
  show thesis using 1 2 3 4 that [of _ _ m3] m1 db
    by (auto simp: update_writes_def d3 d2_def d1_def m3_def)
qed

theorem routes_avoid_machines_witness:
  "\<exists>s n. reachable (control_start []) (control_step demo_crypto demo_sha) s \<and> n \<in> set (list_nodes [] (ct_db s)) \<and> ten_net \<in> set (sn_advertised n) \<and>
     \<not> contains ten_net (sn_ipv4 n) \<and> \<not> contains ten_net (sn_ipv6 n)"
proof -
  let ?reach = "reachable (control_start []) (control_step demo_crypto demo_sha)"
  obtain s n m where s: "?reach s" "db_users (ct_db s) = db_users one_user" "db_nodes (ct_db s) = [n, m]" "db_routes (ct_db s) = []"
    "db_exposures (ct_db s) = []" "nr_id n = 1" "nr_id m = 2" "nr_user n = 1" "nr_user m = 1" "nr_node_key n = []"
    "nr_token_hash n = demo_sha ''wsnode-x''" "nr_token_hash m = demo_sha ''wsnode-y''" "\<not> nr_signed_auth m"
    by (rule two_machines) blast
  have tok: "demo_sha ''wsnode-x'' \<noteq> demo_sha ''wsnode-y''" by (simp add: demo_sha_def)
  let ?d = "update_row 2 (\<lambda>n. n\<lparr>nr_last_seen := unix 0\<rparr>) (ct_db s)"
  obtain sm where sm: "node_where 0 (\<lambda>n. nr_token_hash n = demo_sha ''wsnode-y'') (ct_db s) = Inr (sm, ?d)" "sn_id sm = 2" "\<not> sn_signed_auth sm"
    using lookup_row [of "\<lambda>n. nr_token_hash n = demo_sha ''wsnode-y''" "ct_db s" m 0] s tok by auto
  have auth: "authenticate demo_crypto demo_sha 0 (bearer @ ''wsnode-y'') [] s = (Inr sm, s\<lparr>ct_db := ?d\<rparr>)"
    using sm by (simp add: authenticate_def node_for_def node_by_token_def bearer_texts)
  let ?s1 = "s\<lparr>ct_db := ?d\<rparr>"
  obtain x where x: "db_ipv6 (ct_db s) = Some (Prefix (IPv6 x []) 48)"
    using server.always [OF s(1)] by (auto simp: control_inv_def store_inv_def)
  obtain s2 m' c where w: "update_writes 0 2 demo_update [ten_net] [] ?s1 = (Inr c, s2)"
    "db_routes (ct_db s2) = [\<lparr>rt_node = 2, rt_prefix = ten_net, rt_advertised = True, rt_approved = False\<rparr>]"
    "db_users (ct_db s2) = db_users one_user" "db_nodes (ct_db s2) = [n, m']" "nr_id m' = 2" "nr_user m' = 1"
    by (rule demo_writes [of ?s1 n "m\<lparr>nr_last_seen := unix 0\<rparr>"]) (use s in \<open>auto simp: update_row_def\<close>)
  let ?s3 = "snd (update_answer (Inr c, s2))"
  have db3: "ct_db ?s3 = ct_db s2" by (simp add: update_answer_def)
  have "ipv6_prefix [] ?d = (Prefix (IPv6 x []) 48, ?d)" using x by (simp add: ipv6_prefix_def update_row_def)
  then have "update_node demo_crypto demo_sha 0 [] (bearer @ ''wsnode-y'') [] demo_update s = update_answer (Inr c, s2)"
    using auth w(1) sm(2) demo_route [of x] demo_update_key
    by (simp add: update_node_def demo_update_def parse_exposures_def Let_def)
  then have r3: "?reach ?s3" using reachable_step [OF s(1) ctl_update] by (metis prod.collapse)
  have "\<exists>k \<in> set (list_nodes [] (ct_db s2)). ten_net \<in> set (sn_advertised k)"
    using s w by (simp add: list_nodes_def Node_Store.joined_def List.map_filter_simps one_user_facts attach_lock_signature_def attach_routes_def
        list_routes_def node_name_of_def scan_node_def Let_def)
  then obtain k where k: "k \<in> set (list_nodes [] (ct_db ?s3))" "ten_net \<in> set (sn_advertised k)" by (auto simp: db3)
  have "pfx_bits ten_net > 0" by (simp add: ten_net_def)
  then show ?thesis using routes_avoid_machines [OF r3 k(1) k(1), of ten_net] k r3 by blast
qed

text \<open>A browser login.\<close>

definition login_state :: control where
  "login_state = demo_control\<lparr>ct_db := one_user, ct_pending := [(''id'', 0)], ct_alloc := 1,
     ct_logins := (\<lambda>_. \<lparr>pd_params = ann_params ''mk'', pd_created = 0, pd_result = None, pd_done = False\<rparr>)\<rparr>"

definition login_params :: register_params where
  "login_params = (ann_params ''mk'')\<lparr>rp_limit := Some (device_limit (current_policy login_state))\<rparr>"

lemma login_check: "complete_check 0 ''id'' login_state = Proceed 0 login_params"
  by (simp add: complete_check_def login_state_def login_params_def time_sub_def pending_ttl_def current_policy_def)

lemma login_registers:
  obtains n db where "register_node_for_user demo_sha 0 [] ''x'' 1 login_params (ct_db login_state) = Inr (n, ''wsnode-x'', db)"
    "db_users db = db_users one_user" "db_ipv6 db = db_ipv6 one_user"
proof -
  have inv: "store_inv one_user" using server.always [OF demo_user_reached] by (simp add: control_inv_def)
  have lim: "over_limit login_params ''ann'' 1 one_user = None"
    by (simp add: over_limit_def login_params_def current_policy_def login_state_def demo_control_def new_service_def device_limit_def allow_all_def)
  have mk: "rp_machine_key login_params = ''mk''" by (simp add: login_params_def ann_params_def)
  obtain n where "register_node_for_user demo_sha 0 [] ''x'' 1 login_params one_user =
      Inr (n, ''wsnode-'' @ ''x'', one_user\<lparr>db_nodes := db_nodes one_user @ [n], db_next_node := db_next_node one_user + 1\<rparr>)"
    by (rule ann_registers [OF inv refl, of "''mk''" "''x''" login_params]) (simp_all add: one_user_facts max_id_def word_less_nat_alt lim mk)
  moreover have "ct_db login_state = one_user" by (simp add: login_state_def)
  ultimately show thesis
    by (intro that [of n "one_user\<lparr>db_nodes := db_nodes one_user @ [n], db_next_node := db_next_node one_user + 1\<rparr>"]) simp_all
qed

theorem login_completes_witness:
  "\<exists>n s'. complete_registration demo_sha 0 [] ''x'' ''id'' 1 login_state = (Some (Completed (Inr n)), s') \<and>
     fst (wait_registration ''id'' s') = Inr (n, ''wsnode-x'')"
proof -
  obtain n db where r: "register_node_for_user demo_sha 0 [] ''x'' 1 login_params (ct_db login_state) = Inr (n, ''wsnode-x'', db)"
    by (rule login_registers)
  show ?thesis using login_completes [OF login_check r] by blast
qed

theorem complete_race_witness:
  "\<exists>s1 s2. complete_finish demo_sha 0 [] ''y'' 0 1 login_params s1 = (CloseOfClosedChannel, s2) \<and>
     fst (wait_registration ''id'' s2) = Inl CodeAlreadyExists"
proof -
  obtain n db where r: "register_node_for_user demo_sha 0 [] ''x'' 1 login_params (ct_db login_state) = Inr (n, ''wsnode-x'', db)"
    and db: "db_users db = db_users one_user" "db_ipv6 db = db_ipv6 one_user"
    by (rule login_registers)
  have "store_inv one_user" using server.always [OF demo_user_reached] by (simp add: control_inv_def)
  then obtain p6 where p6: "db_ipv6 db = Some p6" using db(2) by (auto simp: store_inv_def)
  obtain r1 s1 where s1: "complete_finish demo_sha 0 [] ''x'' 0 1 login_params login_state = (r1, s1)" by fastforce
  have "1 \<in> us_id ` set (db_users db)" by (simp add: db(1) one_user_facts)
  from complete_race [OF login_check r p6 this s1] show ?thesis by blast
qed

end
