(* ===== verification/Spec2Isabelle.thy ===== *)
theory Spec2Isabelle
  imports Compile_Correct Packet_Filter Encodings Relay Mesh_Correct Pq_Correct Lock_Engine Store_Inv Audit_Log Cluster Snapshot_Sync
    Grants_Inv Control_Inv
begin

text \<open>
  WhaleScale is a mesh VPN.  A control server keeps users, machines and an access policy, compiles the
  policy into packet filters and peer lists, and streams every machine its network map.  Machines run
  WireGuard over paths they discover themselves (direct UDP, peer relays, or the server's relay), filter
  packets by the rules they were sent, agree on post-quantum pre-shared keys, and can refuse machines no
  trusted administrator signed (the network lock).  The theories follow that split.

  \<^bold>\<open>Conventions.\<close>  A Go struct is a \<open>record\<close>, a tagged message a \<open>datatype\<close>, a fixed-width integer a word of
  that width, a Go string a \<open>char list\<close> of bytes, a Go map an association list without duplicate keys
  whose order stands for the unspecified iteration order.  A handler is a function from its arguments
  and the state to the new state; what it sends is part of the state or of the result, in order.  Errors
  are values.  Handlers are taken one after the other; sequences of them are folds or inductive relations.  That is
  what the code's mutexes enforce for the filter, the relay, the key exchange and the proof verifier; for the handlers of the control
  server and for store calls outside a transaction it is an abstraction, given up where interleavings matter: \<^verbatim>\<open>CompleteRegistration\<close>,
  \<^verbatim>\<open>WaitRegistration\<close> and \<^verbatim>\<open>UpdateNodeInfo\<close> are split at their gaps.  Clock readings and random draws are
  arguments.  What is not in the repository (NaCl box, Ed25519, ML-KEM, HKDF, SHA-256, protobuf encoding)
  is a parameter; the laws a theorem needs of it are named predicates (\<open>box_laws\<close>, \<open>sign_laws\<close>, \<open>kem_laws\<close>,
  \<open>codec_laws\<close>) and every such theorem has a witness on a concrete instance.

  \<^bold>\<open>Parts and theories.\<close>  Paths are under \<^verbatim>\<open>src/internal\<close>; each theory opens with what it holds.

  \<^item> Shared: \<open>Prelude\<close> (bytes, big-endian integers, \<^verbatim>\<open>strings\<close>, \<^verbatim>\<open>strconv\<close>), \<open>Netip\<close> and \<open>Addr_Text\<close> (\<^verbatim>\<open>net/netip\<close>),
    \<open>Codec\<close> and \<open>Encodings\<close> (byte arrays, base64, hexadecimal, \<^verbatim>\<open>key\<close>), \<open>Transitions\<close> (reachable states and invariants).
  \<^item> Policy (\<^verbatim>\<open>policy/\<close>): \<open>Policy_Base\<close> (the language), \<open>Prefixes\<close>, \<open>Posture\<close>, \<open>Explain\<close>, \<open>Access\<close>, \<open>Bitset\<close> and \<open>Compile\<close>;
    \<open>Compile_Correct\<close> proves the compiler, with its indexes, memo tables and classes, equal to the pairwise meaning of the rules.
  \<^item> Packet filter (\<^verbatim>\<open>filter/\<close>): \<open>Packets\<close>, \<open>Flow_Log\<close>, \<open>Packet_Filter\<close>: what is delivered was allowed or asked for, replies
    arrive while the table has room, tables are bounded.
  \<^item> Paths (\<^verbatim>\<open>disco/\<close>, \<^verbatim>\<open>stun/\<close>, \<^verbatim>\<open>meshconn/\<close>, \<^verbatim>\<open>relay/\<close>): \<open>Disco\<close>, \<open>Stun\<close>, \<open>Relay\<close>, \<open>Mesh_State\<close> (peers and addresses), \<open>Mesh_Ops\<close>
    (handlers), \<open>Mesh_View\<close>, \<open>Mesh_Inv\<close> (every run) and \<open>Mesh_Correct\<close>: direct paths are proven, packets come from verified senders.
  \<^item> Keys (\<^verbatim>\<open>pq/\<close>, \<^verbatim>\<open>netlock/\<close>, \<^verbatim>\<open>engine/lock.go\<close>, \<^verbatim>\<open>nodeauth/\<close>): \<open>Pq\<close>, \<open>Pq_Correct\<close> (over any network keys belong to one exchange, an exchange can
    always be completed, and a replay that splits the keys), \<open>Net_Lock\<close> and
    \<open>Lock_Engine\<close> (a lock survives a dishonest server), \<open>Node_Auth\<close> (a proof is accepted once and for one request).
  \<^item> Store (\<^verbatim>\<open>store/\<close>): \<open>Node_Names\<close>, \<open>Node_Store\<close> (tables as lists of rows, operations as functions, a transaction one step),
    \<open>Store_Inv\<close> (the invariant of every reachable database), \<open>Audit_Log\<close> (the hash chain), \<open>Cluster\<close> (leases and presence).
  \<^item> Control (\<^verbatim>\<open>control/\<close>, \<^verbatim>\<open>netmap/\<close>): \<open>Net_Map\<close> (the client's map), \<open>Snapshot\<close>, \<open>Policy_Key\<close> (what the key of the compiled policy
    tells apart) and \<open>Snapshot_Sync\<close> (streams of updates refine sending the
    whole map), \<open>Grants\<close> and \<open>Grants_Inv\<close> (temporary access).
  \<^item> Calls (\<^verbatim>\<open>control/service.go\<close>): \<open>Control\<close> (authentication, registration, updates, logout) and \<open>Control_Inv\<close>, where they meet the store,
    the proofs and the snapshots: every reachable state of the server gives the compiler and the streams what they rely on.

  \<^bold>\<open>How they meet.\<close>  \<open>Compile\<close> works on the machines \<open>Snapshot\<close> reads from \<open>Node_Store\<close>; \<open>Snapshot_Sync\<close> ties the server's streams
  to \<open>Net_Map\<close> on the client, whose result \<open>Lock_Engine\<close> filters; \<open>Packet_Filter\<close> enforces the rules \<open>Compile\<close> made; \<open>Grants\<close> adds
  rules to the policy \<open>Compile\<close> is given; \<open>Pq\<close> runs over the messages of \<open>Disco\<close> that \<open>Mesh_Ops\<close> carries.

  \<^bold>\<open>Interfaces.\<close>  The locale \<open>node_set\<close> is what the compiler relies on of sets of machines, interpreted on the bit sets of
  \<open>Bitset\<close>; \<open>message_format\<close> (\<open>Codec\<close>) is the contract of a wire format, interpreted for path discovery and STUN; \<open>invariant\<close>
  (\<open>Transitions\<close>) is the contract of an invariant with its step relation, interpreted for the verifier's memory, access requests and the server.

  \<^bold>\<open>Bounds and fuel.\<close>  Loops over data are recursive functions with termination proofs.  The loop of \<^verbatim>\<open>UserForOIDC\<close> tries 100
  names as the code does; \<^verbatim>\<open>allocateIPv4\<close> ends at the end of its pool; \<^verbatim>\<open>uniqueNodeName\<close> searches as many names as there are machines,
  which is enough (\<open>unique_node_name_ends\<close>).  Words keep their width; database identifiers end at the largest \<^verbatim>\<open>int64\<close>.

  \<^bold>\<open>Not modelled.\<close>  The programs under \<^verbatim>\<open>cmd/\<close> and the engine that wires WireGuard, the TUN device, routes and DNS to the operating system
  (input, output and third-party packages); HTTP, OIDC and console handlers, the administrator's API beyond the calls above, passwords
  and API keys; SQL itself (queries are their meaning on tables) and migrations; generated protobuf and Connect code beyond the
  messages named; SSH sessions and recordings, the public gateway, metrics, logs and the web console.  A failing
  database or network is an error value where the code branches on it, and otherwise left out.
\<close>

end
